(* ===== verification/Prelude.thy ===== *)
theory Prelude
  imports Main "HOL-Library.Word" "HOL-Library.Sublist"
begin

text \<open>
  The prelude of the development: the machine integers of the Rust sources as words, the
  result of a computation that may panic, the three-way comparison result
  \<open>core::cmp::Ordering\<close>, and the interface \<open>total_cmp\<close> that every comparison function of
  the program is shown to meet. The release profile of \<open>Cargo.toml\<close> is modelled: integer
  arithmetic wraps, \<open>debug_assert!\<close> is absent, a panic aborts the process.
\<close>

unbundle bit_operations_syntax

subsection \<open>Machine integers and byte strings\<close>

type_synonym u8 = "8 word"
type_synonym u32 = "32 word"
type_synonym u64 = "64 word"
type_synonym bytes = "u8 list"

text \<open>Byte-string literals \<open>b"..."\<close> of the sources.\<close>

definition bs :: "string \<Rightarrow> bytes" where
  "bs s = map of_char s"

definition u64_max :: u64 where
  "u64_max = 18446744073709551615"

text \<open>\<open>u64::checked_add(1)\<close>.\<close>

definition checked_succ_u64 :: "u64 \<Rightarrow> u64 option" where
  "checked_succ_u64 w = (if w = u64_max then None else Some (w + 1))"

named_theorems model_defs \<open>unfolding equations of the model's operations\<close>

lemma bs_Nil [simp]: "bs [] = []"
  by (simp add: bs_def)

lemma bs_Cons [simp]: "bs (c # cs) = of_char c # bs cs"
  by (simp add: bs_def)

lemma u64_max_unat: "unat u64_max = 2 ^ 64 - 1"
  by (simp add: u64_max_def)

lemma u64_max_top [simp]: "w \<le> u64_max"
proof -
  have "unat w < 2 ^ 64" using unsigned_less [of w] by simp
  then show ?thesis by (simp add: word_le_nat_alt u64_max_unat)
qed

lemma checked_succ_Some:
  "checked_succ_u64 w = Some v \<longleftrightarrow> w \<noteq> u64_max \<and> v = w + 1"
  by (auto simp: checked_succ_u64_def)

lemma unat_succ_u64: "w \<noteq> u64_max \<Longrightarrow> unat (w + 1) = Suc (unat w)"
proof -
  assume "w \<noteq> u64_max"
  moreover have "w + 1 = 0 \<longleftrightarrow> w = - 1" by (metis add.commute add_eq_0_iff)
  moreover have "(- 1 :: u64) = u64_max" by (simp add: u64_max_def)
  ultimately have "1 + w \<noteq> 0" by (simp add: add.commute)
  then show ?thesis by (metis add.commute unatSuc)
qed

lemma less_succ_u64: "w \<noteq> u64_max \<Longrightarrow> v < w + 1 \<longleftrightarrow> v \<le> w"
  by (simp add: word_less_nat_alt word_le_nat_alt unat_succ_u64 less_Suc_eq_le)

subsection \<open>Lists updated at an index\<close>

lemma length_filter_update:
  "i < length xs \<Longrightarrow>
   length (filter P (xs[i := x])) + (if P (xs ! i) then 1 else 0) = length (filter P xs) + (if P x then 1 else 0)"
proof (induction xs arbitrary: i)
  case (Cons a xs)
  then show ?case using Cons.IH [of "i - 1"] by (cases i) auto
qed simp

lemma list_ex_update: "list_ex P (xs[i := x]) \<Longrightarrow> list_ex P xs \<or> P x"
  using set_update_subset_insert [of xs i x] by (auto simp: list_ex_iff)

lemma list_all_update: "list_all P xs \<Longrightarrow> P x \<Longrightarrow> list_all P (xs[i := x])"
  using set_update_subset_insert [of xs i x] by (auto simp: list_all_iff)

subsection \<open>Results of code that may panic\<close>

text \<open>
  A Rust panic aborts the process: it is the value \<open>Panic\<close>, and nothing is computed
  after it. Every other outcome is \<open>Ret\<close>.
\<close>

datatype 'a outcome = Panic | Ret 'a

fun bind_outcome :: "'a outcome \<Rightarrow> ('a \<Rightarrow> 'b outcome) \<Rightarrow> 'b outcome" where
  "bind_outcome Panic f = Panic"
| "bind_outcome (Ret x) f = f x"

lemma bind_outcome_Ret [simp]: "bind_outcome r Ret = r"
  by (cases r) simp_all

lemma bind_outcome_eq_Ret:
  "bind_outcome r f = Ret y \<longleftrightarrow> (\<exists>x. r = Ret x \<and> f x = Ret y)"
  by (cases r) simp_all

lemma bind_outcome_total:
  "\<exists>x. r = Ret x \<Longrightarrow> (\<And>x. r = Ret x \<Longrightarrow> \<exists>y. f x = Ret y) \<Longrightarrow> \<exists>y. bind_outcome r f = Ret y"
  by auto

lemma bind_outcome_cong [fundef_cong]:
  "r = r' \<Longrightarrow> (\<And>x. r' = Ret x \<Longrightarrow> f x = f' x) \<Longrightarrow> bind_outcome r f = bind_outcome r' f'"
  by (cases r') simp_all

subsection \<open>Slices of bytes\<close>

text \<open>\<open>buf[i] = v\<close>, \<open>&b[i..j]\<close>, and \<open>buf[pos..pos + src.len()].copy_from_slice(src)\<close>.\<close>

definition write_at :: "bytes \<Rightarrow> nat \<Rightarrow> u8 \<Rightarrow> bytes outcome" where
  "write_at dest i v = (if i < length dest then Ret (dest[i := v]) else Panic)"

definition slice_range :: "bytes \<Rightarrow> nat \<Rightarrow> nat \<Rightarrow> bytes outcome" where
  "slice_range b i j = (if i \<le> j \<and> j \<le> length b then Ret (take (j - i) (drop i b)) else Panic)"

definition copy_at :: "bytes \<Rightarrow> nat \<Rightarrow> bytes \<Rightarrow> bytes outcome" where
  "copy_at buf pos src =
     (if pos + length src \<le> length buf then Ret (take pos buf @ src @ drop (pos + length src) buf)
      else Panic)"

lemma write_at_copy: "write_at buf i c = copy_at buf i [c]"
  by (simp add: write_at_def copy_at_def Suc_le_eq upd_conv_take_nth_drop)

lemma copy_at_end:
  "copy_at (out @ rest) (length out) xs =
     (if length xs \<le> length rest then Ret (out @ xs @ drop (length xs) rest) else Panic)"
  by (simp add: copy_at_def)

lemma write_at_end:
  "write_at (out @ rest) (length out) c = (if rest \<noteq> [] then Ret (out @ c # tl rest) else Panic)"
  by (cases rest) (simp_all add: write_at_def)

subsection \<open>Three-way comparison\<close>

datatype ordering = Less | Equal | Greater

fun reverse_ord :: "ordering \<Rightarrow> ordering" where
  "reverse_ord Less = Greater"
| "reverse_ord Equal = Equal"
| "reverse_ord Greater = Less"

fun then_ord :: "ordering \<Rightarrow> ordering \<Rightarrow> ordering" where
  "then_ord Equal r = r"
| "then_ord o1 r = o1"

lemma reverse_ord_reverse [simp]: "reverse_ord (reverse_ord r) = r"
  by (cases r) simp_all

lemma reverse_ord_iffs [simp]:
  "reverse_ord r = Equal \<longleftrightarrow> r = Equal"
  "reverse_ord r = Less \<longleftrightarrow> r = Greater"
  "reverse_ord r = Greater \<longleftrightarrow> r = Less"
  by (cases r, simp_all)+

lemma reverse_ord_inject [simp]: "reverse_ord r = reverse_ord s \<longleftrightarrow> r = s"
  by (cases r; cases s) simp_all

lemma reverse_then_ord [simp]:
  "reverse_ord (then_ord r s) = then_ord (reverse_ord r) (reverse_ord s)"
  by (cases r) simp_all

lemma then_ord_Equal_iff [simp]: "then_ord r s = Equal \<longleftrightarrow> r = Equal \<and> s = Equal"
  by (cases r) simp_all

lemma then_ord_not_Equal: "r \<noteq> Equal \<Longrightarrow> then_ord r s = r"
  by (cases r) simp_all

text \<open>\<open>Ord::cmp\<close> on a linearly ordered type.\<close>

definition cmp_lin :: "'a::linorder \<Rightarrow> 'a \<Rightarrow> ordering" where
  "cmp_lin x y = (if x < y then Less else if y < x then Greater else Equal)"

lemma cmp_lin_iffs [simp]:
  "cmp_lin x y = Less \<longleftrightarrow> x < y"
  "cmp_lin x y = Greater \<longleftrightarrow> y < x"
  "cmp_lin x y = Equal \<longleftrightarrow> x = y"
  by (auto simp: cmp_lin_def)

lemma cmp_lin_refl [simp]: "cmp_lin x x = Equal"
  by simp

text \<open>
  The contract of a three-way comparison: a total preorder. \<open>Equal\<close> is an equivalence,
  not identity: two handles may denote the same string.
\<close>

locale total_cmp =
  fixes cmp :: "'a \<Rightarrow> 'a \<Rightarrow> ordering"
    and ok :: "'a \<Rightarrow> bool"
  assumes cmp_refl: "ok x \<Longrightarrow> cmp x x = Equal"
    and cmp_rev: "ok x \<Longrightarrow> ok y \<Longrightarrow> cmp y x = reverse_ord (cmp x y)"
    and cmp_trans: "ok x \<Longrightarrow> ok y \<Longrightarrow> ok z \<Longrightarrow>
      cmp x y \<noteq> Greater \<Longrightarrow> cmp y z \<noteq> Greater \<Longrightarrow> cmp x z \<noteq> Greater"
begin

lemma cmp_le_iff: "ok x \<Longrightarrow> ok y \<Longrightarrow> cmp y x \<noteq> Less \<longleftrightarrow> cmp x y \<noteq> Greater"
  by (simp add: cmp_rev [of x y])

lemma cmp_less_trans:
  assumes "ok x" "ok y" "ok z" and "cmp x y = Less" and "cmp y z \<noteq> Greater"
  shows "cmp x z = Less"
proof (rule ccontr)
  assume "cmp x z \<noteq> Less"
  then have "cmp z x \<noteq> Greater" using assms(1,3) by (simp add: cmp_rev [of x z])
  with assms have "cmp y x \<noteq> Greater" by (intro cmp_trans [of y z x])
  then show False using assms by (simp add: cmp_rev [of x y])
qed

lemma cmp_trans_less:
  assumes "ok x" "ok y" "ok z" and "cmp x y \<noteq> Greater" and "cmp y z = Less"
  shows "cmp x z = Less"
proof (rule ccontr)
  assume "cmp x z \<noteq> Less"
  then have "cmp z x \<noteq> Greater" using assms(1,3) by (simp add: cmp_rev [of x z])
  with assms have "cmp z y \<noteq> Greater" by (intro cmp_trans [of z x y])
  then show False using assms by (simp add: cmp_rev [of y z])
qed

lemma cmp_equal_subst:
  assumes "ok x" "ok y" "ok z" and "cmp x y = Equal"
  shows "cmp x z = cmp y z"
proof (cases "cmp y z")
  case Less
  then show ?thesis using assms by (simp add: cmp_trans_less [of x y z])
next
  case Greater
  then have "cmp z y = Less" using assms by (simp add: cmp_rev [of y z])
  moreover have "cmp y x \<noteq> Greater" using assms by (simp add: cmp_rev [of x y])
  ultimately have "cmp z x = Less" using assms by (intro cmp_less_trans [of z y x])
  then show ?thesis using assms Greater by (simp add: cmp_rev [of z x])
next
  case Equal
  have "cmp x z \<noteq> Greater" using assms Equal by (intro cmp_trans [of x y z]) simp_all
  moreover have "cmp z x \<noteq> Greater"
    using assms Equal cmp_rev [of x y] cmp_rev [of y z] by (intro cmp_trans [of z y x]) simp_all
  then have "cmp x z \<noteq> Less" using assms by (simp add: cmp_rev [of z x])
  ultimately show ?thesis using Equal by (cases "cmp x z") simp_all
qed

end

text \<open>A comparison computed from a key in a linear order meets the contract.\<close>

lemma total_cmp_key:
  assumes "\<And>x y. ok x \<Longrightarrow> ok y \<Longrightarrow> cmp x y = cmp_lin (key x) (key y)"
  shows "total_cmp cmp ok"
  by unfold_locales (auto simp: assms cmp_lin_def split: if_splits)

interpretation lin_cmp: total_cmp "cmp_lin :: 'a::linorder \<Rightarrow> 'a \<Rightarrow> ordering" "\<lambda>_. True"
  by (rule total_cmp_key [where key = "\<lambda>x. x"]) simp

subsection \<open>Building comparisons\<close>

text \<open>Lexicographic comparison of lists, sequencing, and comparison of images keep the contract.\<close>



fun lex_cmp :: "('a \<Rightarrow> 'a \<Rightarrow> ordering) \<Rightarrow> 'a list \<Rightarrow> 'a list \<Rightarrow> ordering" where
  "lex_cmp cmp [] [] = Equal"
| "lex_cmp cmp [] (_ # _) = Less"
| "lex_cmp cmp (_ # _) [] = Greater"
| "lex_cmp cmp (x # xs) (y # ys) = then_ord (cmp x y) (lex_cmp cmp xs ys)"

lemma total_cmp_lex:
  assumes "total_cmp cmp ok"
  shows "total_cmp (lex_cmp cmp) (list_all ok)"
proof -
  note refl = total_cmp.cmp_refl [OF assms] and rev = total_cmp.cmp_rev [OF assms]
    and lt = total_cmp.cmp_less_trans [OF assms] and tl = total_cmp.cmp_trans_less [OF assms]
    and sub = total_cmp.cmp_equal_subst [OF assms] and trans = total_cmp.cmp_trans [OF assms]
  show ?thesis
  proof
    show "list_all ok xs \<Longrightarrow> lex_cmp cmp xs xs = Equal" for xs
      by (induction xs) (simp_all add: refl)
    show "list_all ok xs \<Longrightarrow> list_all ok ys \<Longrightarrow> lex_cmp cmp ys xs = reverse_ord (lex_cmp cmp xs ys)" for xs ys
    proof (induction xs arbitrary: ys)
      case Nil
      then show ?case by (cases ys) simp_all
    next
      case (Cons x xs)
      then show ?case using rev [of x] by (cases ys) simp_all
    qed
    show "lex_cmp cmp xs zs \<noteq> Greater"
      if "list_all ok xs" "list_all ok ys" "list_all ok zs"
        "lex_cmp cmp xs ys \<noteq> Greater" "lex_cmp cmp ys zs \<noteq> Greater" for xs ys zs
      using that
    proof (induction xs arbitrary: ys zs)
      case Nil
      then show ?case by (cases zs) simp_all
    next
      case (Cons x xs)
      then obtain y ys' where ys: "ys = y # ys'" by (cases ys) simp_all
      then obtain z zs' where zs: "zs = z # zs'" using Cons.prems by (cases zs) simp_all
      have d: "ok x" "ok y" "ok z" using Cons.prems ys zs by simp_all
      show ?case
      proof (cases "cmp x y")
        case Less
        have "cmp y z \<noteq> Greater" using Cons.prems(5) ys zs by (cases "cmp y z") simp_all
        then have "cmp x z = Less" using lt [OF d Less] by blast
        then show ?thesis using zs by simp
      next
        case Equal
        then have e: "cmp x z = cmp y z" by (rule sub [OF d])
        show ?thesis
        proof (cases "cmp y z")
          case Equal': Equal
          then have "lex_cmp cmp xs zs' \<noteq> Greater"
            using Cons.IH [of ys' zs'] Cons.prems ys zs Equal by simp
          then show ?thesis using e Equal' zs by simp
        qed (use e zs Cons.prems(5) ys in simp_all)
      next
        case Greater
        then show ?thesis using Cons.prems(4) ys by simp
      qed
    qed
  qed
qed

lemma total_cmp_then:
  assumes "total_cmp c ok" and "total_cmp d ok"
  shows "total_cmp (\<lambda>x y. then_ord (c x y) (d x y)) ok"
proof -
  note C = total_cmp.cmp_refl [OF assms(1)] total_cmp.cmp_rev [OF assms(1)]
  note D = total_cmp.cmp_refl [OF assms(2)] total_cmp.cmp_rev [OF assms(2)]
  show ?thesis
  proof
    show "then_ord (c x x) (d x x) = Equal" if "ok x" for x using C(1) [OF that] D(1) [OF that] by simp
    show "then_ord (c y x) (d y x) = reverse_ord (then_ord (c x y) (d x y))" if "ok x" "ok y" for x y
      using C(2) [OF that] D(2) [OF that] by simp
    show "then_ord (c x z) (d x z) \<noteq> Greater"
      if o': "ok x" "ok y" "ok z" and xy: "then_ord (c x y) (d x y) \<noteq> Greater"
        and yz: "then_ord (c y z) (d y z) \<noteq> Greater" for x y z
    proof (cases "c x y")
      case Less
      have "c y z \<noteq> Greater" using yz by (cases "c y z") simp_all
      then show ?thesis using total_cmp.cmp_less_trans [OF assms(1) o' Less] by simp
    next
      case Equal
      then have e: "c x z = c y z" by (rule total_cmp.cmp_equal_subst [OF assms(1) o'])
      then show ?thesis
        using xy yz Equal total_cmp.cmp_trans [OF assms(2) o'] by (cases "c y z") simp_all
    next
      case Greater
      then show ?thesis using xy by simp
    qed
  qed
qed

lemma total_cmp_image:
  assumes "total_cmp c ok"
  shows "total_cmp (\<lambda>x y. c (f x) (f y)) (\<lambda>x. ok (f x))"
  by unfold_locales
    (rule total_cmp.cmp_refl [OF assms] total_cmp.cmp_rev [OF assms] total_cmp.cmp_trans [OF assms]; assumption)+

lemma total_cmp_weaken:
  assumes "total_cmp c ok" and "\<And>x. ok' x \<Longrightarrow> ok x"
    and "\<And>x y. ok' x \<Longrightarrow> ok' y \<Longrightarrow> c' x y = c x y"
  shows "total_cmp c' ok'"
proof
  show "c' x x = Equal" if "ok' x" for x
    using assms(2) [OF that] assms(3) [OF that that] total_cmp.cmp_refl [OF assms(1)] by simp
  show "c' y x = reverse_ord (c' x y)" if "ok' x" "ok' y" for x y
    unfolding assms(3) [OF that] assms(3) [OF that(2,1)]
    by (rule total_cmp.cmp_rev [OF assms(1) assms(2) [OF that(1)] assms(2) [OF that(2)]])
  show "c' x z \<noteq> Greater" if "ok' x" "ok' y" "ok' z" "c' x y \<noteq> Greater" "c' y z \<noteq> Greater" for x y z
    using assms(2) [OF that(1)] assms(2) [OF that(2)] assms(2) [OF that(3)] that(4,5)
      assms(3) [OF that(1,2)] assms(3) [OF that(2,3)] assms(3) [OF that(1,3)]
      total_cmp.cmp_trans [OF assms(1), of x y z] by simp
qed

lemma then_ord_assoc: "then_ord (then_ord a b) c = then_ord a (then_ord b c)"
  by (cases a) simp_all

end
