(* ===== verification/Bytes.thy ===== *)
theory Bytes
  imports Prelude
begin

text \<open>
  The byte-string helpers of \<open>src/src/bun_core\<close>, \<open>src/src/bun_alloc\<close> and
  \<open>src/src/highway\<close> that the other components call: integer parsing, splitting at a
  delimiter byte, lexicographic order, trimming. \<open>highway::index_of_char\<close> has a scalar
  branch and a SIMD branch for the same result; the scalar branch is modelled.
\<close>

subsection \<open>Character classes (\<open>u8::is_ascii_*\<close>)\<close>

definition is_ascii_digit :: "u8 \<Rightarrow> bool" where
  [model_defs]: "is_ascii_digit c \<longleftrightarrow> 48 \<le> c \<and> c \<le> 57"

definition is_ascii_alphabetic :: "u8 \<Rightarrow> bool" where
  [model_defs]: "is_ascii_alphabetic c \<longleftrightarrow> 65 \<le> c \<and> c \<le> 90 \<or> 97 \<le> c \<and> c \<le> 122"

definition is_ascii_alphanumeric :: "u8 \<Rightarrow> bool" where
  [model_defs]: "is_ascii_alphanumeric c \<longleftrightarrow> is_ascii_alphabetic c \<or> is_ascii_digit c"

text \<open>\<open>u8::is_ascii_whitespace\<close> has no vertical tab, unlike \<open>WHITESPACE_CHARS\<close>.\<close>

definition is_ascii_whitespace :: "u8 \<Rightarrow> bool" where
  [model_defs]: "is_ascii_whitespace c \<longleftrightarrow> c \<in> {32, 9, 10, 12, 13}"

definition WHITESPACE_CHARS :: bytes where
  "WHITESPACE_CHARS = [32, 9, 10, 13, 11, 12]"

subsection \<open>Integer parsing (\<open>bun_core::fmt\<close>)\<close>

datatype parse_int_error = InvalidCharacter | Overflow

definition digit_value :: "u8 \<Rightarrow> nat option" where
  "digit_value c =
     (if 48 \<le> c \<and> c \<le> 57 then Some (unat c - 48)
      else if 97 \<le> c \<and> c \<le> 122 then Some (unat c - 97 + 10)
      else if 65 \<le> c \<and> c \<le> 90 then Some (unat c - 65 + 10)
      else None)"

text \<open>The loop of \<open>parse_with_sign\<close>, \<open>acc\<close> an \<open>u128\<close> with checked arithmetic.\<close>

fun parse_digits :: "nat \<Rightarrow> nat \<Rightarrow> bytes \<Rightarrow> parse_int_error + nat" where
  "parse_digits radix acc [] = Inr acc"
| "parse_digits radix acc (c # cs) =
     (if c = 95 then parse_digits radix acc cs
      else case digit_value c of
        None \<Rightarrow> Inl InvalidCharacter
      | Some d \<Rightarrow>
          if radix \<le> d then Inl InvalidCharacter
          else if 2 ^ 128 \<le> acc * radix + d then Inl Overflow
          else parse_digits radix (acc * radix + d) cs)"

definition parse_with_sign :: "bytes \<Rightarrow> nat \<Rightarrow> parse_int_error + nat" where
  "parse_with_sign digits radix =
     (if digits = [] \<or> hd digits = 95 \<or> last digits = 95 then Inl InvalidCharacter
      else parse_digits radix 0 digits)"

definition auto_radix :: "bytes \<Rightarrow> nat \<Rightarrow> bytes \<times> nat" where
  "auto_radix digits radix =
     (if radix \<noteq> 0 then (digits, radix)
      else if 2 \<le> length digits \<and> digits ! 0 = 48 then
        (if digits ! 1 = 120 \<or> digits ! 1 = 88 then (drop 2 digits, 16)
         else if digits ! 1 = 111 \<or> digits ! 1 = 79 then (drop 2 digits, 8)
         else if digits ! 1 = 98 \<or> digits ! 1 = 66 then (drop 2 digits, 2)
         else (digits, 10))
      else (digits, 10))"

text \<open>\<open>parse_unsigned::<T>\<close> for an unsigned \<open>T\<close> of \<open>w\<close> bits; \<open>T::try_from\<close> fails above its maximum.\<close>

definition parse_unsigned :: "nat \<Rightarrow> bytes \<Rightarrow> nat \<Rightarrow> parse_int_error + nat" where
  "parse_unsigned w buf radix =
     (case auto_radix buf radix of (digits, r) \<Rightarrow>
        (case parse_with_sign digits r of
           Inl e \<Rightarrow> Inl e
         | Inr acc \<Rightarrow> if acc < 2 ^ w then Inr acc else Inl Overflow))"

subsection \<open>Searching and splitting\<close>

fun index_of_char :: "bytes \<Rightarrow> u8 \<Rightarrow> nat option" where
  "index_of_char [] c = None"
| "index_of_char (b # s) c = (if b = c then Some 0 else map_option Suc (index_of_char s c))"

text \<open>\<open>SplitIterator\<close> with a delimiter of one byte (\<open>index_of\<close> then is \<open>index_of_char\<close>).\<close>

record split_iterator =
  si_buffer :: bytes
  si_index :: "nat option"
  si_delimiter :: u8

definition split :: "bytes \<Rightarrow> u8 \<Rightarrow> split_iterator" where
  "split s d = \<lparr>si_buffer = s, si_index = Some 0, si_delimiter = d\<rparr>"

definition split_next :: "split_iterator \<Rightarrow> bytes option \<times> split_iterator" where
  "split_next it =
     (case si_index it of
        None \<Rightarrow> (None, it)
      | Some start \<Rightarrow>
          (case index_of_char (drop start (si_buffer it)) (si_delimiter it) of
             Some k \<Rightarrow> (Some (take k (drop start (si_buffer it))),
                        it\<lparr>si_index := Some (k + start + 1)\<rparr>)
           | None \<Rightarrow> (Some (drop start (si_buffer it)), it\<lparr>si_index := None\<rparr>)))"

subsection \<open>Order, trimming, leading whitespace\<close>

text \<open>\<open>strings::order\<close>, the lexicographic \<open><[u8] as Ord>::cmp\<close>.\<close>

fun bytes_order :: "bytes \<Rightarrow> bytes \<Rightarrow> ordering" where
  "bytes_order [] [] = Equal"
| "bytes_order [] (_ # _) = Less"
| "bytes_order (_ # _) [] = Greater"
| "bytes_order (x # xs) (y # ys) =
     (if x < y then Less else if y < x then Greater else bytes_order xs ys)"

fun trim_left :: "bytes \<Rightarrow> bytes \<Rightarrow> bytes" where
  "trim_left [] chars = []"
| "trim_left (c # cs) chars = (if c \<in> set chars then trim_left cs chars else c # cs)"

definition trim_right :: "bytes \<Rightarrow> bytes \<Rightarrow> bytes" where
  "trim_right s chars = rev (trim_left (rev s) chars)"

definition trim :: "bytes \<Rightarrow> bytes \<Rightarrow> bytes" where
  "trim s chars = trim_right (trim_left s chars) chars"

fun length_of_leading_whitespace_ascii :: "bytes \<Rightarrow> nat" where
  "length_of_leading_whitespace_ascii [] = 0"
| "length_of_leading_whitespace_ascii (c # cs) =
     (if c \<in> set WHITESPACE_CHARS then Suc (length_of_leading_whitespace_ascii cs) else 0)"

text \<open>Decimal \<open>Display\<close> of an unsigned integer.\<close>

definition digit_char :: "nat \<Rightarrow> u8" where
  "digit_char n = of_nat (48 + n)"

fun dec :: "nat \<Rightarrow> bytes" where
  "dec n = (if n < 10 then [digit_char n] else dec (n div 10) @ [digit_char (n mod 10)])"

declare dec.simps [simp del]

subsection \<open>Facts about the helpers\<close>

lemma digit_value_less_36: "digit_value c = Some d \<Longrightarrow> d < 36"
proof -
  assume a: "digit_value c = Some d"
  have "unat c < 256" using unsigned_less [of c] by simp
  with a show ?thesis
    by (auto simp: digit_value_def word_le_nat_alt split: if_splits)
qed

lemma digit_value_digit: "is_ascii_digit c \<Longrightarrow> digit_value c = Some (unat c - 48)"
  by (simp add: digit_value_def is_ascii_digit_def)

lemma digit_bounds: "is_ascii_digit c \<Longrightarrow> 48 \<le> unat c \<and> unat c \<le> 57"
  by (simp add: is_ascii_digit_def word_le_nat_alt)

lemma unat_digit_char: "n < 10 \<Longrightarrow> unat (digit_char n) = 48 + n"
proof -
  assume "n < 10"
  then have "48 + n < 2 ^ LENGTH(8)" by simp
  then show ?thesis unfolding digit_char_def by (simp add: unsigned_of_nat take_bit_nat_eq_self del: of_nat_add)
qed

lemma is_ascii_digit_char [simp]: "n < 10 \<Longrightarrow> is_ascii_digit (digit_char n)"
  by (simp add: is_ascii_digit_def word_le_nat_alt unat_digit_char)

lemma dec_nonempty [simp]: "dec n \<noteq> []"
  by (subst dec.simps) simp

lemma dec_digits: "\<forall>c \<in> set (dec n). is_ascii_digit c"
proof (induction n rule: dec.induct)
  case (1 n)
  have d: "n mod 10 < 10" by simp
  show ?case
  proof (cases "n < 10")
    case True
    then show ?thesis using is_ascii_digit_char [of n] by (subst dec.simps) simp
  next
    case False
    then show ?thesis using "1" is_ascii_digit_char [OF d] by (subst dec.simps) simp
  qed
qed

lemma is_ascii_digit_not_underscore: "is_ascii_digit c \<Longrightarrow> c \<noteq> 95"
  by (auto simp: is_ascii_digit_def)

lemma parse_digits_append:
  "parse_digits r acc (xs @ ys) =
     (case parse_digits r acc xs of Inl e \<Rightarrow> Inl e | Inr a \<Rightarrow> parse_digits r a ys)"
  by (induction r acc xs rule: parse_digits.induct) (auto split: option.splits)

lemma parse_digits_dec: "n < 2 ^ 128 \<Longrightarrow> parse_digits 10 0 (dec n) = Inr n"
proof (induction n rule: dec.induct)
  case (1 n)
  have step: "parse_digits 10 a [digit_char d] = Inr (a * 10 + d)"
    if "d < 10" and "a * 10 + d < 2 ^ 128" for a d
  proof -
    have "is_ascii_digit (digit_char d)" using that(1) by (rule is_ascii_digit_char)
    then have "digit_value (digit_char d) = Some d" "digit_char d \<noteq> 95"
      using that(1) by (simp_all add: digit_value_digit unat_digit_char is_ascii_digit_not_underscore)
    with that show ?thesis by simp
  qed
  show ?case
  proof (cases "n < 10")
    case True
    then show ?thesis using step [of n 0] "1.prems" by (subst dec.simps) simp
  next
    case False
    then have "parse_digits 10 0 (dec (n div 10)) = Inr (n div 10)"
      using "1" by simp
    then show ?thesis
      using False step [of "n mod 10" "n div 10"] "1.prems"
      by (subst dec.simps) (simp add: parse_digits_append)
  qed
qed

text \<open>Printing a number in decimal and parsing it back gives the number.\<close>

lemma parse_unsigned_dec:
  assumes "n < 2 ^ w" and "w \<le> 128"
  shows "parse_unsigned w (dec n) 10 = Inr n"
proof -
  have "(2::nat) ^ w \<le> 2 ^ 128" using assms(2) by (intro power_increasing) auto
  then have "n < 2 ^ 128" using assms(1) by simp
  moreover have "hd (dec n) \<noteq> 95" "last (dec n) \<noteq> 95"
    using dec_digits [of n] is_ascii_digit_not_underscore by (meson dec_nonempty hd_in_set last_in_set)+
  ultimately show ?thesis
    using assms(1) parse_digits_dec [of n]
    by (simp add: parse_unsigned_def auto_radix_def parse_with_sign_def)
qed

lemma parse_digits_bound:
  "parse_digits r acc xs = Inr n \<Longrightarrow> acc < 2 ^ 128 \<Longrightarrow> n < 2 ^ 128"
  by (induction r acc xs rule: parse_digits.induct)
     (auto split: option.splits if_splits)

lemma index_of_char_Some:
  "index_of_char s c = Some k \<longleftrightarrow> k < length s \<and> s ! k = c \<and> c \<notin> set (take k s)"
proof (induction s arbitrary: k)
  case (Cons b s)
  then show ?case by (cases k) auto
qed simp

lemma index_of_char_None: "index_of_char s c = None \<longleftrightarrow> c \<notin> set s"
  by (induction s) auto

lemma bytes_order_Equal [simp]: "bytes_order a b = Equal \<longleftrightarrow> a = b"
  by (induction a b rule: bytes_order.induct) auto

lemma bytes_order_rev: "bytes_order b a = reverse_ord (bytes_order a b)"
  by (induction a b rule: bytes_order.induct) auto

lemma bytes_order_trans:
  "bytes_order a b \<noteq> Greater \<Longrightarrow> bytes_order b c \<noteq> Greater \<Longrightarrow> bytes_order a c \<noteq> Greater"
proof (induction a b arbitrary: c rule: bytes_order.induct)
  case (4 x xs y ys)
  then show ?case by (cases c) (auto split: if_splits)
qed (auto elim: bytes_order.elims)

text \<open>\<open>strings::order\<close> meets the contract of a comparison.\<close>

interpretation bytes_cmp: total_cmp bytes_order "\<lambda>_. True"
proof unfold_locales
  fix x y :: bytes
  show "bytes_order y x = reverse_ord (bytes_order x y)" by (rule bytes_order_rev)
next
  fix x y z :: bytes
  assume "bytes_order x y \<noteq> Greater" and "bytes_order y z \<noteq> Greater"
  then show "bytes_order x z \<noteq> Greater" by (rule bytes_order_trans)
qed simp

lemma trim_left_suffix: "\<exists>ws. s = ws @ trim_left s chars \<and> set ws \<subseteq> set chars"
proof (induction s)
  case (Cons c s)
  then obtain ws where "s = ws @ trim_left s chars" "set ws \<subseteq> set chars" by blast
  then have "c # s = (c # ws) @ trim_left s chars" "c \<in> set chars \<Longrightarrow> set (c # ws) \<subseteq> set chars"
    by simp_all
  then show ?case by (metis append_Nil empty_set empty_subsetI trim_left.simps(2))
qed simp

lemma leading_whitespace_le: "length_of_leading_whitespace_ascii s \<le> length s"
  by (induction s) auto

end
