(* ===== verification/WordBytes.thy ===== *)
theory WordBytes
  imports Prelude
begin

text \<open>
  Integers as byte arrays: \<open>to_ne_bytes\<close> and \<open>from_ne_bytes\<close> of the standard library on
  the little-endian targets Bun builds for, \<open>u64::trailing_zeros\<close>, and the correctness of
  the zero-byte search on a whole word that \<open>String::inline_len\<close> of \<open>src/src/semver/lib.rs\<close>
  uses.
\<close>

subsection \<open>Little-endian byte arrays\<close>

fun le_nat :: "bytes \<Rightarrow> nat" where
  "le_nat [] = 0"
| "le_nat (b # s) = unat b + 256 * le_nat s"

fun le_bytes :: "nat \<Rightarrow> nat \<Rightarrow> bytes" where
  "le_bytes 0 n = []"
| "le_bytes (Suc k) n = of_nat (n mod 256) # le_bytes k (n div 256)"

definition u32_to_ne_bytes :: "u32 \<Rightarrow> bytes" where
  "u32_to_ne_bytes w = le_bytes 4 (unat w)"

definition u32_from_ne_bytes :: "bytes \<Rightarrow> u32" where
  "u32_from_ne_bytes s = of_nat (le_nat s)"

definition u64_to_ne_bytes :: "u64 \<Rightarrow> bytes" where
  "u64_to_ne_bytes w = le_bytes 8 (unat w)"

definition u64_from_ne_bytes :: "bytes \<Rightarrow> u64" where
  "u64_from_ne_bytes s = of_nat (le_nat s)"

definition trailing_zeros_u64 :: "u64 \<Rightarrow> nat" where
  "trailing_zeros_u64 w = length (takeWhile (\<lambda>i. \<not> bit w i) [0..<64])"

text \<open>The expression of \<open>String::inline_len\<close> (\<open>wrapping_sub\<close> is word subtraction).\<close>

definition inline_len_bits :: "u64 \<Rightarrow> nat" where
  "inline_len_bits bits =
     trailing_zeros_u64 ((bits - 0x0101010101010101) AND NOT bits AND 0x8080808080808080) div 8"

text \<open>Reference: index of the first NUL byte, or the length.\<close>

definition first_nul :: "bytes \<Rightarrow> nat" where
  "first_nul s = length (takeWhile (\<lambda>b. b \<noteq> 0) s)"

subsection \<open>Facts about byte arrays\<close>

lemma length_le_bytes [simp]: "length (le_bytes k n) = k"
  by (induction k arbitrary: n) auto

lemma unat_u8_less [simp]: "unat (b :: u8) < 256"
  using unsigned_less [of b] by simp

lemma le_nat_bound: "le_nat s < 256 ^ length s"
proof (induction s)
  case (Cons b s)
  define p :: nat where "p = 256 ^ length s"
  have "unat b < 256" by simp
  moreover have "le_nat s < p" using Cons by (simp add: p_def)
  ultimately have "unat b + 256 * le_nat s < 256 * p" by linarith
  then show ?case by (simp add: p_def)
qed simp

lemma le_nat_le_bytes: "n < 256 ^ k \<Longrightarrow> le_nat (le_bytes k n) = n"
proof (induction k arbitrary: n)
  case (Suc k)
  then have "n div 256 < 256 ^ k" by (simp add: less_mult_imp_div_less mult.commute)
  moreover have "unat (of_nat (n mod 256) :: u8) = n mod 256"
    by (simp add: unsigned_of_nat take_bit_nat_eq_self)
  ultimately show ?case using Suc.IH by simp
qed simp

lemma le_bytes_le_nat: "le_bytes (length s) (le_nat s) = s"
  by (induction s) simp_all

lemma le_nat_inj: "length a = length b \<Longrightarrow> le_nat a = le_nat b \<longleftrightarrow> a = b"
  by (metis le_bytes_le_nat)

lemma le_nat_append: "le_nat (a @ b) = le_nat a + 256 ^ length a * le_nat b"
  by (induction a) (simp_all add: algebra_simps)

lemma le_bytes_append:
  "le_bytes (j + k) n = le_bytes j n @ le_bytes k (n div 256 ^ j)"
  by (induction j arbitrary: n) (simp_all add: div_mult2_eq mult.commute)

lemma le_nat_eq_0: "le_nat s = 0 \<longleftrightarrow> (\<forall>b \<in> set s. b = 0)"
  by (induction s) (auto simp: unat_eq_0)

lemma bit_u8_7: "bit (b :: u8) 7 \<longleftrightarrow> 128 \<le> unat b"
proof -
  have "bit b 7 \<longleftrightarrow> bit (unat b) 7" by (simp add: bit_unsigned_iff)
  also have "\<dots> \<longleftrightarrow> odd (unat b div 128)" by (simp add: bit_iff_odd)
  also have "\<dots> \<longleftrightarrow> 128 \<le> unat b"
  proof
    assume "128 \<le> unat b"
    then have "unat b div 128 = 1" using unat_u8_less [of b] by (intro div_nat_eqI) simp_all
    then show "odd (unat b div 128)" by simp
  qed (rule ccontr, simp)
  finally show ?thesis .
qed

lemma and_128_u8: "b AND 128 = 0 \<longleftrightarrow> b < (128 :: u8)"
proof -
  have m: "bit (128 :: u8) n \<longleftrightarrow> n = 7" for n
    using bit_exp_iff [where 'a = "8 word", of 7 n] by auto
  have "bit (b AND 128) n \<longleftrightarrow> bit b n \<and> n = 7" for n
    using m [of n] by (simp only: bit_and_iff) 
  then have "b AND 128 = 0 \<longleftrightarrow> \<not> bit b 7"
    by (metis bit_0_eq bit_eqI bot_apply bot_bool_def)
  then show ?thesis by (simp add: bit_u8_7 word_less_nat_alt not_le)
qed

lemma highs_bits: "bit (0x8080808080808080 :: u64) i \<longleftrightarrow> i < 64 \<and> i mod 8 = 7"
proof (cases "i < 64")
  case True
  have "list_all (\<lambda>i. bit (0x8080808080808080 :: u64) i = (i mod 8 = 7)) [0..<64]"
    by code_simp
  then show ?thesis using True by (simp add: list_all_iff)
qed (auto dest: bit_imp_le_length)

lemma unat_of_le_nat_u64: "length s = 8 \<Longrightarrow> unat (of_nat (le_nat s) :: u64) = le_nat s"
  using le_nat_bound [of s] by (simp add: unsigned_of_nat take_bit_nat_eq_self)

lemma unat_of_le_nat_u32: "length s = 4 \<Longrightarrow> unat (of_nat (le_nat s) :: u32) = le_nat s"
  using le_nat_bound [of s] by (simp add: unsigned_of_nat take_bit_nat_eq_self)

lemma u64_bytes_roundtrip [simp]: "u64_from_ne_bytes (u64_to_ne_bytes w) = w"
proof -
  have "unat w < 256 ^ 8" using unsigned_less [of w] by simp
  then show ?thesis by (simp add: u64_from_ne_bytes_def u64_to_ne_bytes_def le_nat_le_bytes)
qed

lemma u64_bytes_roundtrip2 [simp]: "length s = 8 \<Longrightarrow> u64_to_ne_bytes (u64_from_ne_bytes s) = s"
  using le_bytes_le_nat [of s] by (simp add: u64_from_ne_bytes_def u64_to_ne_bytes_def unat_of_le_nat_u64)

lemma u32_bytes_roundtrip [simp]: "u32_from_ne_bytes (u32_to_ne_bytes w) = w"
proof -
  have "unat w < 256 ^ 4" using unsigned_less [of w] by simp
  then show ?thesis by (simp add: u32_from_ne_bytes_def u32_to_ne_bytes_def le_nat_le_bytes)
qed

lemma length_ne_bytes [simp]: "length (u32_to_ne_bytes v) = 4" "length (u64_to_ne_bytes w) = 8"
  by (simp_all add: u32_to_ne_bytes_def u64_to_ne_bytes_def)

subsection \<open>The zero-byte search\<close>

fun ones :: "nat \<Rightarrow> int" where
  "ones 0 = 0"
| "ones (Suc n) = 1 + 256 * ones n"

lemma bit_shift8: "bit (l + 256 * h :: int) (n + 8) \<longleftrightarrow> bit h n" if "0 \<le> l" "l < 256"
proof -
  have "(l + 256 * h) div 256 = h" using that by simp
  then have "drop_bit 8 (l + 256 * h) = h" by (simp add: drop_bit_eq_div)
  then show ?thesis by (metis add.commute bit_drop_bit_eq comp_apply)
qed

lemma bit_low7: "bit (l + 256 * h :: int) 7 \<longleftrightarrow> 128 \<le> l mod 256"
proof -
  have "bit (l + 256 * h) 7 \<longleftrightarrow> odd ((l + 256 * h) div 128)" by (simp add: bit_iff_odd)
  also have "(l + 256 * h) div 128 = l div 128 + 2 * h" by simp
  also have "odd (l div 128 + 2 * h) \<longleftrightarrow> odd (l div 128)" by simp
  also have "\<dots> \<longleftrightarrow> 128 \<le> l mod 256"
  proof -
    have e: "l mod 256 = 128 * (l div 128 mod 2) + l mod 128"
      using zmod_zmult2_eq [of 2 l 128] by simp
    have r: "0 \<le> l mod 128" "l mod 128 < 128" by simp_all
    show ?thesis
    proof (cases "odd (l div 128)")
      case True
      then have "l div 128 mod 2 = 1" by (simp add: odd_iff_mod_2_eq_one)
      then show ?thesis using e r True by simp
    next
      case False
      then have "l div 128 mod 2 = 0" by (simp add: even_iff_mod_2_eq_zero)
      then show ?thesis using e r False by simp
    qed
  qed
  finally show ?thesis .
qed

lemma swar_byte:
  assumes "q < length s" and "\<forall>p<q. s ! p \<noteq> 0"
  shows "(bit (int (le_nat s) - ones (length s)) (8 * q + 7) \<and> \<not> bit (int (le_nat s)) (8 * q + 7))
     \<longleftrightarrow> s ! q = 0"
  using assms
proof (induction s arbitrary: q)
  case (Cons b s)
  define x where "x = int (le_nat s)"
  define d where "d = int (le_nat s) - ones (length s)"
  have X: "int (le_nat (b # s)) = int (unat b) + 256 * x" by (simp add: x_def)
  have D: "int (le_nat (b # s)) - ones (length (b # s)) = (int (unat b) - 1) + 256 * d"
    by (simp add: d_def algebra_simps)
  have ub: "int (unat b) < 256" using unat_u8_less [of b] by linarith
  show ?case
  proof (cases q)
    case 0
    have "(128 \<le> (int (unat b) - 1) mod 256 \<and> \<not> 128 \<le> int (unat b) mod 256) \<longleftrightarrow> int (unat b) = 0"
    proof (cases "unat b = 0")
      case False
      then have "(int (unat b) - 1) mod 256 = int (unat b) - 1" "int (unat b) mod 256 = int (unat b)"
        using ub by (intro mod_pos_pos_trivial; linarith)+
      then show ?thesis using False by linarith
    qed simp
    also have "int (unat b) = 0 \<longleftrightarrow> b = 0" by (simp only: of_nat_eq_0_iff unat_eq_0)
    finally show ?thesis unfolding D unfolding X using 0 by (simp add: bit_low7)
  next
    case (Suc q')
    then have "b \<noteq> 0" using Cons.prems(2) by force
    then have b1: "0 \<le> int (unat b) - 1" using unat_eq_0 [of b] by linarith
    have e: "8 * q + 7 = (8 * q' + 7) + 8" using Suc by simp
    have "(bit d (8 * q' + 7) \<and> \<not> bit x (8 * q' + 7)) \<longleftrightarrow> s ! q' = 0"
      unfolding d_def x_def using Cons.prems Suc by (intro Cons.IH) force+
    moreover have "bit (int (unat b) - 1 + 256 * d) (8 * q' + 7 + 8) \<longleftrightarrow> bit d (8 * q' + 7)"
      and "bit (int (unat b) + 256 * x) (8 * q' + 7 + 8) \<longleftrightarrow> bit x (8 * q' + 7)"
      using b1 ub by (intro bit_shift8; linarith)+
    ultimately show ?thesis unfolding D unfolding X e using Suc by (simp only: nth_Cons_Suc)
  qed
qed simp

lemma ones_8: "ones 8 = 0x0101010101010101"
  by (simp add: numeral_eq_Suc)

lemma swar_word:
  assumes "length s = 8" and "q < 8" and "\<forall>p<q. s ! p \<noteq> 0" and x: "x = (of_nat (le_nat s) :: u64)"
  shows "bit ((x - 0x0101010101010101) AND NOT x AND 0x8080808080808080) (8 * q + 7) \<longleftrightarrow> s ! q = 0"
proof -
  have xs: "x = word_of_int (int (le_nat s))" using x by simp
  have "x - 0x0101010101010101 = word_of_int (int (le_nat s) - ones (length s))"
    using assms(1) unfolding xs by (simp add: ones_8)
  then have 1: "bit (x - 0x0101010101010101) (8 * q + 7) \<longleftrightarrow> bit (int (le_nat s) - ones (length s)) (8 * q + 7)"
    using assms(2) by (simp only: bit_word_of_int_iff) simp
  have 2: "bit x (8 * q + 7) \<longleftrightarrow> bit (int (le_nat s)) (8 * q + 7)"
    using assms(2) unfolding xs by (simp only: bit_word_of_int_iff) simp
  have "8 * q + 7 < 64" using assms(2) by simp
  then show ?thesis
    using swar_byte [of q s] assms 1 2
    by (simp only: bit_and_iff bit_not_iff_eq highs_bits) (simp add: possible_bit_word)
qed

lemma trailing_zeros_eq:
  assumes "bit w n" and "n < 64" and "\<And>i. i < n \<Longrightarrow> \<not> bit w i"
  shows "trailing_zeros_u64 w = n"
proof -
  have "[0..<64] = [0..<n] @ [n..<64]" using assms(2) upt_add_eq_append [of 0 n "64 - n"] by simp
  also have "[n..<64] = n # [Suc n..<64]" using assms(2) by (simp add: upt_rec)
  finally show ?thesis using assms(1,3) by (simp add: trailing_zeros_u64_def takeWhile_append)
qed

lemma trailing_zeros_zero: "trailing_zeros_u64 0 = 64"
  by (simp add: trailing_zeros_u64_def takeWhile_eq_all_conv [THEN iffD2])

lemma inline_len_bits_first_nul:
  assumes "length s = 8"
  shows "inline_len_bits (of_nat (le_nat s)) = first_nul s"
proof -
  define x :: u64 where "x = of_nat (le_nat s)"
  define z where "z = (x - 0x0101010101010101) AND NOT x AND 0x8080808080808080"
  define k where "k = first_nul s"
  have pre: "\<forall>p<k. s ! p \<noteq> 0"
    unfolding k_def first_nul_def by (metis (mono_tags, lifting) nth_mem set_takeWhileD takeWhile_nth)
  have zb: "bit z i \<Longrightarrow> i < 64 \<and> i mod 8 = 7" for i
    unfolding z_def by (simp only: bit_and_iff highs_bits)
  have low: "\<not> bit z i" if "i < 8 * k + 7" "k \<le> 8" for i
  proof
    assume b: "bit z i"
    then have m: "i mod 8 = 7" and i64: "i < 64" using zb by blast+
    define q where "q = i div 8"
    have i: "i = 8 * q + 7" using m div_mult_mod_eq [of i 8] by (simp add: q_def)
    then have "q < k" "q < 8" using that i64 by simp_all
    moreover have "\<forall>p<q. s ! p \<noteq> 0" using pre \<open>q < k\<close> by simp
    ultimately have "s ! q = 0" using swar_word [OF assms _ _ x_def, of q] b i by (simp add: z_def)
    then show False using pre \<open>q < k\<close> by blast
  qed
  have "k \<le> 8" unfolding k_def first_nul_def using assms length_takeWhile_le [of _ s] by simp
  have "trailing_zeros_u64 z div 8 = k"
  proof (cases "k = 8")
    case True
    have "\<not> bit z i" for i using low [of i] zb [of i] True by fastforce
    then have "z = 0" by (simp add: bit_eq_iff)
    then show ?thesis using True by (simp add: trailing_zeros_zero)
  next
    case False
    then have k8: "k < 8" using \<open>k \<le> 8\<close> by simp
    then have "s ! k = 0" using assms nth_length_takeWhile [of "\<lambda>b. b \<noteq> 0" s]
      by (simp add: k_def first_nul_def)
    then have "bit z (8 * k + 7)" using swar_word [OF assms k8 pre x_def] by (simp add: z_def)
    then have "trailing_zeros_u64 z = 8 * k + 7"
      using k8 low \<open>k \<le> 8\<close> by (intro trailing_zeros_eq) simp_all
    then show ?thesis by simp
  qed
  then show ?thesis unfolding inline_len_bits_def z_def x_def k_def .
qed
end
