(* ===== verification/SemverString.thy ===== *)
theory SemverString
  imports Bytes WordBytes
begin

text \<open>
  The compact strings of the package manager (\<open>src/src/semver/lib.rs\<close>): \<open>String\<close>, eight
  bytes that hold a short string inline or an offset and a length into a buffer,
  \<open>ExternalString\<close>, \<open>SlicedString\<close>, and the two writers that intern strings into one buffer,
  \<open>Builder\<close> (count, allocate, append) and \<open>Buf\<close>. A slice of a buffer is modelled with the
  distance of its address from the buffer's, which is what \<open>Pointer::init\<close> computes.
  \<open>Wyhash11::hash(0, _)\<close> is the parameter \<open>h\<close>: every statement holds for any hash function, and
  where a collision matters the statement says so.
\<close>

subsection \<open>Strings\<close>

record sem_string =
  ss_bytes :: bytes

record pointer =
  ptr_off :: u32
  ptr_len :: u32

definition MAX_INLINE_LEN :: nat where
  "MAX_INLINE_LEN = 8"

definition MAX_ADDRESSABLE_SPACE_MASK :: u64 where
  "MAX_ADDRESSABLE_SPACE_MASK = 0x7FFFFFFFFFFFFFFF"

definition string_empty :: sem_string where
  "string_empty = \<lparr>ss_bytes = replicate 8 0\<rparr>"

text \<open>\<open>Pointer::init(buf, in_)\<close>: \<open>o\<close> is the address of \<open>in_\<close> less that of \<open>buf\<close>; the casts truncate.\<close>

definition pointer_init :: "nat \<Rightarrow> bytes \<Rightarrow> pointer" where
  "pointer_init o' in' = \<lparr>ptr_off = of_nat o', ptr_len = of_nat (length in')\<rparr>"

definition pointer_to_bits :: "pointer \<Rightarrow> u64" where
  "pointer_to_bits p = u64_from_ne_bytes (u32_to_ne_bytes (ptr_off p) @ u32_to_ne_bytes (ptr_len p))"

definition pointer_from_bits :: "u64 \<Rightarrow> pointer" where
  "pointer_from_bits bits =
     (let b = u64_to_ne_bytes bits in
      \<lparr>ptr_off = u32_from_ne_bytes (take 4 b), ptr_len = u32_from_ne_bytes (drop 4 b)\<rparr>)"

definition string_pack :: "pointer \<Rightarrow> sem_string" where
  "string_pack p =
     \<lparr>ss_bytes = u64_to_ne_bytes
        ((pointer_to_bits p AND MAX_ADDRESSABLE_SPACE_MASK) OR push_bit 63 1)\<rparr>"

definition can_inline :: "bytes \<Rightarrow> bool" where
  "can_inline buf =
     (if length buf \<le> 7 then True
      else if length buf = 8 then buf ! 7 AND 0x80 = 0
      else False)"

definition is_inline :: "sem_string \<Rightarrow> bool" where
  "is_inline s \<longleftrightarrow> ss_bytes s ! 7 AND 0x80 = 0"

text \<open>\<open>String::init\<close>: the cases \<open>0..=7\<close> pad with zero bytes.\<close>

definition string_init :: "nat \<Rightarrow> bytes \<Rightarrow> sem_string" where
  "string_init o' in' =
     (if length in' \<le> 7 then \<lparr>ss_bytes = in' @ replicate (8 - length in') 0\<rparr>
      else if length in' = 8 then
        (if 128 \<le> in' ! 7 then string_pack (pointer_init o' in') else \<lparr>ss_bytes = in'\<rparr>)
      else string_pack (pointer_init o' in'))"

text \<open>\<open>String::init_inline\<close>: more than eight bytes is \<open>unreachable!()\<close>.\<close>

definition init_inline :: "bytes \<Rightarrow> sem_string outcome" where
  "init_inline in' =
     (if length in' \<le> 8 then Ret \<lparr>ss_bytes = in' @ replicate (8 - length in') 0\<rparr> else Panic)"

definition init_append :: "bytes \<Rightarrow> bytes \<Rightarrow> bytes \<times> sem_string" where
  "init_append buf in' =
     (let items = buf @ in' in
      (items, string_pack (pointer_init (length items - length in') in')))"

definition init_append_if_needed :: "bytes \<Rightarrow> bytes \<Rightarrow> bytes \<times> sem_string" where
  "init_append_if_needed buf in' =
     (if length in' \<le> 7 then (buf, \<lparr>ss_bytes = in' @ replicate (8 - length in') 0\<rparr>)
      else if length in' = 8 then
        (if 128 \<le> in' ! 7 then init_append buf in' else (buf, \<lparr>ss_bytes = in'\<rparr>))
      else init_append buf in')"

definition string_ptr :: "sem_string \<Rightarrow> pointer" where
  "string_ptr s = pointer_from_bits (u64_from_ne_bytes (ss_bytes s) AND MAX_ADDRESSABLE_SPACE_MASK)"

definition inline_len :: "sem_string \<Rightarrow> nat" where
  "inline_len s = inline_len_bits (u64_from_ne_bytes (ss_bytes s))"

definition string_is_empty :: "sem_string \<Rightarrow> bool" where
  "string_is_empty s \<longleftrightarrow> u64_from_ne_bytes (ss_bytes s) = 0"

definition string_len :: "sem_string \<Rightarrow> nat" where
  "string_len s =
     (if ss_bytes s ! 7 AND 128 = 0 then inline_len s else unat (ptr_len (string_ptr s)))"

text \<open>\<open>buf.get(off..off + len)\<close>.\<close>

definition get_range :: "bytes \<Rightarrow> nat \<Rightarrow> nat \<Rightarrow> bytes option" where
  "get_range buf lo n = (if lo + n \<le> length buf then Some (take n (drop lo buf)) else None)"

definition string_slice :: "sem_string \<Rightarrow> bytes \<Rightarrow> bytes" where
  "string_slice s buf =
     (if ss_bytes s ! 7 AND 128 = 0 then take (inline_len s) (ss_bytes s)
      else let p = string_ptr s in
        (case get_range buf (unat (ptr_off p)) (unat (ptr_len p)) of Some x \<Rightarrow> x | None \<Rightarrow> []))"

definition string_eql :: "sem_string \<Rightarrow> sem_string \<Rightarrow> bytes \<Rightarrow> bytes \<Rightarrow> bool" where
  "string_eql s t this_buf that_buf =
     (if is_inline s \<and> is_inline t then u64_from_ne_bytes (ss_bytes s) = u64_from_ne_bytes (ss_bytes t)
      else if is_inline s \<noteq> is_inline t then False
      else let a = string_ptr s; b = string_ptr t in
        (case (get_range this_buf (unat (ptr_off a)) (unat (ptr_len a)),
               get_range that_buf (unat (ptr_off b)) (unat (ptr_len b))) of
           (Some x, Some y) \<Rightarrow> x = y
         | _ \<Rightarrow> False))"

definition string_order :: "sem_string \<Rightarrow> sem_string \<Rightarrow> bytes \<Rightarrow> bytes \<Rightarrow> ordering" where
  "string_order s t lhs_buf rhs_buf = bytes_order (string_slice s lhs_buf) (string_slice t rhs_buf)"

text \<open>\<open>StorePathFormatter\<close>: the bytes that may not occur in a path component become \<open>+\<close>.\<close>

definition store_path_char :: "u8 \<Rightarrow> u8" where
  "store_path_char c = (if c \<in> {47, 92, 58, 35, 63} then 43 else c)"

definition fmt_store_path :: "bytes \<Rightarrow> bytes" where
  "fmt_store_path s = map store_path_char s"

subsection \<open>External and sliced strings\<close>

record external_string =
  es_value :: sem_string
  es_hash :: u64

definition external_default :: external_string where
  "external_default = \<lparr>es_value = string_empty, es_hash = 0\<rparr>"

definition external_init :: "nat \<Rightarrow> bytes \<Rightarrow> u64 \<Rightarrow> external_string" where
  "external_init o' in' hash = \<lparr>es_value = string_init o' in', es_hash = hash\<rparr>"

definition external_slice :: "external_string \<Rightarrow> bytes \<Rightarrow> bytes" where
  "external_slice e buf = string_slice (es_value e) buf"

definition external_is_empty :: "external_string \<Rightarrow> bool" where
  "external_is_empty e = string_is_empty (es_value e)"

definition external_is_inline :: "external_string \<Rightarrow> bool" where
  "external_is_inline e = is_inline (es_value e)"

definition external_order :: "external_string \<Rightarrow> external_string \<Rightarrow> bytes \<Rightarrow> bytes \<Rightarrow> ordering" where
  "external_order l r lhs_buf rhs_buf =
     (if es_hash l = es_hash r \<and> 0 < es_hash l then Equal
      else string_order (es_value l) (es_value r) lhs_buf rhs_buf)"

record sliced_string =
  sl_buf :: bytes
  sl_off :: nat
  sl_slice :: bytes

text \<open>\<open>SlicedString::init(buf, buf)\<close>, and \<open>sub\<close> of \<open>input[i..j]\<close>, where \<open>input\<close> is the slice.\<close>

definition sliced_whole :: "bytes \<Rightarrow> sliced_string" where
  "sliced_whole buf = \<lparr>sl_buf = buf, sl_off = 0, sl_slice = buf\<rparr>"

definition sliced_sub :: "sliced_string \<Rightarrow> nat \<Rightarrow> nat \<Rightarrow> sliced_string" where
  "sliced_sub s i j = s\<lparr>sl_off := sl_off s + i, sl_slice := take (j - i) (drop i (sl_slice s))\<rparr>"

definition sliced_external :: "(bytes \<Rightarrow> u64) \<Rightarrow> sliced_string \<Rightarrow> external_string" where
  "sliced_external h s = external_init (sl_off s) (sl_slice s) (h (sl_slice s))"

definition sliced_value :: "sliced_string \<Rightarrow> sem_string" where
  "sliced_value s = string_init (sl_off s) (sl_slice s)"

subsection \<open>The string builder\<close>

type_synonym string_pool = "u64 \<rightharpoonup> sem_string"

record builder =
  b_len :: nat
  b_cap :: nat
  b_ptr :: "bytes option"
  b_pool :: string_pool

definition builder_default :: builder where
  "builder_default = \<lparr>b_len = 0, b_cap = 0, b_ptr = None, b_pool = Map.empty\<rparr>"

definition count_with_hash :: "builder \<Rightarrow> bytes \<Rightarrow> u64 \<Rightarrow> builder" where
  "count_with_hash b sl hash =
     (if can_inline sl then b
      else if b_pool b hash = None then b\<lparr>b_cap := b_cap b + length sl\<rparr>
      else b)"

definition builder_count :: "(bytes \<Rightarrow> u64) \<Rightarrow> builder \<Rightarrow> bytes \<Rightarrow> builder" where
  "builder_count h b sl = count_with_hash b sl (if can_inline sl then u64_max else h sl)"

definition allocated_slice :: "builder \<Rightarrow> bytes outcome" where
  "allocated_slice b =
     (if 0 < b_cap b then
        (case b_ptr b of
           None \<Rightarrow> Panic
         | Some p \<Rightarrow> if b_cap b \<le> length p then Ret (take (b_cap b) p) else Panic)
      else Ret [])"

definition builder_allocate :: "builder \<Rightarrow> builder" where
  "builder_allocate b = b\<lparr>b_ptr := Some (replicate (b_cap b) 0)\<rparr>"

text \<open>
  The write \<open>self.ptr[len..cap][..slice.len()].copy_from_slice(slice)\<close> and the handle of the
  copy; each range check that fails is a panic.
\<close>

definition builder_copy :: "builder \<Rightarrow> bytes \<Rightarrow> (builder \<times> sem_string) outcome" where
  "builder_copy b sl =
     (case b_ptr b of
        None \<Rightarrow> Panic
      | Some p \<Rightarrow>
          if b_len b \<le> b_cap b \<and> b_cap b \<le> length p \<and> length sl \<le> b_cap b - b_len b then
            Ret (b\<lparr>b_ptr := Some (take (b_len b) p @ sl @ drop (b_len b + length sl) p),
                   b_len := b_len b + length sl\<rparr>,
                 string_init (b_len b) sl)
          else Panic)"

definition append_without_pool :: "builder \<Rightarrow> bytes \<Rightarrow> (builder \<times> sem_string) outcome" where
  "append_without_pool b sl =
     (if can_inline sl then bind_outcome (allocated_slice b) (\<lambda>_. Ret (b, string_init 0 sl))
      else builder_copy b sl)"

definition append_with_hash :: "builder \<Rightarrow> bytes \<Rightarrow> u64 \<Rightarrow> (builder \<times> sem_string) outcome" where
  "append_with_hash b sl hash =
     (if can_inline sl then bind_outcome (allocated_slice b) (\<lambda>_. Ret (b, string_init 0 sl))
      else case b_pool b hash of
        Some s \<Rightarrow>
          (case b_ptr b of
             None \<Rightarrow> Panic
           | Some p \<Rightarrow>
               if b_cap b \<le> length p then
                 (if string_slice s (take (b_cap b) p) \<noteq> sl then append_without_pool b sl
                  else Ret (b, s))
               else Panic)
      | None \<Rightarrow>
          bind_outcome (builder_copy b sl)
            (\<lambda>(b', s). Ret (b'\<lparr>b_pool := (b_pool b')(hash \<mapsto> s)\<rparr>, s)))"

definition builder_append :: "(bytes \<Rightarrow> u64) \<Rightarrow> builder \<Rightarrow> bytes \<Rightarrow> (builder \<times> sem_string) outcome" where
  "builder_append h b sl = append_with_hash b sl (h sl)"

text \<open>\<open>append::<ExternalString>\<close>.\<close>

definition builder_append_external ::
  "(bytes \<Rightarrow> u64) \<Rightarrow> builder \<Rightarrow> bytes \<Rightarrow> (builder \<times> external_string) outcome" where
  "builder_append_external h b sl =
     bind_outcome (append_with_hash b sl (h sl))
       (\<lambda>(b', s). Ret (b', \<lparr>es_value = s, es_hash = h sl\<rparr>))"

subsection \<open>The lockfile's string buffer\<close>

record str_buf =
  sb_bytes :: bytes
  sb_pool :: string_pool

definition buf_append_with_hash :: "str_buf \<Rightarrow> bytes \<Rightarrow> u64 \<Rightarrow> (str_buf \<times> sem_string) outcome" where
  "buf_append_with_hash b str hash =
     (if can_inline str then bind_outcome (init_inline str) (\<lambda>s. Ret (b, s))
      else case sb_pool b hash of
        Some s \<Rightarrow> Ret (b, s)
      | None \<Rightarrow>
          (case init_append (sb_bytes b) str of
             (bytes', new) \<Rightarrow> Ret (\<lparr>sb_bytes = bytes', sb_pool = (sb_pool b)(hash \<mapsto> new)\<rparr>, new)))"

definition buf_append :: "(bytes \<Rightarrow> u64) \<Rightarrow> str_buf \<Rightarrow> bytes \<Rightarrow> (str_buf \<times> sem_string) outcome" where
  "buf_append h b str = buf_append_with_hash b str (h str)"

definition buf_append_external ::
  "(bytes \<Rightarrow> u64) \<Rightarrow> str_buf \<Rightarrow> bytes \<Rightarrow> (str_buf \<times> external_string) outcome" where
  "buf_append_external h b str =
     bind_outcome (buf_append_with_hash b str (h str))
       (\<lambda>(b', s). Ret (b', \<lparr>es_value = s, es_hash = h str\<rparr>))"

subsection \<open>Packing and unpacking pointers\<close>

lemma pointer_to_bits_unat:
  "unat (pointer_to_bits p) = unat (ptr_off p) + 2 ^ 32 * unat (ptr_len p)"
proof -
  have o4: "unat (ptr_off p) < 256 ^ 4" and l4: "unat (ptr_len p) < 256 ^ 4"
    using unsigned_less [of "ptr_off p"] unsigned_less [of "ptr_len p"] by simp_all
  have "unat (pointer_to_bits p) = le_nat (u32_to_ne_bytes (ptr_off p) @ u32_to_ne_bytes (ptr_len p))"
    unfolding pointer_to_bits_def u64_from_ne_bytes_def by (rule unat_of_le_nat_u64) simp
  also have "\<dots> = unat (ptr_off p) + 2 ^ 32 * unat (ptr_len p)"
    using o4 l4 by (simp add: le_nat_append u32_to_ne_bytes_def le_nat_le_bytes)
  finally show ?thesis .
qed

lemma pointer_bits_roundtrip [simp]: "pointer_from_bits (pointer_to_bits p) = p"
  by (simp add: pointer_from_bits_def pointer_to_bits_def Let_def)

lemma mask_eq: "MAX_ADDRESSABLE_SPACE_MASK = mask 63"
  by (simp add: MAX_ADDRESSABLE_SPACE_MASK_def mask_eq_exp_minus_1)

lemma pack_bits:
  "u64_from_ne_bytes (ss_bytes (string_pack p)) =
     (pointer_to_bits p AND mask 63) OR push_bit 63 1"
  by (simp add: string_pack_def mask_eq)

lemma bit_mask_63: "bit (mask 63 :: u64) i \<longleftrightarrow> i < 63"
  by (auto simp: bit_mask_iff)

lemma bit_high: "bit (push_bit 63 1 :: u64) i \<longleftrightarrow> i = 63"
  by (simp only: bit_push_bit_iff bit_1_iff possible_bit_word) auto

lemma string_ptr_pack: "string_ptr (string_pack p) = pointer_from_bits (take_bit 63 (pointer_to_bits p))"
proof -
  have "((pointer_to_bits p AND mask 63) OR push_bit 63 1) AND mask 63 = take_bit 63 (pointer_to_bits p)"
    by (rule bit_eqI)
      (simp only: bit_and_iff bit_or_iff bit_mask_63 bit_high bit_take_bit_iff, auto)
  then show ?thesis by (simp add: string_ptr_def pack_bits mask_eq)
qed

lemma string_ptr_pack_id:
  assumes "unat (ptr_len p) < 2 ^ 31"
  shows "string_ptr (string_pack p) = p"
proof -
  have "unat (ptr_off p) < 2 ^ 32" using unsigned_less [of "ptr_off p"] by simp
  with assms have "unat (pointer_to_bits p) < 2 ^ 63" by (simp add: pointer_to_bits_unat)
  then have "take_bit 63 (pointer_to_bits p) = pointer_to_bits p"
    by (metis take_bit_nat_eq_self unsigned_take_bit_eq word_unat_eq_iff)
  then show ?thesis by (simp add: string_ptr_pack)
qed

lemma le_bytes_8_last: "le_bytes 8 n ! 7 = of_nat (n div 256 ^ 7 mod 256)"
  using le_bytes_append [of 7 1 n] by (simp add: nth_append)

lemma is_inline_pack [simp]: "\<not> is_inline (string_pack p)"
proof -
  define w :: u64 where "w = (pointer_to_bits p AND mask 63) OR push_bit 63 1"
  have "bit w 63" by (simp add: w_def bit_or_iff bit_high del: push_bit_of_1)
  then have "odd (unat w div 2 ^ 63)" by (simp only: bit_unsigned_iff flip: bit_iff_odd) simp
  then have "unat w div 2 ^ 63 \<noteq> 0" by (metis even_zero)
  then have "2 ^ 63 \<le> unat w" by (metis div_less not_le)
  then have "128 \<le> unat w div 256 ^ 7" by (simp add: less_eq_div_iff_mult_less_eq)
  moreover have "unat w div 256 ^ 7 < 256"
    using unsigned_less [of w, where 'a = nat] by (simp add: less_mult_imp_div_less)
  ultimately have "128 \<le> unat (of_nat (unat w div 256 ^ 7 mod 256) :: u8)"
    by (simp add: unsigned_of_nat take_bit_nat_eq_self)
  then have "128 \<le> unat (ss_bytes (string_pack p) ! 7)"
    by (simp add: string_pack_def mask_eq u64_to_ne_bytes_def le_bytes_8_last w_def)
  then show ?thesis by (simp add: is_inline_def and_128_u8 word_less_nat_alt)
qed

subsection \<open>Slices and equality\<close>

lemma takeWhile_zeros: "takeWhile (\<lambda>b. b \<noteq> 0) (s @ replicate n 0) = takeWhile (\<lambda>b. b \<noteq> 0) (s :: bytes)"
  by (induction s) (auto simp: takeWhile_eq_Nil_iff)

lemma takeWhile_no_zero: "0 \<notin> set s \<Longrightarrow> takeWhile (\<lambda>b. b \<noteq> 0) (s :: bytes) = s"
  by (auto simp: takeWhile_eq_all_conv)

lemma inline_len_first_nul: "length (ss_bytes s) = 8 \<Longrightarrow> inline_len s = first_nul (ss_bytes s)"
  by (simp add: inline_len_def u64_from_ne_bytes_def inline_len_bits_first_nul)

lemma string_slice_inline:
  assumes "length (ss_bytes s) = 8" and "is_inline s"
  shows "string_slice s buf = takeWhile (\<lambda>b. b \<noteq> 0) (ss_bytes s)"
  using assms takeWhile_eq_take [of "\<lambda>b. b \<noteq> 0" "ss_bytes s"]
  by (simp only: string_slice_def is_inline_def inline_len_first_nul first_nul_def if_True refl)

lemma string_slice_pointer:
  "\<not> is_inline s \<Longrightarrow> string_slice s buf =
     (case get_range buf (unat (ptr_off (string_ptr s))) (unat (ptr_len (string_ptr s))) of
        Some x \<Rightarrow> x | None \<Rightarrow> [])"
  by (simp add: string_slice_def is_inline_def Let_def)

lemma can_inline_init:
  "can_inline in' \<Longrightarrow> string_init o' in' = \<lparr>ss_bytes = in' @ replicate (8 - length in') 0\<rparr>"
  by (auto simp: string_init_def can_inline_def and_128_u8 split: if_splits)

lemma not_can_inline_init:
  "\<not> can_inline in' \<Longrightarrow> string_init o' in' = string_pack (pointer_init o' in')"
  by (auto simp: string_init_def can_inline_def and_128_u8 split: if_splits)

lemma can_inline_length: "can_inline s \<Longrightarrow> length s \<le> 8"
  by (auto simp: can_inline_def split: if_splits)

lemma is_inline_padded: "can_inline s \<Longrightarrow> is_inline \<lparr>ss_bytes = s @ replicate (8 - length s) 0\<rparr>"
  by (auto simp: can_inline_def is_inline_def nth_append split: if_splits)

lemma is_inline_init: "is_inline (string_init o' s) \<longleftrightarrow> can_inline s"
  by (cases "can_inline s") (simp_all add: can_inline_init not_can_inline_init is_inline_padded)

lemma length_string_init [simp]: "length (ss_bytes (string_init o' s)) = 8"
  by (cases "can_inline s")
     (simp_all add: can_inline_init not_can_inline_init can_inline_length string_pack_def)

lemma length_string_pack [simp]: "length (ss_bytes (string_pack p)) = 8"
  by (simp add: string_pack_def)

text \<open>The strings the eight-byte representation can hold.\<close>

definition storable :: "bytes \<Rightarrow> bool" where
  "storable s \<longleftrightarrow> (if can_inline s then 0 \<notin> set s else length s < 2 ^ 31)"

lemma ptr_init:
  assumes "o' < 2 ^ 32" and "length s < 2 ^ 31"
  shows "unat (ptr_off (pointer_init o' s)) = o'" and "unat (ptr_len (pointer_init o' s)) = length s"
  using assms by (simp_all add: pointer_init_def unsigned_of_nat take_bit_nat_eq_self)

lemma string_ptr_init:
  assumes "\<not> can_inline s" and "o' < 2 ^ 32" and "length s < 2 ^ 31"
  shows "string_ptr (string_init o' s) = pointer_init o' s"
  using assms by (simp add: not_can_inline_init string_ptr_pack_id ptr_init)

lemma string_slice_init:
  assumes "storable s" and "\<not> can_inline s \<Longrightarrow> o' < 2 ^ 32"
    and "\<not> can_inline s \<Longrightarrow> get_range buf o' (length s) = Some s"
  shows "string_slice (string_init o' s) buf = s"
proof (cases "can_inline s")
  case True
  then show ?thesis
    using assms(1) string_slice_inline [of "string_init o' s"]
    by (simp add: storable_def can_inline_init can_inline_length is_inline_padded
        takeWhile_zeros takeWhile_no_zero)
next
  case False
  then have "length s < 2 ^ 31" using assms(1) by (simp add: storable_def)
  then show ?thesis
    using False assms(2,3) string_ptr_init [OF False] ptr_init [of o' s]
    by (simp add: string_slice_pointer is_inline_init)
qed

lemma string_slice_init_inline:
  "storable s \<Longrightarrow> can_inline s \<Longrightarrow> string_slice (string_init o' s) buf = s"
  by (rule string_slice_init) simp_all

text \<open>
  A canonical handle over a buffer: what \<open>String::init\<close> makes. An inline string has only NUL
  bytes after its first; a pointer is in range and points at a string that could not be inline.
\<close>

definition canonical :: "bytes \<Rightarrow> sem_string \<Rightarrow> bool" where
  "canonical buf s \<longleftrightarrow> length (ss_bytes s) = 8 \<and>
     (if is_inline s then ss_bytes s = string_slice s buf @ replicate (8 - length (string_slice s buf)) 0
      else (case get_range buf (unat (ptr_off (string_ptr s))) (unat (ptr_len (string_ptr s))) of
              Some x \<Rightarrow> \<not> can_inline x | None \<Rightarrow> False))"

lemma canonical_inline_can:
  assumes "canonical buf s" and "is_inline s"
  shows "can_inline (string_slice s buf)"
proof -
  have l: "length (ss_bytes s) = 8" and e: "ss_bytes s = string_slice s buf @ replicate (8 - length (string_slice s buf)) 0"
    using assms by (auto simp: canonical_def)
  from l e have "length (string_slice s buf) \<le> 8"
    by (metis le_add1 length_append)
  moreover have "length (string_slice s buf) = 8 \<Longrightarrow> string_slice s buf ! 7 AND 128 = 0"
    using e assms(2) by (simp add: is_inline_def)
  ultimately show ?thesis by (auto simp: can_inline_def)
qed

lemma canonical_pointer:
  assumes "canonical buf s" and "\<not> is_inline s"
  shows "get_range buf (unat (ptr_off (string_ptr s))) (unat (ptr_len (string_ptr s))) = Some (string_slice s buf)"
    and "\<not> can_inline (string_slice s buf)"
  using assms by (auto simp: canonical_def string_slice_pointer split: option.splits)

lemma string_eql_iff:
  assumes "canonical a s" and "canonical b t"
  shows "string_eql s t a b \<longleftrightarrow> string_slice s a = string_slice t b"
proof (cases "is_inline s = is_inline t")
  case True
  show ?thesis
  proof (cases "is_inline s")
    case inl: True
    have l: "length (ss_bytes s) = 8" "length (ss_bytes t) = 8"
      using assms by (simp_all add: canonical_def)
    then have "u64_from_ne_bytes (ss_bytes s) = u64_from_ne_bytes (ss_bytes t) \<longleftrightarrow> ss_bytes s = ss_bytes t"
      by (metis u64_bytes_roundtrip2)
    moreover have "ss_bytes s = ss_bytes t \<longleftrightarrow> string_slice s a = string_slice t b"
      using assms inl True string_slice_inline [OF l(1)] string_slice_inline [OF l(2)]
      by (metis canonical_def)
    ultimately show ?thesis using inl True by (simp add: string_eql_def)
  next
    case False
    then show ?thesis using True canonical_pointer [OF assms(1)] canonical_pointer [OF assms(2)]
      by (simp add: string_eql_def Let_def)
  qed
next
  case False
  then have "can_inline (string_slice s a) \<noteq> can_inline (string_slice t b)"
    using assms canonical_inline_can canonical_pointer(2) by metis
  then show ?thesis using False by (auto simp: string_eql_def)
qed

lemma canonical_init:
  assumes "storable s" and "\<not> can_inline s \<Longrightarrow> o' < 2 ^ 32"
    and "\<not> can_inline s \<Longrightarrow> get_range buf o' (length s) = Some s"
  shows "canonical buf (string_init o' s)"
proof (cases "can_inline s")
  case True
  then show ?thesis using string_slice_init [OF assms]
    by (simp add: canonical_def can_inline_init can_inline_length is_inline_padded True)
next
  case False
  then have "length s < 2 ^ 31" using assms(1) by (simp add: storable_def)
  then show ?thesis using False assms(2,3) string_ptr_init [OF False] ptr_init [of o' s]
    by (simp add: canonical_def is_inline_init)
qed

lemma string_len_init:
  assumes "storable s" and "o' < 2 ^ 32"
  shows "string_len (string_init o' s) = length s"
proof (cases "can_inline s")
  case True
  then show ?thesis using assms is_inline_init [of o' s] inline_len_first_nul [of "string_init o' s"]
    by (simp add: string_len_def is_inline_def storable_def first_nul_def can_inline_init can_inline_length takeWhile_zeros takeWhile_no_zero)
next
  case False
  then show ?thesis using assms is_inline_init [of o' s] string_ptr_init [OF False assms(2)]
    by (simp add: string_len_def is_inline_def storable_def ptr_init)
qed

subsection \<open>Handles into the written prefix of a buffer\<close>

definition handle_within :: "nat \<Rightarrow> sem_string \<Rightarrow> bool" where
  "handle_within n s \<longleftrightarrow>
     is_inline s \<or> unat (ptr_off (string_ptr s)) + unat (ptr_len (string_ptr s)) \<le> n"

lemma handle_within_mono: "handle_within m s \<Longrightarrow> m \<le> n \<Longrightarrow> handle_within n s"
  by (auto simp: handle_within_def)

lemma get_range_prefix:
  assumes "take n p = take n q" and "n \<le> length p" and "n \<le> length q" and "a + k \<le> n"
  shows "get_range p a k = get_range q a k"
proof -
  have "take k (drop a p) = take k (drop a (take n p))"
    using assms(4) by (simp add: drop_take min_absorb1)
  also have "\<dots> = take k (drop a q)"
    using assms(4) by (simp add: assms(1) drop_take min_absorb1)
  finally show ?thesis using assms by (simp add: get_range_def)
qed

lemma slice_prefix_eq:
  assumes "take n p = take n q" and "n \<le> length p" and "n \<le> length q" and "handle_within n s"
  shows "string_slice s p = string_slice s q"
proof (cases "is_inline s")
  case True
  then show ?thesis by (simp add: string_slice_def is_inline_def)
next
  case False
  then show ?thesis using get_range_prefix [OF assms(1-3)] assms(4)
    by (simp add: handle_within_def string_slice_pointer)
qed

lemma handle_within_init:
  assumes "storable s" and "o' + length s \<le> n" and "o' < 2 ^ 32"
  shows "handle_within n (string_init o' s)"
  using assms string_ptr_init [of s o'] ptr_init [of o' s]
  by (cases "can_inline s") (auto simp: handle_within_def is_inline_init storable_def)

subsection \<open>The builder keeps its invariant\<close>

definition builder_inv :: "builder \<Rightarrow> bool" where
  "builder_inv b \<longleftrightarrow> b_len b \<le> b_cap b \<and> b_cap b < 2 ^ 32 \<and>
     (\<exists>p. b_ptr b = Some p \<and> length p = b_cap b) \<and>
     (\<forall>k s. b_pool b k = Some s \<longrightarrow> handle_within (b_len b) s)"

text \<open>What an append promises: the new handle reads back the string, and no handle given out before changes.\<close>

definition append_post :: "builder \<Rightarrow> bytes \<Rightarrow> builder \<Rightarrow> sem_string \<Rightarrow> bool" where
  "append_post b sl b' s \<longleftrightarrow> builder_inv b' \<and> b_cap b' = b_cap b \<and> b_len b \<le> b_len b' \<and>
     b_len b' \<le> b_len b + (if can_inline sl then 0 else length sl) \<and>
     handle_within (b_len b') s \<and> string_slice s (the (b_ptr b')) = sl \<and>
     (\<forall>t. handle_within (b_len b) t \<longrightarrow>
        string_slice t (the (b_ptr b')) = string_slice t (the (b_ptr b)))"

lemma allocated_slice_inv: "builder_inv b \<Longrightarrow> \<exists>p. allocated_slice b = Ret p"
  by (auto simp: allocated_slice_def builder_inv_def)

lemma inline_append_post:
  assumes "builder_inv b" and "storable sl" and "can_inline sl"
  shows "append_post b sl b (string_init 0 sl)"
  using assms
  by (simp add: append_post_def string_slice_init_inline handle_within_def is_inline_init)

lemma builder_copy_post:
  assumes inv: "builder_inv b" and st: "storable sl" and ni: "\<not> can_inline sl"
    and fits: "b_len b + length sl \<le> b_cap b"
  shows "\<exists>b' s. builder_copy b sl = Ret (b', s) \<and> append_post b sl b' s \<and> b_pool b' = b_pool b"
proof -
  obtain p where p: "b_ptr b = Some p" and lp: "length p = b_cap b"
    using inv by (auto simp: builder_inv_def)
  define n where "n = b_len b"
  define q where "q = take n p @ sl @ drop (n + length sl) p"
  define b' where "b' = b\<lparr>b_ptr := Some q, b_len := n + length sl\<rparr>"
  have nc: "n \<le> b_cap b" and cap32: "b_cap b < 2 ^ 32" using inv by (simp_all add: builder_inv_def n_def)
  have lq: "length q = b_cap b" using lp fits nc by (simp add: q_def n_def)
  have slne: "sl \<noteq> []" using ni by (auto simp: can_inline_def)
  have n32: "n < 2 ^ 32" using nc cap32 by simp
  have pre: "take n q = take n p" using lp nc by (simp add: q_def)
  have rng: "get_range q n (length sl) = Some sl"
    using lp nc lq fits by (simp add: get_range_def q_def n_def)
  have fr: "string_slice t q = string_slice t p" if "handle_within n t" for t
    using slice_prefix_eq [OF pre _ _ that] lp lq nc by simp
  have inv': "builder_inv b'"
    using inv lq fits handle_within_mono [of n _ "n + length sl"]
    by (auto simp: builder_inv_def b'_def n_def)
  have "append_post b sl b' (string_init n sl)"
    using inv' st n32 rng fr p ni
      handle_within_init [OF st _ n32, of "n + length sl"] string_slice_init [OF st, of n q]
    by (simp add: append_post_def b'_def n_def)
  moreover have "builder_copy b sl = Ret (b', string_init n sl)"
    using p lp fits nc by (simp add: builder_copy_def b'_def q_def n_def)
  ultimately show ?thesis by (auto simp: b'_def)
qed

lemma append_with_hash_post:
  assumes inv: "builder_inv b" and st: "storable sl"
    and fits: "\<not> can_inline sl \<Longrightarrow> b_len b + length sl \<le> b_cap b"
  shows "\<exists>b' s. append_with_hash b sl hash = Ret (b', s) \<and> append_post b sl b' s"
proof (cases "can_inline sl")
  case True
  then show ?thesis using inline_append_post [OF inv st True] allocated_slice_inv [OF inv]
    by (auto simp: append_with_hash_def)
next
  case ni: False
  obtain b' s where c: "builder_copy b sl = Ret (b', s)" and post: "append_post b sl b' s"
    and pool: "b_pool b' = b_pool b"
    using builder_copy_post [OF inv st ni fits [OF ni]] by blast
  obtain p where p: "b_ptr b = Some p" and lp: "length p = b_cap b"
    using inv by (auto simp: builder_inv_def)
  show ?thesis
  proof (cases "b_pool b hash")
    case None
    have "append_post b sl (b'\<lparr>b_pool := (b_pool b)(hash \<mapsto> s)\<rparr>) s"
      using post pool by (auto simp: append_post_def builder_inv_def)
    then show ?thesis using ni None c pool by (simp add: append_with_hash_def)
  next
    case (Some e)
    show ?thesis
    proof (cases "string_slice e p = sl")
      case True
      have "append_post b sl b e"
        using inv Some True p by (auto simp: append_post_def builder_inv_def)
      then show ?thesis using ni Some p lp True by (simp add: append_with_hash_def)
    next
      case False
      then show ?thesis using ni Some p lp c post
        by (simp add: append_with_hash_def append_without_pool_def)
    qed
  qed
qed

subsection \<open>The interface of an interning writer\<close>

text \<open>
  What the users of \<open>Builder\<close> and of \<open>Buf\<close> rely on: while there is room, an append returns a
  handle that reads back the string, and every handle given out before still reads back its own.
\<close>

fun append_list :: "('b \<Rightarrow> bytes \<Rightarrow> ('b \<times> 'h) outcome) \<Rightarrow> 'b \<Rightarrow> bytes list \<Rightarrow> ('b \<times> 'h list) outcome" where
  "append_list app b [] = Ret (b, [])"
| "append_list app b (x # xs) =
     bind_outcome (app b x) (\<lambda>(b', s).
       bind_outcome (append_list app b' xs) (\<lambda>(b'', ss). Ret (b'', s # ss)))"

locale interner =
  fixes inv :: "'b \<Rightarrow> bool"
    and room :: "'b \<Rightarrow> bytes list \<Rightarrow> bool"
    and app :: "'b \<Rightarrow> bytes \<Rightarrow> ('b \<times> 'h) outcome"
    and valid :: "'b \<Rightarrow> 'h \<Rightarrow> bool"
    and rd :: "'b \<Rightarrow> 'h \<Rightarrow> bytes"
  assumes app_ok: "inv b \<Longrightarrow> room b (x # xs) \<Longrightarrow>
      \<exists>b' s. app b x = Ret (b', s) \<and> inv b' \<and> room b' xs \<and> valid b' s \<and> rd b' s = x \<and>
        (\<forall>t. valid b t \<longrightarrow> valid b' t \<and> rd b' t = rd b t)"
begin

lemma append_list_ok:
  assumes "inv b" and "room b xs"
  shows "\<exists>b' ss. append_list app b xs = Ret (b', ss) \<and> inv b' \<and> map (rd b') ss = xs \<and>
     (\<forall>t. valid b t \<longrightarrow> valid b' t \<and> rd b' t = rd b t)"
  using assms
proof (induction xs arbitrary: b)
  case (Cons x xs)
  obtain b1 s where 1: "app b x = Ret (b1, s)" "inv b1" "room b1 xs" "valid b1 s" "rd b1 s = x"
    and f1: "\<And>t. valid b t \<Longrightarrow> valid b1 t \<and> rd b1 t = rd b t"
    using app_ok [OF Cons.prems] by blast
  obtain b2 ss where 2: "append_list app b1 xs = Ret (b2, ss)" "inv b2" "map (rd b2) ss = xs"
    and f2: "\<And>t. valid b1 t \<Longrightarrow> valid b2 t \<and> rd b2 t = rd b1 t"
    using Cons.IH [OF 1(2,3)] by blast
  show ?case using 1 2 f1 f2 by simp
qed simp

end

subsection \<open>Count, allocate, append\<close>

definition pool_bytes :: "bytes list \<Rightarrow> nat" where
  "pool_bytes xs = sum_list (map length (filter (\<lambda>x. \<not> can_inline x) xs))"

lemma pool_bytes_simps [simp]:
  "pool_bytes [] = 0"
  "pool_bytes (x # xs) = (if can_inline x then 0 else length x) + pool_bytes xs"
  by (simp_all add: pool_bytes_def)

lemma fold_count:
  assumes "b_pool b = Map.empty"
  shows "fold (\<lambda>x b. builder_count h b x) xs b = b\<lparr>b_cap := b_cap b + pool_bytes xs\<rparr>"
  using assms
  by (induction xs arbitrary: b) (auto simp: builder_count_def count_with_hash_def)

definition builder_room :: "builder \<Rightarrow> bytes list \<Rightarrow> bool" where
  "builder_room b xs \<longleftrightarrow> (\<forall>x \<in> set xs. storable x) \<and> b_len b + pool_bytes xs \<le> b_cap b"

interpretation builder_store: interner builder_inv builder_room "builder_append h"
  "\<lambda>b. handle_within (b_len b)" "\<lambda>b s. string_slice s (the (b_ptr b))"
  for h
proof
  fix b x xs
  assume inv: "builder_inv b" and room: "builder_room b (x # xs)"
  have "\<not> can_inline x \<Longrightarrow> b_len b + length x \<le> b_cap b"
    using room by (simp add: builder_room_def)
  then obtain b1 s where a1: "builder_append h b x = Ret (b1, s)" and p1: "append_post b x b1 s"
    using append_with_hash_post [of b x "h x"] inv room unfolding builder_append_def builder_room_def by auto
  have "builder_room b1 xs"
    using p1 room by (simp add: append_post_def builder_room_def split: if_splits)
  then show "\<exists>b' s. builder_append h b x = Ret (b', s) \<and> builder_inv b' \<and> builder_room b' xs \<and>
      handle_within (b_len b') s \<and> string_slice s (the (b_ptr b')) = x \<and>
      (\<forall>t. handle_within (b_len b) t \<longrightarrow> handle_within (b_len b') t \<and>
        string_slice t (the (b_ptr b')) = string_slice t (the (b_ptr b)))"
    using a1 p1 handle_within_mono by (auto simp: append_post_def)
qed

lemma builder_count_allocate_append:
  assumes "\<forall>x \<in> set xs. storable x" and "pool_bytes xs < 2 ^ 32"
  shows "\<exists>b ss buf. append_list (builder_append h)
         (builder_allocate (fold (\<lambda>x b. builder_count h b x) xs builder_default)) xs
       = Ret (b, ss) \<and> allocated_slice b = Ret buf \<and> map (\<lambda>s. string_slice s buf) ss = xs"
proof -
  define b0 where "b0 = builder_allocate (fold (\<lambda>x b. builder_count h b x) xs builder_default)"
  have b0: "b_len b0 = 0" "b_cap b0 = pool_bytes xs" "b_ptr b0 = Some (replicate (pool_bytes xs) 0)" "b_pool b0 = Map.empty"
    by (simp_all add: b0_def builder_allocate_def fold_count builder_default_def)
  have "builder_inv b0" "builder_room b0 xs"
    using b0 assms by (simp_all add: builder_inv_def builder_room_def)
  then obtain b ss where a: "append_list (builder_append h) b0 xs = Ret (b, ss)" and i: "builder_inv b"
    and m: "map (\<lambda>s. string_slice s (the (b_ptr b))) ss = xs"
    using builder_store.append_list_ok by blast
  obtain p where p: "b_ptr b = Some p" "length p = b_cap b" using i by (auto simp: builder_inv_def)
  have "allocated_slice b = Ret p"
    using p by (cases "b_cap b = 0") (simp_all add: allocated_slice_def)
  then show ?thesis using a m p by (simp add: b0_def)
qed

subsection \<open>The lockfile buffer\<close>

definition buf_inv :: "(bytes \<Rightarrow> u64) \<Rightarrow> str_buf \<Rightarrow> bool" where
  "buf_inv h b \<longleftrightarrow> (\<forall>k s. sb_pool b k = Some s \<longrightarrow>
     handle_within (length (sb_bytes b)) s \<and> h (string_slice s (sb_bytes b)) = k)"

lemma buf_append_post:
  assumes inv: "buf_inv h b" and st: "storable str" and sz: "length (sb_bytes b) < 2 ^ 32"
    and nocoll: "\<And>s. sb_pool b (h str) = Some s \<Longrightarrow> string_slice s (sb_bytes b) = str"
  shows "\<exists>b' s. buf_append h b str = Ret (b', s) \<and> buf_inv h b' \<and> handle_within (length (sb_bytes b')) s \<and> string_slice s (sb_bytes b') = str \<and>
     sb_pool b' = (if can_inline str then sb_pool b else (sb_pool b)(h str \<mapsto> s)) \<and>
     (\<exists>w. sb_bytes b' = sb_bytes b @ w \<and> length w \<le> (if can_inline str then 0 else length str)) \<and>
     (\<forall>t. handle_within (length (sb_bytes b)) t \<longrightarrow> string_slice t (sb_bytes b') = string_slice t (sb_bytes b))"
proof (cases "can_inline str")
  case True
  then have "init_inline str = Ret (string_init 0 str)"
    by (simp add: init_inline_def can_inline_init can_inline_length)
  then show ?thesis using True inv st
    by (simp add: buf_append_def buf_append_with_hash_def string_slice_init_inline handle_within_def
        is_inline_init)
next
  case ni: False
  show ?thesis
  proof (cases "sb_pool b (h str)")
    case (Some s)
    then show ?thesis using ni inv nocoll
      by (auto simp: buf_append_def buf_append_with_hash_def buf_inv_def fun_upd_idem)
  next
    case None
    define n where "n = length (sb_bytes b)"
    define q where "q = sb_bytes b @ str"
    define b' where "b' = \<lparr>sb_bytes = q, sb_pool = (sb_pool b)(h str \<mapsto> string_init n str)\<rparr>"
    have n32: "n < 2 ^ 32" using sz by (simp add: n_def)
    have rng: "get_range q n (length str) = Some str" by (simp add: get_range_def q_def n_def)
    have sl: "string_slice (string_init n str) q = str" using string_slice_init [OF st] n32 rng by simp
    have fr: "string_slice t q = string_slice t (sb_bytes b)" if "handle_within n t" for t
      using slice_prefix_eq [of n q "sb_bytes b" t] that by (simp add: q_def n_def)
    have hw: "handle_within (length q) (string_init n str)"
      using handle_within_init [OF st _ n32] by (simp add: q_def n_def)
    have "buf_inv h b'"
      unfolding buf_inv_def b'_def
      using inv fr sl hw handle_within_mono [of n _ "length q"]
      by (auto simp: buf_inv_def q_def n_def)
    moreover have "buf_append h b str = Ret (b', string_init n str)"
      using ni None by (simp add: buf_append_def buf_append_with_hash_def init_append_def Let_def
          b'_def q_def n_def not_can_inline_init)
    ultimately show ?thesis using sl fr ni hw by (simp add: b'_def n_def q_def)
  qed
qed


definition buf_contents :: "str_buf \<Rightarrow> bytes set" where
  "buf_contents b = (\<lambda>s. string_slice s (sb_bytes b)) ` ran (sb_pool b)"

definition buf_room :: "(bytes \<Rightarrow> u64) \<Rightarrow> str_buf \<Rightarrow> bytes list \<Rightarrow> bool" where
  "buf_room h b xs \<longleftrightarrow> (\<forall>x \<in> set xs. storable x) \<and>
     length (sb_bytes b) + pool_bytes xs < 2 ^ 32 \<and> inj_on h (buf_contents b \<union> set xs)"

lemma buf_append_contents:
  assumes inv: "buf_inv h b" and pool: "sb_pool b' = (if can_inline str then sb_pool b else (sb_pool b)(h str \<mapsto> s))"
    and rd: "string_slice s (sb_bytes b') = str"
    and fr: "\<And>t. handle_within (length (sb_bytes b)) t \<Longrightarrow> string_slice t (sb_bytes b') = string_slice t (sb_bytes b)"
  shows "buf_contents b' \<subseteq> insert str (buf_contents b)"
proof -
  have "ran (sb_pool b') \<subseteq> insert s (ran (sb_pool b))"
    using pool by (auto simp: ran_def split: if_splits)
  moreover have "string_slice t (sb_bytes b') \<in> buf_contents b" if "t \<in> ran (sb_pool b)" for t
    using that inv fr [of t] by (auto simp: buf_contents_def buf_inv_def ran_def)
  ultimately show ?thesis using rd by (auto simp: buf_contents_def)
qed

interpretation buf_store: interner "buf_inv h" "buf_room h" "buf_append h"
  "\<lambda>b. handle_within (length (sb_bytes b))" "\<lambda>b s. string_slice s (sb_bytes b)"
  for h
proof
  fix b x xs
  assume inv: "buf_inv h b" and room: "buf_room h b (x # xs)"
  have coll: "string_slice s (sb_bytes b) = x" if "sb_pool b (h x) = Some s" for s
  proof -
    have "string_slice s (sb_bytes b) \<in> buf_contents b" "h (string_slice s (sb_bytes b)) = h x"
      using that inv by (auto simp: buf_contents_def buf_inv_def ran_def)
    then show ?thesis using room by (auto simp: buf_room_def inj_on_def)
  qed
  obtain b' s w where r: "buf_append h b x = Ret (b', s)" "buf_inv h b'"
      "handle_within (length (sb_bytes b')) s" "string_slice s (sb_bytes b') = x"
    and pool: "sb_pool b' = (if can_inline x then sb_pool b else (sb_pool b)(h x \<mapsto> s))"
    and w: "sb_bytes b' = sb_bytes b @ w" "length w \<le> (if can_inline x then 0 else length x)"
    and fr: "\<And>t. handle_within (length (sb_bytes b)) t \<Longrightarrow> string_slice t (sb_bytes b') = string_slice t (sb_bytes b)"
    using buf_append_post [OF inv _ _ coll] room unfolding buf_room_def by auto
  have "buf_contents b' \<union> set xs \<subseteq> buf_contents b \<union> set (x # xs)"
    using buf_append_contents [OF inv pool r(4) fr] by auto
  moreover have "length (sb_bytes b') + pool_bytes xs < 2 ^ 32"
    using room w by (auto simp: buf_room_def split: if_splits)
  moreover have "inj_on h (buf_contents b \<union> set (x # xs))" and "\<forall>y \<in> set xs. storable y"
    using room by (simp_all add: buf_room_def)
  ultimately have "buf_room h b' xs"
    unfolding buf_room_def by (blast intro: inj_on_subset)
  then show "\<exists>b' s. buf_append h b x = Ret (b', s) \<and> buf_inv h b' \<and> buf_room h b' xs \<and>
      handle_within (length (sb_bytes b')) s \<and> string_slice s (sb_bytes b') = x \<and>
      (\<forall>t. handle_within (length (sb_bytes b)) t \<longrightarrow> handle_within (length (sb_bytes b')) t \<and>
        string_slice t (sb_bytes b') = string_slice t (sb_bytes b))"
    using r fr handle_within_mono [of "length (sb_bytes b)" _ "length (sb_bytes b')"] w(1) by auto
qed

subsection \<open>Properties\<close>

text \<open>
  C8: reading back a string. \<open>String::init\<close> of a storable string at an offset of the buffer, then
  \<open>slice\<close>, gives the string; \<open>len\<close> is its length; it is inline exactly when it fits in eight
  bytes without touching the tag bit.
\<close>

theorem string_roundtrip:
  assumes "storable s" and "o' < 2 ^ 32" and "get_range buf o' (length s) = Some s"
  shows "string_slice (string_init o' s) buf = s \<and> string_len (string_init o' s) = length s \<and>
     (is_inline (string_init o' s) \<longleftrightarrow> can_inline s)"
  using string_slice_init [of s o' buf] string_len_init [of s o'] is_inline_init [of o' s] assms by blast

theorem string_roundtrip_witness:
  "storable (bs ''left-pad-utils'') \<and>
   string_slice (string_init 2 (bs ''left-pad-utils'')) (bs ''@/left-pad-utils'') = bs ''left-pad-utils''"
  using string_roundtrip [of "bs ''left-pad-utils''" 2 "bs ''@/left-pad-utils''"]
  by (simp add: storable_def can_inline_def get_range_def)

text \<open>
  String equality. On handles that \<open>String::init\<close> makes, \<open>eql\<close> (a comparison of the eight bytes
  for two inline strings, of the buffers for two pointers, and never equal for a mixed pair)
  decides equality of the strings, whatever the two buffers.
\<close>

lemma string_eql_correct:
  assumes "canonical a s" and "canonical b t"
  shows "string_eql s t a b \<longleftrightarrow> string_slice s a = string_slice t b"
  by (rule string_eql_iff [OF assms])

lemma string_eql_correct_witness:
  "canonical [] (string_init 0 (bs ''react'')) \<and>
   string_eql (string_init 0 (bs ''react'')) (string_init 0 (bs ''react'')) [] []"
proof -
  have c: "canonical [] (string_init 0 (bs ''react''))"
    by (rule canonical_init) (simp_all add: storable_def can_inline_def)
  then show ?thesis using string_eql_correct [OF c c] by simp
qed

text \<open>
  The length of an inline string. The branch-free computation on the 64-bit word, with its
  wrapping subtraction, gives the index of the first NUL byte, eight if there is none.
\<close>

lemma inline_len_correct:
  assumes "length (ss_bytes s) = 8"
  shows "inline_len s = length (takeWhile (\<lambda>b. b \<noteq> 0) (ss_bytes s))"
  using inline_len_first_nul [OF assms] by (simp add: first_nul_def)

lemma inline_len_correct_witness:
  "inline_len \<lparr>ss_bytes = [1, 128, 255, 0, 1, 0, 7, 0]\<rparr> = 3"
  using inline_len_correct [of "\<lparr>ss_bytes = [1, 128, 255, 0, 1, 0, 7, 0]\<rparr>"] by simp

text \<open>
  C7: the two-pass builder. Counting a list of strings, allocating, then appending the same list
  never panics, and every handle reads back its string from the allocated slice; the hash
  function may collide.
\<close>

theorem builder_two_pass:
  assumes "\<forall>x \<in> set xs. storable x" and "pool_bytes xs < 2 ^ 32"
  shows "\<exists>b ss buf. append_list (builder_append h)
         (builder_allocate (fold (\<lambda>x b. builder_count h b x) xs builder_default)) xs
       = Ret (b, ss) \<and> allocated_slice b = Ret buf \<and> map (\<lambda>s. string_slice s buf) ss = xs"
  by (rule builder_count_allocate_append [OF assms])

theorem builder_two_pass_witness:
  "pool_bytes [bs ''abc'', bs ''a-long-name'', bs ''a-longer-name''] = 24 \<and>
   (\<exists>b ss buf. append_list (builder_append (\<lambda>_. 0))
      (builder_allocate (fold (\<lambda>x b. builder_count (\<lambda>_. 0) b x)
         [bs ''abc'', bs ''a-long-name'', bs ''a-longer-name''] builder_default))
      [bs ''abc'', bs ''a-long-name'', bs ''a-longer-name''] = Ret (b, ss) \<and> allocated_slice b = Ret buf \<and>
      map (\<lambda>s. string_slice s buf) ss = [bs ''abc'', bs ''a-long-name'', bs ''a-longer-name''])"
  using builder_two_pass [of "[bs ''abc'', bs ''a-long-name'', bs ''a-longer-name'']" "\<lambda>_. 0"]
  by (simp add: storable_def can_inline_def pool_bytes_def)

text \<open>
  The growing buffer. Where the hash function is injective on the strings in play, appending
  a list of strings to a \<open>Buf\<close> gives handles that read back the strings, and the handles given
  out before still read back theirs.
\<close>

lemma buf_append_all:
  assumes "buf_inv h b" and "buf_room h b xs"
  shows "\<exists>b' ss. append_list (buf_append h) b xs = Ret (b', ss) \<and> buf_inv h b' \<and>
     map (\<lambda>s. string_slice s (sb_bytes b')) ss = xs \<and>
     (\<forall>t. handle_within (length (sb_bytes b)) t \<longrightarrow>
        string_slice t (sb_bytes b') = string_slice t (sb_bytes b))"
  using buf_store.append_list_ok [OF assms] by blast

lemma buf_append_all_witness:
  "\<exists>b' ss. append_list (buf_append (\<lambda>x. of_nat (length x))) \<lparr>sb_bytes = [], sb_pool = Map.empty\<rparr>
       [bs ''left-pad-utils'', bs ''react-dom''] = Ret (b', ss) \<and>
     map (\<lambda>s. string_slice s (sb_bytes b')) ss = [bs ''left-pad-utils'', bs ''react-dom'']"
  using buf_append_all [of "\<lambda>x. of_nat (length x)" "\<lparr>sb_bytes = [], sb_pool = Map.empty\<rparr>"
      "[bs ''left-pad-utils'', bs ''react-dom'']"]
  by (auto simp: buf_inv_def buf_room_def storable_def can_inline_def pool_bytes_def buf_contents_def)

end
