(* ===== verification/SemverVersion.thy ===== *)
theory SemverVersion
  imports SemverString
begin

text \<open>
  Versions (\<open>src/src/semver/Version.rs\<close>): the tag of a version, precedence, the parser and the
  printer, and the classification functions of the update command. A version's tag strings are
  handles into a buffer, so the operations take the buffers as the code does.
\<close>

subsection \<open>Data\<close>

record tag =
  tag_pre :: external_string
  tag_build :: external_string

record version =
  major :: u64
  minor :: u64
  patch :: u64
  vtag :: tag

record partial_version =
  p_major :: "u64 option"
  p_minor :: "u64 option"
  p_patch :: "u64 option"
  p_tag :: tag

datatype wildcard = WNone | WMajor | WMinor | WPatch

record parse_result =
  pr_wildcard :: wildcard
  pr_valid :: bool
  pr_version :: partial_version
  pr_len :: nat

record tag_result =
  tr_tag :: tag
  tr_len :: nat

datatype changed_version = ChangedMajor | ChangedMinor | ChangedPatch | ChangedPre | ChangedBuild

datatype pinned_version = PinnedMajor | PinnedMinor | PinnedPatch

definition tag_default :: tag where
  "tag_default = \<lparr>tag_pre = external_default, tag_build = external_default\<rparr>"

definition version_default :: version where
  "version_default = \<lparr>major = 0, minor = 0, patch = 0, vtag = tag_default\<rparr>"

definition partial_default :: partial_version where
  "partial_default = \<lparr>p_major = None, p_minor = None, p_patch = None, p_tag = tag_default\<rparr>"

definition parse_result_default :: parse_result where
  "parse_result_default =
     \<lparr>pr_wildcard = WNone, pr_valid = True, pr_version = partial_default, pr_len = 0\<rparr>"

definition unwrap_or :: "'a option \<Rightarrow> 'a \<Rightarrow> 'a" where
  [simp]: "unwrap_or o' d = (case o' of Some x \<Rightarrow> x | None \<Rightarrow> d)"

definition partial_min :: "partial_version \<Rightarrow> version" where
  "partial_min p =
     \<lparr>major = unwrap_or (p_major p) 0, minor = unwrap_or (p_minor p) 0,
      patch = unwrap_or (p_patch p) 0, vtag = p_tag p\<rparr>"

definition partial_max :: "partial_version \<Rightarrow> version" where
  "partial_max p =
     \<lparr>major = unwrap_or (p_major p) u64_max, minor = unwrap_or (p_minor p) u64_max,
      patch = unwrap_or (p_patch p) u64_max, vtag = p_tag p\<rparr>"

definition is_zero :: "version \<Rightarrow> bool" where
  "is_zero v \<longleftrightarrow> patch v = 0 \<and> minor v = 0 \<and> major v = 0"

definition has_pre :: "tag \<Rightarrow> bool" where
  "has_pre t \<longleftrightarrow> \<not> external_is_empty (tag_pre t)"

definition has_build :: "tag \<Rightarrow> bool" where
  "has_build t \<longleftrightarrow> \<not> external_is_empty (tag_build t)"

subsection \<open>Precedence\<close>

text \<open>\<open>u64::parse_ascii\<close> of the trait \<open>VersionInt\<close>.\<close>

definition parse_ascii :: "bytes \<Rightarrow> u64 option" where
  "parse_ascii s = (case parse_unsigned 64 s 10 of Inr n \<Rightarrow> Some (of_nat n) | Inl _ \<Rightarrow> None)"

text \<open>The comparison of two identifiers inside the loop of \<open>Tag::order_pre\<close>.\<close>

definition ident_order :: "bytes \<Rightarrow> bytes \<Rightarrow> ordering" where
  "ident_order l r =
     (case (parse_ascii l, parse_ascii r) of
        (Some _, None) \<Rightarrow> Less
      | (None, Some _) \<Rightarrow> Greater
      | (None, None) \<Rightarrow> bytes_order l r
      | (Some a, Some b) \<Rightarrow> cmp_lin a b)"

definition split_remaining :: "split_iterator \<Rightarrow> nat" where
  "split_remaining it =
     (case si_index it of None \<Rightarrow> 0 | Some i \<Rightarrow> Suc (length (si_buffer it) - i))"

lemma split_next_remaining:
  "split_next it = (Some x, it') \<Longrightarrow> split_remaining it' < split_remaining it"
  by (auto simp: split_next_def split_remaining_def index_of_char_Some split: option.splits)

function order_pre_loop :: "split_iterator \<Rightarrow> split_iterator \<Rightarrow> ordering" where
  "order_pre_loop lhs_itr rhs_itr =
     (case (split_next lhs_itr, split_next rhs_itr) of
        ((None, _), (None, _)) \<Rightarrow> Equal
      | ((Some _, _), (None, _)) \<Rightarrow> Greater
      | ((None, _), (Some _, _)) \<Rightarrow> Less
      | ((Some l, lhs'), (Some r, rhs')) \<Rightarrow>
          (case ident_order l r of
             Equal \<Rightarrow> order_pre_loop lhs' rhs'
           | ne \<Rightarrow> ne))"
  by pat_completeness auto
termination
  by (relation "measure (\<lambda>(l, r). split_remaining l)") (auto dest: split_next_remaining [OF sym])

declare order_pre_loop.simps [simp del]

definition order_pre :: "tag \<Rightarrow> tag \<Rightarrow> bytes \<Rightarrow> bytes \<Rightarrow> ordering" where
  "order_pre l r lhs_buf rhs_buf =
     order_pre_loop (split (external_slice (tag_pre l) lhs_buf) 46)
       (split (external_slice (tag_pre r) rhs_buf) 46)"

definition tag_order :: "tag \<Rightarrow> tag \<Rightarrow> bytes \<Rightarrow> bytes \<Rightarrow> ordering" where
  "tag_order l r lhs_buf rhs_buf =
     (if \<not> external_is_empty (tag_pre l) \<and> \<not> external_is_empty (tag_pre r)
      then order_pre l r lhs_buf rhs_buf
      else let pre_order = external_order (tag_pre l) (tag_pre r) lhs_buf rhs_buf in
        if pre_order \<noteq> Equal then pre_order
        else external_order (tag_build l) (tag_build r) lhs_buf rhs_buf)"

definition tag_order_without_build :: "tag \<Rightarrow> tag \<Rightarrow> bytes \<Rightarrow> bytes \<Rightarrow> ordering" where
  "tag_order_without_build l r lhs_buf rhs_buf =
     (if \<not> external_is_empty (tag_pre l) \<and> \<not> external_is_empty (tag_pre r)
      then order_pre l r lhs_buf rhs_buf
      else external_order (tag_pre l) (tag_pre r) lhs_buf rhs_buf)"

definition tag_eql :: "tag \<Rightarrow> tag \<Rightarrow> bool" where
  "tag_eql l r \<longleftrightarrow> es_hash (tag_pre l) = es_hash (tag_pre r)"

definition version_eql :: "version \<Rightarrow> version \<Rightarrow> bool" where
  "version_eql l r \<longleftrightarrow>
     major l = major r \<and> minor l = minor r \<and> patch l = patch r \<and> tag_eql (vtag r) (vtag l)"

definition order_without_tag :: "version \<Rightarrow> version \<Rightarrow> ordering" where
  "order_without_tag lhs rhs =
     (if major lhs < major rhs then Less
      else if major lhs > major rhs then Greater
      else if minor lhs < minor rhs then Less
      else if minor lhs > minor rhs then Greater
      else if patch lhs < patch rhs then Less
      else if patch lhs > patch rhs then Greater
      else if has_pre (vtag lhs) then
        (if \<not> has_pre (vtag rhs) then Less else Equal)
      else (if has_pre (vtag rhs) then Greater else Equal))"

definition version_order :: "version \<Rightarrow> version \<Rightarrow> bytes \<Rightarrow> bytes \<Rightarrow> ordering" where
  "version_order lhs rhs lhs_buf rhs_buf =
     (let o' = order_without_tag lhs rhs in
      if o' \<noteq> Equal then o' else tag_order (vtag lhs) (vtag rhs) lhs_buf rhs_buf)"

definition order_without_build :: "version \<Rightarrow> version \<Rightarrow> bytes \<Rightarrow> bytes \<Rightarrow> ordering" where
  "order_without_build lhs rhs lhs_buf rhs_buf =
     (let o' = order_without_tag lhs rhs in
      if o' \<noteq> Equal then o' else tag_order_without_build (vtag lhs) (vtag rhs) lhs_buf rhs_buf)"

definition which_version_is_different ::
  "version \<Rightarrow> version \<Rightarrow> bytes \<Rightarrow> bytes \<Rightarrow> changed_version option" where
  "which_version_is_different left right left_buf right_buf =
     (if major left \<noteq> major right then Some ChangedMajor
      else if minor left \<noteq> minor right then Some ChangedMinor
      else if patch left \<noteq> patch right then Some ChangedPatch
      else if has_pre (vtag left) \<noteq> has_pre (vtag right) then Some ChangedPre
      else if \<not> has_pre (vtag left) \<and> \<not> has_pre (vtag right) then None
      else if order_pre (vtag left) (vtag right) left_buf right_buf \<noteq> Equal then Some ChangedPre
      else if has_build (vtag left) \<noteq> has_build (vtag right) then Some ChangedBuild
      else if \<not> has_build (vtag left) \<and> \<not> has_build (vtag right) then None
      else if external_order (tag_build (vtag left)) (tag_build (vtag right)) left_buf right_buf \<noteq> Equal
      then Some ChangedBuild
      else None)"

subsection \<open>Parsing a tag\<close>

datatype tag_state = TNone | TPre | TBuild

fun tag_counts :: "bytes \<Rightarrow> u32 \<Rightarrow> u32 \<Rightarrow> u32 \<times> u32" where
  "tag_counts [] build_count pre_count = (build_count, pre_count)"
| "tag_counts (c # cs) build_count pre_count =
     (if c = 32 then (build_count, pre_count)
      else if c = 43 then tag_counts cs (build_count + 1) pre_count
      else if c = 45 then tag_counts cs build_count (pre_count + 1)
      else tag_counts cs build_count pre_count)"

text \<open>
  The loop over \<open>input\<close>: \<open>rest\<close> is \<open>input[i..]\<close>. The result is \<open>i\<close>, the state, \<open>start\<close> and the
  tag at the end of the loop.
\<close>

fun tag_loop :: "(bytes \<Rightarrow> u64) \<Rightarrow> sliced_string \<Rightarrow> u32 \<Rightarrow> bytes \<Rightarrow> nat \<Rightarrow> tag_state \<Rightarrow> nat \<Rightarrow> tag \<Rightarrow>
    nat \<times> tag_state \<times> nat \<times> tag" where
  "tag_loop h s ini [] i state start t = (i, state, start, t)"
| "tag_loop h s ini (c # rest) i state start t =
     (if c = 43 then
        (let t' = (if state = TPre \<or> (state = TNone \<and> 0 < ini)
                   then t\<lparr>tag_pre := sliced_external h (sliced_sub s start i)\<rparr> else t)
         in if state \<noteq> TBuild then tag_loop h s ini rest (Suc i) TBuild (i + 1) t'
            else tag_loop h s ini rest (Suc i) state start t')
      else if c = 45 then
        (if state \<noteq> TPre then tag_loop h s ini rest (Suc i) TPre (i + 1) t
         else tag_loop h s ini rest (Suc i) state start t)
      else if is_ascii_alphanumeric c \<or> c = 46 then tag_loop h s ini rest (Suc i) state start t
      else
        (case state of
           TNone \<Rightarrow> (i, TNone, start, t)
         | TPre \<Rightarrow> (i, TNone, start, t\<lparr>tag_pre := sliced_external h (sliced_sub s start i)\<rparr>)
         | TBuild \<Rightarrow> (i, TNone, start, t\<lparr>tag_build := sliced_external h (sliced_sub s start i)\<rparr>)))"

definition parse_with_pre_count :: "(bytes \<Rightarrow> u64) \<Rightarrow> sliced_string \<Rightarrow> u32 \<Rightarrow> tag_result" where
  "parse_with_pre_count h s ini =
     (let input = sl_slice s in
      case tag_counts input 0 ini of (build_count, pre_count) \<Rightarrow>
        if build_count = 0 \<and> pre_count = 0 then \<lparr>tr_tag = tag_default, tr_len = 0\<rparr>
        else
          (case tag_loop h s ini input 0 TNone 0 tag_default of (i, state, start, t) \<Rightarrow>
             (case (if state = TNone \<and> 0 < ini then (TPre, 0) else (state, start)) of
                (state', start') \<Rightarrow>
                  \<lparr>tr_tag = (case state' of
                       TNone \<Rightarrow> t
                     | TPre \<Rightarrow> t\<lparr>tag_pre := sliced_external h (sliced_sub s start' i)\<rparr>
                     | TBuild \<Rightarrow> t\<lparr>tag_build := sliced_external h (sliced_sub s start' i)\<rparr>),
                   tr_len = i mod 2 ^ 32\<rparr>)))"

definition tag_parse :: "(bytes \<Rightarrow> u64) \<Rightarrow> sliced_string \<Rightarrow> tag_result" where
  "tag_parse h s = parse_with_pre_count h s 0"

subsection \<open>Parsing a version\<close>

text \<open>The end of the run of bytes that satisfy \<open>p\<close> from \<open>i\<close> on.\<close>

definition skip_while :: "(u8 \<Rightarrow> bool) \<Rightarrow> bytes \<Rightarrow> nat \<Rightarrow> nat" where
  "skip_while p input i = i + length (takeWhile p (drop i input))"

definition is_version_lead :: "u8 \<Rightarrow> bool" where
  "is_version_lead c \<longleftrightarrow> c \<in> {32, 9, 10, 13, 11, 12, 118, 61}"

definition is_wild :: "u8 \<Rightarrow> bool" where
  "is_wild c \<longleftrightarrow> c = 120 \<or> c = 42 \<or> c = 88"

definition parse_version_number :: "bytes \<Rightarrow> u64 option" where
  "parse_version_number input = Some (unwrap_or (parse_ascii input) 0)"

definition store_part :: "nat \<Rightarrow> u64 option \<Rightarrow> partial_version \<Rightarrow> nat \<times> partial_version" where
  "store_part part_i n v =
     (if part_i = 0 then (1, v\<lparr>p_major := n\<rparr>)
      else if part_i = 1 then (2, v\<lparr>p_minor := n\<rparr>)
      else if part_i = 2 then (3, v\<lparr>p_patch := n\<rparr>)
      else (part_i, v))"

definition store_wild :: "nat \<Rightarrow> wildcard \<Rightarrow> nat \<times> wildcard" where
  "store_wild part_i w =
     (if w \<noteq> WNone then (part_i, w)
      else if part_i = 0 then (1, WMajor)
      else if part_i = 1 then (2, WMinor)
      else if part_i = 2 then (3, WPatch)
      else (part_i, w))"

lemma skip_while_ge: "i \<le> skip_while p input i"
  by (simp add: skip_while_def)

lemma skip_while_le: "i \<le> length input \<Longrightarrow> skip_while p input i \<le> length input"
  using length_takeWhile_le [of p "drop i input"] by (simp add: skip_while_def)

text \<open>
  The main loop of \<open>parse\<close>: the final \<open>i\<close>, \<open>part_i\<close> and result. The locals \<open>last_char_i\<close> and
  \<open>is_done\<close> are written and never used, and have no counterpart.
\<close>

function parse_loop :: "(bytes \<Rightarrow> u64) \<Rightarrow> sliced_string \<Rightarrow> nat \<Rightarrow> nat \<Rightarrow> parse_result \<Rightarrow>
    nat \<times> nat \<times> parse_result" where
  "parse_loop h s i part_i res =
     (let input = sl_slice s in
      if length input \<le> i then (i, part_i, res)
      else let c = input ! i in
        if c = 32 then (i, part_i, res)
        else if c \<in> {124, 94, 35, 38, 37, 33} then (i - 1, part_i, res)
        else if is_ascii_digit c then
          (let j = skip_while is_ascii_digit input (i + 1);
               (part', v') = store_part part_i (parse_version_number (take (j - i) (drop i input)))
                               (pr_version res);
               j' = (if j < length input \<and> input ! j = 46 \<and> part' \<noteq> 3 then j + 1 else j)
           in parse_loop h s j' part' (res\<lparr>pr_version := v'\<rparr>))
        else if c = 46 then (i, part_i, res\<lparr>pr_valid := False\<rparr>)
        else if c = 45 \<or> c = 43 then
          (if part_i < 2 \<and> pr_wildcard res = WNone then (i, part_i, res\<lparr>pr_valid := False\<rparr>)
           else let tr = tag_parse h (sliced_sub s i (length input)) in
             (i + tr_len tr, part_i, res\<lparr>pr_version := (pr_version res)\<lparr>p_tag := tr_tag tr\<rparr>\<rparr>))
        else if is_wild c then
          (let j = skip_while is_wild input (i + 1);
               j' = (if j < length input \<and> input ! j = 46 then j + 1 else j);
               (part', w') = store_wild part_i (pr_wildcard res)
           in parse_loop h s j' part' (res\<lparr>pr_wildcard := w'\<rparr>))
        else if pr_wildcard res = WNone \<and> 2 \<le> part_i \<and> is_ascii_alphabetic c then
          (let tr = parse_with_pre_count h (sliced_sub s i (length input)) 1 in
             (i + tr_len tr, part_i, res\<lparr>pr_version := (pr_version res)\<lparr>p_tag := tr_tag tr\<rparr>\<rparr>))
        else (i, part_i, res\<lparr>pr_valid := False\<rparr>))"
  by pat_completeness auto
termination
proof (relation "measure (\<lambda>(h, s, i, part_i, res). length (sl_slice s) - i)", goal_cases)
  case 1
  show ?case by simp
next
  case (2 h s i part_i res input c j p part' v' j')
  then have "i < j" "j \<le> j'" using skip_while_ge [of "i + 1" is_ascii_digit input] by simp_all
  then show ?case using 2 by auto
next
  case (3 h s i part_i res input c j j' p part' w')
  then have "i < j" "j \<le> j'" using skip_while_ge [of "i + 1" is_wild input] by simp_all
  then show ?case using 3 by auto
qed

declare parse_loop.simps [simp del]

text \<open>\<open>u32::try_from(i).expect("int cast")\<close>.\<close>

definition expect_u32 :: "nat \<Rightarrow> nat outcome" where
  "expect_u32 i = (if i < 2 ^ 32 then Ret i else Panic)"

definition version_parse :: "(bytes \<Rightarrow> u64) \<Rightarrow> sliced_string \<Rightarrow> parse_result outcome" where
  "version_parse h s =
     (let input = sl_slice s; result = parse_result_default in
      if input = [] then Ret (result\<lparr>pr_valid := False\<rparr>)
      else let i = skip_while is_version_lead input 0 in
        if i = length input then
          bind_outcome (expect_u32 i)
            (\<lambda>n. Ret (result\<lparr>pr_valid := False, pr_wildcard := WMajor, pr_len := n\<rparr>))
        else
          (case parse_loop h s i 0 result of (i', part_i, res) \<Rightarrow>
             bind_outcome (expect_u32 i') (\<lambda>n.
               Ret (res\<lparr>pr_wildcard :=
                      (if pr_wildcard res = WNone then
                         (if part_i = 0 then WMajor else if part_i = 1 then WMinor
                          else if part_i = 2 then WPatch else WNone)
                       else pr_wildcard res),
                    pr_len := n\<rparr>))))"

definition parse_utf8 :: "(bytes \<Rightarrow> u64) \<Rightarrow> bytes \<Rightarrow> parse_result outcome" where
  "parse_utf8 h buf = version_parse h (sliced_whole buf)"

subsection \<open>Printing\<close>

text \<open>\<open>Formatter\<close>: \<open>Display\<close> of a version against its buffer.\<close>

definition version_fmt :: "version \<Rightarrow> bytes \<Rightarrow> bytes" where
  "version_fmt v input =
     dec (unat (major v)) @ [46] @ dec (unat (minor v)) @ [46] @ dec (unat (patch v)) @
     (if has_pre (vtag v) then 45 # external_slice (tag_pre (vtag v)) input else []) @
     (if has_build (vtag v) then 43 # external_slice (tag_build (vtag v)) input else [])"

subsection \<open>Classification without a full parse\<close>

definition valid_pre_or_build_tag_character :: "u8 \<Rightarrow> bool" where
  "valid_pre_or_build_tag_character c \<longleftrightarrow> c = 45 \<or> c = 43 \<or> c = 46 \<or> is_ascii_alphanumeric c"

definition is_tagged_version_only :: "bytes \<Rightarrow> bool" where
  "is_tagged_version_only input =
     (let version = trim input WHITESPACE_CHARS in
      if version = [] \<or> \<not> is_ascii_alphabetic (version ! 0) then False
      else list_all is_ascii_alphanumeric (tl version))"

text \<open>
  \<open>which_version_is_pinned\<close>. The labelled block \<open>'pinned\<close> either returns (\<open>Inl\<close>) or gives the
  pin and the index of the first digit (\<open>Inr\<close>).
\<close>

definition pinned_block :: "bytes \<Rightarrow> pinned_version + (pinned_version \<times> nat)" where
  "pinned_block version =
     (let j = skip_while is_version_lead version 0 in
      if length version \<le> j then Inl PinnedMajor
      else let c = version ! j in
        if c = 126 \<or> c = 94 then
          (let k = skip_while (\<lambda>b. b \<in> set WHITESPACE_CHARS) version (j + 1) in
           if length version \<le> k then Inl PinnedMajor
           else Inr (if c = 126 then PinnedMinor else PinnedMajor, k))
        else if is_ascii_digit c then Inr (PinnedPatch, j)
        else Inl PinnedMajor)"

text \<open>One core number from \<open>i\<close>: return \<open>at_end\<close> at the end of input, or go on at the byte after it.\<close>

definition pinned_number :: "bytes \<Rightarrow> nat \<Rightarrow> pinned_version \<Rightarrow> pinned_version + nat" where
  "pinned_number version i at_end =
     (if length version \<le> i \<or> \<not> is_ascii_digit (version ! i) then Inl PinnedMajor
      else let e = skip_while is_ascii_digit version i in
        if length version \<le> e then Inl at_end else Inr e)"

definition which_version_is_pinned :: "bytes \<Rightarrow> pinned_version" where
  "which_version_is_pinned input =
     (let version = trim input WHITESPACE_CHARS in
      case pinned_block version of
        Inl r \<Rightarrow> r
      | Inr (pinned, i) \<Rightarrow>
          (case pinned_number version i (if pinned = PinnedPatch then PinnedMajor else pinned) of
             Inl r \<Rightarrow> r
           | Inr e1 \<Rightarrow>
               if version ! e1 \<noteq> 46 then PinnedMajor
               else (case pinned_number version (e1 + 1)
                       (if pinned = PinnedPatch then PinnedMinor else pinned) of
                  Inl r \<Rightarrow> r
                | Inr e2 \<Rightarrow>
                    if version ! e2 \<noteq> 46 then PinnedMajor
                    else (case pinned_number version (e2 + 1) pinned of
                       Inl r \<Rightarrow> r
                     | Inr e3 \<Rightarrow>
                         let tagc = (\<lambda>b. valid_pre_or_build_tag_character b \<and> \<not> is_ascii_whitespace b) in
                         if \<not> valid_pre_or_build_tag_character (version ! e3)
                            \<or> is_ascii_whitespace (version ! e3) then PinnedMajor
                         else if length version \<le> skip_while tagc version (e3 + 1) then pinned
                         else PinnedMajor))))"

subsection \<open>Precedence is a total preorder\<close>

text \<open>
  The iterator \<open>strings::split\<close> yields the pieces between delimiters, so the loop of
  \<open>Tag::order_pre\<close> is the lexicographic comparison of the dot-separated identifiers.
\<close>


fun split_on :: "u8 \<Rightarrow> bytes \<Rightarrow> bytes list" where
  "split_on d [] = [[]]"
| "split_on d (c # cs) =
     (if c = d then [] # split_on d cs
      else (case split_on d cs of [] \<Rightarrow> [[c]] | p # ps \<Rightarrow> (c # p) # ps))"

lemma split_on_ne [simp]: "split_on d s \<noteq> []"
  by (cases s) (auto split: list.splits)

lemma split_on_index:
  "split_on d s = (case index_of_char s d of
      None \<Rightarrow> [s] | Some k \<Rightarrow> take k s # split_on d (drop (k + 1) s))"
  by (induction s) (auto split: option.splits)

definition split_rest :: "split_iterator \<Rightarrow> bytes list" where
  "split_rest it = (case si_index it of None \<Rightarrow> [] | Some i \<Rightarrow> split_on (si_delimiter it) (drop i (si_buffer it)))"

lemma split_next_rest:
  "split_rest it = (case split_next it of (None, it') \<Rightarrow> [] | (Some x, it') \<Rightarrow> x # split_rest it')"
  by (auto simp: split_rest_def split_next_def split_on_index [of "si_delimiter it"] drop_drop
      add.commute split: option.splits)

lemma order_pre_loop_lex:
  "order_pre_loop l r = lex_cmp ident_order (split_rest l) (split_rest r)"
proof (induction l r rule: order_pre_loop.induct)
  case (1 l r)
  show ?case
  proof (cases "split_next l"; cases "split_next r")
    fix x l' y r'
    assume l: "split_next l = (x, l')" and r: "split_next r = (y, r')"
    show ?thesis
      using "1" l r split_next_rest [of l] split_next_rest [of r]
      by (cases x; cases y; cases "ident_order (the x) (the y)")
         (simp_all add: order_pre_loop.simps [of l r])
  qed
qed

definition pre_idents :: "tag \<Rightarrow> bytes \<Rightarrow> bytes list" where
  "pre_idents t buf = split_on 46 (external_slice (tag_pre t) buf)"

lemma order_pre_lex: "order_pre l r b c = lex_cmp ident_order (pre_idents l b) (pre_idents r c)"
  by (simp add: order_pre_def order_pre_loop_lex split_rest_def split_def pre_idents_def)

lemma total_ident_order: "total_cmp ident_order (\<lambda>_. True)"
proof
  fix x y z :: bytes
  show "ident_order x x = Equal" by (simp add: ident_order_def split: option.splits)
  show "ident_order y x = reverse_ord (ident_order x y)"
    using bytes_order_rev [of x y] by (auto simp: ident_order_def cmp_lin_def split: option.splits)
  show "ident_order x y \<noteq> Greater \<Longrightarrow> ident_order y z \<noteq> Greater \<Longrightarrow> ident_order x z \<noteq> Greater"
    using bytes_order_trans [of x y z] by (auto simp: ident_order_def split: option.splits)
qed

interpretation ident_cmp: total_cmp ident_order "\<lambda>_. True"
  by (rule total_ident_order)

subsection \<open>The precedence rules of Semantic Versioning\<close>

text \<open>
  A version is a triple of numbers and, for a pre-release, its list of identifiers. A release is
  above each of its pre-releases. The handles of a version are eight bytes each.
\<close>


definition string8 :: "sem_string \<Rightarrow> bool" where
  "string8 s \<longleftrightarrow> length (ss_bytes s) = 8"

definition version8 :: "version \<Rightarrow> bool" where
  "version8 v \<longleftrightarrow> string8 (es_value (tag_pre (vtag v))) \<and> string8 (es_value (tag_build (vtag v)))"

lemma string_empty_slice:
  assumes "string8 s" and "string_is_empty s"
  shows "string_slice s buf = []"
proof -
  have l: "length (ss_bytes s) = 8" using assms(1) by (simp add: string8_def)
  then have "le_nat (ss_bytes s) = 0"
    using assms(2) unat_of_le_nat_u64 [OF l] by (simp add: string_is_empty_def u64_from_ne_bytes_def)
  then have z: "\<forall>b \<in> set (ss_bytes s). b = 0" by (simp add: le_nat_eq_0)
  then have "ss_bytes s ! 7 = 0" using l by simp
  then have "is_inline s" by (simp add: is_inline_def)
  moreover have "hd (ss_bytes s) = 0" using z l by (cases "ss_bytes s") simp_all
  ultimately show ?thesis using l by (simp add: string_slice_inline takeWhile_eq_Nil_iff)
qed

text \<open>
  An identifier of a pre-release is a number or a word. Numbers are ordered as numbers and below
  every word, words as byte strings.
\<close>

datatype pre_ident = Numeric u64 | Alphanumeric bytes

definition read_ident :: "bytes \<Rightarrow> pre_ident" where
  "read_ident s = (case parse_ascii s of Some n \<Rightarrow> Numeric n | None \<Rightarrow> Alphanumeric s)"

fun ident_precedence :: "pre_ident \<Rightarrow> pre_ident \<Rightarrow> ordering" where
  "ident_precedence (Numeric a) (Numeric b) = cmp_lin a b"
| "ident_precedence (Numeric a) (Alphanumeric t) = Less"
| "ident_precedence (Alphanumeric s) (Numeric b) = Greater"
| "ident_precedence (Alphanumeric s) (Alphanumeric t) = bytes_order s t"

fun pre_precedence :: "bytes list option \<Rightarrow> bytes list option \<Rightarrow> ordering" where
  "pre_precedence None None = Equal"
| "pre_precedence None (Some _) = Greater"
| "pre_precedence (Some _) None = Less"
| "pre_precedence (Some a) (Some b) = lex_cmp ident_precedence (map read_ident a) (map read_ident b)"

lemma ident_order_precedence: "ident_order l r = ident_precedence (read_ident l) (read_ident r)"
  by (simp add: ident_order_def read_ident_def split: option.split)

lemma lex_ident_precedence [simp]:
  "lex_cmp ident_precedence (map read_ident a) (map read_ident b) = lex_cmp ident_order a b"
  by (induction ident_order a b rule: lex_cmp.induct) (simp_all add: ident_order_precedence)

definition semver_precedence ::
  "u64 \<times> u64 \<times> u64 \<times> bytes list option \<Rightarrow> u64 \<times> u64 \<times> u64 \<times> bytes list option \<Rightarrow> ordering" where
  "semver_precedence = (\<lambda>(M, m, p, x) (M', m', p', x').
     then_ord (cmp_lin M M') (then_ord (cmp_lin m m') (then_ord (cmp_lin p p') (pre_precedence x x'))))"

definition precedence_key :: "version \<Rightarrow> bytes \<Rightarrow> u64 \<times> u64 \<times> u64 \<times> bytes list option" where
  "precedence_key v buf =
     (major v, minor v, patch v, if has_pre (vtag v) then Some (pre_idents (vtag v) buf) else None)"

lemma total_pre_precedence: "total_cmp pre_precedence (\<lambda>_. True)"
proof -
  have t: "total_cmp (lex_cmp ident_order) (\<lambda>_. True)"
    by (rule total_cmp_weaken [OF total_cmp_lex [OF total_ident_order]]) (simp_all add: list_all_iff)
  show ?thesis
  proof
    fix x y z :: "bytes list option"
    show "pre_precedence x x = Equal"
      by (cases x) (simp_all add: total_cmp.cmp_refl [OF t])
    show "pre_precedence y x = reverse_ord (pre_precedence x y)"
      by (cases x; cases y) (simp_all, rule total_cmp.cmp_rev [OF t TrueI TrueI])
    show "pre_precedence x y \<noteq> Greater \<Longrightarrow> pre_precedence y z \<noteq> Greater \<Longrightarrow> pre_precedence x z \<noteq> Greater"
      by (cases x; cases y; cases z) (simp_all, erule (1) total_cmp.cmp_trans [OF t TrueI TrueI TrueI])
  qed
qed

lemma total_semver_precedence: "total_cmp semver_precedence (\<lambda>_. True)"
proof -
  have lin: "total_cmp (\<lambda>x y. cmp_lin (f x) (f y)) (\<lambda>_. True)"
    for f :: "u64 \<times> u64 \<times> u64 \<times> bytes list option \<Rightarrow> u64"
    using total_cmp_image [OF lin_cmp.total_cmp_axioms, of f] by simp
  have pre: "total_cmp (\<lambda>x y. pre_precedence (snd (snd (snd x))) (snd (snd (snd y)))) (\<lambda>_. True)"
    using total_cmp_image [OF total_pre_precedence, of "\<lambda>x. snd (snd (snd x))"] by simp
  show ?thesis
    unfolding semver_precedence_def case_prod_unfold
    by (intro total_cmp_then lin pre)
qed

lemma order_without_tag_eq:
  "order_without_tag v w = then_ord (cmp_lin (major v) (major w)) (then_ord (cmp_lin (minor v) (minor w))
     (then_ord (cmp_lin (patch v) (patch w))
       (if has_pre (vtag v) = has_pre (vtag w) then Equal else if has_pre (vtag v) then Less else Greater)))"
  by (simp add: order_without_tag_def cmp_lin_def)

lemma tag_order_without_build_eq:
  assumes "string8 (es_value (tag_pre l))" "string8 (es_value (tag_pre r))" "has_pre l = has_pre r"
  shows "tag_order_without_build l r b c =
     (if has_pre l then lex_cmp ident_order (pre_idents l b) (pre_idents r c) else Equal)"
  using assms string_empty_slice [of "es_value (tag_pre l)" b] string_empty_slice [of "es_value (tag_pre r)" c]
  by (simp add: tag_order_without_build_def has_pre_def order_pre_lex external_order_def string_order_def
      external_is_empty_def)

lemma order_without_build_eq:
  assumes "version8 v" and "version8 w"
  shows "order_without_build v w b c = semver_precedence (precedence_key v b) (precedence_key w c)"
proof -
  have "order_without_build v w b c = then_ord (order_without_tag v w) (tag_order_without_build (vtag v) (vtag w) b c)"
    by (cases "order_without_tag v w") (simp_all add: order_without_build_def)
  moreover have "tag_order_without_build (vtag v) (vtag w) b c =
      (if has_pre (vtag v) then lex_cmp ident_order (pre_idents (vtag v) b) (pre_idents (vtag w) c) else Equal)"
    if "has_pre (vtag v) = has_pre (vtag w)"
    using tag_order_without_build_eq that assms by (simp add: version8_def)
  ultimately show ?thesis
    by (cases "has_pre (vtag v)"; cases "has_pre (vtag w)")
       (simp_all add: order_without_tag_eq semver_precedence_def precedence_key_def then_ord_assoc)
qed

interpretation version_cmp: total_cmp "\<lambda>(v, b) (w, c). order_without_build v w b c" "\<lambda>(v, b). version8 v"
  by (rule total_cmp_weaken [OF total_cmp_image [OF total_semver_precedence,
        of "\<lambda>(v, b). precedence_key v b"]])
     (auto simp: order_without_build_eq)

text \<open>With build metadata: collision-free hashes.\<close>

definition hashed :: "(bytes \<Rightarrow> u64) \<Rightarrow> bytes \<Rightarrow> external_string \<Rightarrow> bool" where
  "hashed h buf e \<longleftrightarrow> es_hash e = 0 \<or> es_hash e = h (external_slice e buf)"

lemma external_order_eq:
  assumes "hashed h b l" and "hashed h c r"
    and "h (external_slice l b) = h (external_slice r c) \<Longrightarrow> external_slice l b = external_slice r c"
  shows "external_order l r b c = bytes_order (external_slice l b) (external_slice r c)"
proof (cases "es_hash l = es_hash r \<and> 0 < es_hash l")
  case True
  then have "es_hash l = h (external_slice l b)" "es_hash r = h (external_slice r c)"
    using assms(1,2) by (auto simp: hashed_def word_gt_0)
  then have "external_slice l b = external_slice r c" using True assms(3) by simp
  then have "bytes_order (external_slice l b) (external_slice r c) = Equal" by simp
  moreover have "external_order l r b c = Equal" unfolding external_order_def using True by (rule if_P)
  ultimately show ?thesis by (rule trans [OF _ sym, rotated])
next
  case False
  then have "external_order l r b c = string_order (es_value l) (es_value r) b c"
    unfolding external_order_def by (rule if_not_P)
  then show ?thesis by (simp add: string_order_def external_slice_def)
qed

lemma which_different_None:
  assumes "version8 v" and "version8 w" and "which_version_is_different v w b c = None"
  shows "order_without_build v w b c = Equal"
  using assms(3)
  by (auto simp: which_version_is_different_def order_without_build_eq [OF assms(1,2)] semver_precedence_def
      precedence_key_def order_pre_lex split: if_splits)

lemma which_different_iff:
  assumes "version8 v" and "version8 w"
  shows "which_version_is_different v w b c \<in> {None, Some ChangedBuild} \<longleftrightarrow> order_without_build v w b c = Equal"
  by (auto simp: which_version_is_different_def order_without_build_eq [OF assms] semver_precedence_def
      precedence_key_def order_pre_lex split: if_splits)

subsection \<open>Properties\<close>



text \<open>
  C11: the order is a total preorder. Swapping the arguments reverses the result, a version equals
  itself, and \<open>not greater\<close> is transitive, also across buffers.
\<close>

theorem order_without_build_total:
  assumes "version8 u" and "version8 v" and "version8 w"
  shows "order_without_build u u a a = Equal \<and>
     order_without_build v u b a = reverse_ord (order_without_build u v a b) \<and>
     (order_without_build u v a b \<noteq> Greater \<and> order_without_build v w b c \<noteq> Greater
        \<longrightarrow> order_without_build u w a c \<noteq> Greater)"
  using version_cmp.cmp_refl [of "(u, a)"] version_cmp.cmp_rev [of "(u, a)" "(v, b)"]
    version_cmp.cmp_trans [of "(u, a)" "(v, b)" "(w, c)"] assms by simp

theorem order_without_build_total_witness:
  "order_without_build version_default version_default [] [] = Equal"
proof -
  have v: "version8 version_default"
    by (simp add: version8_def string8_def version_default_def tag_default_def external_default_def string_empty_def)
  show ?thesis using order_without_build_total [OF v v v, of "[]" "[]"] by blast
qed

text \<open>
  \<open>which_version_is_different\<close> reports no change, or only a changed build, exactly on versions of
  equal precedence.
\<close>

lemma which_version_is_different_precedence:
  assumes "version8 v" and "version8 w"
  shows "which_version_is_different v w b c \<in> {None, Some ChangedBuild} \<longleftrightarrow> order_without_build v w b c = Equal"
  by (rule which_different_iff [OF assms])

lemma which_version_is_different_precedence_witness:
  "which_version_is_different version_default (version_default\<lparr>minor := 3\<rparr>) [] [] = Some ChangedMinor \<and>
   order_without_build version_default (version_default\<lparr>minor := 3\<rparr>) [] [] \<noteq> Equal"
proof -
  have v: "version8 version_default" "version8 (version_default\<lparr>minor := 3\<rparr>)"
    by (simp_all add: version8_def string8_def version_default_def tag_default_def external_default_def string_empty_def)
  have "which_version_is_different version_default (version_default\<lparr>minor := 3\<rparr>) [] [] = Some ChangedMinor"
    by (simp add: which_version_is_different_def version_default_def)
  then show ?thesis using which_version_is_different_precedence [OF v, of "[]" "[]"] by simp
qed

end
