(* ===== verification/SemverRange.thy ===== *)
theory SemverRange
  imports SemverVersion
begin

text \<open>
  Comparators and ranges (\<open>src/src/semver/SemverRange.rs\<close>): an operator with a version, and a
  pair of comparators with the left one set first. The three constructors \<open>lt_next_major\<close>,
  \<open>lt_next_minor\<close> and \<open>lt_next_patch\<close> give the exclusive upper end of a desugared range, and fall
  back to an inclusive end where the successor of a \<open>u64\<close> would overflow.
\<close>

subsection \<open>Data\<close>

datatype op = OpUnset | OpEql | OpLt | OpLte | OpGt | OpGte

record comparator =
  c_op :: op
  c_version :: version

record range =
  r_left :: comparator
  r_right :: comparator

definition comparator_default :: comparator where
  "comparator_default = \<lparr>c_op = OpUnset, c_version = version_default\<rparr>"

definition range_default :: range where
  "range_default = \<lparr>r_left = comparator_default, r_right = comparator_default\<rparr>"

subsection \<open>Operations\<close>

definition lt_next_major :: "u64 \<Rightarrow> comparator" where
  "lt_next_major ma =
     (case checked_succ_u64 ma of
        Some m \<Rightarrow> \<lparr>c_op = OpLt, c_version = version_default\<lparr>major := m\<rparr>\<rparr>
      | None \<Rightarrow> \<lparr>c_op = OpLte,
          c_version = version_default\<lparr>major := u64_max, minor := u64_max, patch := u64_max\<rparr>\<rparr>)"

definition lt_next_minor :: "u64 \<Rightarrow> u64 \<Rightarrow> comparator" where
  "lt_next_minor ma mi =
     (case checked_succ_u64 mi of
        Some m \<Rightarrow> \<lparr>c_op = OpLt, c_version = version_default\<lparr>major := ma, minor := m\<rparr>\<rparr>
      | None \<Rightarrow> \<lparr>c_op = OpLte,
          c_version = version_default\<lparr>major := ma, minor := u64_max, patch := u64_max\<rparr>\<rparr>)"

definition lt_next_patch :: "u64 \<Rightarrow> u64 \<Rightarrow> u64 \<Rightarrow> comparator" where
  "lt_next_patch ma mi pa =
     (case checked_succ_u64 pa of
        Some p \<Rightarrow> \<lparr>c_op = OpLt, c_version = version_default\<lparr>major := ma, minor := mi, patch := p\<rparr>\<rparr>
      | None \<Rightarrow> \<lparr>c_op = OpLte,
          c_version = version_default\<lparr>major := ma, minor := mi, patch := u64_max\<rparr>\<rparr>)"

definition comparator_eql :: "comparator \<Rightarrow> comparator \<Rightarrow> bool" where
  "comparator_eql l r \<longleftrightarrow> c_op l = c_op r \<and> version_eql (c_version l) (c_version r)"

definition comparator_satisfies :: "comparator \<Rightarrow> version \<Rightarrow> bytes \<Rightarrow> bytes \<Rightarrow> bool" where
  "comparator_satisfies c v comparator_buf version_buf =
     (case order_without_build v (c_version c) version_buf comparator_buf of
        Equal \<Rightarrow> c_op c \<in> {OpLte, OpGte, OpEql}
      | Greater \<Rightarrow> c_op c \<in> {OpGt, OpGte}
      | Less \<Rightarrow> c_op c \<in> {OpLt, OpLte})"

definition init_wildcard :: "version \<Rightarrow> wildcard \<Rightarrow> range" where
  "init_wildcard v w =
     (case w of
        WNone \<Rightarrow> range_default\<lparr>r_left := \<lparr>c_op = OpEql, c_version = v\<rparr>\<rparr>
      | WMajor \<Rightarrow> range_default\<lparr>r_left := \<lparr>c_op = OpGte, c_version = version_default\<rparr>\<rparr>
      | WMinor \<Rightarrow> \<lparr>r_left = lt_next_major (major v),
          r_right = \<lparr>c_op = OpGte, c_version = version_default\<lparr>major := major v\<rparr>\<rparr>\<rparr>
      | WPatch \<Rightarrow> \<lparr>r_left = lt_next_minor (major v) (minor v),
          r_right = \<lparr>c_op = OpGte, c_version = version_default\<lparr>major := major v, minor := minor v\<rparr>\<rparr>\<rparr>)"

definition has_left :: "range \<Rightarrow> bool" where
  "has_left r \<longleftrightarrow> c_op (r_left r) \<noteq> OpUnset"

definition has_right :: "range \<Rightarrow> bool" where
  "has_right r \<longleftrightarrow> c_op (r_right r) \<noteq> OpUnset"

definition range_eql :: "range \<Rightarrow> range \<Rightarrow> bool" where
  "range_eql l r \<longleftrightarrow> comparator_eql (r_left l) (r_left r) \<and> comparator_eql (r_right l) (r_right r)"

definition range_satisfies :: "range \<Rightarrow> version \<Rightarrow> bytes \<Rightarrow> bytes \<Rightarrow> bool" where
  "range_satisfies r v range_buf version_buf =
     (if \<not> has_left r then True
      else if \<not> comparator_satisfies (r_left r) v range_buf version_buf then False
      else if has_right r \<and> \<not> comparator_satisfies (r_right r) v range_buf version_buf then False
      else True)"

text \<open>The same core numbers as a comparator whose version is a pre-release.\<close>

definition same_core_pre :: "version \<Rightarrow> comparator \<Rightarrow> bool" where
  "same_core_pre v c \<longleftrightarrow> has_pre (vtag (c_version c)) \<and> patch v = patch (c_version c) \<and>
     minor v = minor (c_version c) \<and> major v = major (c_version c)"

text \<open>\<open>satisfies_pre\<close> returns the verdict and the new value of \<open>*pre_matched\<close>.\<close>

definition range_satisfies_pre ::
  "range \<Rightarrow> version \<Rightarrow> bytes \<Rightarrow> bytes \<Rightarrow> bool \<Rightarrow> bool \<times> bool" where
  "range_satisfies_pre r v range_buf version_buf pre_matched =
     (if \<not> has_left r then (True, pre_matched)
      else let pm = pre_matched \<or> same_core_pre v (r_left r)
                    \<or> (has_right r \<and> same_core_pre v (r_right r)) in
        if \<not> comparator_satisfies (r_left r) v range_buf version_buf then (False, pm)
        else if has_right r \<and> \<not> comparator_satisfies (r_right r) v range_buf version_buf then (False, pm)
        else (True, pm))"

subsection \<open>Printing\<close>

definition op_text :: "op \<Rightarrow> bytes" where
  "op_text o' =
     (case o' of OpUnset \<Rightarrow> [] | OpEql \<Rightarrow> bs ''=='' | OpLt \<Rightarrow> bs ''<'' | OpLte \<Rightarrow> bs ''<=''
      | OpGt \<Rightarrow> bs ''>'' | OpGte \<Rightarrow> bs ''>='')"

definition comparator_fmt :: "comparator \<Rightarrow> bytes \<Rightarrow> bytes" where
  "comparator_fmt c buf =
     (if c_op c = OpUnset then [] else op_text (c_op c) @ version_fmt (c_version c) buf)"

definition range_fmt :: "range \<Rightarrow> bytes \<Rightarrow> bytes" where
  "range_fmt r buf =
     (if c_op (r_left r) = OpUnset \<and> c_op (r_right r) = OpUnset then []
      else if c_op (r_right r) = OpUnset then comparator_fmt (r_left r) buf
      else comparator_fmt (r_left r) buf @ [32] @ comparator_fmt (r_right r) buf)"

subsection \<open>What a comparator accepts\<close>

lemma default_tag_facts [simp]:
  "\<not> has_pre tag_default" "\<not> has_build tag_default"
  by (simp_all add: tag_default_def has_pre_def has_build_def external_is_empty_def
      external_default_def string_is_empty_def string_empty_def u64_from_ne_bytes_def numeral_eq_Suc)

lemma version8_default [simp]:
  "version8 (v\<lparr>vtag := tag_default\<rparr>)" "vtag v = tag_default \<Longrightarrow> version8 v"
  by (simp_all add: version8_def tag_default_def external_default_def string8_def string_empty_def)

lemma version_default_sel [simp]:
  "major version_default = 0" "minor version_default = 0" "patch version_default = 0"
  "vtag version_default = tag_default"
  by (simp_all add: version_default_def)

text \<open>Comparison with a version that has no tag: the core numbers, then the pre-release below.\<close>

lemma order_release:
  assumes "version8 v" and "vtag w = tag_default"
  shows "order_without_build v w b c =
     then_ord (cmp_lin (major v) (major w)) (then_ord (cmp_lin (minor v) (minor w))
       (then_ord (cmp_lin (patch v) (patch w)) (if has_pre (vtag v) then Less else Equal)))"
  using assms by (simp add: order_without_build_eq semver_precedence_def precedence_key_def)

text \<open>
  A range's exclusive end: on releases, \<open>lt_next_major ma\<close> accepts exactly the versions whose
  major is at most \<open>ma\<close>, also where \<open>ma + 1\<close> overflows; the other two likewise.
\<close>

lemma lt_next_major_release:
  assumes "version8 v" and "\<not> has_pre (vtag v)"
  shows "comparator_satisfies (lt_next_major ma) v cb vb \<longleftrightarrow> major v \<le> ma"
proof (cases "ma = u64_max")
  case True
  have "major v \<noteq> u64_max \<longleftrightarrow> major v < u64_max" "minor v \<noteq> u64_max \<longleftrightarrow> minor v < u64_max"
    "patch v \<noteq> u64_max \<longleftrightarrow> patch v < u64_max"
    by (metis less_le u64_max_top)+
  then show ?thesis using True assms
    by (auto simp: comparator_satisfies_def lt_next_major_def checked_succ_u64_def order_release cmp_lin_def
        split: ordering.splits)
next
  case False
  then show ?thesis using assms less_succ_u64 [OF False, of "major v"]
    by (auto simp: comparator_satisfies_def lt_next_major_def checked_succ_u64_def order_release cmp_lin_def
        split: ordering.splits)
qed


lemma below_u64_max: "(w :: u64) < u64_max \<longleftrightarrow> w \<noteq> u64_max"
  by (metis less_le u64_max_top)

lemma u64_max_not_less [simp]: "\<not> u64_max < (w :: u64)"
  by (simp add: not_less)

lemma succ_u64_not_less: "w \<noteq> u64_max \<Longrightarrow> w + 1 < v \<longleftrightarrow> w + 1 \<noteq> v \<and> w < (v :: u64)"
  using less_succ_u64 [of w v] by auto

lemma lt_next_minor_release:
  assumes "version8 v" and "\<not> has_pre (vtag v)"
  shows "comparator_satisfies (lt_next_minor ma mi) v cb vb \<longleftrightarrow>
     major v < ma \<or> major v = ma \<and> minor v \<le> mi"
proof (cases "mi = u64_max")
  case True
  then show ?thesis using assms
    by (auto simp: comparator_satisfies_def lt_next_minor_def checked_succ_u64_def order_release cmp_lin_def
        below_u64_max split: ordering.splits)
next
  case False
  then show ?thesis using assms less_succ_u64 [OF False, of "minor v"]
    by (auto simp: comparator_satisfies_def lt_next_minor_def checked_succ_u64_def order_release cmp_lin_def
        split: ordering.splits)
qed

lemma lt_next_patch_release:
  assumes "version8 v" and "\<not> has_pre (vtag v)"
  shows "comparator_satisfies (lt_next_patch ma mi pa) v cb vb \<longleftrightarrow>
     major v < ma \<or> major v = ma \<and> (minor v < mi \<or> minor v = mi \<and> patch v \<le> pa)"
proof (cases "pa = u64_max")
  case True
  then show ?thesis using assms
    by (auto simp: comparator_satisfies_def lt_next_patch_def checked_succ_u64_def order_release cmp_lin_def
        below_u64_max split: ordering.splits)
next
  case False
  then show ?thesis using assms less_succ_u64 [OF False, of "patch v"]
    by (auto simp: comparator_satisfies_def lt_next_patch_def checked_succ_u64_def order_release cmp_lin_def
        split: ordering.splits)
qed

text \<open>The operators, over the precedence of the two versions.\<close>

definition op_holds :: "op \<Rightarrow> ordering \<Rightarrow> bool" where
  "op_holds o' r \<longleftrightarrow>
     (case o' of OpUnset \<Rightarrow> False | OpEql \<Rightarrow> r = Equal | OpLt \<Rightarrow> r = Less | OpLte \<Rightarrow> r \<noteq> Greater
      | OpGt \<Rightarrow> r = Greater | OpGte \<Rightarrow> r \<noteq> Less)"

lemma comparator_satisfies_op:
  "comparator_satisfies c v cb vb \<longleftrightarrow> op_holds (c_op c) (order_without_build v (c_version c) vb cb)"
  by (cases "c_op c") (simp_all add: comparator_satisfies_def op_holds_def split: ordering.splits)

text \<open>The x-ranges of \<open>init_wildcard\<close>: the numbers before the wildcard are fixed, the rest is free.\<close>

lemma gte_release:
  assumes "version8 v" and "\<not> has_pre (vtag v)" and "vtag w = tag_default"
  shows "comparator_satisfies \<lparr>c_op = OpGte, c_version = w\<rparr> v cb vb \<longleftrightarrow>
     major w < major v \<or> major w = major v \<and> (minor w < minor v \<or> minor w = minor v \<and> patch w \<le> patch v)"
  using assms by (auto simp: comparator_satisfies_op op_holds_def order_release cmp_lin_def)

lemma lt_next_set [simp]: "c_op (lt_next_major a) \<noteq> OpUnset" "c_op (lt_next_minor a b) \<noteq> OpUnset"
    "c_op (lt_next_patch a b c) \<noteq> OpUnset"
  by (simp_all add: lt_next_major_def lt_next_minor_def lt_next_patch_def split: option.splits)

lemma lt_next_tag [simp]: "vtag (c_version (lt_next_major a)) = tag_default"
    "vtag (c_version (lt_next_minor a b)) = tag_default"
    "vtag (c_version (lt_next_patch a b c)) = tag_default"
  by (simp_all add: lt_next_major_def lt_next_minor_def lt_next_patch_def split: option.splits)

lemma init_wildcard_release:
  assumes "version8 v" and "\<not> has_pre (vtag v)"
  shows "range_satisfies (init_wildcard w k) v rb vb \<longleftrightarrow>
     (case k of WNone \<Rightarrow> order_without_build v w vb rb = Equal
      | WMajor \<Rightarrow> True
      | WMinor \<Rightarrow> major v = major w
      | WPatch \<Rightarrow> major v = major w \<and> minor v = minor w)"
proof (cases k)
  case WNone
  then show ?thesis
    by (simp add: range_satisfies_def init_wildcard_def has_left_def has_right_def range_default_def
        comparator_default_def comparator_satisfies_op op_holds_def)
next
  case WMajor
  have "comparator_satisfies \<lparr>c_op = OpGte, c_version = version_default\<rparr> v rb vb"
    by (simp add: gte_release [OF assms] word_gt_0)
  then show ?thesis using WMajor
    by (simp add: range_satisfies_def init_wildcard_def has_left_def has_right_def range_default_def
        comparator_default_def)
next
  case WMinor
  have "comparator_satisfies \<lparr>c_op = OpGte, c_version = version_default\<lparr>major := a\<rparr>\<rparr> v rb vb \<longleftrightarrow> a \<le> major v" for a
    by (simp add: gte_release [OF assms] word_gt_0 order.order_iff_strict)
  then show ?thesis using WMinor lt_next_major_release [OF assms]
    by (auto simp: range_satisfies_def init_wildcard_def has_left_def has_right_def)
next
  case WPatch
  have "comparator_satisfies \<lparr>c_op = OpGte, c_version = version_default\<lparr>major := a, minor := b\<rparr>\<rparr> v rb vb \<longleftrightarrow>
      a < major v \<or> a = major v \<and> b \<le> minor v" for a b
    by (simp add: gte_release [OF assms] word_gt_0 order.order_iff_strict)
  then show ?thesis using WPatch lt_next_minor_release [OF assms]
    by (auto simp: range_satisfies_def init_wildcard_def has_left_def has_right_def)
qed

subsection \<open>Properties\<close>

text \<open>
  The exclusive ends of desugared ranges. On releases, \<open>lt_next_major\<close>, \<open>lt_next_minor\<close> and
  \<open>lt_next_patch\<close> accept exactly the versions up to the given numbers, also where the number is
  \<open>u64::MAX\<close> and has no successor.
\<close>

lemma lt_next_accepts:
  assumes "version8 v" and "\<not> has_pre (vtag v)"
  shows "(comparator_satisfies (lt_next_major ma) v cb vb \<longleftrightarrow> major v \<le> ma) \<and>
     (comparator_satisfies (lt_next_minor ma mi) v cb vb \<longleftrightarrow> major v < ma \<or> major v = ma \<and> minor v \<le> mi) \<and>
     (comparator_satisfies (lt_next_patch ma mi pa) v cb vb \<longleftrightarrow>
        major v < ma \<or> major v = ma \<and> (minor v < mi \<or> minor v = mi \<and> patch v \<le> pa))"
  using lt_next_major_release [OF assms] lt_next_minor_release [OF assms] lt_next_patch_release [OF assms] by blast

lemma lt_next_accepts_witness:
  "comparator_satisfies (lt_next_major u64_max) (version_default\<lparr>major := u64_max, minor := 5\<rparr>) [] []"
  using lt_next_accepts [of "version_default\<lparr>major := u64_max, minor := 5\<rparr>" u64_max "[]" "[]"] by simp

text \<open>The x-ranges \<open>*\<close>, \<open>1.x\<close> and \<open>1.2.x\<close> accept the releases that agree with the numbers given.\<close>

lemma init_wildcard_accepts:
  assumes "version8 v" and "\<not> has_pre (vtag v)"
  shows "range_satisfies (init_wildcard w k) v rb vb \<longleftrightarrow>
     (case k of WNone \<Rightarrow> order_without_build v w vb rb = Equal
      | WMajor \<Rightarrow> True
      | WMinor \<Rightarrow> major v = major w
      | WPatch \<Rightarrow> major v = major w \<and> minor v = minor w)"
  by (rule init_wildcard_release [OF assms])

lemma init_wildcard_accepts_witness:
  "range_satisfies (init_wildcard (version_default\<lparr>major := 4\<rparr>) WMinor) (version_default\<lparr>major := 4, patch := 9\<rparr>) [] []"
  using init_wildcard_accepts [of "version_default\<lparr>major := 4, patch := 9\<rparr>" "version_default\<lparr>major := 4\<rparr>" WMinor "[]" "[]"]
  by simp

end
