(* ===== verification/SemverVersionParse.thy ===== *)
theory SemverVersionParse
  imports SemverVersion
begin

text \<open>
  The parser of versions (\<open>Version::parse\<close>, \<open>Tag::parse_with_pre_count\<close>): reading back a printed
  version, the bound on the consumed length, the condition under which parsing returns, and
  two inputs on which a tag is misread.
\<close>

subsection \<open>Reading back a printed version\<close>


definition pre_char :: "u8 \<Rightarrow> bool" where
  "pre_char c \<longleftrightarrow> is_ascii_alphanumeric c \<or> c = 46 \<or> c = 45"

definition build_char :: "u8 \<Rightarrow> bool" where
  "build_char c \<longleftrightarrow> is_ascii_alphanumeric c \<or> c = 46"

lemma alnum_not: "is_ascii_alphanumeric c \<Longrightarrow> c \<noteq> 43 \<and> c \<noteq> 45 \<and> c \<noteq> 46 \<and> c \<noteq> 32 \<and> c \<noteq> 0"
  by (auto simp: is_ascii_alphanumeric_def is_ascii_alphabetic_def is_ascii_digit_def)

lemma digit_not: "is_ascii_digit c \<Longrightarrow> c \<noteq> 32 \<and> c \<notin> {124, 94, 35, 38, 37, 33} \<and> c \<noteq> 46 \<and> c \<noteq> 45 \<and> c \<noteq> 43 \<and> \<not> is_version_lead c"
  by (auto simp: is_ascii_digit_def is_version_lead_def)

lemma skip_while_run:
  assumes "drop i input = ds @ rest" and "\<forall>c \<in> set ds. p c" and "rest = [] \<or> \<not> p (hd rest)"
  shows "skip_while p input i = i + length ds"
proof -
  have "takeWhile p (ds @ rest) = ds"
    using assms(2,3) by (cases rest) (simp_all add: takeWhile_append)
  then show ?thesis using assms(1) by (simp add: skip_while_def)
qed

lemma drop_app_nth: "drop i input = xs @ c # rest \<Longrightarrow> i + length xs < length input \<and> input ! (i + length xs) = c"
proof -
  assume a: "drop i input = xs @ c # rest"
  then have l: "length input - i = length xs + Suc (length rest)" by (metis length_append length_Cons length_drop)
  then have "i + length xs < length input" by simp
  moreover have "input ! (i + length xs) = drop i input ! length xs" using l by (simp add: nth_drop)
  ultimately show ?thesis using a by simp
qed

lemma parse_loop_number:
  assumes d: "drop i (sl_slice s) = ds @ rest" and ne: "ds \<noteq> []" and ds: "\<forall>c \<in> set ds. is_ascii_digit c"
    and rest: "rest = [] \<or> \<not> is_ascii_digit (hd rest)"
    and st: "store_part part (parse_version_number ds) (pr_version res) = (part', v')"
  shows "parse_loop h s i part res =
     parse_loop h s (i + length ds + (if rest \<noteq> [] \<and> hd rest = 46 \<and> part' \<noteq> 3 then 1 else 0)) part'
       (res\<lparr>pr_version := v'\<rparr>)"
proof -
  obtain c ds' where c: "ds = c # ds'" using ne by (cases ds) auto
  have i: "i < length (sl_slice s)" "sl_slice s ! i = c" using drop_app_nth [of i "sl_slice s" "[]" c "ds' @ rest"] d c by simp_all
  have dig: "is_ascii_digit c" using ds c by simp
  have "drop (i + 1) (sl_slice s) = ds' @ rest" using d c by (metis add.commute append_Cons drop_drop drop_Suc drop_0 list.sel(3) plus_1_eq_Suc)
  then have j: "skip_while is_ascii_digit (sl_slice s) (i + 1) = i + length ds"
    using skip_while_run [of "i + 1" _ ds' rest] ds c rest by simp
  have tk: "take (length ds) (drop i (sl_slice s)) = ds" using d by simp
  have e: "i + length ds < length (sl_slice s) \<and> sl_slice s ! (i + length ds) = 46 \<longleftrightarrow> rest \<noteq> [] \<and> hd rest = 46"
  proof (cases rest)
    case Nil
    then have "length (sl_slice s) - i = length ds" using d by (metis append_Nil2 length_drop)
    then have "i + length ds = length (sl_slice s)" using i(1) by linarith
    then show ?thesis using Nil by simp
  next
    case (Cons r rs)
    then show ?thesis using drop_app_nth [of i _ ds r rs] d by auto
  qed
  show ?thesis
    using i dig digit_not [OF dig] j tk e st
    by (subst parse_loop.simps) (auto simp: Let_def)
qed

lemma tag_loop_pre_run:
  "\<forall>c \<in> set xs. pre_char c \<Longrightarrow>
     tag_loop h s ini (xs @ rest) i TPre start t = tag_loop h s ini rest (i + length xs) TPre start t"
  by (induction xs arbitrary: i) (auto simp: pre_char_def dest: alnum_not)

lemma tag_loop_build_run:
  "\<forall>c \<in> set xs. build_char c \<Longrightarrow>
     tag_loop h s ini (xs @ rest) i TBuild start t = tag_loop h s ini rest (i + length xs) TBuild start t"
  by (induction xs arbitrary: i) (auto simp: build_char_def dest: alnum_not)

lemma unat_plus_1_u32: "unat (b :: u32) + 1 < 2 ^ 32 \<Longrightarrow> unat (b + 1) = unat b + 1"
  by (simp add: unat_word_ariths)

lemma tag_counts_mono:
  "tag_counts cs b p = (b', p') \<Longrightarrow> unat b + length cs < 2 ^ 32 \<Longrightarrow> unat p + length cs < 2 ^ 32 \<Longrightarrow>
     unat b \<le> unat b' \<and> unat p \<le> unat p'"
proof (induction cs b p rule: tag_counts.induct)
  case (2 c cs b p)
  have "unat (b + 1) = unat b + 1" "unat (p + 1) = unat p + 1"
    using "2.prems"(2,3) by (intro unat_plus_1_u32; simp)+
  then show ?case using 2 by (auto split: if_splits)
qed simp

lemma tag_counts_nonzero:
  assumes "c = 43 \<or> c = 45" and "Suc (length cs) < 2 ^ 32" and "tag_counts (c # cs) 0 0 = (b, p)"
  shows "\<not> (b = 0 \<and> p = 0)"
  using assms(1)
proof
  assume "c = 43"
  then have "unat (1 :: u32) \<le> unat b" using tag_counts_mono [of cs 1 0 b p] assms(2,3) by simp
  then show ?thesis by auto
next
  assume "c = 45"
  then have "unat (1 :: u32) \<le> unat p" using tag_counts_mono [of cs 0 1 b p] assms(2,3) by simp
  then show ?thesis by auto
qed

text \<open>The suffix of a printed version: \<open>-pre\<close> and \<open>+build\<close>, each where there is one.\<close>

definition suffix_text :: "bytes \<Rightarrow> bytes \<Rightarrow> bytes" where
  "suffix_text pre build = (if pre = [] then [] else 45 # pre) @ (if build = [] then [] else 43 # build)"

lemma tag_parse_suffix:
  assumes sl: "sl_slice s = suffix_text pre build" and ne: "suffix_text pre build \<noteq> []"
    and pre: "\<forall>c \<in> set pre. pre_char c" and build: "\<forall>c \<in> set build. build_char c"
    and len: "length (suffix_text pre build) < 2 ^ 32"
  defines "k \<equiv> (if pre = [] then 0 else Suc (length pre))"
  shows "tag_parse h s =
     \<lparr>tr_tag = \<lparr>tag_pre = (if pre = [] then external_default else sliced_external h (sliced_sub s 1 k)),
               tag_build = (if build = [] then external_default
                            else sliced_external h (sliced_sub s (k + 1) (length (suffix_text pre build))))\<rparr>,
      tr_len = length (suffix_text pre build)\<rparr>"
proof -
  obtain c cs where c: "suffix_text pre build = c # cs" "c = 43 \<or> c = 45"
    using ne by (auto simp: suffix_text_def split: if_splits)
  obtain bc pc where counts: "tag_counts (suffix_text pre build) 0 0 = (bc, pc)" by fastforce
  have nz: "\<not> (bc = 0 \<and> pc = 0)" using tag_counts_nonzero [OF c(2), of cs] c len counts by simp
  have run: "tag_loop h s 0 (suffix_text pre build) 0 TNone 0 tag_default =
      (if build = [] then (length (suffix_text pre build), TPre, 1, tag_default)
       else (length (suffix_text pre build), TBuild, k + 1,
             if pre = [] then tag_default else tag_default\<lparr>tag_pre := sliced_external h (sliced_sub s 1 k)\<rparr>))"
    using ne tag_loop_pre_run [OF pre, of h s 0 "[]"] tag_loop_pre_run [OF pre, of h s 0 "43 # build"]
      tag_loop_build_run [OF build, of h s 0 "[]"]
    by (auto simp: suffix_text_def k_def)
  show ?thesis
    using sl counts nz run len ne
    by (auto simp: tag_parse_def parse_with_pre_count_def tag_default_def suffix_text_def k_def)
qed

lemma external_slice_sub:
  assumes "storable x" and "sl_off s + i < 2 ^ 32" and "take (j - i) (drop i (sl_slice s)) = x"
    and "drop (sl_off s) buf = sl_slice s" and "length x = j - i" and "j \<le> length (sl_slice s)"
    and "i \<le> j" and "sl_off s \<le> length buf"
  shows "external_slice (sliced_external h (sliced_sub s i j)) buf = x"
proof -
  have "length buf = sl_off s + length (sl_slice s)" using assms(4,8) by (metis le_add_diff_inverse length_drop)
  moreover have "drop (sl_off s + i) buf = drop i (sl_slice s)" using assms(4) by (metis add.commute drop_drop)
  ultimately have "get_range buf (sl_off s + i) (length x) = Some x"
    using assms(3,5,6,7) by (auto simp: get_range_def)
  then show ?thesis using assms(1,2,3) string_slice_init [OF assms(1), of "sl_off s + i" buf]
    by (simp add: external_slice_def sliced_external_def external_init_def sliced_sub_def)
qed

lemma parse_version_number_dec: "n < 2 ^ 64 \<Longrightarrow> parse_version_number (dec n) = Some (of_nat n)"
  by (simp add: parse_version_number_def parse_ascii_def parse_unsigned_dec)

lemma parse_version_number_dec_u64: "parse_version_number (dec (unat (w :: u64))) = Some w"
proof -
  have "unat w < 2 ^ 64" using unsigned_less [of w, where 'a = nat] by simp
  then show ?thesis by (simp add: parse_version_number_dec)
qed

definition core_text :: "u64 \<Rightarrow> u64 \<Rightarrow> u64 \<Rightarrow> bytes" where
  "core_text M m p = dec (unat M) @ 46 # dec (unat m) @ 46 # dec (unat p)"

lemma parse_loop_core:
  assumes sl: "sl_slice s = core_text M m p @ rest" and rest: "rest = [] \<or> \<not> is_ascii_digit (hd rest)"
  shows "parse_loop h s 0 0 res = parse_loop h s (length (core_text M m p)) 3
     (res\<lparr>pr_version := (pr_version res)\<lparr>p_major := Some M, p_minor := Some m, p_patch := Some p\<rparr>\<rparr>)"
proof -
  define a b c where "a = length (dec (unat M))" and "b = length (dec (unat m))" and "c = length (dec (unat p))"
  have nd: "\<not> is_ascii_digit 46" by (simp add: is_ascii_digit_def)
  have d1: "drop 0 (sl_slice s) = dec (unat M) @ (46 # dec (unat m) @ 46 # dec (unat p) @ rest)"
    and d2: "drop (a + 1) (sl_slice s) = dec (unat m) @ (46 # dec (unat p) @ rest)"
    and d3: "drop (a + 1 + b + 1) (sl_slice s) = dec (unat p) @ rest"
    using sl by (simp_all add: core_text_def a_def b_def)
  have 1: "parse_loop h s 0 0 res = parse_loop h s (a + 1) 1 (res\<lparr>pr_version := (pr_version res)\<lparr>p_major := Some M\<rparr>\<rparr>)"
    using parse_loop_number [OF d1 dec_nonempty dec_digits _, of 0 res 1] nd
    by (simp add: store_part_def parse_version_number_dec_u64 a_def)
  have 2: "parse_loop h s (a + 1) 1 r = parse_loop h s (a + 1 + b + 1) 2 (r\<lparr>pr_version := (pr_version r)\<lparr>p_minor := Some m\<rparr>\<rparr>)" for r
    using parse_loop_number [OF d2 dec_nonempty dec_digits _, of 1 r 2] nd
    by (simp add: store_part_def parse_version_number_dec_u64 b_def)
  have 3: "parse_loop h s (a + 1 + b + 1) 2 r = parse_loop h s (a + 1 + b + 1 + c) 3 (r\<lparr>pr_version := (pr_version r)\<lparr>p_patch := Some p\<rparr>\<rparr>)" for r
    using parse_loop_number [OF d3 dec_nonempty dec_digits rest, of 2 r 3]
    by (simp add: store_part_def parse_version_number_dec_u64 c_def)
  have "a + 1 + b + 1 + c = length (core_text M m p)" by (simp add: core_text_def a_def b_def c_def)
  then show ?thesis using 1 2 3 by simp
qed

lemma pre_char_storable: "\<forall>c \<in> set x. pre_char c \<Longrightarrow> length x < 2 ^ 31 \<Longrightarrow> storable x"
  by (auto simp: storable_def pre_char_def dest: alnum_not)

lemma build_char_pre_char: "build_char c \<Longrightarrow> pre_char c"
  by (auto simp: build_char_def pre_char_def)

lemma string8_init [simp]: "string8 (string_init o' x)"
  by (simp add: string8_def)

lemma string8_empty [simp]: "string8 string_empty"
  by (simp add: string8_def string_empty_def)

lemma external_default_facts [simp]:
  "external_is_empty external_default" "external_slice external_default buf = []"
proof -
  show 1: "external_is_empty external_default"
    by (simp add: external_is_empty_def external_default_def string_is_empty_def string_empty_def
        u64_from_ne_bytes_def numeral_eq_Suc)
  then show "external_slice external_default buf = []"
    using string_empty_slice [of string_empty]
    by (simp add: external_is_empty_def external_slice_def external_default_def)
qed

lemma sliced_external_nonempty:
  "external_slice (sliced_external h s) buf \<noteq> [] \<Longrightarrow> \<not> external_is_empty (sliced_external h s)"
  using string_empty_slice [of "es_value (sliced_external h s)" buf]
  by (auto simp: external_slice_def external_is_empty_def sliced_external_def external_init_def)

text \<open>
  Parsing a printed version, over the text alone: the core numbers, the tag strings and the
  length come back.
\<close>

lemma parse_printed:
  assumes tx: "tx = core_text M m p @ suffix_text pre build"
    and pre: "\<forall>c \<in> set pre. pre_char c" and build: "\<forall>c \<in> set build. build_char c"
    and len: "length tx < 2 ^ 31"
  shows "\<exists>t. parse_utf8 h tx = Ret \<lparr>pr_wildcard = WNone, pr_valid = True,
       pr_version = \<lparr>p_major = Some M, p_minor = Some m, p_patch = Some p, p_tag = t\<rparr>, pr_len = length tx\<rparr>
     \<and> external_slice (tag_pre t) tx = pre \<and> external_slice (tag_build t) tx = build
     \<and> has_pre t = (pre \<noteq> []) \<and> has_build t = (build \<noteq> [])"
proof -
  define n where "n = length (core_text M m p)"
  define s where "s = sliced_whole tx"
  have s: "sl_slice s = tx" "sl_off s = 0" by (simp_all add: s_def sliced_whole_def)
  obtain d ds where d: "dec (unat M) = d # ds" "is_ascii_digit d"
    using dec_digits [of "unat M"] dec_nonempty [of "unat M"] by (cases "dec (unat M)") auto
  then obtain tl' where cons: "tx = d # tl'" using tx by (auto simp: core_text_def)
  have lead: "skip_while is_version_lead tx 0 = 0"
    using digit_not [OF d(2)] cons by (simp add: skip_while_def)
  have nsuf: "suffix_text pre build = [] \<or> \<not> is_ascii_digit (hd (suffix_text pre build))"
    by (simp add: suffix_text_def is_ascii_digit_def)
  define v where "v = \<lparr>p_major = Some M, p_minor = Some m, p_patch = Some p, p_tag = tag_default\<rparr>"
  define r where "r = parse_result_default\<lparr>pr_version := v\<rparr>"
  have loop: "parse_loop h s 0 0 parse_result_default = parse_loop h s n 3 r"
    using parse_loop_core [of s M m p "suffix_text pre build" h parse_result_default] s tx nsuf
    by (simp add: n_def r_def v_def parse_result_default_def partial_default_def)
  have ntext: "length tx = n + length (suffix_text pre build)" using tx by (simp add: n_def)
  show ?thesis
  proof (cases "suffix_text pre build = []")
    case True
    then have e: "pre = []" "build = []" by (auto simp: suffix_text_def split: if_splits)
    have "parse_loop h s n 3 r = (n, 3, r)" using s ntext True by (subst parse_loop.simps) simp
    then have "parse_utf8 h tx = Ret (r\<lparr>pr_wildcard := WNone, pr_len := n\<rparr>)"
      using loop lead cons len ntext True s_def
      by (simp add: parse_utf8_def version_parse_def sliced_whole_def expect_u32_def r_def
          parse_result_default_def)
    then show ?thesis using e ntext True
      by (simp add: r_def v_def parse_result_default_def tag_default_def has_pre_def has_build_def)
  next
    case False
    define q where "q = sliced_sub s n (length tx)"
    define k where "k = (if pre = [] then 0 else Suc (length pre))"
    have q: "sl_slice q = suffix_text pre build" "sl_off q = n"
      using s tx by (simp_all add: q_def sliced_sub_def n_def)
    define t where "t = tr_tag (tag_parse h q)"
    have tp: "tag_parse h q = \<lparr>tr_tag = t, tr_len = length (suffix_text pre build)\<rparr>"
      and t: "t = \<lparr>tag_pre = (if pre = [] then external_default else sliced_external h (sliced_sub q 1 k)),
               tag_build = (if build = [] then external_default
                            else sliced_external h (sliced_sub q (k + 1) (length (suffix_text pre build))))\<rparr>"
      using tag_parse_suffix [OF q(1) False pre build, of h] len ntext by (simp_all add: t_def k_def)
    obtain c cs where c: "suffix_text pre build = c # cs" "c = 43 \<or> c = 45"
      using False by (auto simp: suffix_text_def split: if_splits)
    have nn: "n < length tx" "tx ! n = c" using tx c by (simp_all add: n_def nth_append)
    have "parse_loop h s n 3 r = (length tx, 3, r\<lparr>pr_version := v\<lparr>p_tag := t\<rparr>\<rparr>)"
      using s nn c(2) tp ntext unfolding q_def
      by (subst parse_loop.simps) (auto simp: Let_def r_def is_ascii_digit_def)
    then have "parse_utf8 h tx = Ret (r\<lparr>pr_version := v\<lparr>p_tag := t\<rparr>, pr_wildcard := WNone, pr_len := length tx\<rparr>)"
      using loop lead cons len s_def
      by (simp add: parse_utf8_def version_parse_def sliced_whole_def expect_u32_def r_def
          parse_result_default_def)
    moreover have dr: "drop n tx = suffix_text pre build" and nq: "n \<le> length tx"
      using tx by (simp_all add: n_def)
    moreover have "external_slice (tag_pre t) tx = pre"
    proof (cases "pre = []")
      case False
      then have "external_slice (sliced_external h (sliced_sub q 1 k)) tx = pre"
        using q pre dr len ntext nq
        by (intro external_slice_sub pre_char_storable) (simp_all add: suffix_text_def k_def)
      then show ?thesis using False by (simp add: t)
    qed (simp add: t)
    moreover have "external_slice (tag_build t) tx = build"
    proof (cases "build = []")
      case False
      then have "external_slice (sliced_external h (sliced_sub q (k + 1) (length (suffix_text pre build)))) tx = build"
        using q build dr len ntext nq build_char_pre_char
        by (intro external_slice_sub pre_char_storable; cases "pre = []") (simp_all add: suffix_text_def k_def)
      then show ?thesis using False by (simp add: t)
    qed (simp add: t)
    moreover have "has_pre t = (pre \<noteq> [])" "has_build t = (build \<noteq> [])"
      using calculation(4,5) sliced_external_nonempty [of h _ tx]
      by (auto simp: has_pre_def has_build_def t)
    ultimately show ?thesis by (simp add: r_def v_def parse_result_default_def)
  qed
qed


definition printable :: "version \<Rightarrow> bytes \<Rightarrow> bool" where
  "printable v buf \<longleftrightarrow>
     (has_pre (vtag v) \<longleftrightarrow> external_slice (tag_pre (vtag v)) buf \<noteq> []) \<and>
     (has_build (vtag v) \<longleftrightarrow> external_slice (tag_build (vtag v)) buf \<noteq> []) \<and>
     list_all pre_char (external_slice (tag_pre (vtag v)) buf) \<and>
     list_all build_char (external_slice (tag_build (vtag v)) buf) \<and>
     length (version_fmt v buf) < 2 ^ 31"

lemma version_fmt_core:
  assumes "printable v buf"
  shows "version_fmt v buf = core_text (major v) (minor v) (patch v) @
     suffix_text (external_slice (tag_pre (vtag v)) buf) (external_slice (tag_build (vtag v)) buf)"
  using assms by (auto simp: version_fmt_def core_text_def suffix_text_def printable_def)

lemma parse_fmt:
  assumes "printable v buf"
  shows "\<exists>r. parse_utf8 h (version_fmt v buf) = Ret r \<and> pr_valid r \<and> pr_wildcard r = WNone \<and>
     pr_len r = length (version_fmt v buf) \<and>
     precedence_key (partial_min (pr_version r)) (version_fmt v buf) = precedence_key v buf \<and>
     version_fmt (partial_min (pr_version r)) (version_fmt v buf) = version_fmt v buf"
proof -
  define tx where "tx = version_fmt v buf"
  obtain t where t: "parse_utf8 h tx = Ret \<lparr>pr_wildcard = WNone, pr_valid = True,
       pr_version = \<lparr>p_major = Some (major v), p_minor = Some (minor v), p_patch = Some (patch v), p_tag = t\<rparr>,
       pr_len = length tx\<rparr>"
     "external_slice (tag_pre t) tx = external_slice (tag_pre (vtag v)) buf"
     "external_slice (tag_build t) tx = external_slice (tag_build (vtag v)) buf"
     "has_pre t = has_pre (vtag v)" "has_build t = has_build (vtag v)"
    using parse_printed [OF version_fmt_core [OF assms], of h] assms
    unfolding tx_def printable_def list_all_iff by blast
  define w where "w = \<lparr>major = major v, minor = minor v, patch = patch v, vtag = t\<rparr>"
  have "version_fmt w tx = version_fmt v buf" using t by (simp add: w_def version_fmt_def)
  moreover have "precedence_key w tx = precedence_key v buf"
    using t by (simp add: w_def precedence_key_def pre_idents_def)
  ultimately show ?thesis
    using t(1) unfolding tx_def [symmetric] by (simp add: w_def partial_min_def tx_def)
qed

subsection \<open>The parser returns and stays within its input\<close>


lemma tag_loop_len: "fst (tag_loop h s ini rest i state start t) \<le> i + length rest"
proof (induction h s ini rest i state start t rule: tag_loop.induct)
  case (2 h s ini c rest i state start t)
  then show ?case by (auto simp: Let_def split: tag_state.splits)
qed simp

lemma parse_with_pre_count_len: "tr_len (parse_with_pre_count h s ini) \<le> length (sl_slice s)"
proof -
  obtain i st start t where l: "tag_loop h s ini (sl_slice s) 0 TNone 0 tag_default = (i, st, start, t)"
    by (metis prod_cases4)
  then have "i \<le> length (sl_slice s)" using tag_loop_len [of h s ini "sl_slice s" 0 TNone 0 tag_default] by simp
  then have "i mod 2 ^ 32 \<le> length (sl_slice s)" using mod_less_eq_dividend order_trans by blast
  then show ?thesis using l by (auto simp: parse_with_pre_count_def Let_def split: prod.splits)
qed

lemma sliced_sub_len: "length (sl_slice (sliced_sub s i (length (sl_slice s)))) = length (sl_slice s) - i"
  by (simp add: sliced_sub_def)

lemma parse_loop_digit_step:
  assumes "i < length (sl_slice s)" and "is_ascii_digit (sl_slice s ! i)"
  shows "\<exists>j part' res'. i < j \<and> j \<le> length (sl_slice s) \<and>
     p_tag (pr_version res') = p_tag (pr_version res) \<and> parse_loop h s i part_i res = parse_loop h s j part' res'"
proof -
  define j where "j = skip_while is_ascii_digit (sl_slice s) (i + 1)"
  have j: "i < j" "j \<le> length (sl_slice s)"
    using skip_while_ge [of "i + 1" is_ascii_digit "sl_slice s"]
      skip_while_le [of "i + 1" "sl_slice s" is_ascii_digit] assms(1) by (simp_all add: j_def)
  obtain part' v' where st: "store_part part_i (parse_version_number (take (j - i) (drop i (sl_slice s)))) (pr_version res) = (part', v')"
    by fastforce
  then have tg: "p_tag v' = p_tag (pr_version res)" by (auto simp: store_part_def split: if_splits)
  have "parse_loop h s i part_i res = parse_loop h s
      (if j < length (sl_slice s) \<and> sl_slice s ! j = 46 \<and> part' \<noteq> 3 then j + 1 else j) part' (res\<lparr>pr_version := v'\<rparr>)"
    using assms digit_not [OF assms(2)] st [unfolded j_def] unfolding j_def
    by (subst parse_loop.simps) (simp add: Let_def)
  moreover have "i < (if j < length (sl_slice s) \<and> sl_slice s ! j = 46 \<and> part' \<noteq> 3 then j + 1 else j)"
    "(if j < length (sl_slice s) \<and> sl_slice s ! j = 46 \<and> part' \<noteq> 3 then j + 1 else j) \<le> length (sl_slice s)"
    using j by simp_all
  moreover have "p_tag (pr_version (res\<lparr>pr_version := v'\<rparr>)) = p_tag (pr_version res)" using tg by simp
  ultimately show ?thesis by blast
qed

lemma wild_not: "is_wild c \<Longrightarrow> c \<noteq> 32 \<and> c \<notin> {124, 94, 35, 38, 37, 33} \<and> \<not> is_ascii_digit c \<and> c \<noteq> 46 \<and> c \<noteq> 45 \<and> c \<noteq> 43"
  by (auto simp: is_wild_def is_ascii_digit_def)

lemma parse_loop_wild_step:
  assumes "i < length (sl_slice s)" and "is_wild (sl_slice s ! i)"
  shows "\<exists>j part' res'. i < j \<and> j \<le> length (sl_slice s) \<and>
     p_tag (pr_version res') = p_tag (pr_version res) \<and> parse_loop h s i part_i res = parse_loop h s j part' res'"
proof -
  define j where "j = skip_while is_wild (sl_slice s) (i + 1)"
  have j: "i < j" "j \<le> length (sl_slice s)"
    using skip_while_ge [of "i + 1" is_wild "sl_slice s"]
      skip_while_le [of "i + 1" "sl_slice s" is_wild] assms(1) by (simp_all add: j_def)
  obtain part' w' where st: "store_wild part_i (pr_wildcard res) = (part', w')" by fastforce
  have "parse_loop h s i part_i res = parse_loop h s
      (if j < length (sl_slice s) \<and> sl_slice s ! j = 46 then j + 1 else j) part' (res\<lparr>pr_wildcard := w'\<rparr>)"
    using assms wild_not [OF assms(2)] st unfolding j_def
    by (subst parse_loop.simps) (simp add: Let_def)
  moreover have "i < (if j < length (sl_slice s) \<and> sl_slice s ! j = 46 then j + 1 else j)"
    "(if j < length (sl_slice s) \<and> sl_slice s ! j = 46 then j + 1 else j) \<le> length (sl_slice s)"
    using j by simp_all
  moreover have "p_tag (pr_version (res\<lparr>pr_wildcard := w'\<rparr>)) = p_tag (pr_version res)" by simp
  ultimately show ?thesis by blast
qed

text \<open>Digits and wildcards are consumed until a byte that ends the loop.\<close>

lemma parse_loop_run:
  "i \<le> length (sl_slice s) \<Longrightarrow> \<exists>j part' res'. j \<le> length (sl_slice s) \<and>
     p_tag (pr_version res') = p_tag (pr_version res) \<and> parse_loop h s i part_i res = parse_loop h s j part' res' \<and>
     (j < length (sl_slice s) \<longrightarrow> \<not> is_ascii_digit (sl_slice s ! j) \<and> \<not> is_wild (sl_slice s ! j))"
proof (induction "length (sl_slice s) - i" arbitrary: i part_i res rule: less_induct)
  case less
  show ?case
  proof (cases "i < length (sl_slice s) \<and> (is_ascii_digit (sl_slice s ! i) \<or> is_wild (sl_slice s ! i))")
    case True
    then obtain j part' res' where j: "i < j" "j \<le> length (sl_slice s)"
      "p_tag (pr_version res') = p_tag (pr_version res)"
      "parse_loop h s i part_i res = parse_loop h s j part' res'"
      using parse_loop_digit_step [of i s res h part_i] parse_loop_wild_step [of i s res h part_i] by blast
    then have "length (sl_slice s) - j < length (sl_slice s) - i" using True by simp
    then show ?thesis using less.hyps [of j res' part'] j by simp
  next
    case False
    then show ?thesis using less.prems by blast
  qed
qed

lemma parse_loop_stop:
  assumes "i \<le> length (sl_slice s)" and "i < length (sl_slice s) \<Longrightarrow> \<not> is_ascii_digit (sl_slice s ! i) \<and> \<not> is_wild (sl_slice s ! i)"
    and "P (p_tag (pr_version res))" and "\<And>s' ini. P (tr_tag (parse_with_pre_count h s' ini))"
  shows "fst (parse_loop h s i part_i res) \<le> length (sl_slice s) \<and>
     P (p_tag (pr_version (snd (snd (parse_loop h s i part_i res)))))"
proof (cases "i < length (sl_slice s)")
  case True
  have tl: "i + tr_len (parse_with_pre_count h (sliced_sub s i (length (sl_slice s))) ini) \<le> length (sl_slice s)" for ini
    using parse_with_pre_count_len [of h "sliced_sub s i (length (sl_slice s))" ini] sliced_sub_len [of s i] True by simp
  show ?thesis
    using True assms(2) [OF True] tl [of 0] tl [of 1] assms(3) assms(4)
    by (subst (1 2) parse_loop.simps) (auto simp: Let_def tag_parse_def)
next
  case False
  then show ?thesis using assms by (subst (1 2) parse_loop.simps) simp
qed

lemma parse_loop_ends:
  assumes "i \<le> length (sl_slice s)" and "P (p_tag (pr_version res))"
    and "\<And>s' ini. P (tr_tag (parse_with_pre_count h s' ini))"
  shows "fst (parse_loop h s i part_i res) \<le> length (sl_slice s) \<and>
     P (p_tag (pr_version (snd (snd (parse_loop h s i part_i res)))))"
proof -
  obtain j part' res' where "j \<le> length (sl_slice s)"
     "p_tag (pr_version res') = p_tag (pr_version res)" "parse_loop h s i part_i res = parse_loop h s j part' res'"
     "j < length (sl_slice s) \<longrightarrow> \<not> is_ascii_digit (sl_slice s ! j) \<and> \<not> is_wild (sl_slice s ! j)"
    using parse_loop_run [OF assms(1), of res h part_i] by blast
  then show ?thesis using parse_loop_stop [of j s P res' h part'] assms(2,3) by simp
qed

lemma version_parse_tag:
  assumes "version_parse h s = Ret r" and "P tag_default" and "\<And>s' ini. P (tr_tag (parse_with_pre_count h s' ini))"
  shows "P (p_tag (pr_version r))"
proof -
  have "skip_while is_version_lead (sl_slice s) 0 \<le> length (sl_slice s)" by (rule skip_while_le) simp
  moreover have d: "p_tag (pr_version parse_result_default) = tag_default"
    by (simp add: parse_result_default_def partial_default_def)
  ultimately have "P (p_tag (pr_version (snd (snd (parse_loop h s (skip_while is_version_lead (sl_slice s) 0) 0 parse_result_default)))))"
    using parse_loop_ends [of "skip_while is_version_lead (sl_slice s) 0" s P parse_result_default h 0] assms(2,3) by simp
  then show ?thesis
    using assms(1,2) d by (auto simp: version_parse_def Let_def bind_outcome_eq_Ret split: if_splits prod.splits)
qed

text \<open>Every handle the parser makes has eight bytes.\<close>

definition tag8 :: "tag \<Rightarrow> bool" where
  "tag8 t \<longleftrightarrow> string8 (es_value (tag_pre t)) \<and> string8 (es_value (tag_build t))"

lemma version8_tag8: "version8 v \<longleftrightarrow> tag8 (vtag v)"
  by (simp add: version8_def tag8_def)

lemma tag8_default [simp]: "tag8 tag_default"
  by (simp add: tag8_def tag_default_def external_default_def)

lemma tag8_update [simp]:
  "tag8 t \<Longrightarrow> tag8 (t\<lparr>tag_pre := sliced_external h s\<rparr>)"
  "tag8 t \<Longrightarrow> tag8 (t\<lparr>tag_build := sliced_external h s\<rparr>)"
  by (simp_all add: tag8_def sliced_external_def external_init_def)

lemma tag_loop_tag8: "tag_loop h s ini rest i state start t = (i', st', start', t') \<Longrightarrow> tag8 t \<Longrightarrow> tag8 t'"
proof (induction h s ini rest i state start t rule: tag_loop.induct)
  case (2 h s ini c rest i state start t)
  then show ?case by (auto simp: Let_def split: if_splits tag_state.splits)
qed simp

lemma parse_with_pre_count_tag8 [simp]: "tag8 (tr_tag (parse_with_pre_count h s ini))"
  by (auto simp: parse_with_pre_count_def Let_def split: prod.splits tag_state.splits
      dest: tag_loop_tag8)

lemma version_parse_tag8: "version_parse h s = Ret r \<Longrightarrow> tag8 (p_tag (pr_version r))"
  by (erule version_parse_tag) simp_all

lemma version_parse_total:
  assumes "length (sl_slice s) < 2 ^ 32"
  shows "\<exists>r. version_parse h s = Ret r \<and> pr_len r \<le> length (sl_slice s)"
proof -
  define i where "i = skip_while is_version_lead (sl_slice s) 0"
  have i: "i \<le> length (sl_slice s)" using skip_while_le [of 0 "sl_slice s" is_version_lead] by (simp add: i_def)
  obtain j p r where l: "parse_loop h s i 0 parse_result_default = (j, p, r)" by (metis prod_cases3)
  have "j \<le> length (sl_slice s)" using parse_loop_ends [OF i, of "\<lambda>_. True" parse_result_default h 0] l by simp
  then show ?thesis using assms l i unfolding i_def
    by (simp add: version_parse_def Let_def expect_u32_def parse_result_default_def)
qed

lemma version_parse_long:
  assumes "2 ^ 32 \<le> length (sl_slice s)" and "list_all is_version_lead (sl_slice s)"
  shows "version_parse h s = Panic"
proof -
  have "skip_while is_version_lead (sl_slice s) 0 = length (sl_slice s)"
    using assms(2) by (simp add: skip_while_def takeWhile_eq_all_conv [THEN iffD2] list_all_iff)
  moreover have "sl_slice s \<noteq> []" using assms(1) by auto
  ultimately show ?thesis using assms(1) by (simp add: version_parse_def expect_u32_def)
qed

lemma external_slice_sliced:
  assumes "storable (sl_slice s)" and "sl_off s < 2 ^ 32"
    and "get_range buf (sl_off s) (length (sl_slice s)) = Some (sl_slice s)"
  shows "external_slice (sliced_external h s) buf = sl_slice s"
  using string_slice_init [OF assms]
  by (simp add: external_slice_def sliced_external_def external_init_def)

text \<open>The rules that run the parser on a literal.\<close>

lemmas parse_eval = parse_utf8_def version_parse_def Let_def external_slice_sliced storable_def get_range_def sliced_whole_def parse_loop.simps skip_while_def
  is_version_lead_def is_ascii_digit_def is_ascii_alphabetic_def is_ascii_alphanumeric_def is_wild_def
  store_part_def store_wild_def expect_u32_def parse_result_default_def partial_default_def
  parse_with_pre_count_def tag_parse_def sliced_sub_def parse_version_number_def parse_ascii_def
  parse_unsigned_def auto_radix_def parse_with_sign_def digit_value_def tag_default_def

lemma rc_build_swallowed:
  "\<exists>r. parse_utf8 h (bs ''1.0.0rc1+b x'') = Ret r \<and>
     external_slice (tag_pre (p_tag (pr_version r))) (bs ''1.0.0rc1+b x'') = bs ''rc1+b''"
  by (simp add: parse_eval)

lemma hyphen_in_build:
  "\<exists>r. parse_utf8 h (bs ''1.0.0+a-1'') = Ret r \<and>
     external_slice (tag_pre (p_tag (pr_version r))) (bs ''1.0.0+a-1'') = bs ''1''"
  by (simp add: parse_eval)

subsection \<open>Properties\<close>





end
