(* ===== verification/SemverQuery.thy ===== *)
theory SemverQuery
  imports SemverRange SemverVersionParse
begin

text \<open>
  Queries (\<open>src/src/semver/SemverQuery.rs\<close>): a chain of ranges that must all hold, a chain of such
  chains of which one must hold, the group that owns them, the desugaring of a token to a
  range, and the parser of a version query. The raw back pointers \<open>tail\<close> are the index of the
  node they refer to in the chain that the structure owns, \<open>None\<close> for no pointer.
\<close>

subsection \<open>Data\<close>

datatype query = Query (q_range: range) (q_next: "query option")

datatype qlist = QList (l_head: query) (l_tail: "nat option") (l_next: "qlist option")

record group =
  g_head :: qlist
  g_tail :: "nat option"
  g_input :: bytes
  g_flags :: "nat set"

definition FLAG_PRE :: nat where "FLAG_PRE = 1"

definition FLAG_BUILD :: nat where "FLAG_BUILD = 0"

definition query_default :: query where
  "query_default = Query range_default None"

definition list_default :: qlist where
  "list_default = QList query_default None None"

definition group_default :: group where
  "group_default = \<lparr>g_head = list_default, g_tail = None, g_input = [], g_flags = {}\<rparr>"

subsection \<open>Chains of ranges\<close>

fun query_clone :: "query \<Rightarrow> query" where
  "query_clone (Query r None) = Query r None"
| "query_clone (Query r (Some n)) = Query r (Some (query_clone n))"

fun query_eql :: "query \<Rightarrow> query \<Rightarrow> bool" where
  "query_eql (Query l ln) (Query r rn) =
     (if \<not> range_eql l r then False
      else case ln of
        None \<Rightarrow> rn = None
      | Some l' \<Rightarrow> (case rn of None \<Rightarrow> False | Some r' \<Rightarrow> query_eql l' r'))"

fun query_satisfies :: "query \<Rightarrow> version \<Rightarrow> bytes \<Rightarrow> bytes \<Rightarrow> bool" where
  "query_satisfies (Query r n) v qb vb =
     (if \<not> range_satisfies r v qb vb then False
      else case n of Some q \<Rightarrow> query_satisfies q v qb vb | None \<Rightarrow> True)"

fun query_satisfies_pre :: "query \<Rightarrow> version \<Rightarrow> bytes \<Rightarrow> bytes \<Rightarrow> bool \<Rightarrow> bool \<times> bool" where
  "query_satisfies_pre (Query r n) v qb vb pre_matched =
     (case range_satisfies_pre r v qb vb pre_matched of (ok, pm) \<Rightarrow>
        if \<not> ok then (False, pm)
        else case n of Some q \<Rightarrow> query_satisfies_pre q v qb vb pm | None \<Rightarrow> (True, pm))"

definition query_fmt :: "query \<Rightarrow> bytes \<Rightarrow> bytes" where
  "query_fmt q buf =
     (case q_next q of
        Some n \<Rightarrow> if has_left (q_range n) \<or> has_right (q_range n)
          then range_fmt (q_range q) buf @ bs '' && '' @ range_fmt (q_range n) buf
          else range_fmt (q_range q) buf
      | None \<Rightarrow> range_fmt (q_range q) buf)"

text \<open>\<open>node.next = Some(Box::new(tail))\<close> for the node at an index of the chain.\<close>

fun query_set_next :: "nat \<Rightarrow> query \<Rightarrow> query \<Rightarrow> query" where
  "query_set_next 0 new (Query r n) = Query r (Some new)"
| "query_set_next (Suc k) new (Query r (Some q)) = Query r (Some (query_set_next k new q))"
| "query_set_next (Suc k) new (Query r None) = Query r None"

text \<open>The index of the last node, as the loops of the \<open>clone\<close> functions find it.\<close>

fun query_last :: "query \<Rightarrow> nat" where
  "query_last (Query r None) = 0"
| "query_last (Query r (Some q)) = Suc (query_last q)"

subsection \<open>Chains of alternatives\<close>

definition clone_tail :: "query \<Rightarrow> nat option" where
  "clone_tail q = (if q_next q = None then None else Some (query_last q))"

fun list_clone :: "qlist \<Rightarrow> qlist" where
  "list_clone (QList q t None) = QList (query_clone q) (clone_tail (query_clone q)) None"
| "list_clone (QList q t (Some n)) = QList (query_clone q) (clone_tail (query_clone q)) (Some (list_clone n))"

fun list_satisfies :: "qlist \<Rightarrow> version \<Rightarrow> bytes \<Rightarrow> bytes \<Rightarrow> bool" where
  "list_satisfies (QList q t n) v lb vb =
     (if query_satisfies q v lb vb then True
      else case n of Some l \<Rightarrow> list_satisfies l v lb vb | None \<Rightarrow> False)"

fun list_satisfies_pre :: "qlist \<Rightarrow> version \<Rightarrow> bytes \<Rightarrow> bytes \<Rightarrow> bool" where
  "list_satisfies_pre (QList q t n) v lb vb =
     (case query_satisfies_pre q v lb vb False of (ok, pm) \<Rightarrow>
        if ok \<and> pm then True
        else case n of Some l \<Rightarrow> list_satisfies_pre l v lb vb | None \<Rightarrow> False)"

fun list_eql :: "qlist \<Rightarrow> qlist \<Rightarrow> bool" where
  "list_eql (QList l lt ln) (QList r rt rn) =
     (if \<not> query_eql l r then False
      else case ln of
        None \<Rightarrow> rn = None
      | Some l' \<Rightarrow> (case rn of None \<Rightarrow> False | Some r' \<Rightarrow> list_eql l' r'))"

fun list_fmt :: "qlist \<Rightarrow> bytes \<Rightarrow> bytes" where
  "list_fmt (QList q t (Some n)) buf = query_fmt q buf @ bs '' || '' @ list_fmt n buf"
| "list_fmt (QList q t None) buf = query_fmt q buf"

definition list_and_range :: "qlist \<Rightarrow> range \<Rightarrow> qlist" where
  "list_and_range l r =
     (case l of QList q t n \<Rightarrow>
        if \<not> has_left (q_range q) \<and> \<not> has_right (q_range q) then QList (Query r (q_next q)) t n
        else let last_tail = (case t of Some p \<Rightarrow> p | None \<Rightarrow> 0) in
          QList (query_set_next last_tail (Query r None) q) (Some (Suc last_tail)) n)"

subsection \<open>Groups\<close>

text \<open>A write through the \<open>tail\<close> pointer of a group: \<open>f\<close> on the list at an index.\<close>

fun list_update_at :: "nat \<Rightarrow> (qlist \<Rightarrow> qlist) \<Rightarrow> qlist \<Rightarrow> qlist" where
  "list_update_at 0 f l = f l"
| "list_update_at (Suc k) f (QList q t (Some n)) = QList q t (Some (list_update_at k f n))"
| "list_update_at (Suc k) f (QList q t None) = QList q t None"

definition list_set_next :: "qlist \<Rightarrow> qlist \<Rightarrow> qlist" where
  "list_set_next new l = QList (l_head l) (l_tail l) (Some new)"

fun list_last :: "qlist \<Rightarrow> nat" where
  "list_last (QList q t None) = 0"
| "list_last (QList q t (Some n)) = Suc (list_last n)"

definition group_clone :: "group \<Rightarrow> group" where
  "group_clone g =
     (let head = list_clone (g_head g) in
      \<lparr>g_head = head, g_tail = (if l_next head = None then None else Some (list_last head)),
       g_input = g_input g, g_flags = g_flags g\<rparr>)"

definition first_range :: "group \<Rightarrow> range" where
  "first_range g = q_range (l_head (g_head g))"

definition group_push :: "group \<Rightarrow> qlist \<Rightarrow> group" where
  "group_push g new_tail =
     (let prev_tail = (case g_tail g of Some p \<Rightarrow> p | None \<Rightarrow> 0) in
      g\<lparr>g_head := list_update_at prev_tail (list_set_next new_tail) (g_head g),
        g_tail := Some (Suc prev_tail)\<rparr>)"

definition set_first_range :: "group \<Rightarrow> range \<Rightarrow> group" where
  "set_first_range g r =
     (case g_head g of QList (Query _ qn) t n \<Rightarrow> g\<lparr>g_head := QList (Query r qn) t n\<rparr>)"

definition get_exact_version :: "group \<Rightarrow> version option" where
  "get_exact_version g =
     (let r = first_range g in
      if l_next (g_head g) = None \<and> q_next (l_head (g_head g)) = None \<and> has_left r
         \<and> c_op (r_left r) = OpEql \<and> \<not> has_right r
      then Some (c_version (r_left r)) else None)"

definition group_from :: "version \<Rightarrow> group" where
  "group_from v =
     group_default\<lparr>g_head :=
       QList (Query (range_default\<lparr>r_left := \<lparr>c_op = OpEql, c_version = v\<rparr>\<rparr>) None) None None\<rparr>"

definition is_exact :: "group \<Rightarrow> bool" where
  "is_exact g \<longleftrightarrow> l_next (g_head g) = None \<and> q_next (l_head (g_head g)) = None
     \<and> \<not> has_right (first_range g) \<and> c_op (r_left (first_range g)) = OpEql"

definition is_star :: "group \<Rightarrow> bool" where
  "is_star g \<longleftrightarrow> c_op (r_right (first_range g)) = OpUnset \<and> c_op (r_left (first_range g)) = OpGte
     \<and> l_next (g_head g) = None \<and> q_next (l_head (g_head g)) = None
     \<and> is_zero (c_version (r_left (first_range g))) \<and> FLAG_BUILD \<notin> g_flags g"

definition group_eql :: "group \<Rightarrow> group \<Rightarrow> bool" where
  "group_eql l r \<longleftrightarrow> list_eql (g_head l) (g_head r)"

definition to_version :: "group \<Rightarrow> version" where
  "to_version g = c_version (r_left (first_range g))"

definition or_version :: "group \<Rightarrow> version \<Rightarrow> group" where
  "or_version g v =
     (let set_left = (\<lambda>r. r\<lparr>r_left := \<lparr>c_op = OpEql, c_version = v\<rparr>\<rparr>) in
      if g_tail g = None \<and> \<not> has_left (first_range g) then set_first_range g (set_left (first_range g))
      else group_push g (QList (Query (set_left range_default) None) None None))"

definition group_and_range :: "group \<Rightarrow> range \<Rightarrow> group" where
  "group_and_range g r =
     (let tail = (case g_tail g of Some p \<Rightarrow> p | None \<Rightarrow> 0) in
      g\<lparr>g_head := list_update_at tail (\<lambda>l. list_and_range l r) (g_head g)\<rparr>)"

definition or_range :: "group \<Rightarrow> range \<Rightarrow> group" where
  "or_range g r =
     (if g_tail g = None \<and> l_tail (g_head g) = None \<and> \<not> has_left (first_range g)
      then set_first_range g r
      else group_push g (QList (Query r None) None None))"

definition group_satisfies :: "group \<Rightarrow> version \<Rightarrow> bytes \<Rightarrow> bytes \<Rightarrow> bool" where
  "group_satisfies g v group_buf version_buf =
     (if has_pre (vtag v) then list_satisfies_pre (g_head g) v group_buf version_buf
      else list_satisfies (g_head g) v group_buf version_buf)"

definition group_is_empty :: "group \<Rightarrow> bool" where
  "group_is_empty g \<longleftrightarrow> l_next (g_head g) = None \<and> q_next (l_head (g_head g)) = None
     \<and> \<not> has_left (first_range g)"

definition satisfies_including_prerelease :: "group \<Rightarrow> version \<Rightarrow> bytes \<Rightarrow> bytes \<Rightarrow> bool" where
  "satisfies_including_prerelease g v group_buf version_buf = list_satisfies (g_head g) v group_buf version_buf"

fun group_fmt_lists :: "qlist \<Rightarrow> bytes \<Rightarrow> bytes" where
  "group_fmt_lists (QList q t (Some n)) buf =
     list_fmt (QList q t (Some n)) buf @ bs '' && '' @ group_fmt_lists n buf"
| "group_fmt_lists (QList q t None) buf = list_fmt (QList q t None) buf"

definition group_fmt :: "group \<Rightarrow> bytes \<Rightarrow> bytes" where
  "group_fmt g buf =
     (if g_tail g = None \<and> l_tail (g_head g) = None \<and> \<not> has_left (first_range g) then []
      else if g_tail g = None \<and> l_tail (g_head g) = None then list_fmt (g_head g) buf
      else group_fmt_lists (g_head g) buf)"

subsection \<open>Desugaring a token\<close>

datatype token_tag = TkNone | TkGt | TkGte | TkLt | TkLte | TkVersion | TkTilda | TkCaret

record token =
  tk_tag :: token_tag
  tk_wildcard :: wildcard

definition at_least :: "version \<Rightarrow> comparator" where
  "at_least v = \<lparr>c_op = OpGte, c_version = v\<rparr>"

definition caret_range :: "partial_version \<Rightarrow> range" where
  "caret_range p =
     (case p_major p of
        None \<Rightarrow> range_default
      | Some ma \<Rightarrow>
          (let left0 = version_default\<lparr>major := ma\<rparr> in
           case p_minor p of
             None \<Rightarrow> \<lparr>r_left = at_least left0, r_right = lt_next_major ma\<rparr>
           | Some mi \<Rightarrow>
               (let left1 = left0\<lparr>minor := mi\<rparr> in
                case p_patch p of
                  Some pa \<Rightarrow>
                    \<lparr>r_left = at_least (left1\<lparr>patch := pa, vtag := p_tag p\<rparr>),
                     r_right = (if ma = 0 then (if mi = 0 then lt_next_patch 0 0 pa else lt_next_minor 0 mi)
                                else lt_next_major ma)\<rparr>
                | None \<Rightarrow>
                    \<lparr>r_left = at_least left1,
                     r_right = (if ma = 0 then lt_next_minor 0 mi else lt_next_major ma)\<rparr>)))"

definition tilda_range :: "partial_version \<Rightarrow> range" where
  "tilda_range p =
     (case p_major p of
        None \<Rightarrow> range_default
      | Some ma \<Rightarrow>
          (let left0 = version_default\<lparr>major := ma\<rparr> in
           case p_minor p of
             None \<Rightarrow> \<lparr>r_left = at_least left0, r_right = lt_next_major ma\<rparr>
           | Some mi \<Rightarrow>
               \<lparr>r_left = at_least (case p_patch p of
                    Some pa \<Rightarrow> left0\<lparr>minor := mi, patch := pa, vtag := p_tag p\<rparr>
                  | None \<Rightarrow> left0\<lparr>minor := mi\<rparr>),
                r_right = lt_next_minor ma mi\<rparr>))"

definition single :: "op \<Rightarrow> version \<Rightarrow> range" where
  "single o' v = range_default\<lparr>r_left := \<lparr>c_op = o', c_version = v\<rparr>\<rparr>"

definition core :: "u64 \<Rightarrow> u64 \<Rightarrow> u64 \<Rightarrow> version" where
  "core ma mi pa = version_default\<lparr>major := ma, minor := mi, patch := pa\<rparr>"

definition to_range :: "token \<Rightarrow> partial_version \<Rightarrow> range outcome" where
  "to_range t p =
     (case tk_tag t of
        TkCaret \<Rightarrow> Ret (caret_range p)
      | TkTilda \<Rightarrow> Ret (tilda_range p)
      | TkNone \<Rightarrow> Panic
      | TkVersion \<Rightarrow>
          if tk_wildcard t \<noteq> WNone then Ret (init_wildcard (partial_min p) (tk_wildcard t))
          else Ret (single OpEql (partial_min p))
      | cmp_tag \<Rightarrow>
          (let ma = unwrap_or (p_major p) 0; mi = unwrap_or (p_minor p) 0 in
           case tk_wildcard t of
             WMajor \<Rightarrow> Ret \<lparr>r_left = at_least (partial_min p),
                 r_right = \<lparr>c_op = OpLte, c_version = core u64_max u64_max u64_max\<rparr>\<rparr>
           | WMinor \<Rightarrow>
               (case cmp_tag of
                  TkLte \<Rightarrow> Ret (single OpLte (core ma u64_max u64_max))
                | TkLt \<Rightarrow> Ret (single OpLt (core ma 0 0))
                | TkGt \<Rightarrow> Ret (single OpGt (core ma u64_max u64_max))
                | TkGte \<Rightarrow> Ret (single OpGte (core ma 0 0))
                | _ \<Rightarrow> Panic)
           | WPatch \<Rightarrow>
               (case cmp_tag of
                  TkLte \<Rightarrow> Ret (single OpLte (core ma mi u64_max))
                | TkLt \<Rightarrow> Ret (single OpLt (core ma mi 0))
                | TkGt \<Rightarrow> Ret (single OpGt (core ma mi u64_max))
                | TkGte \<Rightarrow> Ret (single OpGte (core ma mi 0))
                | _ \<Rightarrow> Panic)
           | WNone \<Rightarrow>
               (case cmp_tag of
                  TkGt \<Rightarrow> Ret (single OpGt (partial_min p))
                | TkGte \<Rightarrow> Ret (single OpGte (partial_min p))
                | TkLt \<Rightarrow> Ret (single OpLt (partial_min p))
                | TkLte \<Rightarrow> Ret (single OpLte (partial_min p))
                | _ \<Rightarrow> Panic)))"

subsection \<open>Parsing a query\<close>

record parse_state =
  ps_i :: nat
  ps_list :: group
  ps_token :: token
  ps_count :: u32
  ps_or :: bool

definition skip_spaces :: "bytes \<Rightarrow> nat \<Rightarrow> nat" where
  "skip_spaces input i = skip_while (\<lambda>c. c = 32) input i"

definition is_version_start :: "u8 \<Rightarrow> bool" where
  "is_version_start c \<longleftrightarrow> is_ascii_digit c \<or> c = 88 \<or> c = 120 \<or> c = 42"

text \<open>
  The \<open>match\<close> on \<open>input[i]\<close>: the new index, the token's tag, \<open>is_or\<close> and \<open>skip_round\<close>.
\<close>

definition parse_lead :: "bytes \<Rightarrow> nat \<Rightarrow> token_tag \<Rightarrow> bool \<Rightarrow> nat \<times> token_tag \<times> bool \<times> bool" where
  "parse_lead input i tg is_or =
     (let c = input ! i; eq = (i + 1 < length input \<and> input ! (i + 1) = 61) in
      if c = 62 then
        (if eq then (skip_spaces input (i + 2), TkGte, is_or, False)
         else (skip_spaces input (i + 1), TkGt, is_or, False))
      else if c = 60 then
        (if eq then (skip_spaces input (i + 2), TkLte, is_or, False)
         else (skip_spaces input (i + 1), TkLt, is_or, False))
      else if c = 61 \<or> c = 118 then (skip_spaces input (i + 1), TkVersion, True, False)
      else if c = 126 then
        (let j = (if i + 1 < length input \<and> input ! (i + 1) = 62 then i + 2 else i + 1) in
         (skip_spaces input j, TkTilda, is_or, False))
      else if c = 94 then (skip_spaces input (i + 1), TkCaret, is_or, False)
      else if is_version_start c then (i, TkVersion, True, False)
      else if c = 124 then
        (skip_spaces input (skip_while (\<lambda>c. c = 124) input (i + 1)), TkNone, True, True)
      else if c = 45 then (skip_spaces input (i + 1), tg, is_or, False)
      else if c = 32 then (skip_spaces input (i + 1), tg, is_or, True)
      else (skip_while (\<lambda>c. c \<noteq> 32 \<and> c \<noteq> 124) input (i + 1), TkNone, is_or, True))"

text \<open>The block \<open>'possibly_hyphenate\<close>: where the second version starts, if there is one.\<close>

definition possibly_hyphenate :: "bytes \<Rightarrow> nat \<Rightarrow> nat option" where
  "possibly_hyphenate input i0 =
     (let ws = (\<lambda>i. i + length_of_leading_whitespace_ascii (drop i input));
          n = length input; i1 = ws i0 in
      if \<not> (i1 < n \<and> input ! i1 = 45) then None
      else let i2 = ws (i1 + 1) in
        if i2 = n then None
        else let i3 = (if input ! i2 = 118 \<or> input ! i2 = 61 then i2 + 1 else i2) in
          if i3 = n then None
          else let i4 = ws i3 in
            if i4 = n then None
            else if \<not> is_version_start (input ! i4) then None
            else Some i4)"

definition hyphen_range :: "version \<Rightarrow> wildcard \<Rightarrow> version \<Rightarrow> range" where
  "hyphen_range v w second =
     (case w of
        WMajor \<Rightarrow> range_default\<lparr>r_left := at_least v\<rparr>
      | WMinor \<Rightarrow> \<lparr>r_left = at_least v,
          r_right = (case checked_succ_u64 (major second) of
             Some m \<Rightarrow> \<lparr>c_op = OpLt, c_version = second\<lparr>major := m, minor := 0, patch := 0\<rparr>\<rparr>
           | None \<Rightarrow> lt_next_major (major second))\<rparr>
      | WPatch \<Rightarrow> \<lparr>r_left = at_least v,
          r_right = (case checked_succ_u64 (minor second) of
             Some m \<Rightarrow> \<lparr>c_op = OpLt, c_version = second\<lparr>minor := m, patch := 0\<rparr>\<rparr>
           | None \<Rightarrow> lt_next_minor (major second) (minor second))\<rparr>
      | WNone \<Rightarrow> \<lparr>r_left = at_least v, r_right = \<lparr>c_op = OpLte, c_version = second\<rparr>\<rparr>)"

definition add_flags :: "tag \<Rightarrow> group \<Rightarrow> group" where
  "add_flags t g =
     (let g1 = (if has_build t then g\<lparr>g_flags := insert FLAG_BUILD (g_flags g)\<rparr> else g) in
      if has_pre t then g1\<lparr>g_flags := insert FLAG_PRE (g_flags g1)\<rparr> else g1)"

text \<open>The comparator of one chunk, where the chunk is not a hyphen range.\<close>

definition add_comparator :: "parse_result \<Rightarrow> parse_state \<Rightarrow> group outcome" where
  "add_comparator pr st =
     (let g = ps_list st; t = ps_token st in
      if ps_count st = 0 \<and> tk_tag t = TkVersion then
        (case pr_wildcard pr of
           WNone \<Rightarrow> Ret (or_version g (partial_min (pr_version pr)))
         | _ \<Rightarrow> bind_outcome (to_range t (pr_version pr)) (\<lambda>r. Ret (or_range g r)))
      else if ps_count st = 0 then bind_outcome (to_range t (pr_version pr)) (\<lambda>r. Ret (group_and_range g r))
      else if ps_or st then bind_outcome (to_range t (pr_version pr)) (\<lambda>r. Ret (or_range g r))
      else bind_outcome (to_range t (pr_version pr)) (\<lambda>r. Ret (group_and_range g r)))"

text \<open>The end of a round that added a range.\<close>

definition end_round :: "nat \<Rightarrow> group \<Rightarrow> parse_state \<Rightarrow> parse_state" where
  "end_round i g st =
     st\<lparr>ps_i := i, ps_list := g, ps_or := False, ps_count := ps_count st + 1,
        ps_token := (ps_token st)\<lparr>tk_wildcard := WNone\<rparr>\<rparr>"

text \<open>
  The part under \<open>if !skip_round\<close>. The sliced string \<open>s\<close> is \<open>sliced.sub(input)\<close>.
\<close>

definition parse_chunk :: "(bytes \<Rightarrow> u64) \<Rightarrow> sliced_string \<Rightarrow> parse_state \<Rightarrow> parse_state outcome" where
  "parse_chunk h s st =
     (let input = sl_slice s; n = length input in
      bind_outcome (version_parse h (sliced_sub s (ps_i st) n)) (\<lambda>pr.
        let v = partial_min (pr_version pr);
            st1 = st\<lparr>ps_list := add_flags (vtag v) (ps_list st),
                     ps_token := (ps_token st)\<lparr>tk_wildcard := pr_wildcard pr\<rparr>\<rparr>;
            i = ps_i st + pr_len pr;
            maybe_hyphenate = (i < n \<and> (input ! i = 32 \<or> input ! i = 45))
        in case (if maybe_hyphenate then possibly_hyphenate input i else None) of
             Some j \<Rightarrow>
               bind_outcome (version_parse h (sliced_sub s j n)) (\<lambda>pr2.
                 let second = partial_min (pr_version pr2);
                     g = add_flags (vtag second) (ps_list st1);
                     r = hyphen_range v (pr_wildcard pr2) second;
                     g' = (if ps_or st1 then or_range g r else group_and_range g r)
                 in Ret (end_round (j + (pr_len pr2 + 1)) g' st1))
           | None \<Rightarrow>
               if tk_tag (ps_token st1) = TkNone
               then Ret (st1\<lparr>ps_i := i + 1, ps_token := (ps_token st1)\<lparr>tk_wildcard := WNone\<rparr>\<rparr>)
               else bind_outcome (add_comparator pr st1) (\<lambda>g. Ret (end_round (i + 1) g st1))))"

definition parse_round :: "(bytes \<Rightarrow> u64) \<Rightarrow> sliced_string \<Rightarrow> parse_state \<Rightarrow> parse_state outcome" where
  "parse_round h s st =
     (case parse_lead (sl_slice s) (ps_i st) (tk_tag (ps_token st)) (ps_or st) of
        (i, tg, is_or, skip_round) \<Rightarrow>
          (let st' = st\<lparr>ps_i := i, ps_or := is_or, ps_token := (ps_token st)\<lparr>tk_tag := tg\<rparr>\<rparr> in
           if skip_round then Ret st' else parse_chunk h s st'))"

lemma skip_while_ge_trans: "a \<le> i \<Longrightarrow> a \<le> skip_while p input i"
  using skip_while_ge [of i p input] by simp

lemma parse_lead_progress:
  assumes "parse_lead input i tg is_or = (i', tg', is_or', skip)"
  shows "i \<le> i' \<and> (skip \<longrightarrow> i < i')"
  using assms
  by (auto simp: parse_lead_def skip_spaces_def Let_def Suc_le_eq [symmetric] intro!: skip_while_ge_trans
      split: if_splits)

lemma possibly_hyphenate_progress: "possibly_hyphenate input i = Some j \<Longrightarrow> i < j"
  by (auto simp: possibly_hyphenate_def Let_def split: if_splits)

lemma parse_chunk_progress:
  assumes "parse_chunk h s st = Ret st'"
  shows "ps_i st < ps_i st'"
  using assms
  by (auto simp: parse_chunk_def Let_def bind_outcome_eq_Ret end_round_def
      dest!: possibly_hyphenate_progress split: if_splits option.splits)

lemma parse_round_progress: "parse_round h s st = Ret st' \<Longrightarrow> ps_i st < ps_i st'"
  by (auto simp: parse_round_def Let_def dest!: parse_lead_progress parse_chunk_progress
      split: prod.splits if_splits)

function query_loop :: "(bytes \<Rightarrow> u64) \<Rightarrow> sliced_string \<Rightarrow> parse_state \<Rightarrow> parse_state outcome" where
  "query_loop h s st =
     (if ps_i st < length (sl_slice s) then bind_outcome (parse_round h s st) (query_loop h s)
      else Ret st)"
  by pat_completeness auto
termination
  by (relation "measure (\<lambda>(h, s, st). length (sl_slice s) - ps_i st)")
     (auto dest!: parse_round_progress)

declare query_loop.simps [simp del]

definition query_parse :: "(bytes \<Rightarrow> u64) \<Rightarrow> sliced_string \<Rightarrow> group outcome" where
  "query_parse h s =
     bind_outcome
       (query_loop h s \<lparr>ps_i = 0, ps_list = group_default\<lparr>g_input := sl_slice s\<rparr>,
          ps_token = \<lparr>tk_tag = TkNone, tk_wildcard = WNone\<rparr>, ps_count = 0, ps_or = False\<rparr>)
       (\<lambda>st. Ret (ps_list st))"


subsection \<open>Groups as disjunctions of conjunctions\<close>

fun ranges :: "query \<Rightarrow> range list" where
  "ranges (Query r None) = [r]"
| "ranges (Query r (Some q)) = r # ranges q"

fun alts :: "qlist \<Rightarrow> query list" where
  "alts (QList q t None) = [q]"
| "alts (QList q t (Some n)) = q # alts n"

definition dnf :: "group \<Rightarrow> range list list" where
  "dnf g = map ranges (alts (g_head g))"

lemma ranges_ne [simp]: "ranges q \<noteq> []"
  by (cases q rule: ranges.cases) simp_all

lemma alts_ne [simp]: "alts l \<noteq> []"
  by (cases l rule: alts.cases) simp_all

lemma hd_ranges: "hd (ranges q) = q_range q"
  by (cases q rule: ranges.cases) simp_all

lemma hd_alts: "hd (alts l) = l_head l"
  by (cases l rule: alts.cases) simp_all

lemma query_satisfies_all:
  "query_satisfies q v qb vb \<longleftrightarrow> (\<forall>r \<in> set (ranges q). range_satisfies r v qb vb)"
  by (induction q rule: ranges.induct) simp_all

lemma list_satisfies_ex:
  "list_satisfies l v lb vb \<longleftrightarrow> (\<exists>q \<in> set (alts l). \<forall>r \<in> set (ranges q). range_satisfies r v lb vb)"
  by (induction l rule: alts.induct) (auto simp: query_satisfies_all)

text \<open>The comparators of a range that name a pre-release of the same core version.\<close>

definition range_names_pre :: "version \<Rightarrow> range \<Rightarrow> bool" where
  "range_names_pre v r \<longleftrightarrow> has_left r \<and>
     (same_core_pre v (r_left r) \<or> has_right r \<and> same_core_pre v (r_right r))"

lemma range_satisfies_pre_eq:
  "range_satisfies_pre r v qb vb pm = (range_satisfies r v qb vb, pm \<or> range_names_pre v r)"
  by (auto simp: range_satisfies_pre_def range_satisfies_def range_names_pre_def Let_def)

lemma query_satisfies_pre_eq:
  "query_satisfies_pre q v qb vb pm = (ok, pm') \<Longrightarrow> ok = query_satisfies q v qb vb \<and>
     (ok \<longrightarrow> pm' = (pm \<or> (\<exists>r \<in> set (ranges q). range_names_pre v r)))"
proof (induction q v qb vb pm arbitrary: ok pm' rule: query_satisfies_pre.induct)
  case (1 r n v qb vb pm)
  then show ?case
    by (cases n) (auto simp: range_satisfies_pre_eq split: if_splits)
qed

lemma list_satisfies_pre_ex:
  "list_satisfies_pre l v lb vb \<longleftrightarrow> (\<exists>q \<in> set (alts l). query_satisfies q v lb vb \<and>
     (\<exists>r \<in> set (ranges q). range_names_pre v r))"
proof (induction l v lb vb rule: list_satisfies_pre.induct)
  case (1 q t n v lb vb)
  obtain ok pm where p: "query_satisfies_pre q v lb vb False = (ok, pm)" by fastforce
  show ?case
    using 1 [OF p [symmetric]] query_satisfies_pre_eq [OF p] p by (cases n) auto
qed

lemma group_satisfies_dnf:
  "group_satisfies g v gb vb \<longleftrightarrow>
     (\<exists>rs \<in> set (dnf g). (\<forall>r \<in> set rs. range_satisfies r v gb vb) \<and>
        (has_pre (vtag v) \<longrightarrow> (\<exists>r \<in> set rs. range_names_pre v r)))"
  by (auto simp: group_satisfies_def list_satisfies_ex list_satisfies_pre_ex query_satisfies_all dnf_def)

subsection \<open>The back pointers\<close>

fun tails_ok :: "qlist \<Rightarrow> bool" where
  "tails_ok (QList q t n) \<longleftrightarrow> t = clone_tail q \<and>
     (q_next q = None \<or> has_left (q_range q) \<or> has_right (q_range q)) \<and>
     (case n of None \<Rightarrow> True | Some l \<Rightarrow> tails_ok l)"

definition group_inv :: "group \<Rightarrow> bool" where
  "group_inv g \<longleftrightarrow> tails_ok (g_head g) \<and>
     g_tail g = (if l_next (g_head g) = None then None else Some (list_last (g_head g)))"

lemma query_clone_id [simp]: "query_clone q = q"
  by (induction q rule: query_clone.induct) simp_all

lemma list_clone_id: "tails_ok l \<Longrightarrow> list_clone l = l"
  by (induction l rule: list_clone.induct) simp_all

lemma group_clone_id: "group_inv g \<Longrightarrow> group_clone g = g"
  by (simp add: group_clone_def group_inv_def list_clone_id Let_def)

lemma query_last_len: "query_last q = length (ranges q) - 1" "Suc (query_last q) = length (ranges q)"
  by (induction q rule: ranges.induct) simp_all

lemma list_last_len: "Suc (list_last l) = length (alts l)"
  by (induction l rule: alts.induct) simp_all

lemma set_next_last:
  "ranges (query_set_next (query_last q) (Query r None) q) = ranges q @ [r]"
  "query_last (query_set_next (query_last q) (Query r None) q) = Suc (query_last q)"
  "q_next (query_set_next (query_last q) (Query r None) q) \<noteq> None"
  "q_range (query_set_next (query_last q) (Query r None) q) = q_range q"
  by (induction q rule: query_last.induct) simp_all

lemma tail_index: "(case clone_tail q of Some p \<Rightarrow> p | None \<Rightarrow> 0) = query_last q"
  by (cases q rule: query_last.cases) (simp_all add: clone_tail_def)

text \<open>Conjoining a range: it replaces an unset head, and is added at the end otherwise.\<close>

definition conj_range :: "range list \<Rightarrow> range \<Rightarrow> range list" where
  "conj_range rs r = (if \<not> has_left (hd rs) \<and> \<not> has_right (hd rs) then [r] else rs @ [r])"

lemma list_and_range_spec:
  assumes "tails_ok l"
  shows "ranges (l_head (list_and_range l r)) = conj_range (ranges (l_head l)) r"
    and "l_next (list_and_range l r) = l_next l" and "tails_ok (list_and_range l r)"
proof -
  obtain q t n where l: "l = QList q t n" by (cases l)
  have t: "t = clone_tail q" using assms l by simp
  have eq: "list_and_range l r =
      (if \<not> has_left (q_range q) \<and> \<not> has_right (q_range q) then QList (Query r (q_next q)) (clone_tail q) n
       else QList (query_set_next (query_last q) (Query r None) q) (Some (Suc (query_last q))) n)"
    by (simp add: list_and_range_def l t tail_index Let_def)
  have n: "q_next q = None" if "\<not> has_left (q_range q)" "\<not> has_right (q_range q)" using assms l that by simp
  then show "ranges (l_head (list_and_range l r)) = conj_range (ranges (l_head l)) r"
    unfolding eq by (simp add: l conj_range_def hd_ranges set_next_last)
  show "l_next (list_and_range l r) = l_next l" unfolding eq by (simp add: l)
  show "tails_ok (list_and_range l r)"
    unfolding eq using assms n l by (simp add: set_next_last clone_tail_def)
qed

lemma update_last:
  assumes "tails_ok l" and "\<And>x. tails_ok x \<Longrightarrow> tails_ok (f x)" and "\<And>x. l_next (f x) = l_next x"
  shows "alts (list_update_at (list_last l) f l) = butlast (alts l) @ [l_head (f (QList (last (alts l)) (clone_tail (last (alts l))) None))]"
    and "tails_ok (list_update_at (list_last l) f l)"
    and "list_last (list_update_at (list_last l) f l) = list_last l"
    and "l_next (list_update_at (list_last l) f l) = None \<longleftrightarrow> l_next l = None"
proof -
  have one: "alts x = [l_head x] \<and> list_last x = 0" if "l_next x = None" for x using that by (cases x) simp
  have "alts (list_update_at (list_last l) f l) = butlast (alts l) @ [l_head (f (QList (last (alts l)) (clone_tail (last (alts l))) None))]
      \<and> tails_ok (list_update_at (list_last l) f l) \<and> list_last (list_update_at (list_last l) f l) = list_last l
      \<and> (l_next (list_update_at (list_last l) f l) = None \<longleftrightarrow> l_next l = None)"
    using assms(1)
  proof (induction l rule: list_last.induct)
    case (1 q t)
    then show ?case using assms(2) [of "QList q t None"] assms(3) [of "QList q t None"] one [of "f (QList q t None)"]
      by simp
  next
    case (2 q t n)
    then show ?case by simp
  qed
  then show "alts (list_update_at (list_last l) f l) = butlast (alts l) @ [l_head (f (QList (last (alts l)) (clone_tail (last (alts l))) None))]"
    and "tails_ok (list_update_at (list_last l) f l)"
    and "list_last (list_update_at (list_last l) f l) = list_last l"
    and "l_next (list_update_at (list_last l) f l) = None \<longleftrightarrow> l_next l = None" by blast+
qed

lemma group_tail_index: "group_inv g \<Longrightarrow> (case g_tail g of Some p \<Rightarrow> p | None \<Rightarrow> 0) = list_last (g_head g)"
  by (cases "g_head g" rule: list_last.cases) (simp_all add: group_inv_def)

lemma dnf_ne [simp]: "dnf g \<noteq> []"
  by (simp add: dnf_def)

lemma dnf_parts: "butlast (dnf g) = map ranges (butlast (alts (g_head g)))"
    "last (dnf g) = ranges (last (alts (g_head g)))" "hd (hd (dnf g)) = first_range g"
  by (simp_all add: dnf_def map_butlast last_map hd_map hd_alts hd_ranges first_range_def)

lemma tails_ok_last: "tails_ok l \<Longrightarrow> tails_ok (QList (last (alts l)) (clone_tail (last (alts l))) None)"
  by (induction l rule: alts.induct) simp_all

lemma group_and_range_spec:
  assumes "group_inv g"
  shows "dnf (group_and_range g r) = butlast (dnf g) @ [conj_range (last (dnf g)) r]"
    and "group_inv (group_and_range g r)"
proof -
  note u = update_last [of "g_head g" "\<lambda>l. list_and_range l r"]
  have t: "tails_ok (g_head g)" using assms by (simp add: group_inv_def)
  have f: "tails_ok x \<Longrightarrow> tails_ok (list_and_range x r)" for x by (rule list_and_range_spec(3))
  have n: "l_next (list_and_range x r) = l_next x" for x
    by (cases x) (simp add: list_and_range_def Let_def)
  show "dnf (group_and_range g r) = butlast (dnf g) @ [conj_range (last (dnf g)) r]"
    using u(1) [OF t f n] list_and_range_spec(1) [OF tails_ok_last [OF t], of r]
    by (simp add: group_and_range_def dnf_parts group_tail_index [OF assms] Let_def dnf_def map_butlast last_map)
  have e: "group_and_range g r =
      g\<lparr>g_head := list_update_at (list_last (g_head g)) (\<lambda>l. list_and_range l r) (g_head g)\<rparr>"
    by (simp add: group_and_range_def group_tail_index [OF assms] Let_def)
  show "group_inv (group_and_range g r)"
    unfolding e using u(2-4) [OF t f n] assms by (simp add: group_inv_def)
qed

lemma push_last:
  assumes "tails_ok l"
  shows "alts (list_update_at (list_last l) (list_set_next (QList (Query r None) None None)) l) = alts l @ [Query r None]"
    and "tails_ok (list_update_at (list_last l) (list_set_next (QList (Query r None) None None)) l)"
    and "list_last (list_update_at (list_last l) (list_set_next (QList (Query r None) None None)) l) = Suc (list_last l)"
    and "l_next (list_update_at (list_last l) (list_set_next (QList (Query r None) None None)) l) \<noteq> None"
  using assms by (induction l rule: list_last.induct) (simp_all add: list_set_next_def clone_tail_def)

lemma group_push_spec:
  assumes "group_inv g"
  shows "dnf (group_push g (QList (Query r None) None None)) = dnf g @ [[r]]"
    and "group_inv (group_push g (QList (Query r None) None None))"
proof -
  have e: "group_push g (QList (Query r None) None None) =
      g\<lparr>g_head := list_update_at (list_last (g_head g)) (list_set_next (QList (Query r None) None None)) (g_head g),
        g_tail := Some (Suc (list_last (g_head g)))\<rparr>"
    by (simp add: group_push_def group_tail_index [OF assms] Let_def)
  have t: "tails_ok (g_head g)" using assms by (simp add: group_inv_def)
  show "dnf (group_push g (QList (Query r None) None None)) = dnf g @ [[r]]"
    unfolding e by (simp add: dnf_def push_last(1) [OF t])
  show "group_inv (group_push g (QList (Query r None) None None))"
    unfolding e using push_last(2-4) [OF t] by (simp add: group_inv_def)
qed

text \<open>A group with nothing in it yet.\<close>

definition unset_group :: "group \<Rightarrow> bool" where
  "unset_group g \<longleftrightarrow> (\<exists>r. dnf g = [[r]] \<and> \<not> has_left r)"

lemma dnf_single: "group_inv g \<Longrightarrow> g_tail g = None \<Longrightarrow> l_tail (g_head g) = None \<Longrightarrow> dnf g = [[first_range g]]"
  by (cases "g_head g" rule: list_last.cases; cases "l_head (g_head g)" rule: query_last.cases)
     (auto simp: group_inv_def dnf_def first_range_def clone_tail_def split: if_splits)

lemma dnf_single_iff:
  assumes "group_inv g"
  shows "g_tail g = None \<and> l_tail (g_head g) = None \<longleftrightarrow> dnf g = [[first_range g]]"
  using assms
  by (cases "g_head g" rule: list_last.cases; cases "l_head (g_head g)" rule: query_last.cases)
     (auto simp: group_inv_def dnf_def first_range_def clone_tail_def split: if_splits)

lemma set_first_range_spec:
  assumes "group_inv g" and "dnf g = [[r0]]"
  shows "dnf (set_first_range g r) = [[r]]" and "group_inv (set_first_range g r)"
  using assms
  by (cases "g_head g" rule: list_last.cases; cases "l_head (g_head g)" rule: query_last.cases;
      auto simp: group_inv_def dnf_def set_first_range_def clone_tail_def split: if_splits)+

lemma or_range_spec:
  assumes "group_inv g"
  shows "dnf (or_range g r) = (if unset_group g then [[r]] else dnf g @ [[r]])"
    and "group_inv (or_range g r)"
proof -
  have c: "g_tail g = None \<and> l_tail (g_head g) = None \<and> \<not> has_left (first_range g) \<longleftrightarrow> unset_group g"
    using dnf_single_iff [OF assms] dnf_parts(3) [of g] by (auto simp: unset_group_def)
  then show "dnf (or_range g r) = (if unset_group g then [[r]] else dnf g @ [[r]])"
    using group_push_spec(1) [OF assms] set_first_range_spec(1) [OF assms]
    unfolding or_range_def by (auto simp: unset_group_def)
  show "group_inv (or_range g r)"
    using c group_push_spec(2) [OF assms] set_first_range_spec(2) [OF assms]
    unfolding or_range_def by (auto simp: unset_group_def)
qed


subsection \<open>Well-formed groups\<close>

definition range_ok :: "range \<Rightarrow> bool" where
  "range_ok r \<longleftrightarrow> (\<not> has_left r \<longrightarrow> r = range_default) \<and>
     version8 (c_version (r_left r)) \<and> version8 (c_version (r_right r))"

definition group_ok :: "group \<Rightarrow> bool" where
  "group_ok g \<longleftrightarrow> group_inv g \<and> (\<forall>rs \<in> set (dnf g). \<forall>r \<in> set rs. range_ok r)"

lemma has_left_set [simp]: "c_op (r_left r) \<noteq> OpUnset \<Longrightarrow> has_left r"
  by (simp add: has_left_def)

lemma range_default_sel [simp]:
  "r_left range_default = comparator_default" "r_right range_default = comparator_default"
  "c_op comparator_default = OpUnset" "c_version comparator_default = version_default"
  by (simp_all add: range_default_def comparator_default_def)

lemma version8_simps [simp]:
  "version8 version_default"
  "version8 (v\<lparr>major := a\<rparr>) = version8 v" "version8 (v\<lparr>minor := a\<rparr>) = version8 v"
  "version8 (v\<lparr>patch := a\<rparr>) = version8 v" "version8 (v\<lparr>vtag := t\<rparr>) = tag8 t"
  "version8 (partial_min p) = tag8 (p_tag p)"
  by (simp_all add: version8_def tag8_def partial_min_def, simp_all add: version8_tag8 [unfolded version8_def tag8_def] tag8_default [unfolded tag8_def])

lemma version8_core [simp]: "version8 (core a b c)"
  by (simp add: core_def)

lemma version8_lt_next [simp]: "version8 (c_version (lt_next_major a))" "version8 (c_version (lt_next_minor a b))"
    "version8 (c_version (lt_next_patch a b c))"
  by (simp_all add: lt_next_major_def lt_next_minor_def lt_next_patch_def split: option.splits)

lemma range_ok_default [simp]: "range_ok range_default"
  by (simp add: range_ok_def)

lemma range_ok_single: "o' \<noteq> OpUnset \<Longrightarrow> version8 v \<Longrightarrow> range_ok (single o' v)"
  by (simp add: range_ok_def single_def)

lemma range_ok_init_wildcard: "version8 v \<Longrightarrow> range_ok (init_wildcard v w)"
  by (cases w) (simp_all add: init_wildcard_def range_ok_def)

lemma range_ok_hyphen: "version8 v \<Longrightarrow> version8 second \<Longrightarrow> range_ok (hyphen_range v w second)"
  by (cases w) (simp_all add: hyphen_range_def range_ok_def at_least_def split: option.splits)

lemma range_ok_caret: "tag8 (p_tag p) \<Longrightarrow> range_ok (caret_range p)"
  by (simp add: caret_range_def range_ok_def at_least_def Let_def split: option.splits)

lemma range_ok_tilda: "tag8 (p_tag p) \<Longrightarrow> range_ok (tilda_range p)"
  by (simp add: tilda_range_def range_ok_def at_least_def Let_def split: option.splits)

lemma to_range_total: "tk_tag t \<noteq> TkNone \<Longrightarrow> \<exists>r. to_range t p = Ret r"
  by (cases "tk_tag t"; cases "tk_wildcard t") (simp_all add: to_range_def Let_def)

lemma to_range_None: "tk_tag t = TkNone \<Longrightarrow> to_range t p = Panic"
  by (simp add: to_range_def)

lemma to_range_ok:
  assumes "to_range t p = Ret r" and "tag8 (p_tag p)"
  shows "range_ok r"
proof (cases "tk_tag t \<in> {TkCaret, TkTilda, TkVersion, TkNone}")
  case True
  then show ?thesis using assms
    by (auto simp: to_range_def range_ok_caret range_ok_tilda range_ok_single range_ok_init_wildcard split: if_splits)
next
  case False
  then show ?thesis using assms
    by (cases "tk_tag t"; cases "tk_wildcard t")
       (auto simp: to_range_def Let_def range_ok_single, simp_all add: range_ok_def at_least_def)
qed

lemma unset_group_default: "group_ok g \<Longrightarrow> unset_group g \<Longrightarrow> dnf g = [[range_default]]"
  by (auto simp: group_ok_def unset_group_def range_ok_def)

lemma or_version_spec:
  assumes "group_ok g"
  shows "dnf (or_version g v) = (if unset_group g then [[single OpEql v]] else dnf g @ [[single OpEql v]])"
    and "group_inv (or_version g v)"
proof -
  have inv: "group_inv g" using assms by (simp add: group_ok_def)
  have fr: "range_ok (first_range g)"
    using assms dnf_parts(3) [of g] by (cases "dnf g"; cases "hd (dnf g)") (auto simp: group_ok_def dnf_def)
  have c: "g_tail g = None \<and> \<not> has_left (first_range g) \<longleftrightarrow> unset_group g"
  proof
    assume a: "g_tail g = None \<and> \<not> has_left (first_range g)"
    then have "\<not> has_right (first_range g)" using fr by (auto simp: range_ok_def has_right_def)
    then have "l_tail (g_head g) = None" using a inv
      by (cases "g_head g") (auto simp: group_inv_def first_range_def clone_tail_def)
    then show "unset_group g" using dnf_single [OF inv] a by (auto simp: unset_group_def)
  next
    assume "unset_group g"
    then show "g_tail g = None \<and> \<not> has_left (first_range g)"
      using dnf_single_iff [OF inv] dnf_parts(3) [of g] by (auto simp: unset_group_def)
  qed
  have s: "unset_group g \<Longrightarrow> (first_range g)\<lparr>r_left := \<lparr>c_op = OpEql, c_version = v\<rparr>\<rparr> = single OpEql v"
    using fr c by (auto simp: range_ok_def single_def)
  show "dnf (or_version g v) = (if unset_group g then [[single OpEql v]] else dnf g @ [[single OpEql v]])"
    using c s group_push_spec(1) [OF inv] set_first_range_spec(1) [OF inv]
    unfolding or_version_def Let_def by (auto simp: unset_group_def single_def)
  show "group_inv (or_version g v)"
    using c s group_push_spec(2) [OF inv] set_first_range_spec(2) [OF inv]
    unfolding or_version_def Let_def by (auto simp: unset_group_def single_def)
qed

lemma group_ok_or_version: "group_ok g \<Longrightarrow> version8 v \<Longrightarrow> group_ok (or_version g v)"
  using or_version_spec [of g v] by (auto simp: group_ok_def range_ok_single)

lemma group_ok_or_range: "group_ok g \<Longrightarrow> range_ok r \<Longrightarrow> group_ok (or_range g r)"
  using or_range_spec [of g r] by (auto simp: group_ok_def)

lemma group_ok_and_range: "group_ok g \<Longrightarrow> range_ok r \<Longrightarrow> group_ok (group_and_range g r)"
  using group_and_range_spec [of g r] last_in_set [of "dnf g"] in_set_butlastD [of _ "dnf g"]
  by (fastforce simp: group_ok_def conj_range_def)

lemma add_flags_facts [simp]: "dnf (add_flags t g) = dnf g" "group_ok (add_flags t g) = group_ok g"
  "g_head (add_flags t g) = g_head g"
  by (auto simp: add_flags_def dnf_def group_ok_def group_inv_def Let_def)

lemma group_ok_default: "group_ok (group_default\<lparr>g_input := x\<rparr>)"
  by (simp add: group_ok_def group_inv_def group_default_def list_default_def query_default_def dnf_def clone_tail_def)

subsection \<open>The parser builds well-formed groups and returns\<close>

lemma add_comparator_ok:
  assumes "add_comparator pr st = Ret g" and "group_ok (ps_list st)" and "tag8 (p_tag (pr_version pr))"
  shows "group_ok g"
  using assms
  by (auto simp: add_comparator_def Let_def bind_outcome_eq_Ret group_ok_or_version group_ok_or_range
      group_ok_and_range to_range_ok split: if_splits wildcard.splits)

lemma add_comparator_total:
  "tk_tag (ps_token st) \<noteq> TkNone \<Longrightarrow> \<exists>g. add_comparator pr st = Ret g"
  using to_range_total [of "ps_token st" "pr_version pr"]
  by (auto simp: add_comparator_def Let_def split: wildcard.splits)

lemma parse_chunk_ok:
  assumes "parse_chunk h s st = Ret st'" and "group_ok (ps_list st)"
  shows "group_ok (ps_list st')"
  using assms
  by (auto simp: parse_chunk_def Let_def bind_outcome_eq_Ret end_round_def
      dest!: version_parse_tag8 add_comparator_ok
      intro!: group_ok_or_range group_ok_and_range range_ok_hyphen
      split: if_splits option.splits)

lemma parse_round_ok: "parse_round h s st = Ret st' \<Longrightarrow> group_ok (ps_list st) \<Longrightarrow> group_ok (ps_list st')"
  by (auto simp: parse_round_def Let_def dest!: parse_chunk_ok split: prod.splits if_splits)

lemma query_loop_inv:
  assumes "query_loop h s st = Ret st'" and "P st"
    and "\<And>st st'. P st \<Longrightarrow> parse_round h s st = Ret st' \<Longrightarrow> P st'"
  shows "P st'"
  using assms
proof (induction h s st rule: query_loop.induct)
  case (1 h s st)
  show ?case
  proof (cases "ps_i st < length (sl_slice s)")
    case True
    then obtain st1 where "parse_round h s st = Ret st1" "query_loop h s st1 = Ret st'"
      using "1.prems"(1) by (auto simp: query_loop.simps [of h s st] bind_outcome_eq_Ret)
    then show ?thesis using "1.IH" [OF True] "1.prems" by blast
  next
    case False
    then show ?thesis using 1 by (simp add: query_loop.simps [of h s st])
  qed
qed

lemma query_parse_ok: "query_parse h s = Ret g \<Longrightarrow> group_ok g"
  by (auto simp: query_parse_def bind_outcome_eq_Ret group_ok_default
      elim!: query_loop_inv [where P = "\<lambda>st. group_ok (ps_list st)"] dest: parse_round_ok)

lemma parse_chunk_total:
  assumes "length (sl_slice s) < 2 ^ 32"
  shows "\<exists>st'. parse_chunk h s st = Ret st'"
proof -
  have v: "\<exists>r. version_parse h (sliced_sub s i (length (sl_slice s))) = Ret r" for i
    using version_parse_total [of "sliced_sub s i (length (sl_slice s))" h] assms
    by (fastforce simp: sliced_sub_def)
  obtain pr where pr: "version_parse h (sliced_sub s (ps_i st) (length (sl_slice s))) = Ret pr" using v by blast
  show ?thesis
    using pr v unfolding parse_chunk_def Let_def
    by (auto intro!: bind_outcome_total add_comparator_total split: option.splits)
qed

lemma parse_round_total:
  "length (sl_slice s) < 2 ^ 32 \<Longrightarrow> \<exists>st'. parse_round h s st = Ret st'"
  using parse_chunk_total [of s h] by (auto simp: parse_round_def Let_def split: prod.splits)

lemma query_loop_total:
  "length (sl_slice s) < 2 ^ 32 \<Longrightarrow> \<exists>st'. query_loop h s st = Ret st'"
proof (induction h s st rule: query_loop.induct)
  case (1 h s st)
  show ?case
    using 1 parse_round_total [of s h st] by (subst query_loop.simps) (auto intro!: bind_outcome_total)
qed

lemma query_parse_total: "length (sl_slice s) < 2 ^ 32 \<Longrightarrow> \<exists>g. query_parse h s = Ret g"
  unfolding query_parse_def by (intro bind_outcome_total query_loop_total) auto


subsection \<open>What a desugared token accepts\<close>

lemma order_ge_core:
  assumes "version8 v" "version8 w" "order_without_build v w b c \<noteq> Less"
  shows "major w < major v \<or> major w = major v \<and>
     (minor w < minor v \<or> minor w = minor v \<and> patch w \<le> patch v)"
  using assms
  by (auto simp: order_without_build_eq semver_precedence_def precedence_key_def cmp_lin_def split: if_splits)

text \<open>The lowest version a partial version stands for; the tag counts only after a full core.\<close>

definition lower_bound :: "partial_version \<Rightarrow> version" where
  "lower_bound p =
     \<lparr>major = unwrap_or (p_major p) 0, minor = unwrap_or (p_minor p) 0,
      patch = (if p_minor p = None then 0 else unwrap_or (p_patch p) 0),
      vtag = (if p_minor p = None \<or> p_patch p = None then tag_default else p_tag p)\<rparr>"

text \<open>The left-most non-zero number of the core, or the last number given, is kept.\<close>

definition caret_keeps :: "partial_version \<Rightarrow> version \<Rightarrow> bool" where
  "caret_keeps p v \<longleftrightarrow>
     (let w = lower_bound p in
      if major w \<noteq> 0 \<or> p_minor p = None then major v = major w
      else if minor w \<noteq> 0 \<or> p_patch p = None then major v = 0 \<and> minor v = minor w
      else major v = 0 \<and> minor v = 0 \<and> patch v = patch w)"

definition tilda_keeps :: "partial_version \<Rightarrow> version \<Rightarrow> bool" where
  "tilda_keeps p v \<longleftrightarrow>
     (let w = lower_bound p in major v = major w \<and> (p_minor p = None \<or> minor v = minor w))"

lemma range_satisfies_set:
  "has_left r \<Longrightarrow> has_right r \<Longrightarrow> range_satisfies r v rb vb \<longleftrightarrow>
     comparator_satisfies (r_left r) v rb vb \<and> comparator_satisfies (r_right r) v rb vb"
  by (simp add: range_satisfies_def)

lemma range_satisfies_single:
  "o' \<noteq> OpUnset \<Longrightarrow> range_satisfies (single o' w) v rb vb \<longleftrightarrow> op_holds o' (order_without_build v w vb rb)"
  by (simp add: range_satisfies_def single_def has_left_def has_right_def comparator_satisfies_op)

lemma at_least_satisfies:
  "comparator_satisfies (at_least w) v rb vb \<longleftrightarrow> order_without_build v w vb rb \<noteq> Less"
  by (simp add: at_least_def comparator_satisfies_op op_holds_def)

lemmas upper_release = lt_next_major_release lt_next_minor_release lt_next_patch_release

lemma caret_range_parts:
  assumes "p_major p = Some M"
  shows "r_left (caret_range p) = at_least (lower_bound p)" "has_left (caret_range p)" "has_right (caret_range p)"
    and "r_right (caret_range p) = (case p_minor p of None \<Rightarrow> lt_next_major M
      | Some mi \<Rightarrow> if M \<noteq> 0 then lt_next_major M
          else case p_patch p of None \<Rightarrow> lt_next_minor 0 mi
            | Some pa \<Rightarrow> if mi = 0 then lt_next_patch 0 0 pa else lt_next_minor 0 mi)"
  using assms
  by (auto simp: caret_range_def Let_def lower_bound_def version_default_def has_left_def has_right_def
      at_least_def split: option.splits)

lemma tilda_range_parts:
  assumes "p_major p = Some M"
  shows "r_left (tilda_range p) = at_least (lower_bound p)" "has_left (tilda_range p)" "has_right (tilda_range p)"
    and "r_right (tilda_range p) = (case p_minor p of None \<Rightarrow> lt_next_major M | Some mi \<Rightarrow> lt_next_minor M mi)"
  using assms
  by (auto simp: tilda_range_def Let_def lower_bound_def version_default_def has_left_def has_right_def
      at_least_def split: option.splits)

lemma lower_bound8: "tag8 (p_tag p) \<Longrightarrow> version8 (lower_bound p)"
  by (simp add: lower_bound_def version8_tag8)

lemma caret_release:
  assumes "version8 v" "\<not> has_pre (vtag v)" "tag8 (p_tag p)" "p_major p = Some M"
  shows "range_satisfies (caret_range p) v rb vb \<longleftrightarrow>
     order_without_build v (lower_bound p) vb rb \<noteq> Less \<and> caret_keeps p v"
proof (cases "order_without_build v (lower_bound p) vb rb = Less")
  case True
  then show ?thesis
    by (simp add: range_satisfies_set caret_range_parts [OF assms(4)] at_least_satisfies)
next
  case False
  note ge = order_ge_core [OF assms(1) lower_bound8 [OF assms(3)] False]
  have "range_satisfies (caret_range p) v rb vb \<longleftrightarrow> comparator_satisfies (r_right (caret_range p)) v rb vb"
    using False by (simp add: range_satisfies_set caret_range_parts(1-3) [OF assms(4)] at_least_satisfies)
  also have "\<dots> \<longleftrightarrow> caret_keeps p v"
    using ge assms(4) unfolding caret_range_parts(4) [OF assms(4)]
    by (auto simp: upper_release [OF assms(1,2)] caret_keeps_def lower_bound_def Let_def split: option.splits)
  finally show ?thesis using False by simp
qed

lemma tilda_release:
  assumes "version8 v" "\<not> has_pre (vtag v)" "tag8 (p_tag p)" "p_major p = Some M"
  shows "range_satisfies (tilda_range p) v rb vb \<longleftrightarrow>
     order_without_build v (lower_bound p) vb rb \<noteq> Less \<and> tilda_keeps p v"
proof (cases "order_without_build v (lower_bound p) vb rb = Less")
  case True
  then show ?thesis
    by (simp add: range_satisfies_set tilda_range_parts [OF assms(4)] at_least_satisfies)
next
  case False
  note ge = order_ge_core [OF assms(1) lower_bound8 [OF assms(3)] False]
  have "range_satisfies (tilda_range p) v rb vb \<longleftrightarrow> comparator_satisfies (r_right (tilda_range p)) v rb vb"
    using False by (simp add: range_satisfies_set tilda_range_parts(1-3) [OF assms(4)] at_least_satisfies)
  also have "\<dots> \<longleftrightarrow> tilda_keeps p v"
    using ge assms(4) unfolding tilda_range_parts(4) [OF assms(4)]
    by (auto simp: upper_release [OF assms(1,2)] tilda_keeps_def lower_bound_def Let_def split: option.splits)
  finally show ?thesis using False by simp
qed

text \<open>A comparison operator with an x-range compares only the numbers that are given.\<close>

definition tag_op :: "token_tag \<Rightarrow> op" where
  "tag_op t = (case t of TkGt \<Rightarrow> OpGt | TkGte \<Rightarrow> OpGte | TkLt \<Rightarrow> OpLt | TkLte \<Rightarrow> OpLte | _ \<Rightarrow> OpEql)"

lemma compare_wildcard_release:
  assumes "version8 v" "\<not> has_pre (vtag v)" and "t \<in> {TkGt, TkGte, TkLt, TkLte}"
  shows "\<exists>r. to_range \<lparr>tk_tag = t, tk_wildcard = WMinor\<rparr> p = Ret r \<and>
       (range_satisfies r v rb vb \<longleftrightarrow> op_holds (tag_op t) (cmp_lin (major v) (unwrap_or (p_major p) 0)))"
    and "\<exists>r. to_range \<lparr>tk_tag = t, tk_wildcard = WPatch\<rparr> p = Ret r \<and>
       (range_satisfies r v rb vb \<longleftrightarrow> op_holds (tag_op t)
          (then_ord (cmp_lin (major v) (unwrap_or (p_major p) 0)) (cmp_lin (minor v) (unwrap_or (p_minor p) 0))))"
proof -
  have t: "vtag (core a b c) = tag_default" "major (core a b c) = a" "minor (core a b c) = b" "patch (core a b c) = c" for a b c
    by (simp_all add: core_def)
  note rules = to_range_def Let_def range_satisfies_single order_release [OF assms(1) t(1)] t op_holds_def tag_op_def
    cmp_lin_def below_u64_max word_gt_0 assms(2)
  show "\<exists>r. to_range \<lparr>tk_tag = t, tk_wildcard = WMinor\<rparr> p = Ret r \<and>
       (range_satisfies r v rb vb \<longleftrightarrow> op_holds (tag_op t) (cmp_lin (major v) (unwrap_or (p_major p) 0)))"
    using assms(3) by (elim insertE; simp add: rules)
  show "\<exists>r. to_range \<lparr>tk_tag = t, tk_wildcard = WPatch\<rparr> p = Ret r \<and>
       (range_satisfies r v rb vb \<longleftrightarrow> op_holds (tag_op t)
          (then_ord (cmp_lin (major v) (unwrap_or (p_major p) 0)) (cmp_lin (minor v) (unwrap_or (p_minor p) 0))))"
    using assms(3) by (elim insertE; simp add: rules)
qed

subsection \<open>Printing a group\<close>

text \<open>
  \<open>GroupFormatter\<close> separates the alternatives of a group with \<open>&&\<close> and prints each of them with
  \<open>ListFormatter\<close>, which prints the rest of the chain too: two alternatives come out as three terms.
\<close>

lemma group_fmt_two:
  assumes "g_head g = QList p t (Some (QList q u None))" and "g_tail g \<noteq> None"
  shows "group_fmt g buf = query_fmt p buf @ bs '' || '' @ query_fmt q buf @ bs '' && '' @ query_fmt q buf"
  using assms by (simp add: group_fmt_def)

subsection \<open>Properties\<close>



text \<open>
  C10: building a group. \<open>and_range\<close> conjoins the range with the last alternative, \<open>or_range\<close> and
  \<open>or_version\<close> add an alternative, each of them replacing a still unset range; the raw \<open>tail\<close>
  pointers point at the last nodes after every operation.
\<close>

theorem group_build:
  assumes "group_ok g" and "range_ok r" and "version8 v"
  shows "dnf (group_and_range g r) = butlast (dnf g) @ [conj_range (last (dnf g)) r] \<and>
     dnf (or_range g r) = (if unset_group g then [[r]] else dnf g @ [[r]]) \<and>
     dnf (or_version g v) = (if unset_group g then [[single OpEql v]] else dnf g @ [[single OpEql v]]) \<and>
     group_ok (group_and_range g r) \<and> group_ok (or_range g r) \<and> group_ok (or_version g v)"
  using assms group_and_range_spec(1) [of g r] or_range_spec(1) [of g r] or_version_spec(1) [OF assms(1), of v]
    group_ok_and_range [OF assms(1,2)] group_ok_or_range [OF assms(1,2)] group_ok_or_version [OF assms(1,3)]
  unfolding group_ok_def by blast

theorem group_build_witness:
  "dnf (or_range (or_range (group_default\<lparr>g_input := []\<rparr>) (single OpGte version_default)) (single OpLt version_default))
   = [[single OpGte version_default], [single OpLt version_default]]"
proof -
  have g: "group_ok (group_default\<lparr>g_input := []\<rparr>)" by (rule group_ok_default)
  have r: "range_ok (single OpGte version_default)" "range_ok (single OpLt version_default)" by (simp_all add: range_ok_single)
  have d: "dnf (group_default\<lparr>g_input := []\<rparr>) = [[range_default]]"
    by (simp add: dnf_def group_default_def list_default_def query_default_def)
  have u: "unset_group (group_default\<lparr>g_input := []\<rparr>)" by (simp add: unset_group_def d has_left_def)
  from group_build [OF g r(1) version8_simps(1)] u
  have 1: "dnf (or_range (group_default\<lparr>g_input := []\<rparr>) (single OpGte version_default)) = [[single OpGte version_default]]"
    "group_ok (or_range (group_default\<lparr>g_input := []\<rparr>) (single OpGte version_default))" by simp_all
  have "\<not> unset_group (or_range (group_default\<lparr>g_input := []\<rparr>) (single OpGte version_default))"
    unfolding unset_group_def 1(1) by (simp add: has_left_def single_def)
  with group_build [OF 1(2) r(2) version8_simps(1)] 1(1) show ?thesis by simp
qed

text \<open>
  Cloning a group rebuilds the same chains and the same back pointers.
\<close>

lemma group_clone_same:
  assumes "group_ok g"
  shows "group_clone g = g"
  using assms group_clone_id by (simp add: group_ok_def)

lemma group_clone_same_witness:
  "group_clone (or_version (group_default\<lparr>g_input := []\<rparr>) version_default)
   = or_version (group_default\<lparr>g_input := []\<rparr>) version_default"
  using group_clone_same [of "or_version (group_default\<lparr>g_input := []\<rparr>) version_default"]
    group_ok_or_version [OF group_ok_default, of version_default] by simp

text \<open>
  C6: caret ranges. On releases \<open>^p\<close> accepts the versions from the lower bound of \<open>p\<close> on that keep
  the left-most non-zero number of the core (or the last number given), up to and including
  \<open>u64::MAX\<close>.
\<close>

theorem caret_accepts:
  assumes "version8 v" and "\<not> has_pre (vtag v)" and "tag8 (p_tag p)" and "p_major p = Some M"
  shows "to_range \<lparr>tk_tag = TkCaret, tk_wildcard = w\<rparr> p = Ret (caret_range p) \<and>
     (range_satisfies (caret_range p) v rb vb \<longleftrightarrow>
        order_without_build v (lower_bound p) vb rb \<noteq> Less \<and> caret_keeps p v)"
  using caret_release [OF assms] by (simp add: to_range_def)

theorem caret_accepts_witness:
  "range_satisfies (caret_range (partial_default\<lparr>p_major := Some 0, p_minor := Some 2\<rparr>))
     (version_default\<lparr>minor := 2, patch := 7\<rparr>) [] [] \<and>
   \<not> range_satisfies (caret_range (partial_default\<lparr>p_major := Some 0, p_minor := Some 2\<rparr>))
     (version_default\<lparr>minor := 3\<rparr>) [] []"
proof -
  let ?p = "partial_default\<lparr>p_major := Some 0, p_minor := Some 2\<rparr>"
  have p: "tag8 (p_tag ?p)" "p_major ?p = Some 0" by (simp_all add: partial_default_def)
  have k: "caret_keeps ?p (version_default\<lparr>minor := 2, patch := 7\<rparr>)" "\<not> caret_keeps ?p (version_default\<lparr>minor := 3\<rparr>)"
    by (simp_all add: caret_keeps_def lower_bound_def partial_default_def)
  have "order_without_build (version_default\<lparr>minor := 2, patch := 7\<rparr>) (lower_bound ?p) [] [] \<noteq> Less"
    by (simp add: order_release lower_bound_def partial_default_def cmp_lin_def)
  then show ?thesis
    using k caret_accepts [OF _ _ p, of "version_default\<lparr>minor := 2, patch := 7\<rparr>" WNone "[]" "[]"]
      caret_accepts [OF _ _ p, of "version_default\<lparr>minor := 3\<rparr>" WNone "[]" "[]"] by simp
qed

text \<open>
  Tilde ranges. On releases \<open>~p\<close> accepts the versions from the lower bound of \<open>p\<close> on that keep
  the major number, and the minor number where one is given.
\<close>

lemma tilda_accepts:
  assumes "version8 v" and "\<not> has_pre (vtag v)" and "tag8 (p_tag p)" and "p_major p = Some M"
  shows "to_range \<lparr>tk_tag = TkTilda, tk_wildcard = w\<rparr> p = Ret (tilda_range p) \<and>
     (range_satisfies (tilda_range p) v rb vb \<longleftrightarrow>
        order_without_build v (lower_bound p) vb rb \<noteq> Less \<and> tilda_keeps p v)"
  using tilda_release [OF assms] by (simp add: to_range_def)

lemma tilda_accepts_witness:
  "range_satisfies (tilda_range (partial_default\<lparr>p_major := Some 1\<rparr>)) (version_default\<lparr>major := 1, minor := 9\<rparr>) [] []"
proof -
  let ?p = "partial_default\<lparr>p_major := Some 1\<rparr>"
  have p: "tag8 (p_tag ?p)" "p_major ?p = Some 1" by (simp_all add: partial_default_def)
  have k: "tilda_keeps ?p (version_default\<lparr>major := 1, minor := 9\<rparr>)"
    by (simp add: tilda_keeps_def lower_bound_def partial_default_def)
  have "order_without_build (version_default\<lparr>major := 1, minor := 9\<rparr>) (lower_bound ?p) [] [] \<noteq> Less"
    by (simp add: order_release lower_bound_def partial_default_def cmp_lin_def)
  then show ?thesis
    using k tilda_accepts [OF _ _ p, of "version_default\<lparr>major := 1, minor := 9\<rparr>" WNone "[]" "[]"] by simp
qed

text \<open>
  Comparison operators on x-ranges. \<open>>1.x\<close>, \<open><=1.2.x\<close> and the others compare only the numbers
  that are given, on every release.
\<close>

lemma compare_wildcard_accepts:
  assumes "version8 v" and "\<not> has_pre (vtag v)" and "t \<in> {TkGt, TkGte, TkLt, TkLte}"
  shows "(\<exists>r. to_range \<lparr>tk_tag = t, tk_wildcard = WMinor\<rparr> p = Ret r \<and>
       (range_satisfies r v rb vb \<longleftrightarrow> op_holds (tag_op t) (cmp_lin (major v) (unwrap_or (p_major p) 0)))) \<and>
     (\<exists>r. to_range \<lparr>tk_tag = t, tk_wildcard = WPatch\<rparr> p = Ret r \<and>
       (range_satisfies r v rb vb \<longleftrightarrow> op_holds (tag_op t)
          (then_ord (cmp_lin (major v) (unwrap_or (p_major p) 0)) (cmp_lin (minor v) (unwrap_or (p_minor p) 0)))))"
  using compare_wildcard_release [OF assms] by blast

lemma compare_wildcard_accepts_witness:
  "\<exists>r. to_range \<lparr>tk_tag = TkGt, tk_wildcard = WMinor\<rparr> (partial_default\<lparr>p_major := Some 1\<rparr>) = Ret r \<and>
     \<not> range_satisfies r (version_default\<lparr>major := 1, minor := 9\<rparr>) [] []"
  using compare_wildcard_accepts [of "version_default\<lparr>major := 1, minor := 9\<rparr>" TkGt
      "partial_default\<lparr>p_major := Some 1\<rparr>" "[]" "[]"]
  by (auto simp: tag_op_def op_holds_def partial_default_def)



end
