(* ===== verification/SemverQueryParse.thy ===== *)
theory SemverQueryParse
  imports SemverQuery
begin

text \<open>
  The query parser on the text of a query (\<open>query::parse\<close> of \<open>src/src/semver/SemverQuery.rs\<close>):
  comparators of releases joined by spaces and \<open>||\<close> give the disjunction of conjunctions that the
  text writes.
\<close>


subsection \<open>Parsing the text of a query\<close>

text \<open>A comparator of a release, its text, and the range it stands for.\<close>

type_synonym release_comparator = "token_tag \<times> u64 \<times> u64 \<times> u64"

definition op_prefix :: "token_tag \<Rightarrow> bytes" where
  "op_prefix t = (case t of TkGt \<Rightarrow> bs ''>'' | TkGte \<Rightarrow> bs ''>='' | TkLt \<Rightarrow> bs ''<'' | TkLte \<Rightarrow> bs ''<=''
     | TkTilda \<Rightarrow> bs ''~'' | TkCaret \<Rightarrow> bs ''^'' | TkVersion \<Rightarrow> [] | TkNone \<Rightarrow> [])"

definition release_partial :: "u64 \<Rightarrow> u64 \<Rightarrow> u64 \<Rightarrow> partial_version" where
  "release_partial M m p = \<lparr>p_major = Some M, p_minor = Some m, p_patch = Some p, p_tag = tag_default\<rparr>"

definition comparator_text :: "release_comparator \<Rightarrow> bytes" where
  "comparator_text = (\<lambda>(t, M, m, p). op_prefix t @ core_text M m p)"

definition comparator_range :: "release_comparator \<Rightarrow> range" where
  "comparator_range = (\<lambda>(t, M, m, p).
     case t of TkCaret \<Rightarrow> caret_range (release_partial M m p)
      | TkTilda \<Rightarrow> tilda_range (release_partial M m p)
      | _ \<Rightarrow> single (tag_op t) (core M m p))"

lemma release_partial_min [simp]: "partial_min (release_partial M m p) = core M m p"
  by (simp add: partial_min_def release_partial_def core_def version_default_def)

lemma to_range_comparator:
  "t \<noteq> TkNone \<Longrightarrow> to_range \<lparr>tk_tag = t, tk_wildcard = WNone\<rparr> (release_partial M m p) = Ret (comparator_range (t, M, m, p))"
  by (cases t) (simp_all add: to_range_def comparator_range_def tag_op_def)

lemma comparator_range_ok: "range_ok (comparator_range c)"
proof -
  obtain t M m p where c: "c = (t, M, m, p)" by (cases c)
  have t8: "tag8 (p_tag (release_partial M m p))" by (simp add: release_partial_def)
  have "tag_op t \<noteq> OpUnset" by (cases t) (simp_all add: tag_op_def)
  then show ?thesis
    using range_ok_caret [OF t8] range_ok_tilda [OF t8] by (cases t) (simp_all add: c comparator_range_def range_ok_single)
qed

lemma comparator_range_left: "has_left (comparator_range c)"
proof -
  obtain t M m p where c: "c = (t, M, m, p)" by (cases c)
  show ?thesis
    by (cases t) (simp_all add: c comparator_range_def caret_range_def tilda_range_def release_partial_def Let_def
        has_left_def at_least_def single_def tag_op_def)
qed

text \<open>The version at the head of \<open>s\<close>, up to the end or a space.\<close>

lemma version_parse_core:
  assumes "sl_slice s = core_text M m p @ rest" and "rest = [] \<or> hd rest = 32" and "length (sl_slice s) < 2 ^ 32"
  shows "version_parse h s = Ret \<lparr>pr_wildcard = WNone, pr_valid = True, pr_version = release_partial M m p,
     pr_len = length (core_text M m p)\<rparr>"
proof -
  define n where "n = length (core_text M m p)"
  obtain d ds where d: "dec (unat M) = d # ds" "is_ascii_digit d"
    using dec_digits [of "unat M"] dec_nonempty [of "unat M"] by (cases "dec (unat M)") auto
  then obtain tl' where cons: "sl_slice s = d # tl'" using assms(1) by (auto simp: core_text_def)
  have lead: "skip_while is_version_lead (sl_slice s) 0 = 0"
    using digit_not [OF d(2)] cons by (simp add: skip_while_def)
  have nd: "rest = [] \<or> \<not> is_ascii_digit (hd rest)" using assms(2) by (auto simp: is_ascii_digit_def)
  have st: "parse_loop h s n k r = (n, k, r)" for k r
    using assms(1,2) by (cases rest) (subst parse_loop.simps, simp add: n_def nth_append)+
  have nle: "n < 2 ^ 32" using assms(1,3) by (simp add: n_def)
  have loop: "parse_loop h s 0 0 parse_result_default = (n, 3, parse_result_default\<lparr>pr_version := release_partial M m p\<rparr>)"
    using parse_loop_core [OF assms(1) nd, of h parse_result_default] st
    by (simp add: n_def parse_result_default_def partial_default_def release_partial_def)
  show ?thesis
    using loop lead cons nle
    by (simp add: version_parse_def expect_u32_def parse_result_default_def n_def)
qed

lemma core_text_digit: "\<exists>d ds. core_text M m p = d # ds \<and> is_ascii_digit d"
  using dec_digits [of "unat M"] dec_nonempty [of "unat M"] by (cases "dec (unat M)") (auto simp: core_text_def)

lemma skip_spaces_digit: "drop j input = d # ds \<Longrightarrow> is_ascii_digit d \<Longrightarrow> skip_spaces input j = j"
  by (auto simp: skip_spaces_def skip_while_def is_ascii_digit_def)

lemma drop_Suc_tl: "drop (Suc i) xs = tl (drop i xs)"
  by (simp add: drop_Suc tl_drop)

lemma parse_lead_comparator:
  assumes "drop i input = op_prefix t @ core_text M m p @ rest" and "t \<noteq> TkNone"
  shows "parse_lead input i tg is_or = (i + length (op_prefix t), t, is_or \<or> t = TkVersion, False)"
proof -
  obtain d ds where d: "core_text M m p = d # ds" "is_ascii_digit d" using core_text_digit by blast
  have dd: "\<not> (61 \<le> d)" "d \<noteq> 32" "d \<noteq> 61" "d \<noteq> 62" "d \<noteq> 60" "d \<noteq> 118" "d \<noteq> 126" "d \<noteq> 94" 
    using d(2) by (auto simp: is_ascii_digit_def word_le_nat_alt)
  have 0: "i + k < length input \<and> input ! (i + k) = (op_prefix t @ core_text M m p @ rest) ! k"
    if "k < length (op_prefix t @ core_text M m p @ rest)" for k
  proof -
    have l: "k < length (drop i input)" unfolding assms(1) by (rule that)
    then have "input ! (i + k) = drop i input ! k" by simp
    then show ?thesis using l unfolding assms(1) [symmetric] by simp
  qed
  have "drop (i + length (op_prefix t)) input = drop (length (op_prefix t)) (drop i input)"
    by (simp add: add.commute)
  then have sp: "drop (i + length (op_prefix t)) input = d # (ds @ rest)"
    unfolding assms(1) using d(1) by simp
  note sk = skip_spaces_digit [OF sp d(2)]
  show ?thesis
    using 0 [of 0] 0 [of 1] 0 [of 2] sk assms(2) d dd
    by (cases t) (simp_all add: parse_lead_def op_prefix_def Let_def is_version_start_def nth_Cons' split: if_splits)
qed


definition combine :: "parse_state \<Rightarrow> release_comparator \<Rightarrow> group" where
  "combine st c =
     (let g = ps_list st; r = comparator_range c in
      if ps_count st = 0 then (if fst c = TkVersion then or_version g (c_version (r_left r)) else group_and_range g r)
      else if ps_or st \<or> fst c = TkVersion then or_range g r else group_and_range g r)"

lemma add_flags_default [simp]: "add_flags tag_default g = g"
  by (simp add: add_flags_def)

lemma possibly_hyphenate_space:
  assumes "drop i input = 32 # rest" and "rest = [] \<or> hd rest \<notin> set WHITESPACE_CHARS \<and> hd rest \<noteq> 45"
  shows "possibly_hyphenate input i = None"
proof -
  have w: "length_of_leading_whitespace_ascii (drop i input) = 1"
    using assms by (cases rest) (auto simp: WHITESPACE_CHARS_def)
  have "input ! (i + 1) \<noteq> 45" if "i + 1 < length input"
  proof -
    have "drop i input ! 1 = input ! (i + 1)" using that by simp
    moreover have "rest \<noteq> []" using that assms(1) by (metis Suc_eq_plus1 drop_eq_Nil2 drop_Suc_tl linorder_not_less list.sel(3))
    ultimately show ?thesis using assms by (cases rest) simp_all
  qed
  then show ?thesis using w by (simp add: possibly_hyphenate_def)
qed

lemma drop_add: "drop (i + k) xs = drop k (drop i xs)"
  by (simp add: add.commute)

lemma token_set [simp]: "(tok :: token)\<lparr>tk_tag := t, tk_wildcard := w\<rparr> = \<lparr>tk_tag = t, tk_wildcard = w\<rparr>"
  by (cases tok) simp

lemma parse_chunk_single:
  assumes "version_parse h (sliced_sub s (ps_i st) (length (sl_slice s))) = Ret pr"
    and "(if ps_i st + pr_len pr < length (sl_slice s) \<and>
            (sl_slice s ! (ps_i st + pr_len pr) = 32 \<or> sl_slice s ! (ps_i st + pr_len pr) = 45)
          then possibly_hyphenate (sl_slice s) (ps_i st + pr_len pr) else None) = None"
    and "tk_tag (ps_token st) \<noteq> TkNone" and "vtag (partial_min (pr_version pr)) = tag_default"
    and "add_comparator pr (st\<lparr>ps_token := (ps_token st)\<lparr>tk_wildcard := pr_wildcard pr\<rparr>\<rparr>) = Ret g"
  shows "parse_chunk h s st =
     Ret (end_round (ps_i st + pr_len pr + 1) g (st\<lparr>ps_token := (ps_token st)\<lparr>tk_wildcard := pr_wildcard pr\<rparr>\<rparr>))"
  unfolding parse_chunk_def Let_def assms(1) bind_outcome.simps assms(2) option.case
  using assms(3-5) by simp

lemma parse_round_comparator:
  assumes "drop (ps_i st) (sl_slice s) = comparator_text c @ rest" and "fst c \<noteq> TkNone"
    and "rest = [] \<or> (\<exists>rest'. rest = 32 # rest' \<and> (rest' = [] \<or> hd rest' \<notin> set WHITESPACE_CHARS \<and> hd rest' \<noteq> 45))"
    and "length (sl_slice s) < 2 ^ 32"
  shows "parse_round h s st = Ret (st\<lparr>ps_i := ps_i st + length (comparator_text c) + 1, ps_list := combine st c,
     ps_or := False, ps_count := ps_count st + 1, ps_token := \<lparr>tk_tag = fst c, tk_wildcard = WNone\<rparr>\<rparr>)"
proof -
  obtain t M m p where c: "c = (t, M, m, p)" by (cases c)
  have tx: "comparator_text c = op_prefix t @ core_text M m p" by (simp add: c comparator_text_def)
  have t: "t \<noteq> TkNone" using assms(2) c by simp
  define i where "i = ps_i st + length (op_prefix t)"
  define st1 where "st1 = st\<lparr>ps_i := i, ps_or := ps_or st \<or> t = TkVersion, ps_token := (ps_token st)\<lparr>tk_tag := t\<rparr>\<rparr>"
  have lead: "parse_round h s st = parse_chunk h s st1"
    using parse_lead_comparator [of "ps_i st" "sl_slice s" t M m p rest "tk_tag (ps_token st)" "ps_or st"] assms(1) t
    by (simp add: parse_round_def tx i_def st1_def)
  have di: "drop i (sl_slice s) = core_text M m p @ rest"
    using assms(1) unfolding i_def drop_add by (simp add: tx)
  define e where "e = i + length (core_text M m p)"
  have de: "drop e (sl_slice s) = rest" using di unfolding e_def drop_add by simp
  have ss: "sl_slice (sliced_sub s i (length (sl_slice s))) = core_text M m p @ rest"
    unfolding di [symmetric] by (simp add: sliced_sub_def)
  have ls: "length (sl_slice (sliced_sub s i (length (sl_slice s)))) < 2 ^ 32"
    using assms(4) by (simp add: sliced_sub_def)
  have pr: "version_parse h (sliced_sub s i (length (sl_slice s))) =
      Ret \<lparr>pr_wildcard = WNone, pr_valid = True, pr_version = release_partial M m p, pr_len = length (core_text M m p)\<rparr>"
    using assms(3) by (intro version_parse_core [OF ss _ ls]) auto
  have hy: "(if e < length (sl_slice s) \<and> (sl_slice s ! e = 32 \<or> sl_slice s ! e = 45)
      then possibly_hyphenate (sl_slice s) e else None) = None"
    using assms(3)
  proof
    assume "rest = []"
    then show ?thesis using de by simp
  next
    assume "\<exists>rest'. rest = 32 # rest' \<and> (rest' = [] \<or> hd rest' \<notin> set WHITESPACE_CHARS \<and> hd rest' \<noteq> 45)"
    then show ?thesis using possibly_hyphenate_space [of e "sl_slice s"] de by auto
  qed
  have add: "add_comparator \<lparr>pr_wildcard = WNone, pr_valid = True, pr_version = release_partial M m p, pr_len = length (core_text M m p)\<rparr>
      (st1\<lparr>ps_token := \<lparr>tk_tag = t, tk_wildcard = WNone\<rparr>\<rparr>) = Ret (combine st c)"
    using to_range_comparator [OF t] t
    by (auto simp: add_comparator_def combine_def st1_def c Let_def comparator_range_def single_def)
  have vt: "vtag (core M m p) = tag_default" by (simp add: core_def)
  define pr0 where "pr0 = \<lparr>pr_wildcard = WNone, pr_valid = True, pr_version = release_partial M m p,
      pr_len = length (core_text M m p)\<rparr>"
  have pi: "ps_i st1 = i" "ps_i st1 + pr_len pr0 = e" by (simp_all add: st1_def pr0_def e_def)
  have tk: "st1\<lparr>ps_token := (ps_token st1)\<lparr>tk_wildcard := pr_wildcard pr0\<rparr>\<rparr> = st1\<lparr>ps_token := \<lparr>tk_tag = t, tk_wildcard = WNone\<rparr>\<rparr>"
    by (simp add: st1_def pr0_def)
  have "parse_chunk h s st1 = Ret (end_round (ps_i st1 + pr_len pr0 + 1) (combine st c)
      (st1\<lparr>ps_token := (ps_token st1)\<lparr>tk_wildcard := pr_wildcard pr0\<rparr>\<rparr>))"
  proof (rule parse_chunk_single)
    show "version_parse h (sliced_sub s (ps_i st1) (length (sl_slice s))) = Ret pr0" unfolding pi pr0_def by (rule pr)
    show "(if ps_i st1 + pr_len pr0 < length (sl_slice s) \<and>
            (sl_slice s ! (ps_i st1 + pr_len pr0) = 32 \<or> sl_slice s ! (ps_i st1 + pr_len pr0) = 45)
          then possibly_hyphenate (sl_slice s) (ps_i st1 + pr_len pr0) else None) = None"
      unfolding pi(2) by (rule hy)
    show "tk_tag (ps_token st1) \<noteq> TkNone" using t by (simp add: st1_def)
    show "vtag (partial_min (pr_version pr0)) = tag_default" by (simp add: pr0_def vt)
    show "add_comparator pr0 (st1\<lparr>ps_token := (ps_token st1)\<lparr>tk_wildcard := pr_wildcard pr0\<rparr>\<rparr>) = Ret (combine st c)"
      unfolding tk using add by (simp add: pr0_def)
  qed
  then show ?thesis unfolding lead tk pi(2) tx by (simp add: end_round_def st1_def e_def i_def c add.assoc)
qed
text \<open>
  A query text: a first comparator, then comparators after a space (and) or after \<open>||\<close> (or).
  A bare version after a space is read as an alternative, so it is not an item of a
  conjunction here.
\<close>

definition item_text :: "bool \<times> release_comparator \<Rightarrow> bytes" where
  "item_text = (\<lambda>(alt, c). (if alt then bs '' || '' else bs '' '') @ comparator_text c)"

definition items_text :: "(bool \<times> release_comparator) list \<Rightarrow> bytes" where
  "items_text xs = concat (map item_text xs)"

definition item_ok :: "bool \<times> release_comparator \<Rightarrow> bool" where
  "item_ok = (\<lambda>(alt, c). fst c \<noteq> TkNone \<and> (alt \<or> fst c \<noteq> TkVersion))"

definition add_item :: "range list list \<Rightarrow> bool \<times> release_comparator \<Rightarrow> range list list" where
  "add_item D = (\<lambda>(alt, c). if alt then D @ [[comparator_range c]]
     else butlast D @ [last D @ [comparator_range c]])"

definition heads_set :: "range list list \<Rightarrow> bool" where
  "heads_set D \<longleftrightarrow> D \<noteq> [] \<and> (\<forall>rs \<in> set D. rs \<noteq> [] \<and> has_left (hd rs))"

lemma heads_set_add: "heads_set D \<Longrightarrow> heads_set (add_item D x)"
  by (cases x) (auto simp: heads_set_def add_item_def comparator_range_left hd_append
      dest: in_set_butlastD)

lemma comparator_text_hd:
  "fst c \<noteq> TkNone \<Longrightarrow> comparator_text c \<noteq> [] \<and> hd (comparator_text c) \<notin> set WHITESPACE_CHARS
     \<and> hd (comparator_text c) \<noteq> 45 \<and> hd (comparator_text c) \<noteq> 124"
proof -
  obtain t M m p where c: "c = (t, M, m, p)" by (cases c)
  obtain d ds where "core_text M m p = d # ds" "is_ascii_digit d" using core_text_digit by blast
  then show "fst c \<noteq> TkNone \<Longrightarrow> ?thesis"
    by (cases t) (auto simp: c comparator_text_def op_prefix_def WHITESPACE_CHARS_def is_ascii_digit_def)
qed

lemma items_rest:
  assumes "list_all item_ok items"
  shows "items_text items = [] \<or> (\<exists>rest'. items_text items = 32 # rest' \<and>
     (rest' = [] \<or> hd rest' \<notin> set WHITESPACE_CHARS \<and> hd rest' \<noteq> 45))"
proof (cases items)
  case (Cons x xs)
  obtain alt c where x: "x = (alt, c)" by (cases x)
  have "fst c \<noteq> TkNone" using assms Cons x by (simp add: item_ok_def)
  from comparator_text_hd [OF this] show ?thesis using Cons x
    by (cases alt) (simp_all add: items_text_def item_text_def WHITESPACE_CHARS_def)
qed (simp add: items_text_def)

lemma combine_dnf:
  assumes "group_ok (ps_list st)" "heads_set (dnf (ps_list st))" "ps_count st \<noteq> 0" "item_ok (ps_or st, c)"
  shows "dnf (combine st c) = add_item (dnf (ps_list st)) (ps_or st, c)" and "group_ok (combine st c)"
proof -
  have i: "group_inv (ps_list st)" using assms(1) by (simp add: group_ok_def)
  have u: "\<not> unset_group (ps_list st)" using assms(2) by (auto simp: unset_group_def heads_set_def)
  have "last (dnf (ps_list st)) \<in> set (dnf (ps_list st))" by simp
  then have l: "has_left (hd (last (dnf (ps_list st))))" using assms(2) unfolding heads_set_def by blast
  show "dnf (combine st c) = add_item (dnf (ps_list st)) (ps_or st, c)"
    using assms(3,4) u l or_range_spec(1) [OF i] group_and_range_spec(1) [OF i]
    by (auto simp: combine_def Let_def add_item_def item_ok_def conj_range_def)
  show "group_ok (combine st c)"
    using assms(1,3) group_ok_or_range [OF assms(1)] group_ok_and_range [OF assms(1)] comparator_range_ok
    by (auto simp: combine_def Let_def)
qed

lemma parse_round_or:
  assumes "drop (ps_i st) (sl_slice s) = 124 # 124 # 32 # rest" and "rest \<noteq> []" and "hd rest \<noteq> 32"
  shows "parse_round h s st = Ret (st\<lparr>ps_i := ps_i st + 3, ps_or := True,
     ps_token := (ps_token st)\<lparr>tk_tag := TkNone\<rparr>\<rparr>)"
proof -
  have "sl_slice s ! ps_i st = 124" using assms(1) by (metis nth_via_drop)
  moreover have "skip_while (\<lambda>c. c = 124) (sl_slice s) (ps_i st + 1) = ps_i st + 2"
    using assms(1) by (simp add: skip_while_def drop_Suc_tl)
  moreover have "drop (ps_i st + 2) (sl_slice s) = 32 # rest" unfolding drop_add assms(1) by (simp add: numeral_2_eq_2)
  then have "skip_spaces (sl_slice s) (ps_i st + 2) = ps_i st + 3"
    using assms(2,3) by (cases rest) (simp_all add: skip_spaces_def skip_while_def)
  ultimately show ?thesis by (simp add: parse_round_def parse_lead_def is_version_start_def is_ascii_digit_def)
qed
lemma query_loop_step:
  "ps_i st < length (sl_slice s) \<Longrightarrow> parse_round h s st = Ret st' \<Longrightarrow> query_loop h s st = query_loop h s st'"
  by (simp add: query_loop.simps [of h s st])

lemma drop_less: "drop i xs = y # ys \<Longrightarrow> i < length xs"
  by (metis drop_eq_Nil2 linorder_not_less list.discI)

lemma query_loop_items:
  assumes "ps_i st = Suc j" "drop j (sl_slice s) = items_text items" "list_all item_ok items" "\<not> ps_or st"
    "ps_count st = of_nat k" "0 < k" "k + length items < 2 ^ 32" "group_ok (ps_list st)" "heads_set (dnf (ps_list st))"
    "length (sl_slice s) < 2 ^ 32"
  shows "\<exists>st'. query_loop h s st = Ret st' \<and> dnf (ps_list st') = foldl add_item (dnf (ps_list st)) items"
  using assms
proof (induction items arbitrary: st j k)
  case Nil
  then have "\<not> ps_i st < length (sl_slice s)" by (simp add: items_text_def)
  then show ?case by (simp add: query_loop.simps [of h s st])
next
  case (Cons x items)
  obtain alt c where x: "x = (alt, c)" by (cases x)
  have ok: "fst c \<noteq> TkNone" "alt \<or> fst c \<noteq> TkVersion" using Cons.prems(3) x by (simp_all add: item_ok_def)
  note tx = comparator_text_hd [OF ok(1)]
  define st1 where "st1 = (if alt then st\<lparr>ps_i := ps_i st + 3, ps_or := True,
      ps_token := (ps_token st)\<lparr>tk_tag := TkNone\<rparr>\<rparr> else st)"
  have d: "drop (Suc j) (sl_slice s) = (if alt then [124, 124, 32] else []) @ comparator_text c @ items_text items"
    using Cons.prems(2) x by (simp add: drop_Suc_tl items_text_def item_text_def)
  have d1: "drop (ps_i st1) (sl_slice s) = comparator_text c @ items_text items"
  proof (cases alt)
    case True
    then have "drop (ps_i st1) (sl_slice s) = drop 3 (drop (Suc j) (sl_slice s))"
      using Cons.prems(1) by (simp add: st1_def add.commute)
    then show ?thesis using d True by simp
  qed (use d Cons.prems(1) in \<open>simp add: st1_def\<close>)
  have q1: "query_loop h s st = query_loop h s st1"
  proof (cases alt)
    case True
    then have dd: "drop (ps_i st) (sl_slice s) = 124 # 124 # 32 # comparator_text c @ items_text items"
      using d Cons.prems(1) by simp
    have "hd (comparator_text c @ items_text items) \<noteq> 32" using tx by (simp add: hd_append WHITESPACE_CHARS_def)
    then have "parse_round h s st = Ret st1"
      using parse_round_or [OF dd] tx True by (simp add: st1_def)
    then show ?thesis using query_loop_step drop_less [OF dd] by blast
  qed (simp add: st1_def)
  have or1: "ps_or st1 = alt" "ps_list st1 = ps_list st" "ps_count st1 = ps_count st" using Cons.prems(4) by (simp_all add: st1_def)
  have cnt: "ps_count st \<noteq> 0" using Cons.prems(5,6,7)
    by (auto simp: word_of_nat_eq_0_iff dest: dvd_imp_le)
  define st2 where "st2 = st1\<lparr>ps_i := ps_i st1 + length (comparator_text c) + 1, ps_list := combine st1 c,
     ps_or := False, ps_count := ps_count st1 + 1, ps_token := \<lparr>tk_tag = fst c, tk_wildcard = WNone\<rparr>\<rparr>"
  have r2: "parse_round h s st1 = Ret st2"
    unfolding st2_def using items_rest Cons.prems(3) by (intro parse_round_comparator [OF d1 ok(1) _ Cons.prems(10)]) simp
  obtain y ys where "comparator_text c = y # ys" using tx by (cases "comparator_text c") simp_all
  then have q2: "query_loop h s st1 = query_loop h s st2"
    using query_loop_step [OF _ r2] drop_less [of "ps_i st1" "sl_slice s"] d1 by simp
  have c2: "dnf (combine st1 c) = add_item (dnf (ps_list st)) x" "group_ok (combine st1 c)"
    using combine_dnf [of st1 c] Cons.prems(3,8,9) cnt or1 x by simp_all
  have "\<exists>st'. query_loop h s st2 = Ret st' \<and> dnf (ps_list st') = foldl add_item (dnf (ps_list st2)) items"
  proof (rule Cons.IH [where j = "ps_i st1 + length (comparator_text c)" and k = "Suc k"])
    show "drop (ps_i st1 + length (comparator_text c)) (sl_slice s) = items_text items"
      unfolding drop_add d1 by simp
    show "heads_set (dnf (ps_list st2))" using c2 heads_set_add Cons.prems(9) by (simp add: st2_def)
  qed (use Cons.prems or1 c2 in \<open>simp_all add: st2_def add.commute\<close>)
  then show ?case using q1 q2 c2 x by (simp add: st2_def)
qed
definition query_text :: "release_comparator \<Rightarrow> (bool \<times> release_comparator) list \<Rightarrow> bytes" where
  "query_text c items = comparator_text c @ items_text items"

lemma items_text_length: "length items \<le> length (items_text items)"
proof (induction items)
  case (Cons x xs)
  then show ?case by (cases x) (simp add: items_text_def item_text_def)
qed (simp add: items_text_def)

lemma query_parse_text:
  assumes "fst c \<noteq> TkNone" and "list_all item_ok items" and "sl_slice s = query_text c items"
    and "length (query_text c items) < 2 ^ 32"
  shows "\<exists>g. query_parse h s = Ret g \<and> dnf g = foldl add_item [[comparator_range c]] items"
proof -
  define st where "st = \<lparr>ps_i = 0, ps_list = group_default\<lparr>g_input := sl_slice s\<rparr>,
          ps_token = \<lparr>tk_tag = TkNone, tk_wildcard = WNone\<rparr>, ps_count = 0, ps_or = False\<rparr>"
  have g: "group_ok (ps_list st)" using group_ok_default by (simp add: st_def)
  have dd: "dnf (ps_list st) = [[range_default]]"
    by (simp add: st_def dnf_def group_default_def list_default_def query_default_def)
  define st1 where "st1 = st\<lparr>ps_i := ps_i st + length (comparator_text c) + 1, ps_list := combine st c,
     ps_or := False, ps_count := ps_count st + 1, ps_token := \<lparr>tk_tag = fst c, tk_wildcard = WNone\<rparr>\<rparr>"
  have d: "drop (ps_i st) (sl_slice s) = comparator_text c @ items_text items"
    using assms(3) by (simp add: st_def query_text_def)
  have r: "parse_round h s st = Ret st1"
    unfolding st1_def using items_rest assms(2,3,4) by (intro parse_round_comparator [OF d assms(1)]) simp_all
  have ne: "comparator_text c \<noteq> []" using comparator_text_hd [OF assms(1)] by blast
  have q: "query_loop h s st = query_loop h s st1"
    using r ne assms(3) by (intro query_loop_step) (simp_all add: st_def query_text_def)
  have u: "unset_group (ps_list st)" using dd by (simp add: unset_group_def has_left_def)
  have single: "fst c = TkVersion \<Longrightarrow> comparator_range c = single OpEql (c_version (r_left (comparator_range c)))"
    by (cases c) (simp add: comparator_range_def tag_op_def single_def)
  have c: "dnf (combine st c) = [[comparator_range c]]"
    using or_version_spec(1) [OF g, of "c_version (r_left (comparator_range c))"] u single
      group_and_range_spec(1) [of "ps_list st"] g dd
    by (simp add: combine_def Let_def group_ok_def conj_range_def has_left_def has_right_def) (simp add: st_def)
  have "group_ok (combine st c)"
    using group_ok_or_version [OF g] group_ok_and_range [OF g comparator_range_ok [of c]]
      group_ok_or_range [OF g comparator_range_ok [of c]] comparator_range_ok [of c]
    by (simp add: combine_def Let_def range_ok_def)
  moreover have "heads_set (dnf (combine st c))" by (simp add: c heads_set_def comparator_range_left)
  moreover have "1 + length items < 2 ^ 32"
    using assms(4) items_text_length [of items] ne
    by (cases "comparator_text c") (simp_all add: query_text_def)
  moreover have "drop (length (comparator_text c)) (sl_slice s) = items_text items"
    using assms(3) by (simp add: query_text_def)
  ultimately have "\<exists>st'. query_loop h s st1 = Ret st' \<and> dnf (ps_list st') = foldl add_item (dnf (ps_list st1)) items"
    using assms(2-4) by (intro query_loop_items [where j = "length (comparator_text c)" and k = 1])
      (simp_all add: st1_def st_def)
  then show ?thesis using q c unfolding query_parse_def st_def [symmetric]
    by (auto simp: st1_def)
qed

subsection \<open>Properties\<close>



end
