(* ===== verification/SemverIntersects.thy ===== *)
theory SemverIntersects
  imports SemverQuery
begin

text \<open>
  Intersection of two groups (\<open>src/src/semver/intersects.rs\<close>): every pair of alternatives is
  narrowed to an interval of the precedence order, and the groups intersect when one of the
  intervals is not empty. The bounds keep the buffer of the group they come from.
\<close>

subsection \<open>Model\<close>

record bound =
  b_version :: version
  b_buf :: bytes
  b_inclusive :: bool

record interval =
  iv_lower :: "bound option"
  iv_upper :: "bound option"

definition interval_default :: interval where
  "interval_default = \<lparr>iv_lower = None, iv_upper = None\<rparr>"

definition bound_order :: "bound \<Rightarrow> bound \<Rightarrow> ordering" where
  "bound_order a b = order_without_build (b_version a) (b_version b) (b_buf a) (b_buf b)"

definition raise :: "bound \<Rightarrow> interval \<Rightarrow> interval" where
  "raise b iv =
     (let replace = (case iv_lower iv of
          None \<Rightarrow> True
        | Some cur \<Rightarrow> (case bound_order b cur of
            Greater \<Rightarrow> True | Equal \<Rightarrow> \<not> b_inclusive b | Less \<Rightarrow> False))
      in if replace then iv\<lparr>iv_lower := Some b\<rparr> else iv)"

definition cap :: "bound \<Rightarrow> interval \<Rightarrow> interval" where
  "cap b iv =
     (let replace = (case iv_upper iv of
          None \<Rightarrow> True
        | Some cur \<Rightarrow> (case bound_order b cur of
            Less \<Rightarrow> True | Equal \<Rightarrow> \<not> b_inclusive b | Greater \<Rightarrow> False))
      in if replace then iv\<lparr>iv_upper := Some b\<rparr> else iv)"

definition narrow :: "comparator \<Rightarrow> bytes \<Rightarrow> interval \<Rightarrow> interval" where
  "narrow c buf iv =
     (let bnd = (\<lambda>inclusive. \<lparr>b_version = c_version c, b_buf = buf, b_inclusive = inclusive\<rparr>) in
      case c_op c of
        OpUnset \<Rightarrow> iv
      | OpEql \<Rightarrow> cap (bnd True) (raise (bnd True) iv)
      | OpGt \<Rightarrow> raise (bnd False) iv
      | OpGte \<Rightarrow> raise (bnd True) iv
      | OpLt \<Rightarrow> cap (bnd False) iv
      | OpLte \<Rightarrow> cap (bnd True) iv)"

fun and_query :: "query \<Rightarrow> bytes \<Rightarrow> interval \<Rightarrow> interval" where
  "and_query (Query r n) buf iv =
     (let iv' = narrow (r_right r) buf (narrow (r_left r) buf iv) in
      case n of Some q \<Rightarrow> and_query q buf iv' | None \<Rightarrow> iv')"

definition is_non_empty :: "interval \<Rightarrow> bool" where
  "is_non_empty iv =
     (case (iv_lower iv, iv_upper iv) of
        (Some l, Some u) \<Rightarrow> (case bound_order l u of
            Less \<Rightarrow> True | Equal \<Rightarrow> b_inclusive l \<and> b_inclusive u | Greater \<Rightarrow> False)
      | _ \<Rightarrow> True)"

text \<open>The inner loop over the alternatives of the other group, and the outer loop.\<close>

fun meets_some :: "interval \<Rightarrow> qlist \<Rightarrow> bytes \<Rightarrow> bool" where
  "meets_some base (QList q t n) other_buf =
     (if is_non_empty (and_query q other_buf base) then True
      else case n of Some l \<Rightarrow> meets_some base l other_buf | None \<Rightarrow> False)"

fun intersects_from :: "qlist \<Rightarrow> bytes \<Rightarrow> qlist \<Rightarrow> bytes \<Rightarrow> bool" where
  "intersects_from (QList q t n) self_buf other other_buf =
     (let base = and_query q self_buf interval_default;
          go_on = (case n of Some l \<Rightarrow> intersects_from l self_buf other other_buf | None \<Rightarrow> False)
      in if \<not> is_non_empty base then go_on
         else if meets_some base other other_buf then True
         else go_on)"

definition intersects :: "group \<Rightarrow> bytes \<Rightarrow> group \<Rightarrow> bytes \<Rightarrow> bool" where
  "intersects g self_buf other other_buf = intersects_from (g_head g) self_buf (g_head other) other_buf"

subsection \<open>The versions inside an interval\<close>

definition above :: "bound \<Rightarrow> version \<times> bytes \<Rightarrow> bool" where
  "above b = (\<lambda>(v, vb). case order_without_build v (b_version b) vb (b_buf b) of
     Greater \<Rightarrow> True | Equal \<Rightarrow> b_inclusive b | Less \<Rightarrow> False)"

definition below :: "bound \<Rightarrow> version \<times> bytes \<Rightarrow> bool" where
  "below b = (\<lambda>(v, vb). case order_without_build v (b_version b) vb (b_buf b) of
     Less \<Rightarrow> True | Equal \<Rightarrow> b_inclusive b | Greater \<Rightarrow> False)"

definition inside :: "interval \<Rightarrow> version \<times> bytes \<Rightarrow> bool" where
  "inside iv x \<longleftrightarrow> pred_option (\<lambda>b. above b x) (iv_lower iv) \<and> pred_option (\<lambda>b. below b x) (iv_upper iv)"

definition bound_ok :: "bound \<Rightarrow> bool" where
  "bound_ok b \<longleftrightarrow> version8 (b_version b)"

definition interval_ok :: "interval \<Rightarrow> bool" where
  "interval_ok iv \<longleftrightarrow> pred_option bound_ok (iv_lower iv) \<and> pred_option bound_ok (iv_upper iv)"


text \<open>The facts of the precedence order in the form the interval lemmas use.\<close>

lemma order_flip: "version8 v \<Longrightarrow> version8 w \<Longrightarrow> order_without_build w v c b = reverse_ord (order_without_build v w b c)"
  using version_cmp.cmp_rev [of "(v, b)" "(w, c)"] by simp

lemma order_less_le:
  "version8 u \<Longrightarrow> version8 v \<Longrightarrow> version8 w \<Longrightarrow> order_without_build u v a b = Less \<Longrightarrow>
    order_without_build v w b c \<noteq> Greater \<Longrightarrow> order_without_build u w a c = Less"
  using version_cmp.cmp_less_trans [of "(u, a)" "(v, b)" "(w, c)"] by simp

lemma order_le_less:
  "version8 u \<Longrightarrow> version8 v \<Longrightarrow> version8 w \<Longrightarrow> order_without_build u v a b \<noteq> Greater \<Longrightarrow>
    order_without_build v w b c = Less \<Longrightarrow> order_without_build u w a c = Less"
  using version_cmp.cmp_trans_less [of "(u, a)" "(v, b)" "(w, c)"] by simp

lemma order_equal_left:
  "version8 u \<Longrightarrow> version8 v \<Longrightarrow> version8 w \<Longrightarrow> order_without_build u v a b = Equal \<Longrightarrow>
    order_without_build u w a c = order_without_build v w b c"
  using version_cmp.cmp_equal_subst [of "(u, a)" "(v, b)" "(w, c)"] by simp

lemma order_equal_right:
  assumes "version8 u" "version8 v" "version8 w" "order_without_build v w b c = Equal"
  shows "order_without_build u w a c = order_without_build u v a b"
  using order_equal_left [OF assms(2,3,1,4), of a] order_flip [of u v b a] order_flip [of u w c a] assms(1-3)
  by simp

lemma raise_above:
  assumes "bound_ok b" "bound_ok cur" "version8 v"
  shows "above b (v, vb) \<and> above cur (v, vb) \<longleftrightarrow>
     above (if bound_order b cur = Greater \<or> bound_order b cur = Equal \<and> \<not> b_inclusive b then b else cur) (v, vb)"
proof -
  let ?B = "b_version b" and ?C = "b_version cur" and ?b = "b_buf b" and ?c = "b_buf cur"
  have ok: "version8 ?B" "version8 ?C" using assms by (simp_all add: bound_ok_def)
  show ?thesis
  proof (cases "bound_order b cur")
    case Less
    then have "order_without_build ?B v ?b vb = Less" if "order_without_build ?C v ?c vb \<noteq> Greater"
      using order_less_le [OF ok assms(3)] that by (simp add: bound_order_def)
    then show ?thesis
      using Less order_flip [OF ok(1) assms(3), of vb ?b] order_flip [OF ok(2) assms(3), of vb ?c]
      by (cases "order_without_build ?C v ?c vb") (simp_all add: above_def split: ordering.splits)
  next
    case Equal
    then have "order_without_build v ?C vb ?c = order_without_build v ?B vb ?b"
      using order_equal_right [OF assms(3) ok] by (simp add: bound_order_def)
    then show ?thesis using Equal by (auto simp: above_def split: ordering.splits)
  next
    case Greater
    then have "order_without_build ?C ?B ?c ?b = Less" using order_flip [OF ok, of ?c ?b] by (simp add: bound_order_def)
    then have "order_without_build ?C v ?c vb = Less" if "order_without_build ?B v ?b vb \<noteq> Greater"
      using order_less_le [OF ok(2,1) assms(3)] that by blast
    then show ?thesis
      using Greater order_flip [OF ok(1) assms(3), of vb ?b] order_flip [OF ok(2) assms(3), of vb ?c]
      by (cases "order_without_build ?B v ?b vb") (simp_all add: above_def split: ordering.splits)
  qed
qed

lemma cap_below:
  assumes "bound_ok b" "bound_ok cur" "version8 v"
  shows "below b (v, vb) \<and> below cur (v, vb) \<longleftrightarrow>
     below (if bound_order b cur = Less \<or> bound_order b cur = Equal \<and> \<not> b_inclusive b then b else cur) (v, vb)"
proof -
  let ?B = "b_version b" and ?C = "b_version cur" and ?b = "b_buf b" and ?c = "b_buf cur"
  have ok: "version8 ?B" "version8 ?C" using assms by (simp_all add: bound_ok_def)
  show ?thesis
  proof (cases "bound_order b cur")
    case Less
    then have "order_without_build v ?C vb ?c = Less" if "order_without_build v ?B vb ?b \<noteq> Greater"
      using order_le_less [OF assms(3) ok that] by (simp add: bound_order_def)
    then show ?thesis using Less
      by (cases "order_without_build v ?B vb ?b") (simp_all add: below_def)
  next
    case Equal
    then have "order_without_build v ?C vb ?c = order_without_build v ?B vb ?b"
      using order_equal_right [OF assms(3) ok] by (simp add: bound_order_def)
    then show ?thesis using Equal by (auto simp: below_def split: ordering.splits)
  next
    case Greater
    then have "order_without_build ?C ?B ?c ?b = Less" using order_flip [OF ok, of ?c ?b] by (simp add: bound_order_def)
    then have "order_without_build v ?B vb ?b = Less" if "order_without_build v ?C vb ?c \<noteq> Greater"
      using order_le_less [OF assms(3) ok(2,1) that] by blast
    then show ?thesis using Greater
      by (cases "order_without_build v ?C vb ?c") (simp_all add: below_def)
  qed
qed

lemma raise_inside:
  assumes "bound_ok b" "interval_ok iv" "version8 v"
  shows "inside (raise b iv) (v, vb) \<longleftrightarrow> inside iv (v, vb) \<and> above b (v, vb)"
proof -
  show "inside (raise b iv) (v, vb) \<longleftrightarrow> inside iv (v, vb) \<and> above b (v, vb)"
  proof (cases "iv_lower iv")
    case (Some cur)
    then have "bound_ok cur" using assms(2) by (simp add: interval_ok_def)
    from raise_above [OF assms(1) this assms(3), of vb] show ?thesis
      using Some by (cases "bound_order b cur") (auto simp: raise_def inside_def split: if_splits)
  qed (auto simp: raise_def inside_def)
qed

lemma cap_inside:
  assumes "bound_ok b" "interval_ok iv" "version8 v"
  shows "inside (cap b iv) (v, vb) \<longleftrightarrow> inside iv (v, vb) \<and> below b (v, vb)"
proof -
  show "inside (cap b iv) (v, vb) \<longleftrightarrow> inside iv (v, vb) \<and> below b (v, vb)"
  proof (cases "iv_upper iv")
    case (Some cur)
    then have "bound_ok cur" using assms(2) by (simp add: interval_ok_def)
    from cap_below [OF assms(1) this assms(3), of vb] show ?thesis
      using Some by (cases "bound_order b cur") (auto simp: cap_def inside_def split: if_splits)
  qed (auto simp: cap_def inside_def)
qed

definition comparator_allows :: "comparator \<Rightarrow> bytes \<Rightarrow> version \<times> bytes \<Rightarrow> bool" where
  "comparator_allows c buf = (\<lambda>(v, vb). c_op c = OpUnset \<or> comparator_satisfies c v buf vb)"

lemma raise_ok: "bound_ok b \<Longrightarrow> interval_ok iv \<Longrightarrow> interval_ok (raise b iv)"
  by (auto simp: raise_def interval_ok_def Let_def)

lemma cap_ok: "bound_ok b \<Longrightarrow> interval_ok iv \<Longrightarrow> interval_ok (cap b iv)"
  by (auto simp: cap_def interval_ok_def Let_def)

lemma narrow_ok:
  assumes "version8 (c_version c)" "interval_ok iv"
  shows "interval_ok (narrow c buf iv)"
  using assms by (cases "c_op c") (simp_all add: narrow_def Let_def raise_ok cap_ok bound_ok_def)

lemma narrow_inside:
  assumes "version8 (c_version c)" "interval_ok iv" "version8 v"
  shows "inside (narrow c buf iv) (v, vb) \<longleftrightarrow> inside iv (v, vb) \<and> comparator_allows c buf (v, vb)"
proof -
  have b: "bound_ok \<lparr>b_version = c_version c, b_buf = buf, b_inclusive = k\<rparr>" for k
    using assms(1) by (simp add: bound_ok_def)
  note r = raise_inside [OF b _ assms(3)] and k = cap_inside [OF b _ assms(3)]
  show ?thesis
    using assms(2) raise_ok [OF b assms(2)]
    by (cases "c_op c")
       (auto simp: narrow_def Let_def r k comparator_allows_def comparator_satisfies_op op_holds_def above_def below_def
        split: ordering.splits)
qed

text \<open>A property of intervals that every narrowing keeps holds after a chain of ranges.\<close>

lemma and_query_keeps:
  assumes "P iv" and "\<And>r iv. r \<in> set (ranges q) \<Longrightarrow> P iv \<Longrightarrow> P (narrow (r_right r) buf (narrow (r_left r) buf iv))"
  shows "P (and_query q buf iv)"
  using assms
proof (induction q buf iv rule: and_query.induct)
  case (1 r n buf iv)
  then show ?case by (cases n) (simp_all add: Let_def)
qed

lemma and_query_ok:
  "\<forall>r \<in> set (ranges q). range_ok r \<Longrightarrow> interval_ok iv \<Longrightarrow> interval_ok (and_query q buf iv)"
  by (rule and_query_keeps [where P = interval_ok]) (auto intro!: narrow_ok simp: range_ok_def)

lemma and_query_inside:
  assumes "\<forall>r \<in> set (ranges q). range_ok r" "interval_ok iv" "version8 v"
  shows "inside (and_query q buf iv) (v, vb) \<longleftrightarrow> inside iv (v, vb) \<and>
       (\<forall>r \<in> set (ranges q). comparator_allows (r_left r) buf (v, vb) \<and> comparator_allows (r_right r) buf (v, vb))"
  using assms(1,2)
proof (induction q buf iv rule: and_query.induct)
  case (1 r n buf iv)
  have r: "version8 (c_version (r_left r))" "version8 (c_version (r_right r))"
    using "1.prems"(1) by (cases n; simp add: range_ok_def)+
  note lo = narrow_ok [OF r(1) "1.prems"(2)]
  note nl = narrow_inside [OF r(1) "1.prems"(2) assms(3)] and nr = narrow_inside [OF r(2) lo assms(3)]
  show ?case
  proof (cases n)
    case None
    then show ?thesis using nl nr by (auto simp: Let_def)
  next
    case (Some q)
    then show ?thesis
      using "1.IH" [OF refl Some _ narrow_ok [OF r(2) lo]] "1.prems"(1) nl nr by (auto simp: Let_def)
  qed
qed

lemma range_ok_allows:
  assumes "range_ok r"
  shows "range_satisfies r v buf vb \<longleftrightarrow> comparator_allows (r_left r) buf (v, vb) \<and> comparator_allows (r_right r) buf (v, vb)"
  using assms
  by (auto simp: range_satisfies_def comparator_allows_def range_ok_def has_left_def has_right_def)

lemma inside_non_empty:
  assumes "interval_ok iv" "version8 v" "inside iv (v, vb)"
  shows "is_non_empty iv"
proof (cases "iv_lower iv"; cases "iv_upper iv")
  fix l u
  assume b: "iv_lower iv = Some l" "iv_upper iv = Some u"
  let ?l = "order_without_build v (b_version l) vb (b_buf l)" and ?u = "order_without_build v (b_version u) vb (b_buf u)"
  have ok: "version8 (b_version l)" "version8 (b_version u)" using assms(1) b by (simp_all add: interval_ok_def bound_ok_def)
  have lu: "above l (v, vb)" "below u (v, vb)" using assms(3) b by (simp_all add: inside_def)
  have f: "order_without_build (b_version l) v (b_buf l) vb = reverse_ord ?l" using order_flip [OF assms(2) ok(1)] by blast
  show ?thesis
  proof (cases ?l)
    case Less
    then show ?thesis using lu by (simp add: above_def)
  next
    case Equal
    then have "bound_order l u = ?u" using order_equal_left [OF assms(2) ok Equal] by (simp add: bound_order_def)
    then show ?thesis using lu Equal b by (cases ?u) (simp_all add: above_def below_def is_non_empty_def)
  next
    case Greater
    then have "order_without_build (b_version l) v (b_buf l) vb = Less" using f by simp
    moreover have "?u \<noteq> Greater" using lu by (auto simp: below_def)
    ultimately have "bound_order l u = Less" using order_less_le [OF ok(1) assms(2) ok(2)] by (simp add: bound_order_def)
    then show ?thesis using b by (simp add: is_non_empty_def)
  qed
qed (simp_all add: is_non_empty_def)

lemma meets_some_ex:
  "meets_some base l buf \<longleftrightarrow> (\<exists>q \<in> set (alts l). is_non_empty (and_query q buf base))"
  by (induction l rule: alts.induct) auto

lemma intersects_from_ex:
  "intersects_from l sb other ob \<longleftrightarrow> (\<exists>p \<in> set (alts l). is_non_empty (and_query p sb interval_default) \<and>
     (\<exists>q \<in> set (alts other). is_non_empty (and_query q ob (and_query p sb interval_default))))"
  by (induction l rule: alts.induct) (auto simp: Let_def meets_some_ex)

lemma interval_default_ok [simp]: "interval_ok interval_default" "inside interval_default x"
  by (simp_all add: interval_ok_def inside_def interval_default_def)

lemma group_ok_ranges: "group_ok g \<Longrightarrow> q \<in> set (alts (g_head g)) \<Longrightarrow> \<forall>r \<in> set (ranges q). range_ok r"
  by (auto simp: group_ok_def dnf_def)

lemma intersects_complete:
  assumes "group_ok g" "group_ok k" "version8 v"
    and "satisfies_including_prerelease g v gb vb" "satisfies_including_prerelease k v kb vb"
  shows "intersects g gb k kb"
proof -
  obtain p where p: "p \<in> set (alts (g_head g))" "\<forall>r \<in> set (ranges p). range_satisfies r v gb vb"
    using assms(4) by (auto simp: satisfies_including_prerelease_def list_satisfies_ex)
  obtain q where q: "q \<in> set (alts (g_head k))" "\<forall>r \<in> set (ranges q). range_satisfies r v kb vb"
    using assms(5) by (auto simp: satisfies_including_prerelease_def list_satisfies_ex)
  note po = group_ok_ranges [OF assms(1) p(1)] and qo = group_ok_ranges [OF assms(2) q(1)]
  let ?b = "and_query p gb interval_default"
  have bo: "interval_ok ?b" by (rule and_query_ok [OF po]) simp
  have co: "interval_ok (and_query q kb ?b)" by (rule and_query_ok [OF qo bo])
  have bi: "inside ?b (v, vb)" using and_query_inside [OF po _ assms(3)] bo p(2) po range_ok_allows by simp
  have "inside (and_query q kb ?b) (v, vb)" using and_query_inside [OF qo bo assms(3)] co bi q(2) qo range_ok_allows by simp
  then show ?thesis
    using inside_non_empty [OF bo assms(3) bi] inside_non_empty [OF co assms(3)] p(1) q(1)
    by (auto simp: intersects_def intersects_from_ex)
qed
subsection \<open>Groups without a strict lower bound\<close>

text \<open>
  The other direction holds where lower bounds are inclusive and each alternative has one, as
  in every desugared caret, tilde, exact and at-least range.
\<close>

definition closed_below :: "range list \<Rightarrow> bool" where
  "closed_below rs \<longleftrightarrow> (\<forall>r \<in> set rs. c_op (r_left r) \<noteq> OpGt \<and> c_op (r_right r) \<noteq> OpGt)"

definition has_lower :: "range list \<Rightarrow> bool" where
  "has_lower rs \<longleftrightarrow> (\<exists>r \<in> set rs. c_op (r_left r) \<in> {OpGte, OpEql} \<or> c_op (r_right r) \<in> {OpGte, OpEql})"

lemma narrow_closed:
  "c_op c \<noteq> OpGt \<Longrightarrow> pred_option b_inclusive (iv_lower iv) \<Longrightarrow> pred_option b_inclusive (iv_lower (narrow c buf iv))"
  by (cases "c_op c") (auto simp: narrow_def Let_def raise_def cap_def)

lemma narrow_lower: "iv_lower iv \<noteq> None \<or> c_op c \<in> {OpGte, OpEql} \<Longrightarrow> iv_lower (narrow c buf iv) \<noteq> None"
  by (cases "c_op c") (auto simp: narrow_def Let_def raise_def cap_def split: option.splits)

lemma and_query_closed:
  "closed_below (ranges q) \<Longrightarrow> pred_option b_inclusive (iv_lower iv) \<Longrightarrow>
    pred_option b_inclusive (iv_lower (and_query q buf iv))"
  by (rule and_query_keeps [where P = "\<lambda>iv. pred_option b_inclusive (iv_lower iv)"])
     (auto intro!: narrow_closed simp: closed_below_def)

lemma and_query_lower:
  "iv_lower iv \<noteq> None \<or> has_lower (ranges q) \<Longrightarrow> iv_lower (and_query q buf iv) \<noteq> None"
proof (induction q buf iv rule: and_query.induct)
  case (1 r n buf iv)
  have *: "iv_lower (narrow (r_right r) buf (narrow (r_left r) buf iv)) \<noteq> None"
    if "iv_lower iv \<noteq> None \<or> c_op (r_left r) \<in> {OpGte, OpEql} \<or> c_op (r_right r) \<in> {OpGte, OpEql}"
    using that narrow_lower by meson
  show ?case
  proof (cases n)
    case (Some q)
    show ?thesis using "1.IH" [OF refl Some] "1.prems" * Some
      by (cases "has_lower (ranges q)") (auto simp: Let_def has_lower_def)
  qed (use "1.prems" * in \<open>auto simp: Let_def has_lower_def\<close>)
qed

lemma non_empty_inside:
  assumes "interval_ok iv" "is_non_empty iv" "pred_option b_inclusive (iv_lower iv)" "iv_lower iv = Some l"
  shows "inside iv (b_version l, b_buf l)"
proof -
  have "version8 (b_version l)" using assms(1,4) by (simp add: interval_ok_def bound_ok_def)
  then have "order_without_build (b_version l) (b_version l) (b_buf l) (b_buf l) = Equal"
    using version_cmp.cmp_refl [of "(b_version l, b_buf l)"] by simp
  then show ?thesis
    using assms(2-4) by (cases "iv_upper iv")
      (auto simp: inside_def above_def below_def is_non_empty_def bound_order_def split: ordering.splits)
qed

lemma intersects_sound:
  assumes "group_ok g" "group_ok k" "intersects g gb k kb"
    and "\<forall>rs \<in> set (dnf g). closed_below rs \<and> has_lower rs" "\<forall>rs \<in> set (dnf k). closed_below rs"
  shows "\<exists>v vb. version8 v \<and> satisfies_including_prerelease g v gb vb \<and> satisfies_including_prerelease k v kb vb"
proof -
  obtain p q where p: "p \<in> set (alts (g_head g))" and q: "q \<in> set (alts (g_head k))"
    and ne: "is_non_empty (and_query q kb (and_query p gb interval_default))"
    using assms(3) by (auto simp: intersects_def intersects_from_ex)
  note po = group_ok_ranges [OF assms(1) p(1)] and qo = group_ok_ranges [OF assms(2) q(1)]
  let ?b = "and_query p gb interval_default" and ?c = "and_query q kb (and_query p gb interval_default)"
  have cl: "closed_below (ranges p)" "has_lower (ranges p)" "closed_below (ranges q)"
    using assms(4,5) p q by (auto simp: dnf_def)
  have bo: "interval_ok ?b" by (rule and_query_ok [OF po]) simp
  have co: "interval_ok ?c" by (rule and_query_ok [OF qo bo])
  have ci: "pred_option b_inclusive (iv_lower ?c)"
    by (intro and_query_closed cl) (simp add: interval_default_def)
  obtain l where l: "iv_lower ?c = Some l"
    using and_query_lower [of ?b q kb] and_query_lower [of interval_default p gb] cl(2) by auto
  have l8: "version8 (b_version l)" using co l by (simp add: interval_ok_def bound_ok_def)
  have "inside ?c (b_version l, b_buf l)" by (rule non_empty_inside [OF co ne ci l])
  then have i: "inside ?b (b_version l, b_buf l)"
    "\<forall>r \<in> set (ranges q). range_satisfies r (b_version l) kb (b_buf l)"
    using and_query_inside [OF qo bo l8] qo range_ok_allows by auto
  then have "\<forall>r \<in> set (ranges p). range_satisfies r (b_version l) gb (b_buf l)"
    using and_query_inside [OF po _ l8] po range_ok_allows by auto
  then show ?thesis
    using i(2) l8 p q
    unfolding satisfies_including_prerelease_def list_satisfies_ex by blast
qed

subsection \<open>Properties\<close>

text \<open>
  C4: intersection. A version that satisfies the comparators of both groups makes \<open>intersects\<close> true;
  and where no lower bound is strict and every alternative of the first group has one, \<open>intersects\<close>
  is true only if such a version exists.
\<close>

theorem intersects_exact:
  assumes "group_ok g" and "group_ok k"
  shows "((\<exists>v vb. version8 v \<and> satisfies_including_prerelease g v gb vb \<and> satisfies_including_prerelease k v kb vb)
       \<longrightarrow> intersects g gb k kb) \<and>
     ((\<forall>rs \<in> set (dnf g). closed_below rs \<and> has_lower rs) \<and> (\<forall>rs \<in> set (dnf k). closed_below rs)
       \<and> intersects g gb k kb \<longrightarrow>
      (\<exists>v vb. version8 v \<and> satisfies_including_prerelease g v gb vb \<and> satisfies_including_prerelease k v kb vb))"
  using intersects_complete [OF assms] intersects_sound [OF assms] by blast

theorem intersects_exact_witness:
  "group_ok (group_from version_default) \<and> intersects (group_from version_default) [] (group_from version_default) []"
proof -
  have d: "dnf (group_from version_default) = [[single OpEql version_default]]"
    by (simp add: dnf_def group_from_def single_def)
  have g: "group_ok (group_from version_default)"
    unfolding group_ok_def d by (simp add: range_ok_single group_inv_def group_from_def group_default_def clone_tail_def)
  have s: "satisfies_including_prerelease (group_from version_default) version_default [] []"
    by (simp add: satisfies_including_prerelease_def group_from_def single_def [symmetric] range_satisfies_single
        op_holds_def order_release)
  show ?thesis using intersects_exact [OF g g, of "[]" "[]"] g s version8_simps(1) by blast
qed

end
