(* ===== verification/Wyhash.thy ===== *)
theory Wyhash
  imports WordBytes
begin

text \<open>
  The hash functions (\<open>src/src/wyhash/lib.rs\<close>): \<open>Wyhash11\<close> with rounds of 32 bytes, \<open>Wyhash\<close> with
  rounds of 48 bytes, each with a streaming interface over an internal buffer and a one-shot
  function, the const re-implementation \<open>hash_const\<close>, \<open>hash_ascii_lowercase\<close>, \<open>OneShotHasher\<close> and the
  integer hash. A slice index or a copy out of range is a panic. \<open>usize\<close> is 64 bits and wraps.
\<close>

type_synonym u128 = "128 word"

subsection \<open>Wyhash11\<close>

definition PRIME0 :: u64 where "PRIME0 = 0xa0761d6478bd642f"
definition PRIME1 :: u64 where "PRIME1 = 0xe7037ed1a0b428db"
definition PRIME2 :: u64 where "PRIME2 = 0x8ebc6af09c88c6e3"
definition PRIME3 :: u64 where "PRIME3 = 0x589965cc75374cc3"
definition PRIME4 :: u64 where "PRIME4 = 0x1d8e4e27c47d124f"

text \<open>\<open>read_bytes::<BYTES>\<close>: a little-endian load of the first bytes.\<close>

definition read_bytes :: "nat \<Rightarrow> bytes \<Rightarrow> u64" where
  "read_bytes n data = of_nat (le_nat (take n data))"

definition read_8bytes_swapped :: "bytes \<Rightarrow> u64" where
  "read_8bytes_swapped data = push_bit 32 (read_bytes 4 data) OR read_bytes 4 (drop 4 data)"

definition mum :: "u64 \<Rightarrow> u64 \<Rightarrow> u64" where
  "mum a b = (let r = (ucast a :: u128) * ucast b in ucast (drop_bit 64 r XOR r))"

definition mix0 :: "u64 \<Rightarrow> u64 \<Rightarrow> u64 \<Rightarrow> u64" where
  "mix0 a b seed = mum (a XOR seed XOR PRIME0) (b XOR seed XOR PRIME1)"

definition mix1 :: "u64 \<Rightarrow> u64 \<Rightarrow> u64 \<Rightarrow> u64" where
  "mix1 a b seed = mum (a XOR seed XOR PRIME2) (b XOR seed XOR PRIME3)"

text \<open>
  The operand made of one to eight bytes, as the arms of \<open>final_\<close> and \<open>final_long\<close> write it for each
  remaining length.
\<close>

definition read_tail :: "nat \<Rightarrow> bytes \<Rightarrow> u64" where
  "read_tail n key =
     (if n = 1 then read_bytes 1 key
      else if n = 2 then read_bytes 2 key
      else if n = 3 then push_bit 8 (read_bytes 2 key) OR read_bytes 1 (drop 2 key)
      else if n = 4 then read_bytes 4 key
      else if n = 5 then push_bit 8 (read_bytes 4 key) OR read_bytes 1 (drop 4 key)
      else if n = 6 then push_bit 16 (read_bytes 4 key) OR read_bytes 2 (drop 4 key)
      else if n = 7 then push_bit 24 (read_bytes 4 key) OR push_bit 8 (read_bytes 2 (drop 4 key))
        OR read_bytes 1 (drop 6 key)
      else read_8bytes_swapped key)"

definition final_long :: "u64 \<Rightarrow> bytes \<Rightarrow> u64 outcome" where
  "final_long seed key =
     (let head = mix0 (read_8bytes_swapped key) (read_8bytes_swapped (drop 8 key)) seed; n = length key in
      if 17 \<le> n \<and> n \<le> 24 then Ret (head XOR mix1 (read_tail (n - 16) (drop 16 key)) PRIME4 seed)
      else if 25 \<le> n \<and> n \<le> 31
      then Ret (head XOR mix1 (read_8bytes_swapped (drop 16 key)) (read_tail (n - 24) (drop 24 key)) seed)
      else Panic)"

record wyhash_stateless =
  st_seed :: u64
  st_msg_len :: u64

definition stateless_init :: "u64 \<Rightarrow> wyhash_stateless" where
  "stateless_init seed = \<lparr>st_seed = seed, st_msg_len = 0\<rparr>"

definition stateless_round :: "u64 \<Rightarrow> bytes \<Rightarrow> u64" where
  "stateless_round seed b =
     mix0 (read_bytes 8 b) (read_bytes 8 (drop 8 b)) seed
     XOR mix1 (read_bytes 8 (drop 16 b)) (read_bytes 8 (drop 24 b)) seed"

fun stateless_rounds :: "u64 \<Rightarrow> bytes \<Rightarrow> u64 outcome" where
  "stateless_rounds seed [] = Ret seed"
| "stateless_rounds seed (x # xs) =
     (if length (x # xs) < 32 then Panic
      else stateless_rounds (stateless_round seed (take 32 (x # xs))) (drop 31 xs))"

definition stateless_update :: "wyhash_stateless \<Rightarrow> bytes \<Rightarrow> wyhash_stateless outcome" where
  "stateless_update s b =
     bind_outcome (stateless_rounds (st_seed s) b)
       (\<lambda>seed. Ret \<lparr>st_seed = seed, st_msg_len = st_msg_len s + of_nat (length b)\<rparr>)"

definition stateless_final :: "wyhash_stateless \<Rightarrow> bytes \<Rightarrow> (wyhash_stateless \<times> u64) outcome" where
  "stateless_final s b =
     (let seed = st_seed s; n = length b in
      bind_outcome
        (if n = 0 then Ret seed
         else if n \<le> 8 then Ret (mix0 (read_tail n b) PRIME4 seed)
         else if n \<le> 16 then Ret (mix0 (read_8bytes_swapped b) (read_tail (n - 8) (drop 8 b)) seed)
         else final_long seed b)
        (\<lambda>seed'. let len = st_msg_len s + of_nat n in
           Ret (\<lparr>st_seed = seed', st_msg_len = len\<rparr>, mum (seed' XOR len) PRIME4)))"

definition stateless_hash :: "u64 \<Rightarrow> bytes \<Rightarrow> u64 outcome" where
  "stateless_hash seed input =
     (let aligned_len = length input - length input mod 32 in
      bind_outcome (slice_range input 0 aligned_len) (\<lambda>b.
        bind_outcome (stateless_update (stateless_init seed) b) (\<lambda>c.
          bind_outcome (stateless_final c (drop aligned_len input)) (\<lambda>(c', r). Ret r))))"

record wyhash11 =
  w11_state :: wyhash_stateless
  w11_buf :: bytes
  w11_buf_len :: nat

definition wyhash11_init :: "u64 \<Rightarrow> wyhash11" where
  "wyhash11_init seed =
     \<lparr>w11_state = stateless_init seed, w11_buf = replicate 32 0, w11_buf_len = 0\<rparr>"

text \<open>\<open>u8::try_from(n).expect("int cast")\<close>.\<close>

definition expect_u8 :: "nat \<Rightarrow> nat outcome" where
  "expect_u8 n = (if n < 256 then Ret n else Panic)"

text \<open>The second half of \<open>update\<close>: the input from \<open>off\<close> on.\<close>

definition wyhash11_absorb :: "bytes \<Rightarrow> nat \<Rightarrow> wyhash11 \<Rightarrow> wyhash11 outcome" where
  "wyhash11_absorb b off w =
     (let remain_len = length b - off; aligned_len = remain_len - remain_len mod 32 in
      bind_outcome (slice_range b off (off + aligned_len)) (\<lambda>src.
        bind_outcome (stateless_update (w11_state w) src) (\<lambda>st.
          let tail = drop (off + aligned_len) b in
          bind_outcome (copy_at (w11_buf w) (w11_buf_len w) tail) (\<lambda>buf.
            bind_outcome (expect_u8 (length tail)) (\<lambda>n.
              Ret \<lparr>w11_state = st, w11_buf = buf, w11_buf_len = w11_buf_len w + n\<rparr>)))))"

definition wyhash11_update :: "wyhash11 \<Rightarrow> bytes \<Rightarrow> wyhash11 outcome" where
  "wyhash11_update w b =
     (if w11_buf_len w \<noteq> 0 \<and> 32 \<le> w11_buf_len w + length b then
        (let off = 32 - w11_buf_len w in
         bind_outcome (slice_range b 0 off) (\<lambda>src.
           bind_outcome (copy_at (w11_buf w) (w11_buf_len w) src) (\<lambda>buf.
             bind_outcome (stateless_update (w11_state w) buf) (\<lambda>st.
               wyhash11_absorb b off \<lparr>w11_state = st, w11_buf = buf, w11_buf_len = 0\<rparr>))))
      else wyhash11_absorb b 0 w)"

definition wyhash11_final :: "wyhash11 \<Rightarrow> u64 outcome" where
  "wyhash11_final w =
     bind_outcome (slice_range (w11_buf w) 0 (w11_buf_len w)) (\<lambda>rem_key.
       bind_outcome (stateless_final (w11_state w) rem_key) (\<lambda>(s, r). Ret r))"

definition wyhash11_hash :: "u64 \<Rightarrow> bytes \<Rightarrow> u64 outcome" where
  "wyhash11_hash seed input = stateless_hash seed input"

text \<open>\<open>OneShotHasher\<close>: its state is the running hash.\<close>

definition oneshot_write :: "u64 \<Rightarrow> bytes \<Rightarrow> u64 outcome" where
  "oneshot_write hash b = wyhash11_hash hash b"

definition oneshot_write_u64 :: "u64 \<Rightarrow> u64 \<Rightarrow> u64" where
  "oneshot_write_u64 hash n = mum (hash XOR n) PRIME4"

subsection \<open>Wyhash\<close>

type_synonym wy_state = "u64 \<times> u64 \<times> u64"

record wyhash =
  wy_a :: u64
  wy_b :: u64
  wy_state :: wy_state
  wy_total_len :: u64
  wy_buf :: bytes
  wy_buf_len :: nat

definition read4 :: "bytes \<Rightarrow> u64" where
  "read4 data = of_nat (le_nat (take 4 data))"

definition read8 :: "bytes \<Rightarrow> u64" where
  "read8 data = of_nat (le_nat (take 8 data))"

text \<open>\<open>mum_\<close>: the low and the high half of the product.\<close>

definition mum2 :: "u64 \<Rightarrow> u64 \<Rightarrow> u64 \<times> u64" where
  "mum2 a b = (let x = (ucast a :: u128) * ucast b in (ucast x, ucast (drop_bit 64 x)))"

definition mix :: "u64 \<Rightarrow> u64 \<Rightarrow> u64" where
  "mix a b = (case mum2 a b of (lo, hi) \<Rightarrow> lo XOR hi)"

definition wyhash_init :: "u64 \<Rightarrow> wyhash" where
  "wyhash_init seed =
     (let s0 = seed XOR mix (seed XOR PRIME0) PRIME1 in
      \<lparr>wy_a = 0, wy_b = 0, wy_state = (s0, s0, s0), wy_total_len = 0, wy_buf = replicate 48 0, wy_buf_len = 0\<rparr>)"

definition wy_round :: "wy_state \<Rightarrow> bytes \<Rightarrow> wy_state" where
  "wy_round st input =
     (case st of (s0, s1, s2) \<Rightarrow>
       (mix (read8 input XOR PRIME1) (read8 (drop 8 input) XOR s0),
        mix (read8 (drop 16 input) XOR PRIME2) (read8 (drop 24 input) XOR s1),
        mix (read8 (drop 32 input) XOR PRIME3) (read8 (drop 40 input) XOR s2)))"

text \<open>The loop \<open>while i + 48 < input.len()\<close>.\<close>

function wy_loop :: "wy_state \<Rightarrow> bytes \<Rightarrow> nat \<Rightarrow> wy_state \<times> nat" where
  "wy_loop st input i =
     (if i + 48 < length input then wy_loop (wy_round st (take 48 (drop i input))) input (i + 48)
      else (st, i))"
  by pat_completeness auto
termination
  by (relation "measure (\<lambda>(st, input, i). length input - i)") auto

declare wy_loop.simps [simp del]

text \<open>The part of \<open>update\<close> from the loop on: whole blocks, then the remaining bytes.\<close>

definition wyhash_absorb :: "bytes \<Rightarrow> nat \<Rightarrow> wyhash \<Rightarrow> wyhash outcome" where
  "wyhash_absorb input i0 w =
     (case wy_loop (wy_state w) input i0 of (st, i) \<Rightarrow>
        (let remaining = drop i input in
         bind_outcome
           (if length remaining < 16 \<and> 48 \<le> i then
              (let rm = 16 - length remaining in
               bind_outcome (slice_range input (i - rm) i) (\<lambda>src. copy_at (wy_buf w) (48 - rm) src))
            else Ret (wy_buf w))
           (\<lambda>buf. bind_outcome (copy_at buf 0 remaining) (\<lambda>buf.
              Ret (w\<lparr>wy_state := st, wy_buf := buf, wy_buf_len := length remaining\<rparr>)))))"

definition wyhash_update :: "wyhash \<Rightarrow> bytes \<Rightarrow> wyhash outcome" where
  "wyhash_update w0 input =
     (let w = w0\<lparr>wy_total_len := wy_total_len w0 + of_nat (length input)\<rparr> in
      if length input \<le> 48 - wy_buf_len w then
        bind_outcome (copy_at (wy_buf w) (wy_buf_len w) input) (\<lambda>buf.
          Ret (w\<lparr>wy_buf := buf, wy_buf_len := wy_buf_len w + length input\<rparr>))
      else if 0 < wy_buf_len w then
        (let i = 48 - wy_buf_len w in
         bind_outcome (slice_range input 0 i) (\<lambda>src.
           bind_outcome (copy_at (wy_buf w) (wy_buf_len w) src) (\<lambda>buf.
             wyhash_absorb input i (w\<lparr>wy_buf := buf, wy_state := wy_round (wy_state w) buf, wy_buf_len := 0\<rparr>))))
      else wyhash_absorb input 0 w)"

definition small_key :: "bytes \<Rightarrow> u64 \<times> u64" where
  "small_key input =
     (let n = length input in
      if 4 \<le> n then
        (let e = n - 4; quarter = (n div 8) * 4 in
         (push_bit 32 (read4 input) OR read4 (drop quarter input),
          push_bit 32 (read4 (drop e input)) OR read4 (drop (e - quarter) input)))
      else if n \<noteq> 0 then
        (push_bit 16 (ucast (input ! 0)) OR push_bit 8 (ucast (input ! (n div 2))) OR ucast (input ! (n - 1)), 0)
      else (0, 0))"

definition final0 :: "wy_state \<Rightarrow> wy_state" where
  "final0 st = (case st of (s0, s1, s2) \<Rightarrow> (s0 XOR (s1 XOR s2), s1, s2))"

function final1_loop :: "u64 \<Rightarrow> bytes \<Rightarrow> nat \<Rightarrow> u64" where
  "final1_loop s0 input i =
     (if i + 16 < length input
      then final1_loop (mix (read8 (drop i input) XOR PRIME1) (read8 (drop (i + 8) input) XOR s0)) input (i + 16)
      else s0)"
  by pat_completeness auto
termination
  by (relation "measure (\<lambda>(s0, input, i). length input - i)") auto

declare final1_loop.simps [simp del]

text \<open>\<open>final1\<close> gives the new \<open>state[0]\<close>, \<open>a\<close> and \<open>b\<close>.\<close>

definition final1 :: "u64 \<Rightarrow> bytes \<Rightarrow> nat \<Rightarrow> u64 \<times> u64 \<times> u64" where
  "final1 s0 input_lb start_pos =
     (let n = length input_lb in
      (final1_loop s0 (drop start_pos input_lb) 0,
       read8 (drop (n - 16) input_lb), read8 (drop (n - 8) input_lb)))"

definition final2 :: "u64 \<Rightarrow> u64 \<Rightarrow> u64 \<Rightarrow> u64 \<Rightarrow> u64" where
  "final2 a b s0 total_len =
     (case mum2 (a XOR PRIME1) (b XOR s0) of (a', b') \<Rightarrow> mix (a' XOR PRIME0 XOR total_len) (b' XOR PRIME1))"

definition wyhash_final :: "wyhash \<Rightarrow> u64 outcome" where
  "wyhash_final w =
     bind_outcome (slice_range (wy_buf w) 0 (wy_buf_len w)) (\<lambda>input.
       if wy_total_len w \<le> 16 then
         (case small_key input of (a, b) \<Rightarrow> Ret (final2 a b (fst (wy_state w)) (wy_total_len w)))
       else
         bind_outcome
           (if wy_buf_len w < 16 then
              (let rm = 16 - wy_buf_len w in
               bind_outcome (slice_range (wy_buf w) (48 - rm) 48) (\<lambda>pre. Ret (pre @ input, rm)))
            else Ret (input, 0))
           (\<lambda>(input, offset).
              case final1 (fst (final0 (wy_state w))) input offset of (s0, a, b) \<Rightarrow>
                Ret (final2 a b s0 (wy_total_len w))))"

text \<open>The one-shot loop \<open>while i < bound\<close> with the round open-coded.\<close>

function hash_loop :: "wy_state \<Rightarrow> bytes \<Rightarrow> nat \<Rightarrow> wy_state \<times> nat" where
  "hash_loop st input i =
     (if i < length input - 48 then
        (case st of (s0, s1, s2) \<Rightarrow>
           let r8 = (\<lambda>o'. read8 (drop (i + o') input));
               m0 = (ucast (r8 0 XOR PRIME1) :: u128) * ucast (r8 8 XOR s0);
               m1 = (ucast (r8 16 XOR PRIME2) :: u128) * ucast (r8 24 XOR s1);
               m2 = (ucast (r8 32 XOR PRIME3) :: u128) * ucast (r8 40 XOR s2)
           in hash_loop (ucast m0 XOR ucast (drop_bit 64 m0), ucast m1 XOR ucast (drop_bit 64 m1),
                ucast m2 XOR ucast (drop_bit 64 m2)) input (i + 48))
      else (st, i))"
  by pat_completeness auto
termination
  by (relation "measure (\<lambda>(st, input, i). length input - i)") auto

declare hash_loop.simps [simp del]

definition wyhash_hash :: "u64 \<Rightarrow> bytes \<Rightarrow> u64" where
  "wyhash_hash seed input =
     (let w = wyhash_init seed; len = of_nat (length input) in
      if length input \<le> 16 then
        (case small_key input of (a, b) \<Rightarrow> final2 a b (fst (wy_state w)) len)
      else
        (case (if 48 \<le> length input then
                 (case hash_loop (wy_state w) input 0 of (st, i) \<Rightarrow> (final0 st, i))
               else (wy_state w, 0)) of (st, i) \<Rightarrow>
           (case final1 (fst st) input i of (s0, a, b) \<Rightarrow> final2 a b s0 len)))"

definition wy_hash :: "bytes \<Rightarrow> u64" where
  "wy_hash b = wyhash_hash 0 b"

definition wy_hash32 :: "bytes \<Rightarrow> u32" where
  "wy_hash32 b = ucast (wy_hash b)"

subsection \<open>The const re-implementation\<close>

definition read4_at :: "bytes \<Rightarrow> nat \<Rightarrow> u64" where
  "read4_at d o' = of_nat (le_nat [d ! o', d ! (o' + 1), d ! (o' + 2), d ! (o' + 3)])"

definition read8_at :: "bytes \<Rightarrow> nat \<Rightarrow> u64" where
  "read8_at d o' = of_nat (le_nat [d ! o', d ! (o' + 1), d ! (o' + 2), d ! (o' + 3),
     d ! (o' + 4), d ! (o' + 5), d ! (o' + 6), d ! (o' + 7)])"

function const_rounds :: "wy_state \<Rightarrow> bytes \<Rightarrow> nat \<Rightarrow> wy_state \<times> nat" where
  "const_rounds st input i =
     (if i + 48 < length input then
        (case st of (s0, s1, s2) \<Rightarrow>
           const_rounds
             (mix (read8_at input i XOR PRIME1) (read8_at input (i + 8) XOR s0),
              mix (read8_at input (i + 16) XOR PRIME2) (read8_at input (i + 24) XOR s1),
              mix (read8_at input (i + 32) XOR PRIME3) (read8_at input (i + 40) XOR s2)) input (i + 48))
      else (st, i))"
  by pat_completeness auto
termination
  by (relation "measure (\<lambda>(st, input, i). length input - i)") auto

function const_final1 :: "u64 \<Rightarrow> bytes \<Rightarrow> nat \<Rightarrow> u64" where
  "const_final1 s0 input j =
     (if j + 16 < length input
      then const_final1 (mix (read8_at input j XOR PRIME1) (read8_at input (j + 8) XOR s0)) input (j + 16)
      else s0)"
  by pat_completeness auto
termination
  by (relation "measure (\<lambda>(s0, input, j). length input - j)") auto

declare const_rounds.simps [simp del] const_final1.simps [simp del]

definition hash_const :: "u64 \<Rightarrow> bytes \<Rightarrow> u64" where
  "hash_const seed input =
     (let s0 = seed XOR mix (seed XOR PRIME0) PRIME1; len = length input in
      case (if len \<le> 16 then
              (if 4 \<le> len then
                 (let e = len - 4; quarter = (len div 8) * 4 in
                  (s0, push_bit 32 (read4_at input 0) OR read4_at input quarter,
                   push_bit 32 (read4_at input e) OR read4_at input (e - quarter)))
               else if 0 < len then
                 (s0, push_bit 16 (ucast (input ! 0)) OR push_bit 8 (ucast (input ! (len div 2)))
                    OR ucast (input ! (len - 1)), 0)
               else (s0, 0, 0))
            else
              (case (if 48 \<le> len then
                       (case const_rounds (s0, s0, s0) input 0 of ((t0, t1, t2), i) \<Rightarrow> (t0 XOR (t1 XOR t2), i))
                     else (s0, 0)) of (t0, i) \<Rightarrow>
                 (const_final1 t0 input i, read8_at input (len - 16), read8_at input (len - 8))))
      of (t0, a, b) \<Rightarrow>
        (let x = (ucast (a XOR PRIME1) :: u128) * ucast (b XOR t0) in
         mix (ucast x XOR PRIME0 XOR of_nat len) (ucast (drop_bit 64 x) XOR PRIME1)))"

subsection \<open>Hashing the lower-case view\<close>

definition to_ascii_lowercase :: "u8 \<Rightarrow> u8" where
  "to_ascii_lowercase c = (if 65 \<le> c \<and> c \<le> 90 then c + 32 else c)"

fun lowercase_chunks :: "wyhash \<Rightarrow> bytes \<Rightarrow> wyhash outcome" where
  "lowercase_chunks h [] = Ret h"
| "lowercase_chunks h (x # xs) =
     (let n = min (length (x # xs)) 48 in
      bind_outcome (wyhash_update h (map to_ascii_lowercase (take n (x # xs)))) (\<lambda>h'.
        lowercase_chunks h' (drop (n - 1) xs)))"

definition hash_ascii_lowercase :: "u64 \<Rightarrow> bytes \<Rightarrow> u64 outcome" where
  "hash_ascii_lowercase seed b =
     (if length b \<le> 48 then Ret (wyhash_hash seed (map to_ascii_lowercase b))
      else bind_outcome (lowercase_chunks (wyhash_init seed) b) wyhash_final)"

subsection \<open>The integer hash\<close>

definition hash_int_u32 :: "u32 \<Rightarrow> u32" where
  "hash_int_u32 x0 =
     (let x1 = (x0 XOR drop_bit 17 x0) * 0xed5ad4bb;
          x2 = (x1 XOR drop_bit 11 x1) * 0xac4c1b51;
          x3 = (x2 XOR drop_bit 15 x2) * 0x31848bab
      in x3 XOR drop_bit 14 x3)"


subsection \<open>Streaming and one-shot Wyhash11 agree\<close>

lemma slice_range_Ret: "i \<le> j \<Longrightarrow> j \<le> length b \<Longrightarrow> slice_range b i j = Ret (take (j - i) (drop i b))"
  by (simp add: slice_range_def)

lemma copy_at_Ret:
  "pos + length src \<le> length buf \<Longrightarrow> copy_at buf pos src = Ret (take pos buf @ src @ drop (pos + length src) buf)"
  by (simp add: copy_at_def)

lemma stateless_rounds_append:
  "32 dvd length xs \<Longrightarrow> stateless_rounds s (xs @ ys) = bind_outcome (stateless_rounds s xs) (\<lambda>s'. stateless_rounds s' ys)"
proof (induction s xs rule: stateless_rounds.induct)
  case (2 s x xs)
  have "32 \<le> length (x # xs)" using "2.prems" by (intro dvd_imp_le) simp_all
  moreover have "32 dvd length (drop 31 xs)" using "2.prems" calculation dvd_minus_self [of 32 "length (x # xs)"] by simp
  ultimately show ?case using "2.IH" by simp
qed simp

lemma stateless_rounds_Ret: "32 dvd length xs \<Longrightarrow> \<exists>s'. stateless_rounds s xs = Ret s'"
proof (induction s xs rule: stateless_rounds.induct)
  case (2 s x xs)
  have "32 \<le> length (x # xs)" using "2.prems" by (intro dvd_imp_le) simp_all
  moreover have "32 dvd length (drop 31 xs)" using "2.prems" calculation dvd_minus_self [of 32 "length (x # xs)"] by simp
  ultimately show ?case using "2.IH" by simp
qed simp

lemma stateless_update_append:
  assumes "32 dvd length xs"
  shows "stateless_update s (xs @ ys) = bind_outcome (stateless_update s xs) (\<lambda>s'. stateless_update s' ys)"
proof -
  obtain s' where "stateless_rounds (st_seed s) xs = Ret s'" using stateless_rounds_Ret [OF assms] by blast
  then show ?thesis
    by (cases "stateless_rounds s' ys") (simp_all add: stateless_update_def stateless_rounds_append [OF assms] add.assoc)
qed

lemma stateless_update_Ret: "32 dvd length xs \<Longrightarrow> \<exists>s'. stateless_update s xs = Ret s'"
  using stateless_rounds_Ret [of xs "st_seed s"] by (auto simp: stateless_update_def)

text \<open>What a streaming state holds after the bytes \<open>t\<close>: whole blocks absorbed, the rest in the buffer.\<close>

definition w11_holds :: "u64 \<Rightarrow> bytes \<Rightarrow> wyhash11 \<Rightarrow> bool" where
  "w11_holds seed t w \<longleftrightarrow> (\<exists>k r. t = k @ r \<and> 32 dvd length k \<and> length r < 32 \<and>
     stateless_update (stateless_init seed) k = Ret (w11_state w) \<and>
     length (w11_buf w) = 32 \<and> w11_buf_len w = length r \<and> take (length r) (w11_buf w) = r)"

lemma wyhash11_absorb_holds:
  assumes st: "stateless_update (stateless_init seed) k = Ret (w11_state w)" and k: "32 dvd length k"
    and buf: "length (w11_buf w) = 32" "w11_buf_len w = length r" "take (length r) (w11_buf w) = r"
    and off: "off \<le> length b" and one: "r = [] \<or> length r + (length b - off) < 32"
  shows "\<exists>w'. wyhash11_absorb b off w = Ret w' \<and> w11_holds seed (k @ r @ drop off b) w'"
proof -
  define n where "n = length b - off"
  define al where "al = n - n mod 32"
  have al: "al \<le> n" "32 dvd al" "n - al < 32" by (simp_all add: al_def minus_mod_eq_mult_div)
  have ral: "r = [] \<or> al = 0" using one by (auto simp: al_def n_def)
  define src where "src = take al (drop off b)"
  define tl where "tl = drop (off + al) b"
  have lsrc: "length src = al" using al off by (simp add: src_def n_def)
  have ltl: "length tl = n - al" using off by (simp add: tl_def n_def)
  have split: "drop off b = src @ tl" by (simp add: src_def tl_def add.commute flip: drop_drop)
  obtain st' where st': "stateless_update (w11_state w) src = Ret st'" using stateless_update_Ret al lsrc by metis
  have fit: "length r + length tl < 32" using ral one ltl al by (auto simp: n_def)
  define w' where "w' = \<lparr>w11_state = st', w11_buf = r @ tl @ drop (length r + length tl) (w11_buf w),
     w11_buf_len = length r + length tl\<rparr>"
  have sr: "slice_range b off (off + al) = Ret src" using al off by (simp add: slice_range_Ret src_def n_def)
  have cp: "copy_at (w11_buf w) (w11_buf_len w) tl = Ret (r @ tl @ drop (length r + length tl) (w11_buf w))"
    using buf fit by (simp add: copy_at_Ret)
  have eu: "expect_u8 (length tl) = Ret (length tl)" using fit by (simp add: expect_u8_def)
  have "wyhash11_absorb b off w = Ret w'"
    unfolding wyhash11_absorb_def Let_def n_def [symmetric] al_def [symmetric] sr bind_outcome.simps st'
      tl_def [symmetric] cp eu by (simp add: w'_def buf(2))
  moreover have "stateless_update (stateless_init seed) (k @ src) = Ret st'"
    using st st' stateless_update_append [OF k] by simp
  then have "w11_holds seed (k @ r @ drop off b) w'"
    unfolding w11_holds_def split
    using ral fit buf k al lsrc
    by (intro exI [of _ "k @ src"] exI [of _ "r @ tl"]) (auto simp: w'_def)
  ultimately show ?thesis by blast
qed

lemma wyhash11_update_holds:
  assumes "w11_holds seed t w"
  shows "\<exists>w'. wyhash11_update w b = Ret w' \<and> w11_holds seed (t @ b) w'"
proof -
  obtain k r where t: "t = k @ r" and k: "32 dvd length k" and r: "length r < 32"
    and st: "stateless_update (stateless_init seed) k = Ret (w11_state w)"
    and buf: "length (w11_buf w) = 32" "w11_buf_len w = length r" "take (length r) (w11_buf w) = r"
    using assms by (auto simp: w11_holds_def)
  show ?thesis
  proof (cases "r \<noteq> [] \<and> 32 \<le> length r + length b")
    case True
    define off where "off = 32 - length r"
    define bf where "bf = r @ take off b"
    have off: "off \<le> length b" "length bf = 32" using True r by (auto simp: off_def bf_def)
    obtain st' where st': "stateless_update (w11_state w) bf = Ret st'" using stateless_update_Ret off(2) by force
    have "stateless_update (stateless_init seed) (k @ bf) = Ret st'"
      using st st' stateless_update_append [OF k] by simp
    then obtain w' where w': "wyhash11_absorb b off \<lparr>w11_state = st', w11_buf = bf, w11_buf_len = 0\<rparr> = Ret w'"
        "w11_holds seed ((k @ bf) @ [] @ drop off b) w'"
      using wyhash11_absorb_holds [of seed "k @ bf" "\<lparr>w11_state = st', w11_buf = bf, w11_buf_len = 0\<rparr>" "[]" off b] off k
      by auto
    have "copy_at (w11_buf w) (length r) (take off b) = Ret bf"
      using buf off True r by (simp add: copy_at_def bf_def off_def)
    then have "wyhash11_update w b = Ret w'"
      using True buf off st' w' by (simp add: wyhash11_update_def slice_range_Ret flip: off_def)
    moreover have "(k @ bf) @ [] @ drop off b = t @ b" by (simp add: t bf_def)
    ultimately show ?thesis using w'(2) by metis
  next
    case False
    then have "r = [] \<or> length r + (length b - 0) < 32" by auto
    from wyhash11_absorb_holds [OF st k buf _ this] False show ?thesis
      by (auto simp: wyhash11_update_def buf t)
  qed
qed

lemma wyhash11_init_holds: "w11_holds seed [] (wyhash11_init seed)"
  by (simp add: w11_holds_def wyhash11_init_def stateless_update_def stateless_init_def)

lemma wyhash11_final_holds:
  assumes "w11_holds seed t w"
  shows "wyhash11_final w = wyhash11_hash seed t"
proof -
  obtain k r where t: "t = k @ r" and k: "32 dvd length k" and r: "length r < 32"
    and st: "stateless_update (stateless_init seed) k = Ret (w11_state w)"
    and buf: "length (w11_buf w) = 32" "w11_buf_len w = length r" "take (length r) (w11_buf w) = r"
    using assms by (auto simp: w11_holds_def)
  obtain q where "length k = 32 * q" using k by blast
  then have "length t mod 32 = length r" using r t by simp
  then have "length t - length t mod 32 = length k" using t by simp
  then show ?thesis
    using st buf r t by (simp add: wyhash11_final_def wyhash11_hash_def stateless_hash_def slice_range_Ret)
qed


subsection \<open>Hashing in pieces\<close>

text \<open>
  The interface of a streaming hash and what its users rely on: feeding the pieces of an input one
  after the other and finishing gives the one-shot hash of the input.
\<close>

fun update_all :: "('s \<Rightarrow> bytes \<Rightarrow> 's outcome) \<Rightarrow> 's \<Rightarrow> bytes list \<Rightarrow> 's outcome" where
  "update_all upd s [] = Ret s"
| "update_all upd s (x # xs) = bind_outcome (upd s x) (\<lambda>s'. update_all upd s' xs)"

locale streaming_hash =
  fixes start :: 's
    and upd :: "'s \<Rightarrow> bytes \<Rightarrow> 's outcome"
    and fin :: "'s \<Rightarrow> u64 outcome"
    and one_shot :: "bytes \<Rightarrow> u64 outcome"
    and holds :: "bytes \<Rightarrow> 's \<Rightarrow> bool"
    and fits :: "bytes \<Rightarrow> bool"
  assumes start_holds: "holds [] start"
    and upd_holds: "holds t s \<Longrightarrow> \<exists>s'. upd s b = Ret s' \<and> holds (t @ b) s'"
    and fin_holds: "holds t s \<Longrightarrow> fits t \<Longrightarrow> fin s = one_shot t"
begin

lemma update_all_holds: "holds t s \<Longrightarrow> \<exists>s'. update_all upd s xs = Ret s' \<and> holds (t @ concat xs) s'"
proof (induction xs arbitrary: t s)
  case (Cons x xs)
  then obtain s1 where "upd s x = Ret s1" "holds (t @ x) s1" using upd_holds by blast
  then show ?case using Cons.IH [of "t @ x" s1] by simp
qed simp

lemma chunk_invariant:
  assumes "fits (concat xs)"
  shows "bind_outcome (update_all upd start xs) fin = one_shot (concat xs)"
  using update_all_holds [OF start_holds, of xs] fin_holds assms by fastforce

lemma chunk_returns: "\<exists>s. update_all upd start xs = Ret s"
  using update_all_holds [OF start_holds, of xs] by blast

end

interpretation w11: streaming_hash "wyhash11_init seed" wyhash11_update wyhash11_final "wyhash11_hash seed"
    "w11_holds seed" "\<lambda>_. True"
  for seed
  by unfold_locales (simp_all add: wyhash11_init_holds wyhash11_update_holds wyhash11_final_holds)

subsection \<open>Streaming and one-shot Wyhash agree\<close>

function wy_rounds :: "wy_state \<Rightarrow> bytes \<Rightarrow> wy_state" where
  "wy_rounds st xs = (if length xs < 48 then st else wy_rounds (wy_round st (take 48 xs)) (drop 48 xs))"
  by pat_completeness auto
termination
  by (relation "measure (\<lambda>(st, xs). length xs)") auto

declare wy_rounds.simps [simp del]

lemma wy_rounds_Nil [simp]: "wy_rounds st [] = st"
  by (simp add: wy_rounds.simps)

lemma block_cases:
  assumes "48 dvd length (xs :: bytes)"
  obtains "xs = []" | "48 \<le> length xs" "48 dvd length (drop 48 xs)"
proof (cases "xs = []")
  case False
  then have "48 \<le> length xs" using assms by (intro dvd_imp_le) simp_all
  moreover have "48 dvd length (drop 48 xs)" using assms calculation by (simp add: dvd_diff_nat)
  ultimately show ?thesis using that by blast
qed (use that in blast)

lemma wy_rounds_append: "48 dvd length xs \<Longrightarrow> wy_rounds st (xs @ ys) = wy_rounds (wy_rounds st xs) ys"
proof (induction st xs rule: wy_rounds.induct)
  case (1 st xs)
  from "1.prems" show ?case
  proof (cases rule: block_cases)
    case 2
    then show ?thesis
      using "1.IH" by (simp add: wy_rounds.simps [of st "xs @ ys"] wy_rounds.simps [of st xs])
  qed simp
qed

lemma wy_loop_rounds:
  "48 dvd length k \<Longrightarrow> 0 < length r \<Longrightarrow> length r \<le> 48 \<Longrightarrow>
   wy_loop st (p @ k @ r) (length p) = (wy_rounds st k, length p + length k)"
proof (induction st k arbitrary: p rule: wy_rounds.induct)
  case (1 st k)
  from "1.prems"(1) show ?case
  proof (cases rule: block_cases)
    case 1
    then show ?thesis using "1.prems" by (simp add: wy_loop.simps)
  next
    case 2
    have e: "take 48 k @ drop 48 k @ r = k @ r" by (simp flip: append.assoc)
    have "wy_loop (wy_round st (take 48 k)) (p @ k @ r) (length p + 48) =
        (wy_rounds (wy_round st (take 48 k)) (drop 48 k), length p + length k)"
      using "1.IH" [of "p @ take 48 k"] 2 "1.prems" by (simp add: e)
    moreover have "length p + 48 < length (p @ k @ r)" using 2 "1.prems" by (cases r) simp_all
    ultimately show ?thesis
      using 2 by (simp add: wy_loop.simps [of st "p @ k @ r"] wy_rounds.simps [of st k])
  qed
qed

lemma read8_take: "read8 (drop a (take n xs)) = read8 (drop a xs)" if "a + 8 \<le> n"
  using that by (simp add: read8_def drop_take min_def)

lemma hash_loop_eq: "hash_loop st input i = wy_loop st input i"
proof (induction st input i rule: hash_loop.induct)
  case (1 st input i)
  obtain s0 s1 s2 where st: "st = (s0, s1, s2)" by (cases st)
  have c: "i < length input - 48 \<longleftrightarrow> i + 48 < length input" by auto
  have r: "read8 (drop a (take 48 (drop i input))) = read8 (drop (i + a) input)" if "a + 8 \<le> 48" for a
    using read8_take [OF that] by (simp add: add.commute)
  have r0: "read8 (take 48 (drop i input)) = read8 (drop i input)" using r [of 0] by simp
  show ?case
  proof (cases "i + 48 < length input")
    case True
    then show ?thesis
      using 1 [OF _ st [symmetric] refl refl refl refl refl] c
      unfolding st
      by (simp add: hash_loop.simps [of "(s0, s1, s2)" input i] wy_loop.simps [of "(s0, s1, s2)" input i]
          wy_round_def r r0 mix_def mum2_def Let_def)
  next
    case False
    then show ?thesis using c by (simp add: hash_loop.simps [of st] wy_loop.simps [of st])
  qed
qed

definition wy_start :: "u64 \<Rightarrow> wy_state" where
  "wy_start seed = wy_state (wyhash_init seed)"

definition wy_holds :: "u64 \<Rightarrow> bytes \<Rightarrow> wyhash \<Rightarrow> bool" where
  "wy_holds seed t w \<longleftrightarrow> (\<exists>k r. t = k @ r \<and> 48 dvd length k \<and> length r \<le> 48 \<and> (r = [] \<longrightarrow> k = []) \<and>
     wy_state w = wy_rounds (wy_start seed) k \<and> wy_total_len w = of_nat (length t) \<and>
     length (wy_buf w) = 48 \<and> wy_buf_len w = length r \<and> take (length r) (wy_buf w) = r \<and>
     (k \<noteq> [] \<and> length r < 16 \<longrightarrow>
        drop (32 + length r) (wy_buf w) = drop (length k - (16 - length r)) k))"

lemma wy_init_holds: "wy_holds seed [] (wyhash_init seed)"
  by (simp add: wy_holds_def wyhash_init_def wy_start_def Let_def)

lemma wyhash_absorb_holds:
  assumes st: "wy_state w = wy_rounds (wy_start seed) k" and k: "48 dvd length k"
    and buf: "length (wy_buf w) = 48" and i0: "i0 < length input" "i0 < 48"
    and prev: "k \<noteq> [] \<Longrightarrow> drop 32 (wy_buf w) = drop (length k - 16) k"
    and tot: "wy_total_len w = of_nat (length (k @ drop i0 input))"
  shows "\<exists>w'. wyhash_absorb input i0 w = Ret w' \<and> wy_holds seed (k @ drop i0 input) w'"
proof -
  define m where "m = length input - i0"
  define n where "n = m - ((m - 1) mod 48 + 1)"
  define b where "b = take n (drop i0 input)"
  define r where "r = drop (i0 + n) input"
  have m0: "0 < m" using i0 by (simp add: m_def)
  have nm: "n < m" "m - n \<le> 48"
    using m0 by (simp_all add: n_def)
  have n48: "48 dvd n"
  proof -
    have "n = (m - 1) - (m - 1) mod 48" using m0 by (simp add: n_def)
    then show ?thesis by (simp add: minus_mod_eq_mult_div)
  qed
  have lb: "length b = n" using nm by (simp add: b_def m_def)
  have lr: "length r = m - n" by (simp add: r_def m_def)
  have "drop (i0 + n) input = drop n (drop i0 input)" by (simp add: add.commute)
  then have sp: "drop i0 input = b @ r" unfolding b_def r_def by (simp only: append_take_drop_id)
  have inp: "input = take i0 input @ b @ r" using sp by (metis append_take_drop_id)
  have loop: "wy_loop (wy_state w) input i0 = (wy_rounds (wy_state w) b, i0 + n)"
    using wy_loop_rounds [of b r "wy_state w" "take i0 input"] inp n48 lb lr nm i0 by simp
  define rm where "rm = 16 - length r"
  define bf where "bf = (if length r < 16 \<and> 48 \<le> i0 + n then take (48 - rm) (wy_buf w) @ drop (n - rm) b else wy_buf w)"
  have copy: "(if length r < 16 \<and> 48 \<le> i0 + n
        then (let rm = 16 - length r in bind_outcome (slice_range input (i0 + n - rm) (i0 + n)) (\<lambda>src. copy_at (wy_buf w) (48 - rm) src))
        else Ret (wy_buf w)) = Ret bf"
  proof (cases "length r < 16 \<and> 48 \<le> i0 + n")
    case True
    then have n: "48 \<le> n" using i0(2) n48 by (metis add.right_neutral dvd_imp_le linorder_not_less neq0_conv)
    have rm: "rm \<le> 16" "0 < rm" using True by (simp_all add: rm_def)
    have "take rm (drop (i0 + n - rm) input) = drop (n - rm) b"
    proof -
      have "drop (i0 + n - rm) input = drop (n - rm) (drop i0 input)" using rm n by (simp add: add.commute)
      then show ?thesis using sp lb rm n by simp
    qed
    moreover have "i0 + n \<le> length input" using nm by (simp add: m_def)
    ultimately have "slice_range input (i0 + n - rm) (i0 + n) = Ret (drop (n - rm) b)"
      using rm n by (simp add: slice_range_Ret)
    moreover have "copy_at (wy_buf w) (48 - rm) (drop (n - rm) b) = Ret bf"
      using True rm n buf lb by (simp add: copy_at_Ret bf_def)
    ultimately show ?thesis using True unfolding rm_def by (simp add: Let_def)
  qed (auto simp: bf_def)
  have lbf: "length bf = 48" using buf lb nm n48 i0 by (auto simp: bf_def rm_def dest: dvd_imp_le)
  define w' where "w' = w\<lparr>wy_state := wy_rounds (wy_state w) b, wy_buf := r @ drop (length r) bf, wy_buf_len := length r\<rparr>"
  have cp: "copy_at bf 0 r = Ret (r @ drop (length r) bf)" using lbf lr nm by (simp add: copy_at_Ret)
  have "wyhash_absorb input i0 w = Ret w'"
    unfolding wyhash_absorb_def loop prod.case r_def [symmetric]
    using copy cp by (simp add: Let_def w'_def)
  moreover have "drop (32 + length r) (r @ drop (length r) bf) = drop (length (k @ b) - (16 - length r)) (k @ b)"
    if "k @ b \<noteq> []" "length r < 16"
  proof (cases "48 \<le> i0 + n")
    case True
    then have n: "48 \<le> n" using i0(2) n48 by (metis add.right_neutral dvd_imp_le linorder_not_less neq0_conv)
    then show ?thesis using True that buf lb by (simp add: bf_def rm_def)
  next
    case False
    then have "n = 0" using n48 by (auto dest: dvd_imp_le)
    then have b: "b = []" using lb by simp
    then have k0: "k \<noteq> []" using that by simp
    have "48 \<le> length k" using k k0 by (intro dvd_imp_le) simp_all
    then have "length k - (16 - length r) = length r + (length k - 16)" using that(2) by simp
    moreover have "drop (32 + length r) (r @ drop (length r) bf) = drop (length r) (drop 32 (wy_buf w))"
      using False that(2) by (simp add: bf_def add.commute)
    ultimately show ?thesis using prev [OF k0] b by simp
  qed
  then have "wy_holds seed (k @ drop i0 input) w'"
    unfolding wy_holds_def sp
    using st k n48 lb lr nm lbf tot sp
    by (intro exI [of _ "k @ b"] exI [of _ r]) (auto simp: w'_def wy_rounds_append)
  ultimately show ?thesis by blast
qed

lemma wyhash_update_holds:
  assumes "wy_holds seed t w0"
  shows "\<exists>w'. wyhash_update w0 input = Ret w' \<and> wy_holds seed (t @ input) w'"
proof -
  obtain k r where t: "t = k @ r" and k: "48 dvd length k" and r: "length r \<le> 48" "r = [] \<longrightarrow> k = []"
    and st: "wy_state w0 = wy_rounds (wy_start seed) k" and tot: "wy_total_len w0 = of_nat (length t)"
    and buf: "length (wy_buf w0) = 48" "wy_buf_len w0 = length r" "take (length r) (wy_buf w0) = r"
    and prev: "k \<noteq> [] \<and> length r < 16 \<longrightarrow>
      drop (32 + length r) (wy_buf w0) = drop (length k - (16 - length r)) k"
    using assms unfolding wy_holds_def by blast
  define w where "w = w0\<lparr>wy_total_len := wy_total_len w0 + of_nat (length input)\<rparr>"
  have w: "wy_state w = wy_state w0" "wy_buf w = wy_buf w0" "wy_buf_len w = length r"
    "wy_total_len w = of_nat (length (t @ input))"
    by (simp_all add: w_def buf tot)
  consider "length input \<le> 48 - length r" | "\<not> length input \<le> 48 - length r" "r \<noteq> []"
    | "\<not> length input \<le> 48 - length r" "r = []" by blast
  then show ?thesis
  proof cases
    case 1
    define w' where "w' = w\<lparr>wy_buf := r @ input @ drop (length r + length input) (wy_buf w0), wy_buf_len := length r + length input\<rparr>"
    have "copy_at (wy_buf w) (length r) input = Ret (r @ input @ drop (length r + length input) (wy_buf w0))"
      using 1 r buf by (simp add: copy_at_Ret w)
    then have "wyhash_update w0 input = Ret w'"
      using 1 by (simp add: wyhash_update_def Let_def w w'_def flip: w_def)
    moreover have "drop (32 + length (r @ input)) (wy_buf w') = drop (length k - (16 - length (r @ input))) k"
      if "k \<noteq> []" "length (r @ input) < 16"
    proof -
      have "48 \<le> length k" using k that(1) by (intro dvd_imp_le) simp_all
      moreover have "drop (32 + length (r @ input)) (wy_buf w') = drop (length input) (drop (32 + length r) (wy_buf w0))"
        using that(2) by (simp add: w'_def ac_simps)
      moreover have "drop (32 + length r) (wy_buf w0) = drop (length k - (16 - length r)) k"
        using prev that by simp
      moreover have "length k - (16 - length (r @ input)) = length input + (length k - (16 - length r))"
        using calculation(1) that(2) by simp
      ultimately show ?thesis by (simp only: drop_drop)
    qed
    then have "wy_holds seed (t @ input) w'"
      unfolding wy_holds_def t using 1 r k st w buf t
      by (intro exI [of _ k] exI [of _ "r @ input"]) (auto simp: w'_def)
    ultimately show ?thesis by blast
  next
    case 2
    define i where "i = 48 - length r"
    define bf where "bf = r @ take i input"
    have i: "i < length input" "i < 48" using 2 r by (auto simp: i_def)
    have lbf: "length bf = 48" using 2 r by (simp add: bf_def i_def)
    define w1 where "w1 = w\<lparr>wy_buf := bf, wy_state := wy_round (wy_state w) bf, wy_buf_len := 0\<rparr>"
    have cp: "copy_at (wy_buf w) (length r) (take i input) = Ret bf"
      using 2 r buf by (simp add: copy_at_def w bf_def i_def)
    have sl: "slice_range input 0 i = Ret (take i input)" using i by (simp add: slice_range_Ret)
    have "wy_state w1 = wy_rounds (wy_start seed) (k @ bf)"
      using st lbf by (simp add: w1_def w wy_rounds_append [OF k] wy_rounds.simps [of _ bf])
    moreover have tt: "(k @ bf) @ drop i input = t @ input" by (simp add: bf_def t)
    ultimately obtain w' where "wyhash_absorb input i w1 = Ret w'" "wy_holds seed (t @ input) w'"
      using wyhash_absorb_holds [of w1 seed "k @ bf" i input] k lbf i w by (auto simp: w1_def)
    moreover have "wyhash_update w0 input = wyhash_absorb input i w1"
      using 2 cp sl by (simp add: wyhash_update_def Let_def w w1_def flip: w_def i_def)
    ultimately show ?thesis by simp
  next
    case 3
    then have k0: "k = []" using r by simp
    have "\<exists>w'. wyhash_absorb input 0 w = Ret w' \<and> wy_holds seed (k @ drop 0 input) w'"
      using st 3 k0 buf w t by (intro wyhash_absorb_holds) (auto simp: w)
    moreover have "wyhash_update w0 input = wyhash_absorb input 0 w"
      using 3 by (simp add: wyhash_update_def Let_def w flip: w_def)
    ultimately show ?thesis using t k0 3 by simp
  qed
qed


lemma final1_append:
  assumes "16 \<le> length p + length r"
  shows "final1 s (p @ r) (length p) =
    (final1_loop s r 0, read8 (drop (length p + length r - 16) (p @ r)), read8 (drop (length p + length r - 8) (p @ r)))"
  by (simp add: final1_def Let_def)

lemma final0_start [simp]: "final0 (wy_start seed) = wy_start seed"
  by (simp add: final0_def wy_start_def wyhash_init_def Let_def)

text \<open>The one-shot function in terms of the split of its input into whole blocks and a rest.\<close>

lemma wyhash_hash_split:
  assumes "48 dvd length k" "0 < length r" "length r \<le> 48" "16 < length (k @ r)"
  shows "wyhash_hash seed (k @ r) =
    (case final1 (fst (final0 (wy_rounds (wy_start seed) k))) (k @ r) (length k) of (s0, a, b) \<Rightarrow>
       final2 a b s0 (of_nat (length (k @ r))))"
proof (cases "48 \<le> length (k @ r)")
  case True
  have "hash_loop (wy_start seed) (k @ r) 0 = (wy_rounds (wy_start seed) k, length k)"
    using wy_loop_rounds [of k r _ "[]"] assms by (simp add: hash_loop_eq)
  then show ?thesis using True assms by (simp add: wyhash_hash_def Let_def wy_start_def)
next
  case False
  then have "k = []" using assms(1) by (auto dest: dvd_imp_le)
  then show ?thesis using False assms by (simp add: wyhash_hash_def Let_def wy_start_def [symmetric])
qed

lemma wyhash_final_holds:
  assumes "wy_holds seed t w" and len: "length t < 2 ^ 64"
  shows "wyhash_final w = Ret (wyhash_hash seed t)"
proof -
  obtain k r where t: "t = k @ r" and k: "48 dvd length k" and r: "length r \<le> 48" "r = [] \<longrightarrow> k = []"
    and st: "wy_state w = wy_rounds (wy_start seed) k" and tot: "wy_total_len w = of_nat (length t)"
    and buf: "length (wy_buf w) = 48" "wy_buf_len w = length r" "take (length r) (wy_buf w) = r"
    and prev: "k \<noteq> [] \<and> length r < 16 \<longrightarrow>
      drop (32 + length r) (wy_buf w) = drop (length k - (16 - length r)) k"
    using assms(1) unfolding wy_holds_def by blast
  have sl: "slice_range (wy_buf w) 0 (wy_buf_len w) = Ret r" using buf r by (simp add: slice_range_Ret)
  have le: "wy_total_len w \<le> 16 \<longleftrightarrow> length t \<le> 16"
    using len by (simp add: tot word_le_nat_alt unat_of_nat take_bit_nat_eq_self)
  have k48: "k = [] \<or> 48 \<le> length k" using k by (cases k) (auto dest: dvd_imp_le)
  show ?thesis
  proof (cases "length t \<le> 16")
    case True
    then have "k = []" using k48 t by auto
    then show ?thesis
      using True sl le st t tot by (simp add: wyhash_final_def wyhash_hash_def Let_def wy_start_def split: prod.splits)
  next
    case False
    then have "0 < length r" using r t by (cases r) auto
    then have h: "wyhash_hash seed t =
      (case final1 (fst (final0 (wy_state w))) (k @ r) (length k) of (s0, a, b) \<Rightarrow> final2 a b s0 (wy_total_len w))"
      using wyhash_hash_split [OF k _ r(1)] False by (simp add: t st tot)
    show ?thesis
    proof (cases "length r < 16")
      case True
      define rm where "rm = 16 - length r"
      have k1: "48 \<le> length k" using True False k48 t by auto
      have rm: "48 - rm = 32 + length r" using True by (simp add: rm_def)
      have pre: "slice_range (wy_buf w) (48 - rm) 48 = Ret (drop (length k - rm) k)"
        using prev k1 True buf rm by (auto simp: slice_range_Ret rm_def)
      have "drop (length k + length r - 16) (k @ r) = drop (length k - rm) k @ r"
        using True k1 by (simp add: rm_def)
      moreover have "drop (length k + length r - 8) (k @ r) = drop 8 (drop (length k + length r - 16) (k @ r))"
        using True k1 by (simp add: add.commute)
      moreover have "length (drop (length k - rm) k) = rm" "rm + length r = 16" using k1 True by (simp_all add: rm_def)
      ultimately have "final1 s (k @ r) (length k) = final1 s (drop (length k - rm) k @ r) rm" for s
        using final1_append [of k r s] final1_append [of "drop (length k - rm) k" r s] k1 by simp
      then show ?thesis
        using True False le sl pre h buf(2) by (simp add: wyhash_final_def Let_def rm_def split: prod.splits)
    next
      case r16: False
      then have "final1 s (k @ r) (length k) = final1 s r 0" for s
        using final1_append [of k r s] final1_append [of "[]" r s] by simp
      then show ?thesis
        using r16 False le sl h buf(2) by (simp add: wyhash_final_def split: prod.splits)
    qed
  qed
qed

interpretation wy: streaming_hash "wyhash_init seed" wyhash_update wyhash_final "\<lambda>t. Ret (wyhash_hash seed t)"
    "wy_holds seed" "\<lambda>t. length t < 2 ^ 64"
  for seed
  by unfold_locales (simp_all add: wy_init_holds wyhash_update_holds wyhash_final_holds)

subsection \<open>The lower-case view\<close>

lemma lowercase_chunks_holds:
  "wy_holds seed t h \<Longrightarrow> \<exists>h'. lowercase_chunks h b = Ret h' \<and> wy_holds seed (t @ map to_ascii_lowercase b) h'"
proof (induction h b arbitrary: t rule: lowercase_chunks.induct)
  case (2 h x xs)
  define n where "n = min (length (x # xs)) 48"
  obtain h1 where h1: "wyhash_update h (map to_ascii_lowercase (take n (x # xs))) = Ret h1"
      "wy_holds seed (t @ map to_ascii_lowercase (take n (x # xs))) h1"
    using wyhash_update_holds [OF "2.prems"] by blast
  have d: "drop (n - 1) xs = drop n (x # xs)" by (cases n) (simp_all add: n_def min_def split: if_splits)
  obtain h2 where "lowercase_chunks h1 (drop (n - 1) xs) = Ret h2"
      "wy_holds seed ((t @ map to_ascii_lowercase (take n (x # xs))) @ map to_ascii_lowercase (drop (n - 1) xs)) h2"
    using "2.IH" [OF n_def h1] by blast
  then show ?case
    using h1(1) unfolding d append.assoc map_append [symmetric] append_take_drop_id
      lowercase_chunks.simps Let_def n_def [symmetric] by simp
qed simp

subsection \<open>The const version and the integer hash\<close>

lemma read8_at_eq: "i + 8 \<le> length d \<Longrightarrow> read8_at d i = read8 (drop i d)"
proof -
  assume a: "i + 8 \<le> length d"
  have "take 8 (drop i d) = [d ! i, d ! (i + 1), d ! (i + 2), d ! (i + 3), d ! (i + 4), d ! (i + 5), d ! (i + 6), d ! (i + 7)]"
    using a by (intro nth_equalityI) (auto simp: less_Suc_eq numeral_eq_Suc)
  then show ?thesis by (simp add: read8_at_def read8_def)
qed

lemma read4_at_eq: "i + 4 \<le> length d \<Longrightarrow> read4_at d i = read4 (drop i d)"
proof -
  assume a: "i + 4 \<le> length d"
  have "take 4 (drop i d) = [d ! i, d ! (i + 1), d ! (i + 2), d ! (i + 3)]"
    using a by (intro nth_equalityI) (auto simp: less_Suc_eq numeral_eq_Suc)
  then show ?thesis by (simp add: read4_at_def read4_def)
qed

lemma const_rounds_eq: "const_rounds st input i = hash_loop st input i"
proof (induction st input i rule: const_rounds.induct)
  case (1 st input i)
  obtain s0 s1 s2 where st: "st = (s0, s1, s2)" by (cases st)
  show ?case
  proof (cases "i + 48 < length input")
    case True
    then have "i < length input - 48" by simp
    with True show ?thesis
      using 1 [OF _ st [symmetric] refl] unfolding st
      by (simp add: const_rounds.simps [of "(s0, s1, s2)" input i] hash_loop.simps [of "(s0, s1, s2)" input i]
        read8_at_eq mix_def mum2_def Let_def)
  next
    case False
    then have "\<not> i < length input - 48" by simp
    then show ?thesis using False by (simp add: const_rounds.simps [of st] hash_loop.simps [of st])
  qed
qed

lemma const_final1_eq: "j \<le> length input \<Longrightarrow> const_final1 s0 input j = final1_loop s0 (drop i input) (j - i)" if "i \<le> j"
  using that
proof (induction s0 input j rule: const_final1.induct)
  case (1 s0 input j)
  have d: "drop (j - i) (drop i input) = drop j input" "drop (j - i + 8) (drop i input) = drop (j + 8) input"
    using "1.prems" by (simp_all add: add.commute)
  have c: "j - i + 16 < length (drop i input) \<longleftrightarrow> j + 16 < length input" using "1.prems" by auto
  have e: "j + 16 - i = j - i + 16" using "1.prems" by simp
  show ?case
  proof (cases "j + 16 < length input")
    case True
    then have r: "read8_at input j = read8 (drop j input)" "read8_at input (j + 8) = read8 (drop (j + 8) input)"
      by (simp_all add: read8_at_eq)
    have "i \<le> j + 16" "j + 16 \<le> length input" using True "1.prems" by simp_all
    from "1.IH" [OF True this(2) this(1)] show ?thesis
      unfolding const_final1.simps [of s0 input j] final1_loop.simps [of s0 "drop i input" "j - i"] c d r e
      using True by (simp only: if_True)
  next
    case False
    then show ?thesis
      unfolding const_final1.simps [of s0 input j] final1_loop.simps [of s0 "drop i input" "j - i"] c
      by (simp only: if_False)
  qed
qed

lemma hash_loop_bound: "hash_loop st input i = (st', j) \<Longrightarrow> i \<le> length input \<Longrightarrow> j \<le> length input"
proof (induction st input i rule: hash_loop.induct)
  case (1 st input i)
  obtain s0 s1 s2 where st: "st = (s0, s1, s2)" by (cases st)
  show ?case
    using "1.prems" "1.IH" [OF _ st [symmetric] refl refl refl refl] unfolding st
    by (auto simp: hash_loop.simps [of "(s0, s1, s2)" input i] Let_def split: if_splits)
qed

lemma hash_const_eq: "hash_const seed input = wyhash_hash seed input"
proof (cases "length input \<le> 16")
  case True
  have "(length input div 8) * 4 + 4 \<le> length input" if "4 \<le> length input"
    using that by presburger
  moreover have "(length input div 8) * 4 + 4 \<le> length input" if "4 \<le> length input"
    using that by presburger
  ultimately show ?thesis using True
    by (simp add: hash_const_def wyhash_hash_def small_key_def wyhash_init_def final2_def mum2_def read4_at_eq Let_def)
next
  case False
  show ?thesis
  proof (cases "48 \<le> length input")
    case True
    obtain t0 t1 t2 i where h: "hash_loop (wy_state (wyhash_init seed)) input 0 = ((t0, t1, t2), i)"
      by (cases "hash_loop (wy_state (wyhash_init seed)) input 0") auto
    then have "i \<le> length input" using hash_loop_bound by blast
    then have "const_final1 s input i = final1_loop s (drop i input) 0" for s
      using const_final1_eq [of i i input s] by simp
    with h True False show ?thesis
      by (simp add: hash_const_def wyhash_hash_def wyhash_init_def final2_def mum2_def read8_at_eq const_rounds_eq
        final0_def final1_def Let_def)
  next
    case len: False
    have "const_final1 s input 0 = final1_loop s input 0" for s
      using const_final1_eq [of 0 0 input s] by simp
    with len False show ?thesis
      by (simp add: hash_const_def wyhash_hash_def wyhash_init_def final2_def mum2_def read8_at_eq
        final1_def Let_def)
  qed
qed

lemma xor_shift_inj:
  fixes x y :: "'a::len word"
  assumes "0 < n" "x XOR drop_bit n x = y XOR drop_bit n y"
  shows "x = y"
proof (rule bit_word_eqI)
  fix i assume "i < LENGTH('a)"
  then show "bit x i = bit y i"
  proof (induction "LENGTH('a) - i" arbitrary: i rule: less_induct)
    case less
    have "bit x (n + i) = bit y (n + i)"
    proof (cases "n + i < LENGTH('a)")
      case True
      then show ?thesis using less(1) [of "n + i"] less(2) assms(1) by linarith
    next
      case False
      then show ?thesis using bit_imp_le_length [of x "n + i"] bit_imp_le_length [of y "n + i"] by linarith
    qed
    moreover have "bit (x XOR drop_bit n x) i = bit (y XOR drop_bit n y) i" using assms(2) by simp
    ultimately show ?case by (auto simp: bit_xor_iff bit_drop_bit_eq)
  qed
qed

lemma mult_inj: "a * b = 1 \<Longrightarrow> x * a = y * a \<Longrightarrow> x = (y :: 'a::len word)"
  by (metis mult.assoc mult.right_neutral)

lemma stateless_final_Ret: "length b < 32 \<Longrightarrow> \<exists>r. stateless_final s b = Ret r"
  by (auto simp: stateless_final_def final_long_def Let_def)

lemma wyhash11_hash_Ret: "\<exists>r. wyhash11_hash seed b = Ret r"
proof -
  obtain s where "stateless_update (stateless_init seed) (take (length b - length b mod 32) b) = Ret s"
    using stateless_update_Ret [of "take (length b - length b mod 32) b" "stateless_init seed"]
    by (auto simp: min_absorb2 minus_mod_eq_mult_div)
  moreover obtain s' r where "stateless_final s (drop (length b - length b mod 32) b) = Ret (s', r)"
    using stateless_final_Ret [of "drop (length b - length b mod 32) b" s] by auto
  ultimately show ?thesis by (simp add: wyhash11_hash_def stateless_hash_def slice_range_Ret Let_def)
qed

subsection \<open>Properties\<close>

text \<open>
  C13: However an input of less than \<open>2 ^ 64\<close> bytes is cut into pieces, feeding the pieces to
  \<open>Wyhash::update\<close> one after the other and calling \<open>final_\<close> returns (no slice or copy is out of
  range) the value of the one-shot \<open>Wyhash::hash\<close> of the whole input.
\<close>

theorem wyhash_chunk_invariant:
  assumes "length (concat pieces) < 2 ^ 64"
  shows "bind_outcome (update_all wyhash_update (wyhash_init seed) pieces) wyhash_final =
    Ret (wyhash_hash seed (concat pieces))"
  using assms by (rule wy.chunk_invariant)

theorem wyhash_chunk_invariant_witness:
  "length (concat [[1, 2], [], [3 :: u8]]) < 2 ^ 64 \<and>
   bind_outcome (update_all wyhash_update (wyhash_init 7) [[1, 2], [], [3]]) wyhash_final =
     Ret (wyhash_hash 7 (concat [[1, 2], [], [3]]))"
  using wyhash_chunk_invariant [of "[[1, 2], [], [3]]" 7] by simp

text \<open>
  C14: \<open>Wyhash11\<close>: every sequence of \<open>update\<close> calls followed by \<open>final_\<close> returns a hash, the one
  that \<open>Wyhash11::hash\<close> gives for the concatenation; the arms \<open>unreachable!()\<close> of \<open>final_long\<close> and the
  \<open>u8\<close> conversion of the tail length are never reached out of range.
\<close>

theorem wyhash11_chunk_invariant:
  "\<exists>h. bind_outcome (update_all wyhash11_update (wyhash11_init seed) pieces) wyhash11_final = Ret h \<and>
       wyhash11_hash seed (concat pieces) = Ret h"
  using w11.chunk_invariant [of seed pieces] wyhash11_hash_Ret [of seed "concat pieces"] by auto

text \<open>
  C15: The const-evaluated re-implementation \<open>hash_const\<close>, which reads its words byte by byte by
  index, is the run-time \<open>Wyhash::hash\<close> for every seed and input.
\<close>

theorem hash_const_eq_hash: "hash_const seed input = wyhash_hash seed input"
  by (rule hash_const_eq)

text \<open>
  \<open>hash_ascii_lowercase\<close>, which lowers 48 bytes at a time and streams them, returns the hash of
  the input with every ASCII letter lowered.
\<close>

lemma hash_ascii_lowercase_eq:
  assumes "length b < 2 ^ 64"
  shows "hash_ascii_lowercase seed b = Ret (wyhash_hash seed (map to_ascii_lowercase b))"
  using lowercase_chunks_holds [OF wy_init_holds, of seed b] wyhash_final_holds assms
  by (fastforce simp: hash_ascii_lowercase_def)

lemma hash_ascii_lowercase_eq_witness:
  "length (replicate 60 (65 :: u8)) < 2 ^ 64 \<and>
   hash_ascii_lowercase 0 (replicate 60 65) = Ret (wyhash_hash 0 (replicate 60 97))"
  using hash_ascii_lowercase_eq [of "replicate 60 65" 0] by (simp add: to_ascii_lowercase_def)

text \<open>
  The 32-bit integer hash loses nothing: it is a bijection of \<open>u32\<close>, so distinct keys never
  collide.
\<close>

lemma hash_int_u32_bij: "bij hash_int_u32"
proof -
  have m: "(0xed5ad4bb :: u32) * 0x79a85073 = 1" "(0xac4c1b51 :: u32) * 0x469e0db1 = 1"
    "(0x31848bab :: u32) * 0x32b21703 = 1" by simp_all
  have "inj hash_int_u32"
  proof (rule injI)
    fix x y assume e: "hash_int_u32 x = hash_int_u32 y"
    have sh: "a XOR drop_bit n a = b XOR drop_bit n b \<Longrightarrow> 0 < n \<Longrightarrow> a = b" for a b :: u32 and n
      by (rule xor_shift_inj)
    show "x = y"
      by (rule sh [OF mult_inj [OF m(1) sh [OF mult_inj [OF m(2) sh [OF mult_inj [OF m(3) sh
        [OF e [unfolded hash_int_u32_def Let_def]]]]]]]]) simp_all
  qed
  then show ?thesis by (simp add: bij_def finite_UNIV_inj_surj)
qed

end
