(* ===== verification/StringHash.thy ===== *)
theory StringHash
  imports SemverString Wyhash
begin

text \<open>
  The hash of the package manager's strings (\<open>Builder::string_hash\<close> of \<open>src/src/semver/lib.rs\<close>): the interners
  of theory \<open>SemverString\<close> with the hash function of theory \<open>Wyhash\<close>.
\<close>

text \<open>
  \<open>Builder::string_hash\<close>: the hash that the two-pass builder and the growing buffer key their pools with.
\<close>

definition string_hash :: "bytes \<Rightarrow> u64 outcome" where
  "string_hash buf = wyhash11_hash 0 buf"

text \<open>The total function that \<open>string_hash\<close> is, since \<open>Wyhash11::hash\<close> never panics.\<close>

definition string_hash_value :: "bytes \<Rightarrow> u64" where
  "string_hash_value buf = (case string_hash buf of Ret h \<Rightarrow> h | Panic \<Rightarrow> 0)"

lemma string_hash_total: "string_hash buf = Ret (string_hash_value buf)"
  using wyhash11_hash_Ret [of 0 buf] by (auto simp: string_hash_value_def string_hash_def)

lemma interned_with_wyhash:
  assumes "\<forall>x \<in> set xs. storable x" and "pool_bytes xs < 2 ^ 32"
  shows "\<exists>b ss buf. append_list (builder_append string_hash_value)
         (builder_allocate (fold (\<lambda>x b. builder_count string_hash_value b x) xs builder_default)) xs
       = Ret (b, ss) \<and> allocated_slice b = Ret buf \<and> map (\<lambda>s. string_slice s buf) ss = xs"
  by (rule builder_count_allocate_append [OF assms])

end
