(* ===== verification/StaticHashMap.thy ===== *)
theory StaticHashMap
  imports Prelude
begin

text \<open>
  The Robin Hood hash table of fixed size (\<open>src/src/collections/StaticHashMap.rs\<close>). The entries that are not
  empty stand in the order of their hashes, each at or after the slot that the top bits of its hash
  name, with no empty slot in between; slots past the capacity take the overflow. \<open>Ctx::ctx_hash\<close> is
  the parameter \<open>h\<close>, \<open>Ctx::ctx_eql\<close> is equality of keys, and \<open>K::default()\<close>, \<open>V::default()\<close>, which fill
  empty entries, are the parameters \<open>dk\<close>, \<open>dv\<close>. Indexing past the last slot is \<open>Panic\<close>.
\<close>

subsection \<open>Entries and sizes\<close>

definition EMPTY_HASH :: u64 where "EMPTY_HASH = u64_max"

record ('k, 'v) entry =
  en_hash :: u64
  en_key :: 'k
  en_value :: 'v

definition entry_is_empty :: "('k, 'v) entry \<Rightarrow> bool" where
  "entry_is_empty e \<longleftrightarrow> en_hash e = EMPTY_HASH"

definition entry_empty :: "'k \<Rightarrow> 'v \<Rightarrow> ('k, 'v) entry" where
  "entry_empty dk dv = \<lparr>en_hash = EMPTY_HASH, en_key = dk, en_value = dv\<rparr>"

text \<open>\<open>u64::ilog2\<close> of a positive number.\<close>

fun ilog2 :: "nat \<Rightarrow> nat" where
  "ilog2 n = (if n < 2 then 0 else Suc (ilog2 (n div 2)))"

declare ilog2.simps [simp del]

definition compute_shift :: "nat \<Rightarrow> nat" where
  "compute_shift capacity = 63 - ilog2 capacity + 1"

definition compute_overflow :: "nat \<Rightarrow> nat \<Rightarrow> nat" where
  "compute_overflow capacity shift = (capacity div 10 + (64 - shift)) * 2"

definition static_slots :: "nat \<Rightarrow> nat" where
  "static_slots capacity = capacity + compute_overflow capacity (compute_shift capacity)"

record ('k, 'v) static_hash_map =
  sm_entries :: "('k, 'v) entry list"
  sm_len :: nat
  sm_shift :: nat

definition static_default :: "'k \<Rightarrow> 'v \<Rightarrow> nat \<Rightarrow> ('k, 'v) static_hash_map" where
  "static_default dk dv capacity =
     \<lparr>sm_entries = replicate (static_slots capacity) (entry_empty dk dv), sm_len = 0, sm_shift = compute_shift capacity\<rparr>"

text \<open>\<open>to_idx(hash >> shift)\<close>; the amount of a shift is taken modulo 64.\<close>

definition home :: "nat \<Rightarrow> u64 \<Rightarrow> nat" where
  "home shift hash = unat (drop_bit (shift mod 64) hash)"

subsection \<open>Operations\<close>

text \<open>
  The loop of \<open>get_or_put_assume_capacity\<close>: whether the key was found, the index that \<open>value_ptr\<close>
  points to, the entries, and what is added to \<open>len\<close>.
\<close>

function insert_loop :: "'k \<Rightarrow> ('k, 'v) entry \<Rightarrow> nat \<Rightarrow> nat option \<Rightarrow> ('k, 'v) entry list \<Rightarrow>
    (bool \<times> nat \<times> ('k, 'v) entry list \<times> nat) outcome" where
  "insert_loop key it i inserted_at st =
     (if i < length st then
        (let entry = st ! i in
         if en_hash it \<le> en_hash entry then
           (if en_key entry = key then Ret (True, i, st, 0)
            else
              (let st = st[i := it] in
               if entry_is_empty entry then Ret (False, (case inserted_at of None \<Rightarrow> i | Some j \<Rightarrow> j), st, 1)
               else insert_loop key entry (i + 1) (Some (case inserted_at of None \<Rightarrow> i | Some j \<Rightarrow> j)) st))
         else insert_loop key it (i + 1) inserted_at st)
      else Panic)"
  by pat_completeness auto
termination
  by (relation "measure (\<lambda>(key, it, i, ins, st). length st - i)") auto

declare insert_loop.simps [simp del]

definition get_or_put_assume_capacity ::
  "('k \<Rightarrow> u64) \<Rightarrow> 'v \<Rightarrow> 'k \<Rightarrow> ('k, 'v) static_hash_map \<Rightarrow> (bool \<times> nat \<times> ('k, 'v) static_hash_map) outcome" where
  "get_or_put_assume_capacity h dv key m =
     (let it = \<lparr>en_hash = h key, en_key = key, en_value = dv\<rparr> in
      bind_outcome (insert_loop key it (home (sm_shift m) (en_hash it)) None (sm_entries m))
        (\<lambda>(found, i, st, n). Ret (found, i, m\<lparr>sm_entries := st, sm_len := sm_len m + n\<rparr>)))"

text \<open>\<open>*value_ptr = value\<close>.\<close>

definition set_value :: "nat \<Rightarrow> 'v \<Rightarrow> ('k, 'v) static_hash_map \<Rightarrow> ('k, 'v) static_hash_map" where
  "set_value i v m = m\<lparr>sm_entries := (sm_entries m)[i := (sm_entries m ! i)\<lparr>en_value := v\<rparr>]\<rparr>"

definition put_assume_capacity ::
  "('k \<Rightarrow> u64) \<Rightarrow> 'v \<Rightarrow> 'k \<Rightarrow> 'v \<Rightarrow> ('k, 'v) static_hash_map \<Rightarrow> ('k, 'v) static_hash_map outcome" where
  "put_assume_capacity h dv key value m =
     bind_outcome (get_or_put_assume_capacity h dv key m) (\<lambda>(found, i, m).
       Ret (if \<not> found then set_value i value m else m))"

text \<open>The slice \<open>storage[start..]\<close> and the loops over it.\<close>

definition slice_from :: "nat \<Rightarrow> 'a list \<Rightarrow> 'a list outcome" where
  "slice_from i xs = (if i \<le> length xs then Ret (drop i xs) else Panic)"

fun get_scan :: "u64 \<Rightarrow> 'k \<Rightarrow> ('k, 'v) entry list \<Rightarrow> 'v option outcome" where
  "get_scan hash key [] = Panic"
| "get_scan hash key (e # es) =
     (if hash \<le> en_hash e then Ret (if en_key e \<noteq> key then None else Some (en_value e))
      else get_scan hash key es)"

definition static_get :: "('k \<Rightarrow> u64) \<Rightarrow> 'k \<Rightarrow> ('k, 'v) static_hash_map \<Rightarrow> 'v option outcome" where
  "static_get h key m =
     bind_outcome (slice_from (home (sm_shift m) (h key)) (sm_entries m)) (get_scan (h key) key)"

fun hash_scan :: "u64 \<Rightarrow> ('k, 'v) entry list \<Rightarrow> bool" where
  "hash_scan hash [] = False"
| "hash_scan hash (e # es) = (if hash \<le> en_hash e then en_hash e = hash else hash_scan hash es)"

definition has_with_hash :: "u64 \<Rightarrow> ('k, 'v) static_hash_map \<Rightarrow> bool outcome" where
  "has_with_hash key_hash m =
     bind_outcome (slice_from (home (sm_shift m) key_hash) (sm_entries m)) (\<lambda>es. Ret (hash_scan key_hash es))"

text \<open>The two loops of \<open>delete\<close>: the search, and moving the entries behind back by one slot.\<close>

function delete_find :: "u64 \<Rightarrow> 'k \<Rightarrow> nat \<Rightarrow> ('k, 'v) entry list \<Rightarrow> nat option outcome" where
  "delete_find hash key i st =
     (if i < length st then
        (if hash \<le> en_hash (st ! i) then Ret (if en_key (st ! i) \<noteq> key then None else Some i)
         else delete_find hash key (i + 1) st)
      else Panic)"
  by pat_completeness auto
termination
  by (relation "measure (\<lambda>(hash, key, i, st). length st - i)") auto

function back_shift :: "nat \<Rightarrow> nat \<Rightarrow> ('k, 'v) entry list \<Rightarrow> (nat \<times> ('k, 'v) entry list) outcome" where
  "back_shift shift i st =
     (if i + 1 < length st then
        (let nxt = st ! (i + 1) in
         if i < home shift (en_hash nxt) \<or> entry_is_empty nxt then Ret (i, st)
         else back_shift shift (i + 1) (st[i := nxt]))
      else Panic)"
  by pat_completeness auto
termination
  by (relation "measure (\<lambda>(shift, i, st). length st - i)") auto

declare delete_find.simps [simp del] back_shift.simps [simp del]

definition static_delete ::
  "('k \<Rightarrow> u64) \<Rightarrow> 'k \<Rightarrow> 'v \<Rightarrow> 'k \<Rightarrow> ('k, 'v) static_hash_map \<Rightarrow> ('v option \<times> ('k, 'v) static_hash_map) outcome" where
  "static_delete h dk dv key m =
     bind_outcome (delete_find (h key) key (home (sm_shift m) (h key)) (sm_entries m)) (\<lambda>r.
       case r of
         None \<Rightarrow> Ret (None, m)
       | Some i \<Rightarrow>
           bind_outcome (back_shift (sm_shift m) i (sm_entries m)) (\<lambda>(j, st).
             Ret (Some (en_value (sm_entries m ! i)),
               m\<lparr>sm_entries := st[j := entry_empty dk dv], sm_len := (sm_len m + 2 ^ 64 - 1) mod 2 ^ 64\<rparr>)))"

subsection \<open>The invariant\<close>

lemma sorted_wrt_filter_nth:
  "sorted_wrt R (filter P xs) \<Longrightarrow> i < j \<Longrightarrow> j < length xs \<Longrightarrow> P (xs ! i) \<Longrightarrow> P (xs ! j) \<Longrightarrow> R (xs ! i) (xs ! j)"
proof (induction xs arbitrary: i j)
  case (Cons x xs)
  then obtain j' where j: "j = Suc j'" by (cases j) auto
  then show ?case using Cons by (cases i) (auto split: if_splits)
qed simp

definition live :: "('k, 'v) entry list \<Rightarrow> ('k, 'v) entry list" where
  "live st = filter (\<lambda>e. \<not> entry_is_empty e) st"

definition occupied :: "('k, 'v) entry list \<Rightarrow> nat \<Rightarrow> bool" where
  "occupied st i \<longleftrightarrow> i < length st \<and> \<not> entry_is_empty (st ! i)"

text \<open>The map that a table holds.\<close>

definition table_map :: "('k, 'v) entry list \<Rightarrow> ('k \<rightharpoonup> 'v)" where
  "table_map st = map_of (map (\<lambda>e. (en_key e, en_value e)) (live st))"

definition probes_ok :: "nat \<Rightarrow> ('k, 'v) entry list \<Rightarrow> bool" where
  "probes_ok s st \<longleftrightarrow> (\<forall>i. occupied st i \<longrightarrow> home s (en_hash (st ! i)) \<le> i \<and>
     (\<forall>j. home s (en_hash (st ! i)) \<le> j \<longrightarrow> j < i \<longrightarrow> occupied st j))"

lemma probes_okD:
  assumes "probes_ok s st" "occupied st i"
  shows "home s (en_hash (st ! i)) \<le> i" "home s (en_hash (st ! i)) \<le> j \<Longrightarrow> j < i \<Longrightarrow> occupied st j"
  using assms unfolding probes_ok_def by blast+

text \<open>
  \<open>K\<close> are the keys in play: no two with the same hash, none with the hash that marks an empty entry,
  and not the default key, which empty entries hold.
\<close>

definition context_ok :: "('k \<Rightarrow> u64) \<Rightarrow> 'k \<Rightarrow> 'k set \<Rightarrow> bool" where
  "context_ok h dk K \<longleftrightarrow> inj_on h K \<and> dk \<notin> K \<and> EMPTY_HASH \<notin> h ` K"

lemma context_hash: "context_ok h dk K \<Longrightarrow> k \<in> K \<Longrightarrow> h k \<noteq> EMPTY_HASH"
  by (metis context_ok_def imageI)

definition table_inv :: "('k \<Rightarrow> u64) \<Rightarrow> 'k \<Rightarrow> 'k set \<Rightarrow> nat \<Rightarrow> ('k, 'v) entry list \<Rightarrow> bool" where
  "table_inv h dk K s st \<longleftrightarrow>
     (\<forall>e \<in> set st. entry_is_empty e \<longrightarrow> en_key e = dk) \<and>
     (\<forall>e \<in> set (live st). en_key e \<in> K \<and> en_hash e = h (en_key e)) \<and>
     sorted_wrt (\<lambda>a b. en_hash a < en_hash b) (live st) \<and> probes_ok s st"

lemma set_live: "set (live st) = {st ! i |i. occupied st i}"
  by (auto simp: live_def occupied_def in_set_conv_nth)

lemma unat_drop_bit: "unat (drop_bit n (w :: u64)) = unat w div 2 ^ n"
  using drop_bit_eq_div [of n "unat w"] unsigned_less [of w, where ?'a = nat]
  by (simp add: unsigned_drop_bit_eq take_bit_nat_eq_self)

lemma home_mono: "a \<le> b \<Longrightarrow> home s a \<le> home s b"
  by (simp only: home_def word_le_nat_alt unat_drop_bit div_le_mono)

lemma home_less: "home s a < home s b \<Longrightarrow> a < b"
  using home_mono [of b a s] by (meson leD leI)

lemma empty_hash_max: "a \<le> EMPTY_HASH"
  using unsigned_less [of a, where ?'a = nat] by (simp add: EMPTY_HASH_def u64_max_def word_le_nat_alt)

lemma occupied_hash: "occupied st i \<Longrightarrow> en_hash (st ! i) < EMPTY_HASH"
  using empty_hash_max [of "en_hash (st ! i)"] by (auto simp: occupied_def entry_is_empty_def)

lemma table_inv_sorted:
  "table_inv h dk K s st \<Longrightarrow> i < j \<Longrightarrow> occupied st i \<Longrightarrow> occupied st j \<Longrightarrow> en_hash (st ! i) < en_hash (st ! j)"
  using sorted_wrt_filter_nth [of "\<lambda>a b. en_hash a < en_hash b" _ st i j] by (auto simp: table_inv_def live_def occupied_def)

text \<open>The slot where the search for a hash ends.\<close>

lemma probe_end:
  assumes "e < length st" "entry_is_empty (st ! e)" "home s k \<le> e"
  obtains m where "home s k \<le> m" "m \<le> e" "k \<le> en_hash (st ! m)" "\<And>j. home s k \<le> j \<Longrightarrow> j < m \<Longrightarrow> en_hash (st ! j) < k"
proof -
  let ?P = "\<lambda>m. home s k \<le> m \<and> k \<le> en_hash (st ! m)"
  have e: "?P e" using assms empty_hash_max [of k] by (simp add: entry_is_empty_def)
  define m where "m = (LEAST m. ?P m)"
  have "?P m" unfolding m_def by (rule LeastI [of ?P e]) (rule e)
  moreover have "m \<le> e" unfolding m_def by (rule Least_le [of ?P e]) (rule e)
  moreover have "en_hash (st ! j) < k" if "home s k \<le> j" "j < m" for j
    using not_less_Least [of j ?P] that by (auto simp: m_def not_le)
  ultimately show thesis using that by blast
qed

text \<open>Around that slot the hashes are below and above.\<close>

lemma below_probe:
  assumes "table_inv h dk K s st" "\<And>j. home s k \<le> j \<Longrightarrow> j < m \<Longrightarrow> en_hash (st ! j) < k" "occupied st j" "j < m"
  shows "en_hash (st ! j) < k"
proof (cases "home s k \<le> j")
  case False
  moreover have "home s (en_hash (st ! j)) \<le> j" using assms(1,3) by (simp add: table_inv_def probes_ok_def)
  ultimately show ?thesis by (intro home_less [of s]) simp
qed (use assms in blast)

lemma above_probe:
  assumes "table_inv h dk K s st" "home s k \<le> m" "k \<le> en_hash (st ! m)" "m < length st" "occupied st j" "m < j"
  shows "k < en_hash (st ! j)"
proof (cases "occupied st m")
  case True
  then show ?thesis using table_inv_sorted [OF assms(1,6) True assms(5)] assms(3) by simp
next
  case False
  then have "\<not> home s (en_hash (st ! j)) \<le> m" using assms(1,5,6) by (auto simp: table_inv_def probes_ok_def)
  then show ?thesis using assms(2) by (intro home_less [of s]) simp
qed

text \<open>The last slot stays empty while there are more slots behind every home than entries.\<close>

lemma last_empty:
  assumes "table_inv h dk K s st" "\<And>k. k \<in> K \<Longrightarrow> home s (h k) \<le> H" "H + length (live st) < length st"
  shows "entry_is_empty (st ! (length st - 1))"
proof (rule ccontr)
  let ?l = "length st - 1"
  assume "\<not> entry_is_empty (st ! ?l)"
  then have occ: "occupied st ?l" using assms(3) by (auto simp: occupied_def)
  then have "st ! ?l \<in> set (live st)" by (auto simp: set_live)
  then have "home s (en_hash (st ! ?l)) \<le> H" using assms(1,2) by (auto simp: table_inv_def)
  moreover have "home s (en_hash (st ! ?l)) \<le> j \<Longrightarrow> j < ?l \<Longrightarrow> occupied st j" for j
    using assms(1) occ by (simp only: table_inv_def probes_ok_def)
  ultimately have "{H..?l} \<subseteq> {i. occupied st i}" using occ by (auto simp: le_less)
  moreover have "finite {i. occupied st i}" by (rule finite_subset [of _ "{..<length st}"]) (auto simp: occupied_def)
  ultimately have "card {H..?l} \<le> card {i. occupied st i}" by (rule card_mono [rotated])
  moreover have "card {i. occupied st i} = length (live st)"
    by (simp add: live_def occupied_def length_filter_conv_card)
  ultimately show False using assms(3) by simp
qed

subsection \<open>Insertion\<close>

lemma insert_loop_step:
  "i < length st \<Longrightarrow> insert_loop key it i ins st =
     (if en_hash it \<le> en_hash (st ! i) then
        (if en_key (st ! i) = key then Ret (True, i, st, 0)
         else if entry_is_empty (st ! i) then Ret (False, (case ins of None \<Rightarrow> i | Some j \<Rightarrow> j), st[i := it], 1)
         else insert_loop key (st ! i) (i + 1) (Some (case ins of None \<Rightarrow> i | Some j \<Rightarrow> j)) (st[i := it]))
      else insert_loop key it (i + 1) ins st)"
  by (simp add: insert_loop.simps [of key it i ins st] Let_def)

lemma insert_loop_skip:
  assumes "i \<le> m" "m < length st" "\<And>j. i \<le> j \<Longrightarrow> j < m \<Longrightarrow> en_hash (st ! j) < en_hash it"
  shows "insert_loop key it i ins st = insert_loop key it m ins st"
  using assms
proof (induction "m - i" arbitrary: i)
  case (Suc n)
  then have "en_hash (st ! i) < en_hash it" "i < length st" by auto
  then have "\<not> en_hash it \<le> en_hash (st ! i)" "i < length st" by (simp_all add: leD)
  then have "insert_loop key it i ins st = insert_loop key it (i + 1) ins st"
    by (subst insert_loop_step) simp_all
  also have "\<dots> = insert_loop key it m ins st" using Suc by (intro Suc.hyps(1)) auto
  finally show ?case .
qed simp

text \<open>From the slot of the new entry on, the run of entries up to the next empty slot moves by one.\<close>

lemma insert_loop_shift:
  assumes "\<forall>x \<in> set run. \<not> entry_is_empty x \<and> en_key x \<noteq> key" "entry_is_empty e" "en_key e \<noteq> key"
    and "sorted_wrt (\<lambda>a b. en_hash a < en_hash b) (it # run)"
  shows "insert_loop key it (length pre) ins (pre @ run @ e # post) =
     Ret (False, (case ins of None \<Rightarrow> length pre | Some j \<Rightarrow> j), pre @ it # run @ post, 1)"
  using assms
proof (induction run arbitrary: it pre ins)
  case Nil
  then have "en_hash it \<le> en_hash e" using empty_hash_max by (simp add: entry_is_empty_def)
  then show ?case using Nil by (subst insert_loop_step) simp_all
next
  case (Cons r run)
  then have "en_hash it \<le> en_hash r" by (simp add: less_imp_le)
  then have "insert_loop key it (length pre) ins (pre @ (r # run) @ e # post) =
      insert_loop key r (length (pre @ [it])) (Some (case ins of None \<Rightarrow> length pre | Some j \<Rightarrow> j)) ((pre @ [it]) @ run @ e # post)"
    using Cons.prems by (subst insert_loop_step) simp_all
  also have "\<dots> = Ret (False, (case ins of None \<Rightarrow> length pre | Some j \<Rightarrow> j), (pre @ [it]) @ r # run @ post, 1)"
    using Cons.prems by (subst Cons.IH) auto
  finally show ?case by simp
qed

text \<open>The run from a slot up to the next empty one.\<close>

lemma split_run:
  assumes "m \<le> e" "e < length st" "entry_is_empty (st ! e)"
  obtains run e' post where "st = take m st @ run @ e' # post" "\<forall>x \<in> set run. \<not> entry_is_empty x" "entry_is_empty e'"
proof -
  have "st ! e \<in> set (drop m st)" using nth_mem [of "e - m" "drop m st"] assms(1,2) by simp
  then obtain run e' post where "drop m st = run @ e' # post" "entry_is_empty e'" "\<forall>x \<in> set run. \<not> entry_is_empty x"
    using split_list_first_prop [of "drop m st" entry_is_empty] assms(3) by blast
  then show thesis using that [of run e' post] append_take_drop_id [of m st] by simp
qed

lemma nth_shifted:
  "j < length (pre @ run @ e # post) \<Longrightarrow> (pre @ it # run @ post) ! j =
     (if j = length pre then it
      else if length pre < j \<and> j \<le> length pre + length run then (pre @ run @ e # post) ! (j - 1)
      else (pre @ run @ e # post) ! j)"
proof -
  assume j: "j < length (pre @ run @ e # post)"
  consider "j < length pre" | "j = length pre" | d where "j = length pre + Suc d" "d < length run"
    | d where "j = length pre + Suc (length run + d)"
  proof -
    assume *: "j < length pre \<Longrightarrow> thesis" "j = length pre \<Longrightarrow> thesis"
      "\<And>d. j = length pre + Suc d \<Longrightarrow> d < length run \<Longrightarrow> thesis" "\<And>d. j = length pre + Suc (length run + d) \<Longrightarrow> thesis"
    show thesis using *(1,2) *(3) [of "j - length pre - 1"] *(4) [of "j - length pre - 1 - length run"]
      by (cases "j < length pre"; cases "j = length pre"; cases "j - length pre - 1 < length run") auto
  qed
  then show ?thesis using j by cases (simp_all add: nth_append)
qed

lemma occupied_insert:
  assumes "\<not> entry_is_empty it" "entry_is_empty e" "\<forall>x \<in> set run. \<not> entry_is_empty x"
  shows "occupied (pre @ it # run @ post) j \<longleftrightarrow> occupied (pre @ run @ e # post) j \<or> j = length pre + length run"
proof (cases "j < length (pre @ run @ e # post)")
  case True
  have "length pre \<le> i \<Longrightarrow> i < length pre + length run \<Longrightarrow> \<not> entry_is_empty ((pre @ run @ e # post) ! i)" for i
    using assms(3) by (simp add: nth_append)
  then show ?thesis using True nth_shifted [OF True, of it] assms
    by (auto simp: occupied_def nth_append)
qed (auto simp: occupied_def)

lemma probes_ok_insert:
  assumes "probes_ok s (pre @ run @ e # post)" "entry_is_empty e" "\<forall>x \<in> set run. \<not> entry_is_empty x" "\<not> entry_is_empty it"
    and "home s (en_hash it) \<le> length pre"
    and "\<And>j. home s (en_hash it) \<le> j \<Longrightarrow> j < length pre \<Longrightarrow> occupied (pre @ run @ e # post) j"
  shows "probes_ok s (pre @ it # run @ post)"
  unfolding probes_ok_def
proof (intro allI impI)
  let ?old = "pre @ run @ e # post" and ?new = "pre @ it # run @ post"
  note occ = occupied_insert [OF assms(4,2,3), of pre post]
  fix j
  assume j: "occupied ?new j"
  then have len: "j < length ?old" by (simp add: occupied_def)
  have ok: "occupied ?old i \<Longrightarrow> home s (en_hash (?old ! i)) \<le> i \<and>
      (\<forall>x. home s (en_hash (?old ! i)) \<le> x \<longrightarrow> x < i \<longrightarrow> occupied ?old x)" for i
    using probes_okD [OF assms(1)] by blast
  consider "j = length pre" | "length pre < j" "j \<le> length pre + length run" | "j < length pre \<or> length pre + length run < j"
    by linarith
  then show "home s (en_hash (?new ! j)) \<le> j \<and> (\<forall>x. home s (en_hash (?new ! j)) \<le> x \<longrightarrow> x < j \<longrightarrow> occupied ?new x)"
  proof cases
    case 1
    then show ?thesis using assms(5,6) nth_shifted [OF len, of it] occ by auto
  next
    case 2
    then have "occupied ?old (j - 1)" using assms(3) by (auto simp: occupied_def nth_append)
    note old = this ok [OF this]
    have new: "?new ! j = ?old ! (j - 1)" using 2 nth_shifted [OF len, of it] by simp
    have "occupied ?new x" if "home s (en_hash (?new ! j)) \<le> x" "x < j" for x
      using that old new occ by (cases "x = j - 1") auto
    then show ?thesis using old(2) new by auto
  next
    case 3
    then have "occupied ?old j" "?new ! j = ?old ! j" using j occ nth_shifted [OF len, of it] by auto
    then show ?thesis using ok [of j] occ by auto
  qed
qed

subsection \<open>Lookup\<close>

lemma distinct_map_sorted_wrt: "sorted_wrt (\<lambda>a b. f a \<noteq> f b) xs \<Longrightarrow> distinct (map f xs)"
  by (induction xs) auto

lemma table_inv_live:
  "table_inv h dk K s st \<Longrightarrow> e \<in> set (live st) \<Longrightarrow> en_key e \<in> K \<and> en_hash e = h (en_key e)"
  by (simp add: table_inv_def)

lemma table_inv_empty: "table_inv h dk K s st \<Longrightarrow> e \<in> set st \<Longrightarrow> entry_is_empty e \<Longrightarrow> en_key e = dk"
  unfolding table_inv_def by blast

lemma live_keys:
  assumes "table_inv h dk K s st"
  shows "distinct (map en_key (live st))"
proof (rule distinct_map_sorted_wrt, rule sorted_wrt_mono_rel [rotated])
  show "sorted_wrt (\<lambda>a b. en_hash a < en_hash b) (live st)" using assms by (simp add: table_inv_def)
  fix a b
  assume "a \<in> set (live st)" "b \<in> set (live st)" "en_hash a < en_hash b"
  then show "en_key a \<noteq> en_key b" using table_inv_live [OF assms, of a] table_inv_live [OF assms, of b] by auto
qed

lemma table_map_Some:
  assumes "table_inv h dk K s st"
  shows "table_map st k = Some v \<longleftrightarrow> (\<exists>i. occupied st i \<and> en_key (st ! i) = k \<and> en_value (st ! i) = v)"
proof -
  have "distinct (map fst (map (\<lambda>e. (en_key e, en_value e)) (live st)))" using live_keys [OF assms] by (simp add: comp_def)
  then have "table_map st k = Some v \<longleftrightarrow> (k, v) \<in> set (map (\<lambda>e. (en_key e, en_value e)) (live st))"
    unfolding table_map_def by (rule map_of_eq_Some_iff)
  then show ?thesis by (auto simp: set_live)
qed

lemma table_map_None: "table_map st k = None \<longleftrightarrow> (\<forall>i. occupied st i \<longrightarrow> en_key (st ! i) \<noteq> k)"
  by (auto simp: table_map_def map_of_eq_None_iff set_live image_image)

text \<open>What stands where the search for a key ends.\<close>

lemma probe_hits:
  assumes inv: "table_inv h dk K s st" and ctx: "context_ok h dk K" "k \<in> K"
    and m: "home s (h k) \<le> m" "m < length st" "h k \<le> en_hash (st ! m)" "\<And>j. home s (h k) \<le> j \<Longrightarrow> j < m \<Longrightarrow> en_hash (st ! j) < h k"
  shows "en_key (st ! m) = k \<Longrightarrow> occupied st m \<and> table_map st k = Some (en_value (st ! m))"
    "en_key (st ! m) \<noteq> k \<Longrightarrow> table_map st k = None"
proof -
  assume key: "en_key (st ! m) = k"
  have "\<not> entry_is_empty (st ! m)"
  proof
    assume "entry_is_empty (st ! m)"
    then have "en_key (st ! m) = dk" using inv m(2) nth_mem [of m st] unfolding table_inv_def by blast
    then show False using key ctx by (simp add: context_ok_def)
  qed
  then have "occupied st m" using m(2) by (simp add: occupied_def)
  then show "occupied st m \<and> table_map st k = Some (en_value (st ! m))" using key table_map_Some [OF inv] by blast
next
  assume key: "en_key (st ! m) \<noteq> k"
  have "en_key (st ! i) \<noteq> k" if occ: "occupied st i" for i
  proof
    assume k: "en_key (st ! i) = k"
    have hash: "en_hash (st ! i) = h k" using table_inv_live [OF inv, of "st ! i"] occ k by (auto simp: set_live)
    consider "i < m" | "i = m" | "m < i" by linarith
    then show False
    proof cases
      case 1
      then show ?thesis using below_probe [OF inv m(4) occ] hash by simp
    next
      case 3
      then show ?thesis using above_probe [OF inv m(1,3,2) occ] hash by simp
    qed (use k key in simp)
  qed
  then show "table_map st k = None" by (simp add: table_map_None)
qed

lemma get_scan_at:
  assumes "i \<le> m" "m < length st" "k \<le> en_hash (st ! m)" "\<And>j. i \<le> j \<Longrightarrow> j < m \<Longrightarrow> en_hash (st ! j) < k"
  shows "get_scan k key (drop i st) = Ret (if en_key (st ! m) \<noteq> key then None else Some (en_value (st ! m)))"
    "hash_scan k (drop i st) \<longleftrightarrow> en_hash (st ! m) = k"
    "delete_find k key i st = Ret (if en_key (st ! m) \<noteq> key then None else Some m)"
proof -
  have "get_scan k key (drop i st) = Ret (if en_key (st ! m) \<noteq> key then None else Some (en_value (st ! m))) \<and>
    (hash_scan k (drop i st) \<longleftrightarrow> en_hash (st ! m) = k) \<and>
    delete_find k key i st = Ret (if en_key (st ! m) \<noteq> key then None else Some m)"
    using assms
  proof (induction "m - i" arbitrary: i)
    case 0
    then have "i = m" by simp
    then show ?case using 0 Cons_nth_drop_Suc [of m st, symmetric] by (simp add: delete_find.simps)
  next
    case (Suc n)
    then have "en_hash (st ! i) < k" by simp
    then have i: "i < length st" "\<not> k \<le> en_hash (st ! i)" using Suc(2,4) by (auto simp: leD)
    then have "drop i st = st ! i # drop (i + 1) st" using Cons_nth_drop_Suc [of i st] by simp
    moreover have "delete_find k key i st = delete_find k key (i + 1) st" using i by (simp add: delete_find.simps [of k key i])
    ultimately show ?case using i Suc(1) [of "i + 1"] Suc(2-) by simp
  qed
  then show "get_scan k key (drop i st) = Ret (if en_key (st ! m) \<noteq> key then None else Some (en_value (st ! m)))"
    "hash_scan k (drop i st) \<longleftrightarrow> en_hash (st ! m) = k"
    "delete_find k key i st = Ret (if en_key (st ! m) \<noteq> key then None else Some m)" by simp_all
qed

subsection \<open>Insertion keeps the invariant\<close>

lemma map_of_insert: "k \<notin> fst ` set (xs @ ys) \<Longrightarrow> map_of (xs @ (k, v) # ys) = (map_of (xs @ ys))(k \<mapsto> v)"
proof -
  assume "k \<notin> fst ` set (xs @ ys)"
  then have "map_of xs k = None" by (auto simp: map_of_eq_None_iff)
  then show ?thesis by (auto simp: fun_eq_iff map_add_def split: option.splits)
qed

abbreviation assoc :: "('k, 'v) entry list \<Rightarrow> ('k \<times> 'v) list" where
  "assoc es \<equiv> map (\<lambda>e. (en_key e, en_value e)) es"

lemma map_of_assoc_insert:
  assumes "en_key x \<notin> en_key ` set (A @ B)"
  shows "map_of (assoc (A @ x # B)) = (map_of (assoc (A @ B)))(en_key x \<mapsto> en_value x)"
    "map_of (assoc (A @ B)) (en_key x) = None"
proof -
  have out: "en_key x \<notin> fst ` set (assoc A @ assoc B)" using assms by auto
  show "map_of (assoc (A @ x # B)) = (map_of (assoc (A @ B)))(en_key x \<mapsto> en_value x)"
    using map_of_insert [OF out, of "en_value x"] by simp
  show "map_of (assoc (A @ B)) (en_key x) = None" using out by (simp only: map_append map_of_eq_None_iff) simp
qed

lemma live_append [simp]: "live (xs @ ys) = live xs @ live ys"
  by (simp add: live_def)

lemma live_Cons [simp]: "live (x # xs) = (if entry_is_empty x then live xs else x # live xs)"
  by (simp add: live_def)

lemma live_all: "\<forall>x \<in> set xs. \<not> entry_is_empty x \<Longrightarrow> live xs = xs"
  by (simp add: live_def)

lemma table_inv_insert:
  assumes inv: "table_inv h dk K s (pre @ run @ e # post)" and e: "entry_is_empty e" "\<forall>x \<in> set run. \<not> entry_is_empty x"
    and it: "\<not> entry_is_empty it" "en_key it \<in> K" "en_hash it = h (en_key it)" "home s (en_hash it) \<le> length pre"
    and occ: "\<And>j. home s (en_hash it) \<le> j \<Longrightarrow> j < length pre \<Longrightarrow> occupied (pre @ run @ e # post) j"
    and below: "\<forall>x \<in> set (live pre). en_hash x < en_hash it" and above: "\<forall>x \<in> set (run @ live post). en_hash it < en_hash x"
  shows "table_inv h dk K s (pre @ it # run @ post)"
    "table_map (pre @ it # run @ post) = (table_map (pre @ run @ e # post))(en_key it \<mapsto> en_value it)"
    "length (live (pre @ it # run @ post)) = Suc (length (live (pre @ run @ e # post)))"
proof -
  have live: "live (pre @ run @ e # post) = live pre @ run @ live post" "live (pre @ it # run @ post) = live pre @ it # run @ live post"
    using e it(1) live_all [OF e(2)] by simp_all
  have "probes_ok s (pre @ it # run @ post)"
    using inv e it(1,4) occ by (intro probes_ok_insert) (auto simp: table_inv_def)
  moreover have "sorted_wrt (\<lambda>a b. en_hash a < en_hash b) (live (pre @ run @ e # post))"
    using inv by (simp only: table_inv_def)
  then have "sorted_wrt (\<lambda>a b. en_hash a < en_hash b) (live (pre @ it # run @ post))"
    using below above unfolding live by (auto simp: sorted_wrt_append)
  moreover have "\<forall>x \<in> set (live (pre @ it # run @ post)). en_key x \<in> K \<and> en_hash x = h (en_key x)"
    using table_inv_live [OF inv] it(2,3) unfolding live by auto
  moreover have "\<forall>x \<in> set (pre @ it # run @ post). entry_is_empty x \<longrightarrow> en_key x = dk"
    using inv it(1) unfolding table_inv_def by auto
  ultimately show "table_inv h dk K s (pre @ it # run @ post)" by (simp only: table_inv_def)
  have "en_key it \<notin> en_key ` set (live pre @ run @ live post)"
  proof
    assume "en_key it \<in> en_key ` set (live pre @ run @ live post)"
    then obtain x where "x \<in> set (live pre @ run @ live post)" "en_key x = en_key it" by force
    then have "en_hash x = en_hash it" "en_hash x < en_hash it \<or> en_hash it < en_hash x"
      using table_inv_live [OF inv, of x] it(3) bspec [OF below, of x] bspec [OF above, of x] unfolding live by auto
    then show False by simp
  qed
  then show "table_map (pre @ it # run @ post) = (table_map (pre @ run @ e # post))(en_key it \<mapsto> en_value it)"
    unfolding table_map_def live by (rule map_of_assoc_insert(1))
  show "length (live (pre @ it # run @ post)) = Suc (length (live (pre @ run @ e # post)))" unfolding live by simp
qed

subsection \<open>Deletion\<close>

lemma back_shift_step:
  "i + 1 < length st \<Longrightarrow> back_shift s i st =
     (if i < home s (en_hash (st ! (i + 1))) \<or> entry_is_empty (st ! (i + 1)) then Ret (i, st)
      else back_shift s (i + 1) (st[i := st ! (i + 1)]))"
  by (simp add: back_shift.simps [of s i st] Let_def)

lemma back_shift_run:
  assumes "\<forall>j < length run. \<not> entry_is_empty (run ! j) \<and> home s (en_hash (run ! j)) \<le> length pre + j"
    and "length pre + length run < home s (en_hash e) \<or> entry_is_empty e"
  shows "back_shift s (length pre) (pre @ d # run @ e # post) =
     Ret (length pre + length run, pre @ run @ last (d # run) # e # post)"
  using assms
proof (induction run arbitrary: pre d)
  case Nil
  then show ?case by (subst back_shift_step) (auto simp: nth_append)
next
  case (Cons r run)
  have r: "\<not> entry_is_empty r" "home s (en_hash r) \<le> length pre" using Cons.prems(1) by auto
  then have "back_shift s (length pre) (pre @ d # (r # run) @ e # post) =
      back_shift s (length (pre @ [r])) ((pre @ [r]) @ r # run @ e # post)"
    by (subst back_shift_step) (auto simp: nth_append)
  also have "\<dots> = Ret (length (pre @ [r]) + length run, (pre @ [r]) @ run @ last (r # run) # e # post)"
    using Cons.prems(2) by (intro Cons.IH) (use Cons.prems(1) in \<open>auto dest: spec [of _ "Suc j" for j]\<close>)
  finally show ?case by simp
qed

lemma split_back_run:
  assumes "\<exists>x \<in> set rest. entry_is_empty x"
  shows "\<exists>run e post. rest = run @ e # post \<and> (n + length run < home s (en_hash e) \<or> entry_is_empty e) \<and>
    (\<forall>j < length run. \<not> entry_is_empty (run ! j) \<and> home s (en_hash (run ! j)) \<le> n + j)"
  using assms
proof (induction rest arbitrary: n)
  case (Cons x rest)
  show ?case
  proof (cases "n < home s (en_hash x) \<or> entry_is_empty x")
    case True
    then show ?thesis by (intro exI [of _ "[]"] exI [of _ x] exI [of _ rest]) simp
  next
    case False
    then obtain run e post where "rest = run @ e # post" "Suc n + length run < home s (en_hash e) \<or> entry_is_empty e"
        "\<forall>j < length run. \<not> entry_is_empty (run ! j) \<and> home s (en_hash (run ! j)) \<le> Suc n + j"
      using Cons.IH [of "Suc n"] Cons.prems by auto
    then show ?thesis using False
      by (intro exI [of _ "x # run"] exI [of _ e] exI [of _ post]) (auto simp: nth_Cons split: nat.split)
  qed
qed simp

lemma probes_ok_delete:
  assumes inv: "table_inv h dk K s (pre @ d # run @ e # post)" "\<not> entry_is_empty d" "entry_is_empty emp"
    and run: "\<forall>j < length run. \<not> entry_is_empty (run ! j) \<and> home s (en_hash (run ! j)) \<le> length pre + j"
    and stop: "length pre + length run < home s (en_hash e) \<or> entry_is_empty e"
  shows "probes_ok s (pre @ run @ emp # e # post)"
  unfolding probes_ok_def
proof (intro allI impI)
  let ?old = "pre @ d # run @ e # post" and ?new = "pre @ run @ emp # e # post"
  let ?D = "length pre + length run"
  have ok: "probes_ok s ?old" using inv(1) by (simp only: table_inv_def)
  have all: "\<forall>x \<in> set run. \<not> entry_is_empty x" using run by (auto simp: in_set_conv_nth)
  have "\<not> occupied ?new ?D" using inv(3) by (simp add: occupied_def nth_append)
  then have occ: "occupied ?new j \<longleftrightarrow> occupied ?old j \<and> j \<noteq> ?D" for j
    using occupied_insert [OF inv(2,3) all, of pre "e # post" j] by auto
  have e_old: "?old ! Suc ?D = e" by (simp add: nth_append)
  fix j
  assume j: "occupied ?new j"
  then have oj: "occupied ?old j" "j \<noteq> ?D" using occ by auto
  consider "j < length pre" | "length pre \<le> j" "j < ?D" | "?D < j" using oj(2) by linarith
  then show "home s (en_hash (?new ! j)) \<le> j \<and> (\<forall>x. home s (en_hash (?new ! j)) \<le> x \<longrightarrow> x < j \<longrightarrow> occupied ?new x)"
  proof cases
    case 1
    then have "?new ! j = ?old ! j" by (simp add: nth_append)
    then show ?thesis using probes_okD [OF ok oj(1)] occ 1 by auto
  next
    case 2
    then have new: "?new ! j = run ! (j - length pre)" "?old ! Suc j = run ! (j - length pre)"
      by (auto simp: nth_append Suc_diff_le)
    then have "occupied ?old (Suc j)" using 2 all by (auto simp: occupied_def)
    then show ?thesis using probes_okD [OF ok, of "Suc j"] run [rule_format, of "j - length pre"] occ new 2 by auto
  next
    case 3
    then obtain x where x: "j = Suc (?D + x)" using less_iff_Suc_add by auto
    then have new: "?new ! j = ?old ! j" by (simp add: nth_append)
    have "?D < home s (en_hash (?old ! j))"
    proof (cases "entry_is_empty e")
      case True
      then have "\<not> occupied ?old (Suc ?D)" using e_old by (simp add: occupied_def)
      moreover from this have "Suc ?D < j" using 3 oj(1) by (cases "j = Suc ?D") simp_all
      ultimately have "\<not> home s (en_hash (?old ! j)) \<le> Suc ?D" using probes_okD(2) [OF ok oj(1), of "Suc ?D"] by blast
      then show ?thesis by linarith
    next
      case False
      then have "occupied ?old (Suc ?D)" using e_old by (simp add: occupied_def)
      then have "en_hash e \<le> en_hash (?old ! j)"
        using table_inv_sorted [OF inv(1), of "Suc ?D" j] oj(1) 3 e_old by (cases "j = Suc ?D") auto
      then show ?thesis using home_mono [of "en_hash e" "en_hash (?old ! j)" s] stop False by auto
    qed
    then show ?thesis using probes_okD [OF ok oj(1)] occ new by auto
  qed
qed

lemma table_inv_delete:
  assumes inv: "table_inv h dk K s (pre @ d # run @ e # post)" "\<not> entry_is_empty d" "entry_is_empty emp" "en_key emp = dk"
    and run: "\<forall>j < length run. \<not> entry_is_empty (run ! j) \<and> home s (en_hash (run ! j)) \<le> length pre + j"
    and stop: "length pre + length run < home s (en_hash e) \<or> entry_is_empty e"
  shows "table_inv h dk K s (pre @ run @ emp # e # post)"
    "table_map (pre @ run @ emp # e # post) = (table_map (pre @ d # run @ e # post))(en_key d := None)"
    "Suc (length (live (pre @ run @ emp # e # post))) = length (live (pre @ d # run @ e # post))"
proof -
  have all: "\<forall>x \<in> set run. \<not> entry_is_empty x" using run by (auto simp: in_set_conv_nth)
  have live: "live (pre @ d # run @ e # post) = live pre @ d # run @ live (e # post)"
    "live (pre @ run @ emp # e # post) = live pre @ run @ live (e # post)"
    using inv(2,3) live_all [OF all] by simp_all
  have "sorted_wrt (\<lambda>a b. en_hash a < en_hash b) (live (pre @ d # run @ e # post))" using inv(1) by (simp only: table_inv_def)
  then have "sorted_wrt (\<lambda>a b. en_hash a < en_hash b) (live (pre @ run @ emp # e # post))"
    unfolding live by (auto simp: sorted_wrt_append)
  moreover have "\<forall>x \<in> set (live (pre @ run @ emp # e # post)). en_key x \<in> K \<and> en_hash x = h (en_key x)"
    using table_inv_live [OF inv(1)] unfolding live by auto
  moreover have "\<forall>x \<in> set (pre @ run @ emp # e # post). entry_is_empty x \<longrightarrow> en_key x = dk"
    using table_inv_empty [OF inv(1)] inv(4) by simp
  ultimately show "table_inv h dk K s (pre @ run @ emp # e # post)"
    using probes_ok_delete [OF inv(1-3) run stop] by (simp only: table_inv_def)
  have "en_key d \<notin> en_key ` set (live pre @ run @ live (e # post))"
    using live_keys [OF inv(1)] unfolding live by auto
  note out = map_of_assoc_insert [OF this]
  have "table_map (pre @ d # run @ e # post) = (table_map (pre @ run @ emp # e # post))(en_key d \<mapsto> en_value d)"
    unfolding table_map_def live by (rule out(1))
  moreover have "table_map (pre @ run @ emp # e # post) (en_key d) = None"
    unfolding table_map_def live by (rule out(2))
  ultimately show "table_map (pre @ run @ emp # e # post) = (table_map (pre @ d # run @ e # post))(en_key d := None)"
    by (simp add: fun_upd_idem)
  show "Suc (length (live (pre @ run @ emp # e # post))) = length (live (pre @ d # run @ e # post))" unfolding live by simp
qed

subsection \<open>The table as a map\<close>

definition static_map :: "('k, 'v) static_hash_map \<Rightarrow> ('k \<rightharpoonup> 'v)" where
  "static_map m = table_map (sm_entries m)"

text \<open>
  \<open>H\<close> bounds the homes of the keys in play. The invariant keeps the last slot empty; \<open>static_room\<close> is the
  number of entries that may still be added.
\<close>

definition static_inv :: "('k \<Rightarrow> u64) \<Rightarrow> 'k \<Rightarrow> 'k set \<Rightarrow> nat \<Rightarrow> ('k, 'v) static_hash_map \<Rightarrow> bool" where
  "static_inv h dk K H m \<longleftrightarrow> context_ok h dk K \<and> (\<forall>k \<in> K. home (sm_shift m) (h k) \<le> H) \<and>
     table_inv h dk K (sm_shift m) (sm_entries m) \<and> sm_len m = length (live (sm_entries m)) \<and>
     H + sm_len m < length (sm_entries m) \<and> length (sm_entries m) < 2 ^ 64"

definition static_room :: "nat \<Rightarrow> ('k, 'v) static_hash_map \<Rightarrow> nat" where
  "static_room H m = length (sm_entries m) - 1 - H - sm_len m"

text \<open>Where the search for a key ends, in a table with its invariant.\<close>

lemma static_probe:
  assumes "static_inv h dk K H m" "k \<in> K"
  obtains i where "home (sm_shift m) (h k) \<le> i" "i < length (sm_entries m)" "h k \<le> en_hash (sm_entries m ! i)"
    "\<And>j. home (sm_shift m) (h k) \<le> j \<Longrightarrow> j < i \<Longrightarrow> en_hash (sm_entries m ! j) < h k"
    "entry_is_empty (sm_entries m ! (length (sm_entries m) - 1))" "i \<le> length (sm_entries m) - 1"
proof -
  let ?st = "sm_entries m"
  have e: "entry_is_empty (?st ! (length ?st - 1))" "home (sm_shift m) (h k) \<le> length ?st - 1" "length ?st - 1 < length ?st"
    using assms last_empty [of h dk K "sm_shift m" ?st H] by (fastforce simp: static_inv_def)+
  show thesis
    by (rule probe_end [OF e(3,1,2)]) (use that e in auto)
qed

lemma static_get_correct:
  assumes "static_inv h dk K H m" "k \<in> K"
  shows "static_get h k m = Ret (static_map m k)"
proof -
  obtain i where i: "home (sm_shift m) (h k) \<le> i" "i < length (sm_entries m)" "h k \<le> en_hash (sm_entries m ! i)"
    "\<And>j. home (sm_shift m) (h k) \<le> j \<Longrightarrow> j < i \<Longrightarrow> en_hash (sm_entries m ! j) < h k"
    using static_probe [OF assms] by metis
  have inv: "table_inv h dk K (sm_shift m) (sm_entries m)" "context_ok h dk K" using assms(1) by (simp_all add: static_inv_def)
  show ?thesis using get_scan_at(1) [OF i, of k] probe_hits [OF inv assms(2) i] i(1,2)
    by (auto simp: static_get_def slice_from_def static_map_def)
qed

lemma has_with_hash_correct:
  assumes "static_inv h dk K H m" "k \<in> K"
  shows "has_with_hash (h k) m = Ret (static_map m k \<noteq> None)"
proof -
  obtain i where i: "home (sm_shift m) (h k) \<le> i" "i < length (sm_entries m)" "h k \<le> en_hash (sm_entries m ! i)"
    "\<And>j. home (sm_shift m) (h k) \<le> j \<Longrightarrow> j < i \<Longrightarrow> en_hash (sm_entries m ! j) < h k"
    using static_probe [OF assms] by metis
  have inv: "table_inv h dk K (sm_shift m) (sm_entries m)" "context_ok h dk K" using assms(1) by (simp_all add: static_inv_def)
  have "en_hash (sm_entries m ! i) = h k \<longleftrightarrow> en_key (sm_entries m ! i) = k"
  proof
    assume hk: "en_hash (sm_entries m ! i) = h k"
    then have "occupied (sm_entries m) i" using context_hash [OF inv(2) assms(2)] i(2)
      by (auto simp: occupied_def entry_is_empty_def)
    then have "sm_entries m ! i \<in> set (live (sm_entries m))" by (auto simp: set_live)
    then show "en_key (sm_entries m ! i) = k"
      using table_inv_live [OF inv(1)] hk inv(2) assms(2) by (auto simp: context_ok_def inj_on_def)
  next
    assume "en_key (sm_entries m ! i) = k"
    then have "occupied (sm_entries m) i" using probe_hits(1) [OF inv assms(2) i] by blast
    then have "sm_entries m ! i \<in> set (live (sm_entries m))" by (auto simp: set_live)
    then show "en_hash (sm_entries m ! i) = h k" using table_inv_live [OF inv(1)] \<open>en_key (sm_entries m ! i) = k\<close> by blast
  qed
  then show ?thesis using get_scan_at(2) [OF i] probe_hits [OF inv assms(2) i] i(1,2)
    by (auto simp: has_with_hash_def slice_from_def static_map_def)
qed

lemma dom_static_map: "static_inv h dk K H m \<Longrightarrow> card (dom (static_map m)) = sm_len m"
proof -
  assume "static_inv h dk K H m"
  then have "distinct (map en_key (live (sm_entries m)))" "sm_len m = length (live (sm_entries m))"
    using live_keys by (auto simp: static_inv_def)
  then show ?thesis using distinct_card [of "map en_key (live (sm_entries m))"]
    by (simp add: static_map_def table_map_def dom_map_of_conv_image_fst image_image)
qed

text \<open>The place of a new key: what stands before and behind it.\<close>

definition insert_place :: "('k \<Rightarrow> u64) \<Rightarrow> nat \<Rightarrow> 'k \<Rightarrow> ('k, 'v) entry list \<Rightarrow> ('k, 'v) entry list \<Rightarrow> ('k, 'v) entry \<Rightarrow>
    ('k, 'v) entry list \<Rightarrow> bool" where
  "insert_place h s k pre run e post \<longleftrightarrow>
     (\<forall>x \<in> set run. \<not> entry_is_empty x) \<and> entry_is_empty e \<and> home s (h k) \<le> length pre \<and>
     (\<forall>j. home s (h k) \<le> j \<longrightarrow> j < length pre \<longrightarrow> en_hash (pre ! j) < h k) \<and>
     (\<forall>x \<in> set (live pre). en_hash x < h k) \<and> (\<forall>x \<in> set (run @ live post). h k < en_hash x)"

lemma insert_place_exists:
  assumes inv: "table_inv h dk K s st" "context_ok h dk K" "k \<in> K" and new: "table_map st k = None"
    and i: "home s (h k) \<le> i" "i < length st" "h k \<le> en_hash (st ! i)" "\<And>j. home s (h k) \<le> j \<Longrightarrow> j < i \<Longrightarrow> en_hash (st ! j) < h k"
    and last: "entry_is_empty (st ! (length st - 1))"
  obtains pre run e post where "st = pre @ run @ e # post" "length pre = i" "insert_place h s k pre run e post"
proof -
  have "i \<le> length st - 1" "length st - 1 < length st" using i(2) by simp_all
  from split_run [OF this last] obtain run e post
    where st: "st = take i st @ run @ e # post" "\<forall>x \<in> set run. \<not> entry_is_empty x" "entry_is_empty e" .
  define pre where "pre = take i st"
  have pre: "length pre = i" "st = pre @ run @ e # post" using i(2) st(1) by (simp_all add: pre_def)
  have absent: "en_hash (st ! j) \<noteq> h k" if "occupied st j" for j
  proof -
    have "st ! j \<in> set (live st)" "en_key (st ! j) \<noteq> k" using that new by (auto simp: set_live table_map_None)
    then show ?thesis using table_inv_live [OF inv(1)] inv(2,3) by (auto simp: context_ok_def inj_on_def)
  qed
  have "en_hash x < h k" if "x \<in> set (live pre)" for x
  proof -
    obtain j where "x = pre ! j" "occupied pre j" using \<open>x \<in> set (live pre)\<close> by (auto simp: set_live)
    then have "j < i" "x = st ! j" "occupied st j" using pre by (auto simp: occupied_def nth_append)
    then show "en_hash x < h k" using below_probe [OF inv(1) i(4), where m = i and j = j] by simp
  qed
  moreover have "h k < en_hash x" if "x \<in> set (run @ live post)" for x
  proof -
    have "live (run @ e # post) = run @ live post" using st(2,3) by (simp add: live_all)
    then obtain j where "x = (run @ e # post) ! j" "occupied (run @ e # post) j"
      using \<open>x \<in> set (run @ live post)\<close> set_live [of "run @ e # post"] by auto
    then have j: "x = st ! (i + j)" "occupied st (i + j)" using pre by (auto simp: occupied_def nth_append)
    show "h k < en_hash x"
      using above_probe [OF inv(1) i(1,3,2) j(2)] absent [OF j(2)] i(3) j(1) by (cases j) (auto simp: order_less_le)
  qed
  ultimately have "insert_place h s k pre run e post"
    using st(2,3) i(1,4) pre unfolding insert_place_def by (auto simp: nth_append)
  then show thesis using that pre by blast
qed

lemma insert_place_loop:
  assumes place: "insert_place h s k pre run e post" and inv: "table_inv h dk K s (pre @ run @ e # post)" "context_ok h dk K" "k \<in> K"
  shows "insert_loop k \<lparr>en_hash = h k, en_key = k, en_value = dv\<rparr> (home s (h k)) None (pre @ run @ e # post) =
      Ret (False, length pre, pre @ \<lparr>en_hash = h k, en_key = k, en_value = dv\<rparr> # run @ post, 1)"
proof -
  let ?it = "\<lparr>en_hash = h k, en_key = k, en_value = dv\<rparr>" and ?st = "pre @ run @ e # post"
  have run: "\<forall>x \<in> set run. \<not> entry_is_empty x" "entry_is_empty e" using place by (auto simp: insert_place_def)
  have "en_key e = dk" using table_inv_empty [OF inv(1), of e] run(2) by simp
  then have e: "en_key e \<noteq> k" using inv(2,3) by (auto simp: context_ok_def)
  have "en_key x \<noteq> k" if "x \<in> set run" for x
  proof -
    have "en_hash x = h (en_key x)" using table_inv_live [OF inv(1), of x] that run(1) by (simp add: live_all)
    moreover have "h k < en_hash x" using place that by (simp add: insert_place_def)
    ultimately show ?thesis by auto
  qed
  then have keys: "\<forall>x \<in> set run. \<not> entry_is_empty x \<and> en_key x \<noteq> k" using run(1) by blast
  have "sorted_wrt (\<lambda>a b. en_hash a < en_hash b) (live ?st)" using inv(1) by (simp only: table_inv_def)
  then have sorted: "sorted_wrt (\<lambda>a b. en_hash a < en_hash b) (?it # run)"
    using place run by (simp add: live_all sorted_wrt_append insert_place_def)
  have "insert_loop k ?it (home s (h k)) None ?st = insert_loop k ?it (length pre) None ?st"
    using place by (intro insert_loop_skip) (auto simp: insert_place_def nth_append)
  also have "\<dots> = Ret (False, length pre, pre @ ?it # run @ post, 1)"
    using insert_loop_shift [OF keys run(2) e sorted, of pre None post] by simp
  finally show ?thesis .
qed

lemma insert_place_inv:
  assumes place: "insert_place h s k pre run e post" and inv: "table_inv h dk K s (pre @ run @ e # post)" "context_ok h dk K" "k \<in> K"
    and it_def: "it = \<lparr>en_hash = h k, en_key = k, en_value = v\<rparr>"
  shows "table_inv h dk K s (pre @ it # run @ post)"
    "table_map (pre @ it # run @ post) = (table_map (pre @ run @ e # post))(k \<mapsto> v)"
    "length (live (pre @ it # run @ post)) = Suc (length (live (pre @ run @ e # post)))"
proof -
  have it: "\<not> entry_is_empty it" "en_key it \<in> K" "en_hash it = h (en_key it)" "home s (en_hash it) \<le> length pre"
    using place inv(3) context_hash [OF inv(2,3)] by (auto simp: it_def entry_is_empty_def insert_place_def)
  have occ: "occupied (pre @ run @ e # post) j" if "home s (en_hash it) \<le> j" "j < length pre" for j
    using place that empty_hash_max [of "h k"] by (auto simp: it_def insert_place_def occupied_def nth_append entry_is_empty_def dest: leD)
  note ins = table_inv_insert [OF inv(1) _ _ it occ]
  show "table_inv h dk K s (pre @ it # run @ post)"
    "table_map (pre @ it # run @ post) = (table_map (pre @ run @ e # post))(k \<mapsto> v)"
    "length (live (pre @ it # run @ post)) = Suc (length (live (pre @ run @ e # post)))"
    using ins place by (simp_all add: insert_place_def it_def)
qed

lemma static_get_or_put_new:
  assumes inv: "static_inv h dk K H m" "k \<in> K" and new: "static_map m k = None" and room: "0 < static_room H m"
  shows "\<exists>i m'. get_or_put_assume_capacity h dv k m = Ret (False, i, m') \<and>
     static_inv h dk K H (set_value i v m') \<and> static_map (set_value i v m') = (static_map m)(k \<mapsto> v) \<and>
     Suc (static_room H (set_value i v m')) = static_room H m"
proof -
  let ?it = "\<lambda>v. \<lparr>en_hash = h k, en_key = k, en_value = v\<rparr>"
  have tinv: "table_inv h dk K (sm_shift m) (sm_entries m)" "context_ok h dk K" using inv(1) by (simp_all add: static_inv_def)
  obtain i where i: "home (sm_shift m) (h k) \<le> i" "i < length (sm_entries m)" "h k \<le> en_hash (sm_entries m ! i)"
    "\<And>j. home (sm_shift m) (h k) \<le> j \<Longrightarrow> j < i \<Longrightarrow> en_hash (sm_entries m ! j) < h k"
    "entry_is_empty (sm_entries m ! (length (sm_entries m) - 1))"
    using static_probe [OF inv] by metis
  obtain pre run e post where st: "sm_entries m = pre @ run @ e # post" "insert_place h (sm_shift m) k pre run e post"
    using insert_place_exists [OF tinv inv(2) new [unfolded static_map_def] i] by metis
  note tinv = tinv [unfolded st(1)]
  define m' where "m' v = m\<lparr>sm_entries := pre @ ?it v # run @ post, sm_len := sm_len m + 1\<rparr>" for v
  have "get_or_put_assume_capacity h dv k m = Ret (False, length pre, m' dv)"
    using insert_place_loop [OF st(2) tinv inv(2), of dv] by (simp add: get_or_put_assume_capacity_def Let_def st(1) m'_def)
  moreover have "set_value (length pre) v (m' dv) = m' v" by (simp add: set_value_def m'_def)
  moreover have "static_inv h dk K H (m' v)" "static_map (m' v) = (static_map m)(k \<mapsto> v)"
      "Suc (static_room H (m' v)) = static_room H m"
    using insert_place_inv [OF st(2) tinv inv(2) refl, of v] inv(1) room
    by (auto simp: static_inv_def static_map_def static_room_def m'_def st(1))
  ultimately show ?thesis by auto
qed

lemma static_get_or_put_found:
  assumes inv: "static_inv h dk K H m" "k \<in> K" and old: "static_map m k = Some v"
  shows "\<exists>i. get_or_put_assume_capacity h dv k m = Ret (True, i, m) \<and> en_value (sm_entries m ! i) = v"
proof -
  have tinv: "table_inv h dk K (sm_shift m) (sm_entries m)" "context_ok h dk K" using inv(1) by (simp_all add: static_inv_def)
  obtain i where i: "home (sm_shift m) (h k) \<le> i" "i < length (sm_entries m)" "h k \<le> en_hash (sm_entries m ! i)"
    "\<And>j. home (sm_shift m) (h k) \<le> j \<Longrightarrow> j < i \<Longrightarrow> en_hash (sm_entries m ! j) < h k"
    using static_probe [OF inv] by metis
  have hit: "en_key (sm_entries m ! i) = k" "en_value (sm_entries m ! i) = v"
    using probe_hits [OF tinv inv(2) i] old by (auto simp: static_map_def)
  have "insert_loop k \<lparr>en_hash = h k, en_key = k, en_value = dv\<rparr> (home (sm_shift m) (h k)) None (sm_entries m) =
      insert_loop k \<lparr>en_hash = h k, en_key = k, en_value = dv\<rparr> i None (sm_entries m)"
    using i by (intro insert_loop_skip) auto
  also have "\<dots> = Ret (True, i, sm_entries m, 0)" using i hit(1) by (subst insert_loop_step) simp_all
  finally show ?thesis using hit(2) by (simp add: get_or_put_assume_capacity_def Let_def)
qed

lemma static_put_correct:
  assumes "static_inv h dk K H m" "k \<in> K" "static_map m k \<noteq> None \<or> 0 < static_room H m"
  shows "\<exists>m'. put_assume_capacity h dv k v m = Ret m' \<and> static_inv h dk K H m' \<and>
     static_map m' = (if static_map m k = None then (static_map m)(k \<mapsto> v) else static_map m) \<and>
     static_room H m' = static_room H m - (if static_map m k = None then 1 else 0)"
proof (cases "static_map m k")
  case None
  then obtain i m' where m': "get_or_put_assume_capacity h dv k m = Ret (False, i, m')"
     "static_inv h dk K H (set_value i v m')" "static_map (set_value i v m') = (static_map m)(k \<mapsto> v)"
     "Suc (static_room H (set_value i v m')) = static_room H m"
    using static_get_or_put_new [OF assms(1,2) None, of dv v] assms(3) by auto
  then show ?thesis using None by (auto simp: put_assume_capacity_def)
next
  case (Some x)
  then show ?thesis using static_get_or_put_found [OF assms(1,2) Some, of dv] assms(1) by (auto simp: put_assume_capacity_def)
qed

lemma usize_dec: "0 < n \<Longrightarrow> n < 2 ^ 64 \<Longrightarrow> (n + 2 ^ 64 - 1) mod 2 ^ 64 = n - (1 :: nat)"
proof -
  assume n: "0 < n" "n < 2 ^ 64"
  then have "n + 2 ^ 64 - 1 = (n - 1) + 2 ^ 64" by linarith
  then show ?thesis using n(2) by (simp only: mod_add_self2) simp
qed

lemma static_delete_correct:
  assumes inv: "static_inv h dk K H m" "k \<in> K"
  shows "\<exists>m'. static_delete h dk dv k m = Ret (static_map m k, m') \<and> static_inv h dk K H m' \<and>
     static_map m' = (static_map m)(k := None) \<and>
     static_room H m' = static_room H m + (if static_map m k = None then 0 else 1)"
proof -
  let ?st = "sm_entries m" and ?s = "sm_shift m"
  have tinv: "table_inv h dk K ?s ?st" "context_ok h dk K" using inv(1) by (simp_all add: static_inv_def)
  obtain i where i: "home ?s (h k) \<le> i" "i < length ?st" "h k \<le> en_hash (?st ! i)"
    "\<And>j. home ?s (h k) \<le> j \<Longrightarrow> j < i \<Longrightarrow> en_hash (?st ! j) < h k" and last: "entry_is_empty (?st ! (length ?st - 1))"
    using static_probe [OF inv] by metis
  note find = get_scan_at(3) [OF i, of k] and hits = probe_hits [OF tinv inv(2) i]
  show ?thesis
  proof (cases "en_key (?st ! i) = k")
    case False
    then show ?thesis using find hits(2) inv(1) by (simp add: static_delete_def static_map_def fun_upd_idem)
  next
    case True
    have occ: "occupied ?st i" "table_map ?st k = Some (en_value (?st ! i))" using hits(1) True by auto
    have "i \<noteq> length ?st - 1" using occ(1) last by (auto simp: occupied_def)
    then have "i + 1 < length ?st" using i(2) by simp
    then have "?st ! (length ?st - 1) \<in> set (drop (i + 1) ?st)"
      using last_in_set [of "drop (i + 1) ?st"] last_conv_nth [of ?st] i(2) by (cases "?st = []") (auto simp: last_drop)
    then obtain run e post where run: "drop (i + 1) ?st = run @ e # post" "i + length run < home ?s (en_hash e) \<or> entry_is_empty e"
        "\<forall>j < length run. \<not> entry_is_empty (run ! j) \<and> home ?s (en_hash (run ! j)) \<le> i + j"
      using split_back_run [of "drop (i + 1) ?st" i ?s] last by blast
    define pre d where "pre = take i ?st" and "d = ?st ! i"
    have st: "?st = pre @ d # run @ e # post" "length pre = i" "\<not> entry_is_empty d" "en_key d = k"
      using id_take_nth_drop [OF i(2)] run(1) i(2) occ(1) True by (simp_all add: pre_def d_def occupied_def)
    let ?new = "pre @ run @ entry_empty dk dv # e # post"
    have "back_shift ?s i ?st = Ret (i + length run, pre @ run @ last (d # run) # e # post)"
      using back_shift_run [of run ?s pre e d post] run(2,3) st(1,2) by simp
    moreover have "(pre @ run @ last (d # run) # e # post)[i + length run := entry_empty dk dv] = ?new"
      using st(2) by (simp add: list_update_append)
    moreover have "live ?st \<noteq> []" using occ(2) by (auto simp: table_map_def)
    then have pos: "0 < sm_len m" "sm_len m < 2 ^ 64" "H + sm_len m < length ?st" using inv(1) by (auto simp: static_inv_def)
    ultimately have ret: "static_delete h dk dv k m = Ret (Some (en_value d), m\<lparr>sm_entries := ?new, sm_len := sm_len m - 1\<rparr>)"
      using find True usize_dec [of "sm_len m"] by (simp add: static_delete_def d_def)
    have emp: "entry_is_empty (entry_empty dk dv)" "en_key (entry_empty dk dv) = dk"
      by (simp_all add: entry_empty_def entry_is_empty_def)
    note del = table_inv_delete [OF tinv(1) [unfolded st(1)] st(3) emp, unfolded st(2), OF run(3,2)]
    have k: "static_map m k = Some (en_value d)" using occ(2) by (simp add: static_map_def d_def)
    let ?m = "m\<lparr>sm_entries := ?new, sm_len := sm_len m - 1\<rparr>"
    have len: "length ?st = length ?new" "length (live ?st) = Suc (length (live ?new))" using del(3) st(1) by simp_all
    have "static_inv h dk K H ?m" using inv(1) del(1) len unfolding static_inv_def by simp
    moreover have "static_map ?m = (static_map m)(k := None)" unfolding static_map_def using del(2) st(1,4) by simp
    moreover have "sm_entries ?m = ?new" "sm_len ?m = sm_len m - 1" by simp_all
    then have "static_room H ?m = static_room H m + 1"
      using pos unfolding static_room_def by (simp only: len(1) [symmetric])
    ultimately show ?thesis using ret k by auto
  qed
qed

subsection \<open>Sequences of operations\<close>

datatype ('k, 'v) map_op = OpPut 'k 'v | OpGet 'k | OpDelete 'k

fun op_key :: "('k, 'v) map_op \<Rightarrow> 'k" where
  "op_key (OpPut k v) = k" | "op_key (OpGet k) = k" | "op_key (OpDelete k) = k"

text \<open>The operations on a map, with the result that each returns; \<open>put_assume_capacity\<close> keeps an old value.\<close>

fun map_step :: "('k, 'v) map_op \<Rightarrow> ('k \<rightharpoonup> 'v) \<Rightarrow> ('k \<rightharpoonup> 'v)" where
  "map_step (OpPut k v) A = (if A k = None then A(k \<mapsto> v) else A)"
| "map_step (OpGet k) A = A"
| "map_step (OpDelete k) A = A(k := None)"

fun map_result :: "('k, 'v) map_op \<Rightarrow> ('k \<rightharpoonup> 'v) \<Rightarrow> 'v option" where
  "map_result (OpPut k v) A = None"
| "map_result (OpGet k) A = A k"
| "map_result (OpDelete k) A = A k"

fun map_run :: "('k, 'v) map_op list \<Rightarrow> ('k \<rightharpoonup> 'v) \<Rightarrow> 'v option list" where
  "map_run [] A = []"
| "map_run (x # xs) A = map_result x A # map_run xs (map_step x A)"

text \<open>At no time more than \<open>n\<close> entries more than now.\<close>

fun ops_fit :: "nat \<Rightarrow> ('k, 'v) map_op list \<Rightarrow> ('k \<rightharpoonup> 'v) \<Rightarrow> bool" where
  "ops_fit n [] A \<longleftrightarrow> True"
| "ops_fit n (OpPut k v # xs) A \<longleftrightarrow>
     (if A k = None then 0 < n \<and> ops_fit (n - 1) xs (A(k \<mapsto> v)) else ops_fit n xs A)"
| "ops_fit n (OpGet k # xs) A \<longleftrightarrow> ops_fit n xs A"
| "ops_fit n (OpDelete k # xs) A \<longleftrightarrow> ops_fit (if A k = None then n else n + 1) xs (A(k := None))"

text \<open>The same sequence on a table with operations \<open>get\<close>, \<open>put\<close> and \<open>del\<close>.\<close>

fun table_step :: "('k \<Rightarrow> 'm \<Rightarrow> 'v option outcome) \<Rightarrow> ('k \<Rightarrow> 'v \<Rightarrow> 'm \<Rightarrow> 'm outcome) \<Rightarrow>
    ('k \<Rightarrow> 'm \<Rightarrow> ('v option \<times> 'm) outcome) \<Rightarrow> ('k, 'v) map_op \<Rightarrow> 'm \<Rightarrow> ('v option \<times> 'm) outcome" where
  "table_step get put del (OpPut k v) m = bind_outcome (put k v m) (\<lambda>m. Ret (None, m))"
| "table_step get put del (OpGet k) m = bind_outcome (get k m) (\<lambda>r. Ret (r, m))"
| "table_step get put del (OpDelete k) m = del k m"

fun table_run :: "(('k, 'v) map_op \<Rightarrow> 'm \<Rightarrow> ('v option \<times> 'm) outcome) \<Rightarrow> ('k, 'v) map_op list \<Rightarrow> 'm \<Rightarrow> 'v option list outcome" where
  "table_run step [] m = Ret []"
| "table_run step (x # xs) m = bind_outcome (step x m) (\<lambda>(r, m). bind_outcome (table_run step xs m) (\<lambda>rs. Ret (r # rs)))"

text \<open>A table of bounded size that implements a map.\<close>

locale bounded_map =
  fixes inv :: "'m \<Rightarrow> bool" and keys :: "'k set" and amap :: "'m \<Rightarrow> ('k \<rightharpoonup> 'v)" and room :: "'m \<Rightarrow> nat"
    and get :: "'k \<Rightarrow> 'm \<Rightarrow> 'v option outcome" and put :: "'k \<Rightarrow> 'v \<Rightarrow> 'm \<Rightarrow> 'm outcome"
    and del :: "'k \<Rightarrow> 'm \<Rightarrow> ('v option \<times> 'm) outcome"
  assumes get_law: "inv m \<Longrightarrow> k \<in> keys \<Longrightarrow> get k m = Ret (amap m k)"
    and put_law: "inv m \<Longrightarrow> k \<in> keys \<Longrightarrow> amap m k \<noteq> None \<or> 0 < room m \<Longrightarrow>
      \<exists>m'. put k v m = Ret m' \<and> inv m' \<and> amap m' = (if amap m k = None then (amap m)(k \<mapsto> v) else amap m) \<and>
        room m' = room m - (if amap m k = None then 1 else 0)"
    and del_law: "inv m \<Longrightarrow> k \<in> keys \<Longrightarrow>
      \<exists>m'. del k m = Ret (amap m k, m') \<and> inv m' \<and> amap m' = (amap m)(k := None) \<and>
        room m' = room m + (if amap m k = None then 0 else 1)"
begin

lemma step_refines:
  assumes "inv m" "op_key x \<in> keys" "ops_fit (room m) (x # xs) (amap m)"
  obtains m' where "table_step get put del x m = Ret (map_result x (amap m), m')" "inv m'" "amap m' = map_step x (amap m)"
    "ops_fit (room m') xs (amap m')"
proof (cases x)
  case (OpPut k v)
  then obtain m' where "put k v m = Ret m'" "inv m'" "amap m' = (if amap m k = None then (amap m)(k \<mapsto> v) else amap m)"
      "room m' = room m - (if amap m k = None then 1 else 0)"
    using put_law [OF assms(1), of k v] assms(2,3) by (auto split: if_splits)
  then show thesis using that [of m'] OpPut assms(3) by (auto split: if_splits)
next
  case (OpGet k)
  then show thesis using that [of m] get_law [OF assms(1), of k] assms by simp
next
  case (OpDelete k)
  then obtain m' where "del k m = Ret (amap m k, m')" "inv m'" "amap m' = (amap m)(k := None)"
      "room m' = room m + (if amap m k = None then 0 else 1)"
    using del_law [OF assms(1), of k] assms(2) by auto
  then show thesis using that [of m'] OpDelete assms(3) by (auto split: if_splits)
qed

lemma run_refines:
  "inv m \<Longrightarrow> op_key ` set xs \<subseteq> keys \<Longrightarrow> ops_fit (room m) xs (amap m) \<Longrightarrow>
   table_run (table_step get put del) xs m = Ret (map_run xs (amap m))"
proof (induction xs arbitrary: m)
  case (Cons x xs)
  have key: "op_key x \<in> keys" using Cons.prems(2) by simp
  obtain m' where "table_step get put del x m = Ret (map_result x (amap m), m')" "inv m'" "amap m' = map_step x (amap m)"
    "ops_fit (room m') xs (amap m')"
    by (rule step_refines [OF Cons.prems(1) key Cons.prems(3)])
  then show ?case using Cons.IH [of m'] Cons.prems(2) by simp
qed simp

end

interpretation sm: bounded_map "static_inv h dk K H" K static_map "static_room H" "static_get h"
    "put_assume_capacity h dv" "static_delete h dk dv"
  for h :: "'k \<Rightarrow> u64" and dk :: 'k and dv :: 'v and K :: "'k set" and H :: nat
  by unfold_locales (simp_all add: static_get_correct static_put_correct static_delete_correct)

subsection \<open>A fresh table\<close>

lemma ilog2_power: "ilog2 (2 ^ c) = c"
  by (induction c) (simp_all add: ilog2.simps)

lemma home_bound:
  assumes "1 \<le> c" "c < 64"
  shows "home (compute_shift (2 ^ c)) hash \<le> 2 ^ c - 1"
proof -
  have shift: "compute_shift (2 ^ c) mod 64 = 64 - c" using assms by (simp add: compute_shift_def ilog2_power)
  have "unat hash < 2 ^ c * 2 ^ (64 - c)" using unsigned_less [of hash, where ?'a = nat] assms by (simp flip: power_add)
  then have "unat hash div 2 ^ (64 - c) < 2 ^ c" by (simp add: less_mult_imp_div_less)
  then have "home (compute_shift (2 ^ c)) hash < 2 ^ c" unfolding home_def shift unat_drop_bit .
  then show ?thesis by simp
qed

lemma static_default_inv:
  assumes "context_ok h dk K" "1 \<le> c" "c < 64" "static_slots (2 ^ c) < 2 ^ 64" "\<forall>k \<in> K. home (compute_shift (2 ^ c)) (h k) \<le> H"
    and "H < static_slots (2 ^ c)"
  shows "static_inv h dk K H (static_default dk dv (2 ^ c))" "static_map (static_default dk dv (2 ^ c)) = Map.empty"
    "static_room H (static_default dk dv (2 ^ c)) = static_slots (2 ^ c) - 1 - H"
proof -
  have live: "live (replicate n (entry_empty dk dv)) = []" for n by (simp add: live_def entry_empty_def entry_is_empty_def)
  have "\<not> occupied (replicate n (entry_empty dk dv)) i" for n i by (simp add: occupied_def entry_empty_def entry_is_empty_def)
  then have "table_inv h dk K s (replicate n (entry_empty dk dv))" for s n
    by (simp add: table_inv_def live probes_ok_def) (simp add: entry_empty_def)
  then show "static_inv h dk K H (static_default dk dv (2 ^ c))" using assms by (simp add: static_inv_def static_default_def live)
  show "static_map (static_default dk dv (2 ^ c)) = Map.empty"
    by (simp add: static_map_def static_default_def table_map_def live)
  show "static_room H (static_default dk dv (2 ^ c)) = static_slots (2 ^ c) - 1 - H"
    by (simp add: static_room_def static_default_def)
qed

text \<open>
  The default key stands in every empty entry, and the loops compare keys before they look for
  an empty entry: a key equal to \<open>K::default()\<close> is found in an empty table.
\<close>

lemma default_key_found:
  assumes "home (compute_shift c) (h dk) < static_slots c"
  shows "static_get h dk (static_default dk dv c) = Ret (Some dv)"
proof -
  have "drop (home (compute_shift c) (h dk)) (replicate (static_slots c) (entry_empty dk dv)) =
      entry_empty dk dv # replicate (static_slots c - home (compute_shift c) (h dk) - 1) (entry_empty dk dv)"
    using assms by (cases "static_slots c - home (compute_shift c) (h dk)") simp_all
  then show ?thesis using assms empty_hash_max [of "h dk"]
    by (simp add: static_get_def static_default_def slice_from_def entry_empty_def)
qed

subsection \<open>The property\<close>



end
