(* ===== verification/TrustedDeps.thy ===== *)
theory TrustedDeps
  imports StringHash StaticHashMap
begin

text \<open>
  The default trusted dependencies of the package manager (\<open>src/src/install/lockfile.rs\<close>, module
  \<open>default_trusted_dependencies\<close>): a \<open>StaticHashMap\<close> from the names whose install scripts may run, keyed by the
  low 32 bits of their string hash. The list of names, read from a text file at build time, is a
  parameter.
\<close>

definition MAX_DEFAULT_TRUSTED_DEPENDENCIES :: nat where
  "MAX_DEFAULT_TRUSTED_DEPENDENCIES = 512"

text \<open>\<open>TrustedDepHashCtx::ctx_hash\<close>.\<close>

definition trusted_hash :: "bytes \<Rightarrow> u64" where
  "trusted_hash s = ucast (ucast (string_hash_value s) :: u32)"

text \<open>The closure that fills \<open>MAP\<close>; the values are \<open>()\<close>, the default key is the empty name.\<close>

fun trusted_fill :: "bytes list \<Rightarrow> (bytes, unit) static_hash_map \<Rightarrow> (bytes, unit) static_hash_map outcome" where
  "trusted_fill [] m = Ret m"
| "trusted_fill (dep # deps) m =
     bind_outcome (get_or_put_assume_capacity trusted_hash () dep m) (\<lambda>(found, i, m).
       trusted_fill deps (set_value i () m))"

definition trusted_map :: "bytes list \<Rightarrow> (bytes, unit) static_hash_map outcome" where
  "trusted_map deps = trusted_fill deps (static_default [] () MAX_DEFAULT_TRUSTED_DEPENDENCIES)"

definition trusted_entries :: "(bytes, unit) static_hash_map \<Rightarrow> (bytes, unit) entry list" where
  "trusted_entries m = filter (\<lambda>e. \<not> entry_is_empty e) (sm_entries m)"

fun trusted_scan :: "u64 \<Rightarrow> bytes \<Rightarrow> (bytes, unit) entry list \<Rightarrow> bool outcome" where
  "trusted_scan hash name [] = Panic"
| "trusted_scan hash name (e # es) =
     (if hash \<le> en_hash e then Ret (en_hash e = hash \<and> en_key e = name) else trusted_scan hash name es)"

definition trusted_has :: "bytes \<Rightarrow> (bytes, unit) static_hash_map \<Rightarrow> bool outcome" where
  "trusted_has name m =
     (let hash = ucast (ucast (string_hash_value name) :: u32) in
      bind_outcome (slice_from (home (sm_shift m) hash) (sm_entries m)) (trusted_scan hash name))"

subsection \<open>Filling the table\<close>

lemma trusted_hash_small: "unat (trusted_hash s) < 2 ^ 32"
proof -
  have "unat (ucast w :: u64) \<le> unat w" for w :: u32 by (simp add: unsigned_ucast_eq)
  then have "unat (trusted_hash s) \<le> unat (ucast (string_hash_value s) :: u32)" unfolding trusted_hash_def .
  also have "\<dots> < 2 ^ 32" using unsigned_less [of "ucast (string_hash_value s) :: u32", where ?'a = nat] by simp
  finally show ?thesis .
qed

lemma trusted_slots: "static_slots 512 = 632" "compute_shift 512 = 55"
  by (simp_all add: static_slots_def compute_overflow_def compute_shift_def ilog2.simps)

text \<open>
  The home of a name is the top nine of 64 bits of its hash, and a hash of 32 bits has none of
  them: every search starts at the first slot.
\<close>

lemma trusted_home_zero: "home 55 (trusted_hash s) = 0"
  using trusted_hash_small [of s] by (simp add: home_def unat_drop_bit)

lemma trusted_hash_not_empty: "trusted_hash s \<noteq> EMPTY_HASH"
proof
  assume "trusted_hash s = EMPTY_HASH"
  then have "unat (trusted_hash s) = 2 ^ 64 - 1" by (simp add: EMPTY_HASH_def u64_max_def)
  then show False using trusted_hash_small [of s] by simp
qed

lemma trusted_fill_inv:
  "static_inv trusted_hash [] K H m \<Longrightarrow> set deps \<subseteq> K \<Longrightarrow> distinct deps \<Longrightarrow> \<forall>d \<in> set deps. static_map m d = None \<Longrightarrow>
   length deps \<le> static_room H m \<Longrightarrow>
   \<exists>m'. trusted_fill deps m = Ret m' \<and> static_inv trusted_hash [] K H m' \<and> dom (static_map m') = dom (static_map m) \<union> set deps \<and>
     sm_shift m' = sm_shift m"
proof (induction deps arbitrary: m)
  case (Cons d deps)
  have d: "d \<in> K" "static_map m d = None" "0 < static_room H m" using Cons.prems by auto
  obtain i m1 where m1: "get_or_put_assume_capacity trusted_hash () d m = Ret (False, i, m1)"
     "static_inv trusted_hash [] K H (set_value i () m1)" "static_map (set_value i () m1) = (static_map m)(d \<mapsto> ())"
     "Suc (static_room H (set_value i () m1)) = static_room H m"
    using static_get_or_put_new [OF Cons.prems(1) d, of "()" "()"] by blast
  have none: "\<forall>x \<in> set deps. static_map (set_value i () m1) x = None" using m1(3) Cons.prems(3,4) by auto
  have shift: "sm_shift m1 = sm_shift m"
    using m1(1) by (auto simp: get_or_put_assume_capacity_def Let_def bind_outcome_eq_Ret)
  obtain m' where "trusted_fill deps (set_value i () m1) = Ret m'" "static_inv trusted_hash [] K H m'"
      "dom (static_map m') = dom (static_map (set_value i () m1)) \<union> set deps" "sm_shift m' = sm_shift (set_value i () m1)"
    using Cons.IH [OF m1(2) _ _ none] Cons.prems m1(4) by auto
  then show ?case using m1(1,3) shift by (auto simp: set_value_def)
qed auto

lemma trusted_scan_at:
  assumes "i \<le> m" "m < length st" "k \<le> en_hash (st ! m)" "\<And>j. i \<le> j \<Longrightarrow> j < m \<Longrightarrow> en_hash (st ! j) < k"
  shows "trusted_scan k name (drop i st) = Ret (en_hash (st ! m) = k \<and> en_key (st ! m) = name)"
  using assms
proof (induction "m - i" arbitrary: i)
  case 0
  then have "i = m" by simp
  then show ?case using 0 Cons_nth_drop_Suc [of m st, symmetric] by simp
next
  case (Suc n)
  then have "en_hash (st ! i) < k" by simp
  then have "i < length st" "\<not> k \<le> en_hash (st ! i)" using Suc(2,4) by (auto simp: leD)
  moreover from this have "drop i st = st ! i # drop (i + 1) st" using Cons_nth_drop_Suc [of i st] by simp
  ultimately show ?case using Suc(1) [of "i + 1"] Suc(2-) by simp
qed

text \<open>Looking a name up: the entry that is found has the hash, and the name is compared.\<close>

lemma trusted_has_correct:
  assumes inv: "static_inv trusted_hash [] K 0 m" and shift: "sm_shift m = 55"
  shows "trusted_has name m = Ret (static_map m name \<noteq> None)"
proof -
  let ?st = "sm_entries m" and ?k = "trusted_hash name"
  have tinv: "table_inv trusted_hash [] K 55 ?st" "context_ok trusted_hash [] K" using inv shift by (simp_all add: static_inv_def)
  have "entry_is_empty (?st ! (length ?st - 1))" "length ?st - 1 < length ?st" "home 55 ?k \<le> length ?st - 1"
    using last_empty [OF tinv(1), of 0] inv trusted_home_zero by (auto simp: static_inv_def)
  from probe_end [OF this(2,1,3)] obtain i where i: "home 55 ?k \<le> i" "i \<le> length ?st - 1" "?k \<le> en_hash (?st ! i)"
    "\<And>j. home 55 ?k \<le> j \<Longrightarrow> j < i \<Longrightarrow> en_hash (?st ! j) < ?k" by blast
  have len: "i < length ?st" using i(2) inv by (auto simp: static_inv_def)
  have "trusted_has name m = Ret (en_hash (?st ! i) = ?k \<and> en_key (?st ! i) = name)"
    using trusted_scan_at [OF i(1) len i(3,4)] len i(1)
    by (simp add: trusted_has_def Let_def trusted_hash_def [symmetric] shift slice_from_def)
  moreover have "en_hash (?st ! i) = ?k \<and> en_key (?st ! i) = name \<longleftrightarrow> static_map m name \<noteq> None"
  proof
    assume hit: "en_hash (?st ! i) = ?k \<and> en_key (?st ! i) = name"
    then have "occupied ?st i" using len trusted_hash_not_empty [of name] by (simp add: occupied_def entry_is_empty_def)
    then show "static_map m name \<noteq> None" using hit by (auto simp: static_map_def table_map_None)
  next
    assume "static_map m name \<noteq> None"
    then obtain j where j: "occupied ?st j" "en_key (?st ! j) = name" by (auto simp: static_map_def table_map_None)
    then have name: "name \<in> K" "en_hash (?st ! j) = ?k" using table_inv_live [OF tinv(1), of "?st ! j"] by (auto simp: set_live)
    have "en_key (?st ! i) = name" using probe_hits(2) [OF tinv name(1) i(1) len i(3,4)] \<open>static_map m name \<noteq> None\<close>
      by (auto simp: static_map_def)
    moreover from this have "occupied ?st i" using probe_hits(1) [OF tinv name(1) i(1) len i(3,4)] by blast
    ultimately show "en_hash (?st ! i) = ?k \<and> en_key (?st ! i) = name"
      using table_inv_live [OF tinv(1), of "?st ! i"] by (auto simp: set_live)
  qed
  ultimately show ?thesis by simp
qed

subsection \<open>The property\<close>

text \<open>
  C29: filling the table with at most 512 names of different hashes, none empty, returns, and then
  \<open>default_trusted_dependencies::has\<close> returns for every name, without reaching \<open>unreachable!()\<close>, exactly
  whether the name is on the list, also for a name whose hash collides with one on the list;
  \<open>entries\<close> are the names on the list, and \<open>has_with_hash\<close> finds their hashes.
\<close>

theorem trusted_has_exact:
  assumes "distinct (map trusted_hash deps)" "length deps \<le> 512" "[] \<notin> set deps"
  shows "\<exists>m. trusted_map deps = Ret m \<and> (\<forall>name. trusted_has name m = Ret (name \<in> set deps)) \<and>
     en_key ` set (trusted_entries m) = set deps \<and>
     (\<forall>name \<in> set deps. has_with_hash (trusted_hash name) m = Ret True)"
proof -
  have ctx: "context_ok trusted_hash [] (set deps)"
    using assms(1,3) trusted_hash_not_empty [symmetric] by (auto simp: context_ok_def distinct_map)
  have cap: "MAX_DEFAULT_TRUSTED_DEPENDENCIES = 2 ^ 9" by (simp add: MAX_DEFAULT_TRUSTED_DEPENDENCIES_def)
  have fresh: "static_inv trusted_hash [] (set deps) 0 (static_default [] () (2 ^ 9))"
    "static_map (static_default [] () (2 ^ 9) :: (bytes, unit) static_hash_map) = Map.empty"
    "static_room 0 (static_default [] () (2 ^ 9) :: (bytes, unit) static_hash_map) = 631"
    using static_default_inv [OF ctx, of 9 0 "()"] trusted_home_zero by (simp_all add: trusted_slots)
  obtain m where m: "trusted_map deps = Ret m" "static_inv trusted_hash [] (set deps) 0 m" "dom (static_map m) = set deps"
      "sm_shift m = 55"
    using trusted_fill_inv [OF fresh(1) subset_refl] fresh(2,3) assms(1,2)
    by (auto simp: trusted_map_def cap distinct_map static_default_def trusted_slots)
  have "static_map m name \<noteq> None \<longleftrightarrow> name \<in> set deps" for name using m(3) by auto
  moreover have "en_key ` set (trusted_entries m) = dom (static_map m)"
    by (simp add: trusted_entries_def static_map_def table_map_def live_def dom_map_of_conv_image_fst image_image)
  ultimately show ?thesis
    using m trusted_has_correct [OF m(2,4)] has_with_hash_correct [OF m(2)] by auto
qed

theorem trusted_has_exact_witness:
  "\<exists>m. trusted_map [bs ''esbuild''] = Ret m \<and> (\<forall>name. trusted_has name m = Ret (name \<in> set [bs ''esbuild''])) \<and>
     en_key ` set (trusted_entries m) = set [bs ''esbuild''] \<and>
     (\<forall>name \<in> set [bs ''esbuild'']. has_with_hash (trusted_hash name) m = Ret True)"
  by (rule trusted_has_exact) simp_all

end
