(* ===== verification/LinearFifo.thy ===== *)
theory LinearFifo
  imports Prelude "HOL-Library.Monad_Syntax"
begin

text \<open>
  The ring buffer \<open>LinearFifo\<close> (\<open>src/src/collections/linear_fifo.rs\<close>). A slot of the buffer is
  \<open>MaybeUninit\<close>: \<open>None\<close> is a slot nothing has been written to. A computation that does not return,
  because it panics, reads an uninitialised slot or out of range through a raw pointer, or loops for
  ever, is the value \<open>None\<close> of the option monad. \<open>usize\<close> is 64 bits and wraps; the sizes of the
  element type and of the buffer are those of the instantiation.
\<close>

subsection \<open>Machine arithmetic\<close>

definition usize_add :: "nat \<Rightarrow> nat \<Rightarrow> nat" where
  "usize_add a b = (a + b) mod 2 ^ 64"

definition usize_sub :: "nat \<Rightarrow> nat \<Rightarrow> nat" where
  "usize_sub a b = (a + (2 ^ 64 - b)) mod 2 ^ 64"

definition usize_and :: "nat \<Rightarrow> nat \<Rightarrow> nat" where
  "usize_and a b = a AND b"

text \<open>\<open>usize::checked_add\<close> and \<open>usize::checked_next_power_of_two\<close>.\<close>

definition checked_add :: "nat \<Rightarrow> nat \<Rightarrow> nat option" where
  "checked_add a b = (if a + b < 2 ^ 64 then Some (a + b) else None)"

fun next_pow2_from :: "nat \<Rightarrow> nat \<Rightarrow> nat \<Rightarrow> nat option" where
  "next_pow2_from 0 p n = None"
| "next_pow2_from (Suc fuel) p n = (if n \<le> p then Some p else next_pow2_from fuel (2 * p) n)"

definition checked_next_power_of_two :: "nat \<Rightarrow> nat option" where
  "checked_next_power_of_two n = next_pow2_from 64 1 n"

subsection \<open>Buffers\<close>

text \<open>
  The type parameters: the buffer kind with its constants \<open>POWERS_OF_TWO\<close> and \<open>DYNAMIC\<close>, and the size
  of the element type in bytes.
\<close>

datatype buffer_kind = StaticBuffer nat | DynamicBuffer

definition is_power_of_two :: "nat \<Rightarrow> bool" where
  "is_power_of_two n = list_ex (\<lambda>k. n = 2 ^ k) [0..<64]"

fun POWERS_OF_TWO :: "buffer_kind \<Rightarrow> bool" where
  "POWERS_OF_TWO (StaticBuffer n) = is_power_of_two n"
| "POWERS_OF_TWO DynamicBuffer = True"

fun DYNAMIC :: "buffer_kind \<Rightarrow> bool" where
  "DYNAMIC (StaticBuffer n) = False"
| "DYNAMIC DynamicBuffer = True"

record 'a linear_fifo =
  lf_buf :: "'a option list"
  lf_head :: nat
  lf_count :: nat

datatype alloc_result = AllocOk | AllocError

text \<open>
  Slices are index ranges; slicing out of range panics. \<open>ptr::copy\<close> within the buffer and
  \<open>copy_from_slice\<close> into it.
\<close>

definition slice_of :: "'b list \<Rightarrow> nat \<Rightarrow> nat \<Rightarrow> 'b list option" where
  "slice_of xs i j = (if i \<le> j \<and> j \<le> length xs then Some (take (j - i) (drop i xs)) else None)"

definition splice_at :: "'b list \<Rightarrow> nat \<Rightarrow> 'b list \<Rightarrow> 'b list option" where
  "splice_at xs i ys = (if i + length ys \<le> length xs then Some (take i xs @ ys @ drop (i + length ys) xs) else None)"

definition ptr_copy :: "'b list \<Rightarrow> nat \<Rightarrow> nat \<Rightarrow> nat \<Rightarrow> 'b list option" where
  "ptr_copy xs src dst n = do { ys \<leftarrow> slice_of xs src (src + n); splice_at xs dst ys }"

text \<open>\<open>assume_init\<close> of a slot, of a slice.\<close>

fun assume_init :: "'b option list \<Rightarrow> 'b list option" where
  "assume_init [] = Some []"
| "assume_init (x # xs) = do { y \<leftarrow> x; ys \<leftarrow> assume_init xs; Some (y # ys) }"

definition fifo_init :: "buffer_kind \<Rightarrow> 'a linear_fifo" where
  "fifo_init kind = \<lparr>lf_buf = (case kind of StaticBuffer n \<Rightarrow> replicate n None | DynamicBuffer \<Rightarrow> []),
     lf_head = 0, lf_count = 0\<rparr>"

definition buf_len :: "'a linear_fifo \<Rightarrow> nat" where
  "buf_len f = length (lf_buf f)"

definition capacity :: "'a linear_fifo \<Rightarrow> nat" where
  "capacity f = length (lf_buf f)"

definition reset_head_if_empty :: "'a linear_fifo \<Rightarrow> 'a linear_fifo" where
  "reset_head_if_empty f = (if lf_count f = 0 then f\<lparr>lf_head := 0\<rparr> else f)"

text \<open>An index taken into the ring: a mask when the length is a power of two, \<open>%\<close> otherwise.\<close>

definition wrap_index :: "buffer_kind \<Rightarrow> nat \<Rightarrow> nat \<Rightarrow> nat option" where
  "wrap_index kind len i =
     (if POWERS_OF_TWO kind then Some (usize_and i (usize_sub len 1))
      else if len = 0 then None else Some (i mod len))"

subsection \<open>Realigning and growing\<close>

text \<open>
  The rotation of a wrapped buffer through the scratch of half a page, at most \<open>tmp_len\<close> elements at
  a time: the loop \<open>while self.head != 0\<close>. It does not end when an element is larger than the
  scratch.
\<close>

definition PAGE_SIZE_MIN :: nat where "PAGE_SIZE_MIN = 4096"

partial_function (option) realign_loop :: "nat \<Rightarrow> 'b list \<Rightarrow> nat \<Rightarrow> 'b list option" where
  "realign_loop tmp_len buf head =
     (if head = 0 then Some buf
      else do {
        let n = min head tmp_len;
        let m = length buf - n;
        tmp \<leftarrow> slice_of buf 0 n;
        buf1 \<leftarrow> ptr_copy buf n 0 m;
        buf2 \<leftarrow> splice_at buf1 m tmp;
        realign_loop tmp_len buf2 (head - n)
      })"

definition realign :: "nat \<Rightarrow> 'a linear_fifo \<Rightarrow> 'a linear_fifo option" where
  "realign t_size f =
     (if lf_count f \<le> usize_sub (buf_len f) (lf_head f) then do {
        buf \<leftarrow> ptr_copy (lf_buf f) (lf_head f) 0 (lf_count f);
        Some (f\<lparr>lf_buf := buf, lf_head := 0\<rparr>)
      }
      else if t_size = 0 then None
      else do {
        buf \<leftarrow> realign_loop ((PAGE_SIZE_MIN div 2) div t_size) (lf_buf f) (lf_head f);
        Some (f\<lparr>lf_buf := buf, lf_head := 0\<rparr>)
      })"

text \<open>
  \<open>DynamicBuffer::alloc_swap\<close>: a fresh buffer of uninitialised slots; the allocation panics when its
  size in bytes exceeds \<open>isize::MAX\<close>.
\<close>

definition alloc_new :: "nat \<Rightarrow> nat \<Rightarrow> 'a option list option" where
  "alloc_new t_size n = (if n * t_size < 2 ^ 63 then Some (replicate n None) else None)"

definition ensure_total_capacity ::
  "buffer_kind \<Rightarrow> nat \<Rightarrow> nat \<Rightarrow> 'a linear_fifo \<Rightarrow> (alloc_result \<times> 'a linear_fifo) option" where
  "ensure_total_capacity kind t_size sz f =
     (if sz \<le> buf_len f then Some (AllocOk, f)
      else if DYNAMIC kind then do {
        f1 \<leftarrow> realign t_size f;
        case (if POWERS_OF_TWO kind then checked_next_power_of_two sz else Some sz) of
          None \<Rightarrow> Some (AllocError, f1)
        | Some new_size \<Rightarrow> do {
            let count = lf_count f1;
            fresh \<leftarrow> alloc_new t_size new_size;
            let old = lf_buf f1;
            buf \<leftarrow> (if 0 < count then do { xs \<leftarrow> slice_of old 0 count; splice_at fresh 0 xs } else Some fresh);
            Some (AllocOk, f1\<lparr>lf_buf := buf, lf_head := 0\<rparr>)
          }
      }
      else Some (AllocError, f))"

definition writable_length :: "'a linear_fifo \<Rightarrow> nat" where
  "writable_length f = usize_sub (buf_len f) (lf_count f)"

definition ensure_unused_capacity ::
  "buffer_kind \<Rightarrow> nat \<Rightarrow> nat \<Rightarrow> 'a linear_fifo \<Rightarrow> (alloc_result \<times> 'a linear_fifo) option" where
  "ensure_unused_capacity kind t_size sz f =
     (if sz \<le> writable_length f then Some (AllocOk, f)
      else (case checked_add (lf_count f) sz of
          None \<Rightarrow> Some (AllocError, f)
        | Some tot \<Rightarrow> ensure_total_capacity kind t_size tot f))"

subsection \<open>Reading\<close>

definition readable_length :: "'a linear_fifo \<Rightarrow> nat" where
  "readable_length f = lf_count f"

text \<open>The range of \<open>readable_slice(offset)\<close> and of \<open>readable_slice_mut(offset)\<close>.\<close>

definition readable_range :: "nat \<Rightarrow> 'a linear_fifo \<Rightarrow> nat \<times> nat" where
  "readable_range offset f =
     (if lf_count f < offset then (0, 0)
      else (let start = usize_add (lf_head f) offset in
        if buf_len f \<le> start then
          (let start = usize_sub start (buf_len f) in (start, usize_add start (usize_sub (lf_count f) offset)))
        else (start, min (usize_add (lf_head f) (lf_count f)) (buf_len f))))"

definition readable_slice :: "nat \<Rightarrow> 'a linear_fifo \<Rightarrow> 'a list option" where
  "readable_slice offset f =
     (case readable_range offset f of (i, j) \<Rightarrow> do { xs \<leftarrow> slice_of (lf_buf f) i j; assume_init xs })"

definition discard :: "buffer_kind \<Rightarrow> nat \<Rightarrow> 'a linear_fifo \<Rightarrow> 'a linear_fifo option" where
  "discard kind n f = do {
     head \<leftarrow> wrap_index kind (buf_len f) (usize_add (lf_head f) n);
     Some (f\<lparr>lf_head := head, lf_count := usize_sub (lf_count f) n\<rparr>)
   }"

definition read_item :: "buffer_kind \<Rightarrow> 'a linear_fifo \<Rightarrow> ('a option \<times> 'a linear_fifo) option" where
  "read_item kind f =
     (if lf_count f = 0 then Some (None, f)
      else if lf_head f < buf_len f then do {
        c \<leftarrow> lf_buf f ! lf_head f;
        f' \<leftarrow> discard kind 1 f;
        Some (Some c, f')
      }
      else None)"

text \<open>
  \<open>read\<close>: the loop over the slices; the items copied so far are given in order. The loop reads at
  least one item in each round.
\<close>

function read_loop :: "buffer_kind \<Rightarrow> nat \<Rightarrow> 'a linear_fifo \<Rightarrow> ('a list \<times> 'a linear_fifo) option" where
  "read_loop kind dst_left f =
     (if dst_left = 0 then Some ([], f)
      else do {
        s \<leftarrow> readable_slice 0 f;
        if s = [] then Some ([], f)
        else do {
          let n = min (length s) dst_left;
          f1 \<leftarrow> discard kind n f;
          (ys, f2) \<leftarrow> read_loop kind (dst_left - n) f1;
          Some (take n s @ ys, f2)
        }
      })"
  by pat_completeness auto
termination
  by (relation "measure (\<lambda>(kind, dst_left, f). dst_left)") auto

declare read_loop.simps [simp del]

definition fifo_read :: "buffer_kind \<Rightarrow> 'a list \<Rightarrow> 'a linear_fifo \<Rightarrow> (nat \<times> 'a list \<times> 'a linear_fifo) option" where
  "fifo_read kind dst f = do {
     (ys, f') \<leftarrow> read_loop kind (length dst) f;
     dst' \<leftarrow> splice_at dst 0 ys;
     Some (length ys, dst', f')
   }"

definition peek_item :: "buffer_kind \<Rightarrow> nat \<Rightarrow> 'a linear_fifo \<Rightarrow> 'a option" where
  "peek_item kind offset f = do {
     index \<leftarrow> wrap_index kind (buf_len f) (usize_add (lf_head f) offset);
     if index < buf_len f then lf_buf f ! index else None
   }"

text \<open>A write through the reference that \<open>peek_item_mut\<close> gives.\<close>

definition peek_item_set :: "buffer_kind \<Rightarrow> nat \<Rightarrow> 'a \<Rightarrow> 'a linear_fifo \<Rightarrow> 'a linear_fifo option" where
  "peek_item_set kind offset x f = do {
     index \<leftarrow> wrap_index kind (buf_len f) (usize_add (lf_head f) offset);
     if index < buf_len f then Some (f\<lparr>lf_buf := (lf_buf f)[index := Some x]\<rparr>) else None
   }"

subsection \<open>Writing\<close>

definition writable_range :: "nat \<Rightarrow> 'a linear_fifo \<Rightarrow> nat \<times> nat" where
  "writable_range offset f =
     (if buf_len f < offset then (0, 0)
      else (let writable = usize_sub (buf_len f) (lf_count f);
                tail = usize_add (usize_add (lf_head f) offset) (lf_count f) in
        if tail < buf_len f then (tail, buf_len f)
        else (let start = usize_sub tail (buf_len f) in (start, usize_add start (usize_sub writable offset)))))"

definition update :: "nat \<Rightarrow> 'a linear_fifo \<Rightarrow> 'a linear_fifo" where
  "update n f = f\<lparr>lf_count := usize_add (lf_count f) n\<rparr>"

text \<open>\<open>writable_with_size\<close> gives the start of the slice of \<open>size\<close> slots that may be written.\<close>

definition writable_with_size ::
  "buffer_kind \<Rightarrow> nat \<Rightarrow> nat \<Rightarrow> 'a linear_fifo \<Rightarrow> (nat option \<times> 'a linear_fifo) option" where
  "writable_with_size kind t_size sz f = do {
     (r, f1) \<leftarrow> ensure_unused_capacity kind t_size sz f;
     case r of AllocError \<Rightarrow> Some (None, f1)
     | AllocOk \<Rightarrow> do {
         s1 \<leftarrow> (case writable_range 0 f1 of (i, j) \<Rightarrow> slice_of (lf_buf f1) i j);
         f2 \<leftarrow> (if length s1 < sz then realign t_size f1 else Some f1);
         case writable_range 0 f2 of (i, j) \<Rightarrow> do {
           s2 \<leftarrow> slice_of (lf_buf f2) i j;
           if sz \<le> length s2 then Some (Some i, f2) else None
         }
       }
   }"

partial_function (option) write_assume_capacity :: "'a list \<Rightarrow> 'a linear_fifo \<Rightarrow> 'a linear_fifo option" where
  "write_assume_capacity src f =
     (if src = [] then Some f
      else (case writable_range 0 f of (i, j) \<Rightarrow> do {
        writable \<leftarrow> slice_of (lf_buf f) i j;
        let n = min (length writable) (length src);
        buf \<leftarrow> splice_at (lf_buf f) i (map Some (take n src));
        write_assume_capacity (drop n src) (update n (f\<lparr>lf_buf := buf\<rparr>))
      }))"

definition write_item_assume_capacity :: "buffer_kind \<Rightarrow> 'a \<Rightarrow> 'a linear_fifo \<Rightarrow> 'a linear_fifo option" where
  "write_item_assume_capacity kind item f = do {
     tail \<leftarrow> wrap_index kind (buf_len f) (usize_add (lf_head f) (lf_count f));
     if tail < buf_len f then Some (update 1 (f\<lparr>lf_buf := (lf_buf f)[tail := Some item]\<rparr>)) else None
   }"

definition write_item ::
  "buffer_kind \<Rightarrow> nat \<Rightarrow> 'a \<Rightarrow> 'a linear_fifo \<Rightarrow> (alloc_result \<times> 'a linear_fifo) option" where
  "write_item kind t_size item f = do {
     (r, f1) \<leftarrow> ensure_unused_capacity kind t_size 1 f;
     case r of AllocError \<Rightarrow> Some (AllocError, f1)
     | AllocOk \<Rightarrow> do { f2 \<leftarrow> write_item_assume_capacity kind item f1; Some (AllocOk, f2) }
   }"

definition fifo_write ::
  "buffer_kind \<Rightarrow> nat \<Rightarrow> 'a list \<Rightarrow> 'a linear_fifo \<Rightarrow> (alloc_result \<times> 'a linear_fifo) option" where
  "fifo_write kind t_size src f = do {
     (r, f1) \<leftarrow> ensure_unused_capacity kind t_size (length src) f;
     case r of AllocError \<Rightarrow> Some (AllocError, f1)
     | AllocOk \<Rightarrow> do { f2 \<leftarrow> write_assume_capacity src f1; Some (AllocOk, f2) }
   }"

definition rewind :: "buffer_kind \<Rightarrow> nat \<Rightarrow> 'a linear_fifo \<Rightarrow> 'a linear_fifo option" where
  "rewind kind n f = do {
     head \<leftarrow> wrap_index kind (buf_len f) (usize_add (lf_head f) (usize_sub (buf_len f) n));
     Some (f\<lparr>lf_head := head, lf_count := usize_add (lf_count f) n\<rparr>)
   }"

definition unget ::
  "buffer_kind \<Rightarrow> nat \<Rightarrow> 'a list \<Rightarrow> 'a linear_fifo \<Rightarrow> (alloc_result \<times> 'a linear_fifo) option" where
  "unget kind t_size src f = do {
     (r, f1) \<leftarrow> ensure_unused_capacity kind t_size (length src) f;
     case r of AllocError \<Rightarrow> Some (AllocError, f1)
     | AllocOk \<Rightarrow> do {
         f2 \<leftarrow> rewind kind (length src) f1;
         case readable_range 0 f2 of (i, j) \<Rightarrow> do {
           s \<leftarrow> slice_of (lf_buf f2) i j;
           let n = min (length s) (length src);
           buf1 \<leftarrow> splice_at (lf_buf f2) i (map Some (take n src));
           let f3 = f2\<lparr>lf_buf := buf1\<rparr>;
           if length s < length src then
             (case readable_range (length s) f3 of (i2, j2) \<Rightarrow> do {
                s2 \<leftarrow> slice_of (lf_buf f3) i2 j2;
                s2' \<leftarrow> splice_at s2 0 (map Some (drop (length s) src));
                buf2 \<leftarrow> splice_at buf1 i2 s2';
                Some (AllocOk, f3\<lparr>lf_buf := buf2\<rparr>)
              })
           else Some (AllocOk, f3)
         }
       }
   }"

subsection \<open>Removing an item\<close>

text \<open>\<open>shift_down_one(&mut buf[i..j])\<close>.\<close>

definition shift_down_one :: "'b list \<Rightarrow> nat \<Rightarrow> nat \<Rightarrow> 'b list option" where
  "shift_down_one buf i j = do {
     s \<leftarrow> slice_of buf i j;
     s' \<leftarrow> (if 1 < length s then ptr_copy s 1 0 (length s - 1) else Some s);
     splice_at buf i s'
   }"

definition ordered_remove_item :: "buffer_kind \<Rightarrow> nat \<Rightarrow> 'a linear_fifo \<Rightarrow> 'a linear_fifo option" where
  "ordered_remove_item kind offset f =
     (if offset = 0 then discard kind 1 f
      else do {
        let head = lf_head f;
        let count = lf_count f;
        buf \<leftarrow> (if count \<le> usize_sub (buf_len f) head
                then shift_down_one (lf_buf f) (usize_add head offset) (buf_len f)
                else do {
                  index \<leftarrow> wrap_index kind (buf_len f) (usize_add head offset);
                  let wrap_len = usize_sub (usize_add head count) (buf_len f);
                  if index < head then shift_down_one (lf_buf f) index wrap_len
                  else do {
                    wrap \<leftarrow> (if lf_buf f = [] then None else Some (lf_buf f ! 0));
                    buf1 \<leftarrow> shift_down_one (lf_buf f) index (buf_len f);
                    let buf2 = buf1[buf_len f - 1 := wrap];
                    shift_down_one buf2 0 wrap_len
                  }
                });
        Some (f\<lparr>lf_buf := buf, lf_count := usize_sub count 1\<rparr>)
      })"

subsection \<open>Reader and writer adapters\<close>

definition io_read :: "buffer_kind \<Rightarrow> bytes \<Rightarrow> u8 linear_fifo \<Rightarrow> (nat \<times> bytes \<times> u8 linear_fifo) option" where
  "io_read kind dst f = fifo_read kind dst f"

text \<open>\<open>std::io::Write::write\<close>: \<open>None\<close> is the \<open>OutOfMemory\<close> error.\<close>

definition io_write :: "buffer_kind \<Rightarrow> bytes \<Rightarrow> u8 linear_fifo \<Rightarrow> (nat option \<times> u8 linear_fifo) option" where
  "io_write kind src f = do {
     let src' = (if DYNAMIC kind then src else take (min (length src) (writable_length f)) src);
     (r, f') \<leftarrow> fifo_write kind 1 src' f;
     Some (case r of AllocOk \<Rightarrow> Some (length src') | AllocError \<Rightarrow> None, f')
   }"

definition write_str :: "buffer_kind \<Rightarrow> bytes \<Rightarrow> u8 linear_fifo \<Rightarrow> (alloc_result \<times> u8 linear_fifo) option" where
  "write_str kind s f = fifo_write kind 1 s f"


subsection \<open>Arithmetic below the wrap\<close>

lemma usize_add_small [simp]: "a + b < 2 ^ 64 \<Longrightarrow> usize_add a b = a + b"
  by (simp add: usize_add_def)

lemma usize_sub_small [simp]: "b \<le> a \<Longrightarrow> a < 2 ^ 64 \<Longrightarrow> usize_sub a b = a - b"
proof -
  assume a: "b \<le> a" "a < 2 ^ 64"
  then have "a + (2 ^ 64 - b) = (a - b) + 2 ^ 64" by simp
  then show ?thesis using a unfolding usize_sub_def by (simp only: mod_add_self2) simp
qed

lemma is_power_of_two_iff: "is_power_of_two n \<longleftrightarrow> (\<exists>k<64. n = 2 ^ k)"
  by (auto simp: is_power_of_two_def list_ex_iff)

lemma usize_and_mask: "usize_and i (2 ^ k - 1) = i mod 2 ^ k"
  by (metis mask_eq_exp_minus_1 take_bit_eq_mask take_bit_eq_mod usize_and_def)

text \<open>The shape of a buffer that the constructors and the growth produce for a kind.\<close>

definition kind_len :: "buffer_kind \<Rightarrow> nat \<Rightarrow> bool" where
  "kind_len kind n \<longleftrightarrow> n < 2 ^ 63 \<and>
     (case kind of StaticBuffer m \<Rightarrow> n = m \<and> 0 < m | DynamicBuffer \<Rightarrow> n = 0 \<or> is_power_of_two n)"

lemma wrap_index_mod:
  assumes "kind_len kind n" "0 < n"
  shows "wrap_index kind n i = Some (i mod n)"
proof (cases "POWERS_OF_TWO kind")
  case True
  then obtain k where "n = 2 ^ k" using assms
    by (cases kind) (auto simp: kind_len_def is_power_of_two_iff)
  moreover have "usize_sub n 1 = n - 1" using assms by (simp add: kind_len_def)
  ultimately show ?thesis using True usize_and_mask [of i k] by (simp add: wrap_index_def)
qed (use assms in \<open>simp add: wrap_index_def\<close>)

lemma wrap_index_empty:
  assumes "kind_len kind 0" "i < 2 ^ 64"
  shows "wrap_index kind 0 i = Some i"
proof -
  have "usize_sub 0 1 = 2 ^ 64 - 1" by (simp add: usize_sub_def)
  then show ?thesis using assms usize_and_mask [of i 64]
    by (cases kind) (simp_all add: kind_len_def wrap_index_def)
qed

subsection \<open>Layout of the items in the ring\<close>

lemma map_take_drop [simp]:
  "map g (take n xs) @ map g (drop n xs) = map g xs" "map g (take n xs) @ map g (drop n xs) @ r = map g xs @ r"
  by (metis append_take_drop_id map_append) (metis append.assoc append_take_drop_id map_append)

text \<open>
  The items stand in one run, or in a run up to the end of the buffer and a run at its start.
\<close>

definition flat :: "'a option list \<Rightarrow> nat \<Rightarrow> 'a list \<Rightarrow> bool" where
  "flat buf head xs \<longleftrightarrow> (\<exists>p r. buf = p @ map Some xs @ r \<and> head = length p)"

definition wrapped :: "'a option list \<Rightarrow> nat \<Rightarrow> 'a list \<Rightarrow> bool" where
  "wrapped buf head xs \<longleftrightarrow> (\<exists>ys q zs. buf = map Some ys @ q @ map Some zs \<and> xs = zs @ ys \<and>
     ys \<noteq> [] \<and> zs \<noteq> [] \<and> head = length ys + length q)"

definition fifo_holds :: "buffer_kind \<Rightarrow> 'a linear_fifo \<Rightarrow> 'a list \<Rightarrow> bool" where
  "fifo_holds kind f xs \<longleftrightarrow> kind_len kind (buf_len f) \<and> (lf_head f < buf_len f \<or> lf_head f = 0) \<and>
     lf_count f = length xs \<and> (flat (lf_buf f) (lf_head f) xs \<or> wrapped (lf_buf f) (lf_head f) xs)"

lemma fifo_bounds:
  assumes "fifo_holds kind f xs"
  shows "lf_count f = length xs" "length xs \<le> buf_len f" "buf_len f < 2 ^ 63" "lf_head f \<le> buf_len f"
  using assms by (auto simp: fifo_holds_def flat_def wrapped_def buf_len_def kind_len_def)

lemma flat_iff:
  assumes "fifo_holds kind f xs"
  shows "flat (lf_buf f) (lf_head f) xs \<longleftrightarrow> lf_head f + length xs \<le> buf_len f"
  using assms by (fastforce simp: fifo_holds_def flat_def wrapped_def buf_len_def)

lemma fifo_cases [consumes 1, case_names flat wrapped]:
  assumes "fifo_holds kind f xs"
  obtains (flat) p r where "lf_buf f = p @ map Some xs @ r" "lf_head f = length p"
      "lf_head f + length xs \<le> buf_len f"
  | (wrapped) ys q zs where "lf_buf f = map Some ys @ q @ map Some zs" "xs = zs @ ys" "ys \<noteq> []" "zs \<noteq> []"
      "lf_head f = length ys + length q" "\<not> lf_head f + length xs \<le> buf_len f"
proof (cases "lf_head f + length xs \<le> buf_len f")
  case True
  then show ?thesis using flat_iff [OF assms] flat by (auto simp: flat_def)
next
  case False
  then have "wrapped (lf_buf f) (lf_head f) xs" using assms flat_iff [OF assms] by (auto simp: fifo_holds_def)
  then show ?thesis using False wrapped by (auto simp: wrapped_def)
qed

lemma fifo_holds_flatI:
  "kind_len kind (length buf) \<Longrightarrow> buf = p @ map Some xs @ r \<Longrightarrow> p = [] \<or> xs @ map the r \<noteq> [] \<Longrightarrow>
   fifo_holds kind \<lparr>lf_buf = buf, lf_head = length p, lf_count = length xs\<rparr> xs"
  by (auto simp: fifo_holds_def flat_def buf_len_def)

lemma fifo_holds_wrappedI:
  "kind_len kind (length buf) \<Longrightarrow> buf = map Some ys @ q @ map Some zs \<Longrightarrow> zs \<noteq> [] \<Longrightarrow>
   fifo_holds kind \<lparr>lf_buf = buf, lf_head = length ys + length q, lf_count = length zs + length ys\<rparr> (zs @ ys)"
proof (cases "ys = []")
  case True
  moreover assume "kind_len kind (length buf)" "buf = map Some ys @ q @ map Some zs" "zs \<noteq> []"
  ultimately show ?thesis using fifo_holds_flatI [of kind buf q zs "[]"] by simp
qed (auto simp: fifo_holds_def wrapped_def buf_len_def)

lemma fifo_eta: "f = \<lparr>lf_buf = lf_buf f, lf_head = lf_head f, lf_count = lf_count f\<rparr>"
  by (cases f) simp

lemma fifo_kind_len: "fifo_holds kind f xs \<Longrightarrow> kind_len kind (length (lf_buf f))"
  by (simp add: fifo_holds_def buf_len_def)

subsection \<open>Constructors and reading\<close>

lemma fifo_init_holds: "case kind of StaticBuffer n \<Rightarrow> 0 < n \<and> n < 2 ^ 63 | DynamicBuffer \<Rightarrow> True \<Longrightarrow>
   fifo_holds kind (fifo_init kind) []"
  by (auto simp: fifo_holds_def fifo_init_def flat_def buf_len_def kind_len_def split: buffer_kind.splits)

lemma reset_head_holds: "fifo_holds kind f xs \<Longrightarrow> fifo_holds kind (reset_head_if_empty f) xs"
  by (auto simp: reset_head_if_empty_def fifo_holds_def flat_def wrapped_def buf_len_def)

lemma discard_holds:
  assumes "fifo_holds kind f xs" "n \<le> length xs"
  shows "\<exists>f'. discard kind n f = Some f' \<and> fifo_holds kind f' (drop n xs) \<and> lf_buf f' = lf_buf f"
proof -
  note b = fifo_bounds [OF assms(1)] and kl = fifo_kind_len [OF assms(1)]
  have idx: "wrap_index kind (buf_len f) (usize_add (lf_head f) n) =
      Some (if buf_len f = 0 then 0 else (lf_head f + n) mod buf_len f)"
    using b assms kl wrap_index_mod [of kind "buf_len f"] wrap_index_empty [of kind 0]
    by (auto simp: fifo_holds_def buf_len_def)
  define h where "h = (if buf_len f = 0 then 0 else (lf_head f + n) mod buf_len f)"
  have d: "discard kind n f = Some \<lparr>lf_buf = lf_buf f, lf_head = h, lf_count = length (drop n xs)\<rparr>"
    using idx b assms(2) by (cases f) (simp add: discard_def h_def)
  have "fifo_holds kind \<lparr>lf_buf = lf_buf f, lf_head = h, lf_count = length (drop n xs)\<rparr> (drop n xs)"
    using assms(1)
  proof (cases rule: fifo_cases)
    case (flat p r)
    show ?thesis
    proof (cases "lf_head f + n < buf_len f")
      case True
      then have h: "h = length (p @ map Some (take n xs))" using flat assms(2) by (auto simp: h_def)
      have e: "lf_buf f = (p @ map Some (take n xs)) @ map Some (drop n xs) @ r"
        using flat(1) by simp
      have "drop n xs @ map the r \<noteq> []" using True flat assms(2) by (auto simp: buf_len_def)
      then show ?thesis using fifo_holds_flatI [OF kl e] unfolding h by blast
    next
      case False
      then have "lf_head f + n = buf_len f" using flat assms(2) by simp
      then have "drop n xs = []" "h = 0" using flat assms(2) by (simp_all add: h_def)
      then show ?thesis using fifo_holds_flatI [OF kl, of "[]" "[]"] by simp
    qed
  next
    case (wrapped ys q zs)
    show ?thesis
    proof (cases "n < length zs")
      case True
      then have h: "h = length ys + length (q @ map Some (take n zs))" using wrapped by (auto simp: h_def buf_len_def)
      show ?thesis
        unfolding h using wrapped kl True
          fifo_holds_wrappedI [of kind "lf_buf f" ys "q @ map Some (take n zs)" "drop n zs"]
        by simp
    next
      case False
      have l: "lf_head f + n = (n - length zs) + buf_len f" using wrapped False by (simp add: buf_len_def)
      have "0 < length zs" using wrapped by simp
      moreover have "buf_len f = length ys + length q + length zs" "n \<le> length zs + length ys"
        using assms(2) wrapped(1,2) by (simp_all add: buf_len_def)
      ultimately have "n - length zs < buf_len f" by linarith
      then have "h = n - length zs" unfolding h_def l by simp
      then have h: "h = length (map Some (take (n - length zs) ys))"
        using assms(2) wrapped False by simp
      show ?thesis
        unfolding h using wrapped kl False 
          fifo_holds_flatI [of kind "lf_buf f" "map Some (take (n - length zs) ys)" "drop n xs" "q @ map Some zs"]
        by simp
    qed
  qed
  then show ?thesis using d by simp
qed

lemma assume_init_map [simp]: "assume_init (map Some xs) = Some xs"
  by (induction xs) simp_all

lemma slice_of_mid [simp]: "i = length p \<Longrightarrow> j = length p + length m \<Longrightarrow> slice_of (p @ m @ r) i j = Some m"
  by (simp add: slice_of_def)

text \<open>What \<open>readable_slice(offset)\<close> shows: the items from \<open>offset\<close> on, as far as the run reaches.\<close>

definition run_from :: "'a linear_fifo \<Rightarrow> nat \<Rightarrow> 'a list \<Rightarrow> 'a list" where
  "run_from f offset xs =
     (if lf_head f + offset < buf_len f then take (buf_len f - lf_head f - offset) (drop offset xs)
      else drop offset xs)"

lemma readable_range_ok:
  assumes "fifo_holds kind f xs" "offset \<le> length xs"
  shows "\<exists>i j. readable_range offset f = (i, j) \<and> i \<le> j \<and> j \<le> buf_len f \<and>
    slice_of (lf_buf f) i j = Some (map Some (run_from f offset xs)) \<and> j - i = length (run_from f offset xs) \<and>
    (i + (j - i) = buf_len f \<or> run_from f offset xs = drop offset xs) \<and>
    i = (if lf_head f + offset < buf_len f then lf_head f + offset else lf_head f + offset - buf_len f)"
proof -
  note b = fifo_bounds [OF assms(1)]
  show ?thesis using assms(1)
  proof (cases rule: fifo_cases)
    case (flat p r)
    have e: "lf_buf f = (p @ map Some (take offset xs)) @ map Some (drop offset xs) @ r" using flat(1) by simp
    show ?thesis
    proof (cases "lf_head f + offset < buf_len f")
      case True
      then have "readable_range offset f = (lf_head f + offset, lf_head f + length xs)"
        using flat b assms(2) by (simp add: readable_range_def)
      moreover have "run_from f offset xs = drop offset xs"
        using True flat by (simp add: run_from_def)
      moreover have "slice_of (lf_buf f) (lf_head f + offset) (lf_head f + length xs) = Some (map Some (drop offset xs))"
        unfolding e using flat assms(2) by (intro slice_of_mid) simp_all
      ultimately show ?thesis using flat b assms True by simp
    next
      case False
      then have "readable_range offset f = (lf_head f + offset - buf_len f, lf_head f + offset - buf_len f + (length xs - offset))"
        using flat b assms(2) by (simp add: readable_range_def)
      moreover have "drop offset xs = []" "offset = length xs" using False flat assms(2) by simp_all
      ultimately show ?thesis using flat b False by (simp add: run_from_def slice_of_def)
    qed
  next
    case (wrapped ys q zs)
    show ?thesis
    proof (cases "lf_head f + offset < buf_len f")
      case True
      then have o: "offset < length zs" using wrapped by (simp add: buf_len_def)
      have e: "lf_buf f = (map Some ys @ q @ map Some (take offset zs)) @ map Some (drop offset zs) @ []"
        using wrapped(1) by simp
      have "readable_range offset f = (lf_head f + offset, buf_len f)"
        using wrapped b assms(2) True by (simp add: readable_range_def)
      moreover have "run_from f offset xs = drop offset zs"
        using True wrapped o by (simp add: run_from_def buf_len_def)
      moreover have "slice_of (lf_buf f) (lf_head f + offset) (buf_len f) = Some (map Some (drop offset zs))"
        unfolding e using wrapped o by (intro slice_of_mid) (simp_all add: buf_len_def)
      ultimately show ?thesis using wrapped b o True by (simp add: buf_len_def)
    next
      case False
      then have o: "length zs \<le> offset" using wrapped by (simp add: buf_len_def)
      define k where "k = offset - length zs"
      have e: "lf_buf f = map Some (take k ys) @ map Some (drop k ys) @ q @ map Some zs" using wrapped(1) by simp
      have k: "lf_head f + offset = k + buf_len f" "k \<le> length ys" "length xs - offset = length ys - k"
        using wrapped o assms(2) by (simp_all add: buf_len_def k_def)
      have "readable_range offset f = (k, length ys)"
        using k b assms(2) False wrapped(2) by (simp add: readable_range_def)
      moreover have "run_from f offset xs = drop k ys"
        using False wrapped o by (simp add: run_from_def k_def)
      moreover have "slice_of (lf_buf f) k (length ys) = Some (map Some (drop k ys))"
        unfolding e using k by (intro slice_of_mid) simp_all
      ultimately show ?thesis using wrapped b o False k by (simp add: buf_len_def k_def)
    qed
  qed
qed

lemma readable_slice_ok:
  "fifo_holds kind f xs \<Longrightarrow> offset \<le> length xs \<Longrightarrow> readable_slice offset f = Some (run_from f offset xs)"
  using readable_range_ok [of kind f xs offset] by (auto simp: readable_slice_def)

lemma run_from_prefix:
  assumes "fifo_holds kind f xs"
  obtains n where "run_from f 0 xs = take n xs" "n \<le> length xs" "n = 0 \<longleftrightarrow> xs = []"
proof (cases "lf_head f < buf_len f")
  case True
  then show ?thesis
    by (intro that [of "min (length xs) (buf_len f - lf_head f)"]) (auto simp: run_from_def min_def)
next
  case False
  then have "xs = []" using assms by (auto simp: fifo_holds_def flat_def wrapped_def buf_len_def)
  then show ?thesis using that [of 0] by (simp add: run_from_def)
qed

lemma read_loop_holds:
  "fifo_holds kind f xs \<Longrightarrow>
   \<exists>f'. read_loop kind n f = Some (take n xs, f') \<and> fifo_holds kind f' (drop n xs)"
proof (induction kind n f arbitrary: xs rule: read_loop.induct)
  case (1 kind n f)
  obtain k where k: "run_from f 0 xs = take k xs" "k \<le> length xs" "k = 0 \<longleftrightarrow> xs = []"
    using run_from_prefix [OF "1.prems"] .
  have s: "readable_slice 0 f = Some (take k xs)" using readable_slice_ok [OF "1.prems", of 0] k by simp
  show ?case
  proof (cases "n = 0 \<or> xs = []")
    case True
    then show ?thesis using s k "1.prems" by (auto simp: read_loop.simps)
  next
    case False
    define m where "m = min (length (take k xs)) n"
    have m: "m \<le> k" "m \<le> length xs" "m \<le> n" "m \<noteq> 0" using k False by (auto simp: m_def)
    obtain f1 where f1: "discard kind m f = Some f1" "fifo_holds kind f1 (drop m xs)"
      using discard_holds [OF "1.prems" m(2)] by blast
    obtain f2 where f2: "read_loop kind (n - m) f1 = Some (take (n - m) (drop m xs), f2)"
        "fifo_holds kind f2 (drop (n - m) (drop m xs))"
      using "1.IH" [OF _ s _ m_def f1] False k by auto
    have "take m (take k xs) @ take (n - m) (drop m xs) = take n xs"
      using m by (metis le_add_diff_inverse min.absorb1 take_add take_take)
    then have "read_loop kind n f = Some (take n xs, f2)"
      unfolding read_loop.simps [of kind n f] s bind.bind_lunit Let_def m_def [symmetric]
      using False f1 f2(1) k by simp
    then show ?thesis using f2(2) m by simp
  qed
qed

lemma fifo_nth:
  assumes "fifo_holds kind f xs" "i < length xs"
  shows "0 < buf_len f \<and> lf_buf f ! ((lf_head f + i) mod buf_len f) = Some (xs ! i)"
  using assms(1)
proof (cases rule: fifo_cases)
  case (flat p r)
  then show ?thesis using assms(2) by (auto simp: buf_len_def nth_append)
next
  case (wrapped ys q zs)
  show ?thesis
  proof (cases "i < length zs")
    case True
    then show ?thesis using wrapped assms(2) by (auto simp: buf_len_def nth_append)
  next
    case False
    have "0 < length ys" using wrapped by simp
    moreover have "lf_head f + i = (i - length zs) + buf_len f" and l: "i - length zs < length ys"
      using wrapped False assms(2) by (simp_all add: buf_len_def)
    moreover have "i - length zs < buf_len f" using calculation wrapped(1) by (simp add: buf_len_def)
    ultimately have "(lf_head f + i) mod buf_len f = i - length zs" "0 < buf_len f" by simp_all
    then show ?thesis using wrapped(1,2) assms(2) False l by (simp add: nth_append)
  qed
qed

lemma fifo_index:
  assumes "fifo_holds kind f xs" "i \<le> length xs" "0 < buf_len f"
  shows "wrap_index kind (buf_len f) (usize_add (lf_head f) i) = Some ((lf_head f + i) mod buf_len f)"
  using wrap_index_mod [of kind "buf_len f"] fifo_bounds [OF assms(1)] assms by (simp add: fifo_holds_def)

lemma peek_item_ok: "fifo_holds kind f xs \<Longrightarrow> i < length xs \<Longrightarrow> peek_item kind i f = Some (xs ! i)"
  using fifo_index [of kind f xs i] fifo_nth [of kind f xs i] by (simp add: peek_item_def)

lemma read_item_holds:
  assumes "fifo_holds kind f xs"
  shows "\<exists>f'. read_item kind f = Some (case xs of [] \<Rightarrow> None | x # _ \<Rightarrow> Some x, f') \<and> fifo_holds kind f' (drop 1 xs)"
proof (cases xs)
  case Nil
  then show ?thesis using assms fifo_bounds [OF assms] by (simp add: read_item_def)
next
  case (Cons x ys)
  then have h: "lf_head f < buf_len f" "lf_buf f ! lf_head f = Some x"
    using fifo_nth [OF assms, of 0] assms by (auto simp: fifo_holds_def)
  obtain f' where "discard kind 1 f = Some f'" "fifo_holds kind f' (drop 1 xs)"
    using discard_holds [OF assms, of 1] Cons by auto
  then show ?thesis using h Cons fifo_bounds [OF assms] by (simp add: read_item_def)
qed


subsection \<open>Realigning and growing\<close>

lemma splice_mid [simp]:
  "i = length p \<Longrightarrow> length m' = length m \<Longrightarrow> splice_at (p @ m @ r) i m' = Some (p @ m' @ r)"
  by (simp add: splice_at_def)

lemma splice_mid0 [simp]: "length m' = length m \<Longrightarrow> splice_at (m @ r) 0 m' = Some (m' @ r)"
  using splice_mid [of 0 "[]" m' m r] by simp

lemma realign_step:
  assumes "n \<le> length buf"
  shows "slice_of buf 0 n = Some (take n buf)"
    "\<exists>buf1. ptr_copy buf n 0 (length buf - n) = Some buf1 \<and> splice_at buf1 (length buf - n) (take n buf) = Some (rotate n buf)"
proof -
  show "slice_of buf 0 n = Some (take n buf)" using assms by (simp add: slice_of_def)
  have r: "rotate n buf = drop n buf @ take n buf"
    using rotate_append [of "take n buf" "drop n buf"] assms by simp
  show "\<exists>buf1. ptr_copy buf n 0 (length buf - n) = Some buf1 \<and> splice_at buf1 (length buf - n) (take n buf) = Some (rotate n buf)"
    using assms unfolding r by (simp add: ptr_copy_def slice_of_def splice_at_def)
qed

lemma realign_loop_rotates:
  assumes "0 < tmp_len" "head \<le> length buf"
  shows "realign_loop tmp_len buf head = Some (rotate head buf)"
  using assms(2)
proof (induction head arbitrary: buf rule: less_induct)
  case (less head)
  show ?case
  proof (cases "head = 0")
    case True
    then show ?thesis by (simp add: realign_loop.simps)
  next
    case False
    define n where "n = min head tmp_len"
    have n: "n \<le> length buf" "head - n < head" "n \<le> head" using False assms(1) less.prems by (auto simp: n_def)
    obtain buf1 where "ptr_copy buf n 0 (length buf - n) = Some buf1"
        "splice_at buf1 (length buf - n) (take n buf) = Some (rotate n buf)"
      using realign_step(2) [OF n(1)] by blast
    moreover have "realign_loop tmp_len (rotate n buf) (head - n) = Some (rotate head buf)"
      using less.IH [OF n(2), of "rotate n buf"] less.prems n by (simp add: rotate_rotate)
    ultimately show ?thesis
      using False realign_step(1) [OF n(1)] by (simp add: realign_loop.simps [of tmp_len buf head] n_def [symmetric])
  qed
qed

lemma realign_ok:
  assumes "fifo_holds kind f xs" "0 < t" "t \<le> 2048"
  shows "\<exists>r. realign t f = Some \<lparr>lf_buf = map Some xs @ r, lf_head = 0, lf_count = length xs\<rparr> \<and>
     length xs + length r = buf_len f"
proof -
  note b = fifo_bounds [OF assms(1)]
  have sub: "usize_sub (buf_len f) (lf_head f) = buf_len f - lf_head f" using b by simp
  show ?thesis using assms(1)
  proof (cases rule: fifo_cases)
    case (flat p r)
    have "ptr_copy (lf_buf f) (lf_head f) 0 (length xs) =
        Some (map Some xs @ drop (length xs) (p @ map Some xs @ r))"
      using flat by (simp add: ptr_copy_def splice_at_def)
    moreover have "length xs \<le> buf_len f - lf_head f" using flat by simp
    ultimately show ?thesis
      using flat b sub by (cases f) (auto simp: realign_def buf_len_def intro!: exI [of _ "drop (length xs) (p @ map Some xs @ r)"])
  next
    case (wrapped ys q zs)
    have "rotate (lf_head f) (lf_buf f) = map Some xs @ q"
      using rotate_append [of "map Some ys @ q" "map Some zs"] wrapped by simp
    moreover have "0 < PAGE_SIZE_MIN div 2 div t"
      using assms by (simp add: PAGE_SIZE_MIN_def div_greater_zero_iff)
    ultimately have "realign_loop (PAGE_SIZE_MIN div 2 div t) (lf_buf f) (lf_head f) = Some (map Some xs @ q)"
      using realign_loop_rotates [of "PAGE_SIZE_MIN div 2 div t" "lf_head f" "lf_buf f"] b by (simp add: buf_len_def)
    then show ?thesis
      using wrapped b sub assms by (cases f) (auto simp: realign_def buf_len_def)
  qed
qed

lemma next_pow2_from_Some:
  "next_pow2_from fuel (2 ^ k) n = Some m \<longleftrightarrow>
   (\<exists>j. k \<le> j \<and> j < k + fuel \<and> m = 2 ^ j \<and> n \<le> 2 ^ j \<and> (j = k \<or> 2 ^ j < 2 * n))"
proof (induction fuel arbitrary: k)
  case (Suc fuel)
  show ?case
  proof (cases "n \<le> 2 ^ k")
    case True
    have "j = k" if "k \<le> j" "j = k \<or> 2 ^ j < 2 * n" for j
    proof (rule ccontr)
      assume "j \<noteq> k"
      then have "2 ^ Suc k \<le> (2 :: nat) ^ j" using that by (intro power_increasing) auto
      then show False using that \<open>j \<noteq> k\<close> True by simp
    qed
    then show ?thesis using True by auto
  next
    case False
    have "2 ^ Suc k < 2 * n" using False by simp
    then show ?thesis
      using False Suc.IH [of "Suc k"] by (auto simp: le_less Suc_le_eq)
  qed
qed simp

lemma next_power_of_two:
  assumes "0 < n" "n \<le> 2 ^ 63"
  obtains k where "k < 64" "checked_next_power_of_two n = Some (2 ^ k)" "n \<le> 2 ^ k" "2 ^ k < 2 * n"
proof -
  define k where "k = (LEAST k. n \<le> 2 ^ k)"
  have k: "n \<le> 2 ^ k" "\<And>j. j < k \<Longrightarrow> \<not> n \<le> 2 ^ j"
    unfolding k_def using assms(2) LeastI [of "\<lambda>k. n \<le> 2 ^ k" 63] by (auto dest: not_less_Least)
  have "k < 64" unfolding k_def using assms(2) by (intro le_less_trans [OF Least_le [of _ 63]]) simp_all
  moreover have lt: "2 ^ k < 2 * n"
  proof (cases k)
    case (Suc j)
    then show ?thesis using k(2) [of j] by simp
  qed (use assms in simp)
  moreover have "checked_next_power_of_two n = Some (2 ^ k)"
    unfolding checked_next_power_of_two_def
    using next_pow2_from_Some [of 64 0 n "2 ^ k"] k lt \<open>k < 64\<close> by auto
  ultimately show ?thesis using that k by blast
qed

lemma next_power_of_two_None: "2 ^ 63 < n \<Longrightarrow> checked_next_power_of_two n = None"
proof (rule ccontr)
  assume n: "2 ^ 63 < n" and "checked_next_power_of_two n \<noteq> None"
  then obtain j where "j < 64" "n \<le> 2 ^ j"
    using next_pow2_from_Some [of 64 0 n] by (auto simp: checked_next_power_of_two_def)
  moreover have "(2 :: nat) ^ j \<le> 2 ^ 63" using calculation by (intro power_increasing) auto
  ultimately show False using n by linarith
qed

text \<open>Room for \<open>n\<close> items: the fixed capacity, or a size the allocator accepts after doubling.\<close>

definition room :: "buffer_kind \<Rightarrow> nat \<Rightarrow> nat \<Rightarrow> bool" where
  "room kind t n \<longleftrightarrow> (case kind of StaticBuffer m \<Rightarrow> n \<le> m | DynamicBuffer \<Rightarrow> 2 * n * t < 2 ^ 63)"

lemma ensure_unused_ok:
  fixes f :: "'a linear_fifo"
  assumes "fifo_holds kind f xs" and t: "0 < t" "t \<le> 2048" and room: "room kind t (length xs + n)"
  shows "\<exists>f'. ensure_unused_capacity kind t n f = Some (AllocOk, f') \<and> fifo_holds kind f' xs \<and>
     length xs + n \<le> buf_len f'"
proof -
  note b = fifo_bounds [OF assms(1)]
  have wl: "writable_length f = buf_len f - length xs" using b by (simp add: writable_length_def)
  show ?thesis
  proof (cases "length xs + n \<le> buf_len f")
    case True
    then have "n \<le> writable_length f" using wl by simp
    then show ?thesis using True assms(1) by (simp add: ensure_unused_capacity_def)
  next
    case False
    then have kind: "kind = DynamicBuffer"
      using assms(1) room by (cases kind) (auto simp: fifo_holds_def kind_len_def room_def)
    define m where "m = length xs + n"
    have m: "0 < m" "2 * m * t < 2 ^ 63" using False room by (auto simp: kind room_def m_def)
    have "2 * m * 1 \<le> 2 * m * t" using t by (intro mult_le_mono2) simp
    then have m63: "2 * m < 2 ^ 63" using m by linarith
    obtain k where k: "k < 64" "checked_next_power_of_two m = Some (2 ^ k)" "m \<le> 2 ^ k" "2 ^ k < 2 * m"
      using next_power_of_two [of m] m m63 by auto
    have "2 ^ k * t \<le> 2 * m * t" using k by (intro mult_le_mono1) simp
    then have "2 ^ k * t < 2 ^ 63" using m(2) by linarith
    then have al: "alloc_new t (2 ^ k) = Some (replicate (2 ^ k) (None :: 'a option))" unfolding alloc_new_def by (simp only: if_True)
    obtain r where r: "realign t f = Some \<lparr>lf_buf = map Some xs @ r, lf_head = 0, lf_count = length xs\<rparr>"
      using realign_ok [OF assms(1) t] by blast
    define f' where "f' = \<lparr>lf_buf = map Some xs @ replicate (2 ^ k - length xs) None, lf_head = 0, lf_count = length xs\<rparr>"
    have xs: "length xs \<le> 2 ^ k" using k by (simp add: m_def)
    have "splice_at (replicate (2 ^ k) None) 0 (map Some xs) = Some (lf_buf f')"
      using xs by (simp add: splice_at_def f'_def)
    moreover have "replicate (2 ^ k) None = lf_buf f'" if "xs = []" using that by (simp add: f'_def)
    moreover have "slice_of (map Some xs @ r) 0 (length xs) = Some (map Some xs)" by (simp add: slice_of_def)
    ultimately have "ensure_total_capacity kind t m f = Some (AllocOk, f')"
      using False kind r k al xs by (auto simp: ensure_total_capacity_def m_def f'_def Let_def)
    moreover have "checked_add (length xs) n = Some m" using m63 by (simp add: checked_add_def m_def)
    ultimately have "ensure_unused_capacity kind t n f = Some (AllocOk, f')"
      using False wl b by (simp add: ensure_unused_capacity_def)
    moreover have "kind_len kind (2 ^ k)" using k m63 by (auto simp: kind kind_len_def is_power_of_two_iff)
    then have "fifo_holds kind f' xs"
      using xs fifo_holds_flatI [of kind "lf_buf f'" "[]" xs] by (simp add: f'_def)
    moreover have "length xs + n \<le> buf_len f'" using k xs by (simp add: f'_def m_def buf_len_def)
    ultimately show ?thesis by blast
  qed
qed

lemma ensure_unused_full:
  assumes "fifo_holds (StaticBuffer m) f xs" "m < length xs + n"
  shows "ensure_unused_capacity (StaticBuffer m) t n f = Some (AllocError, f)"
proof -
  have "writable_length f = m - length xs" "buf_len f = m"
    using fifo_bounds [OF assms(1)] assms(1) by (simp_all add: writable_length_def fifo_holds_def kind_len_def)
  then show ?thesis
    using assms(2) fifo_bounds [OF assms(1)]
    by (auto simp: ensure_unused_capacity_def ensure_total_capacity_def checked_add_def)
qed

subsection \<open>Writing\<close>

lemma list_update_splice: "i < length xs \<Longrightarrow> splice_at xs i [x] = Some (xs[i := x])"
  by (simp add: splice_at_def upd_conv_take_nth_drop)

text \<open>The first writable run: not empty while there is room, and what filling its start gives.\<close>

lemma writable_ok:
  assumes "fifo_holds kind f xs"
  shows "\<exists>i j. writable_range 0 f = (i, j) \<and> i \<le> j \<and> j \<le> buf_len f \<and> j - i \<le> buf_len f - length xs \<and>
    (length xs < buf_len f \<longrightarrow> i < j \<and> i = (lf_head f + length xs) mod buf_len f) \<and>
    (\<forall>ys. length ys \<le> j - i \<longrightarrow> (\<exists>buf. splice_at (lf_buf f) i (map Some ys) = Some buf \<and>
       length buf = buf_len f \<and> fifo_holds kind (update (length ys) (f\<lparr>lf_buf := buf\<rparr>)) (xs @ ys)))"
proof -
  note b = fifo_bounds [OF assms(1)] and kl = fifo_kind_len [OF assms(1)]
  show ?thesis using assms(1)
  proof (cases rule: fifo_cases)
    case (flat p r)
    show ?thesis
    proof (cases "lf_head f + length xs < buf_len f")
      case True
      then have w: "writable_range 0 f = (lf_head f + length xs, buf_len f)"
        using b by (simp add: writable_range_def)
      have fill: "\<exists>buf. splice_at (lf_buf f) (lf_head f + length xs) (map Some ys) = Some buf \<and>
         length buf = buf_len f \<and> fifo_holds kind (update (length ys) (f\<lparr>lf_buf := buf\<rparr>)) (xs @ ys)"
        if ys: "length ys \<le> buf_len f - (lf_head f + length xs)" for ys
      proof (intro exI [of _ "p @ map Some (xs @ ys) @ drop (length ys) r"] conjI)
        have l: "length ys \<le> length r" using ys flat by (simp add: buf_len_def)
        then show "splice_at (lf_buf f) (lf_head f + length xs) (map Some ys) = Some (p @ map Some (xs @ ys) @ drop (length ys) r)"
          using flat by (simp add: splice_at_def)
        show len: "length (p @ map Some (xs @ ys) @ drop (length ys) r) = buf_len f"
          using flat l by (simp add: buf_len_def)
        have "xs @ ys @ map the (drop (length ys) r) \<noteq> []" using True flat l by (auto simp: buf_len_def)
        then show "fifo_holds kind (update (length ys) (f\<lparr>lf_buf := p @ map Some (xs @ ys) @ drop (length ys) r\<rparr>)) (xs @ ys)"
          using fifo_holds_flatI [of kind "p @ map Some (xs @ ys) @ drop (length ys) r" p "xs @ ys"] kl len flat b ys
          by (cases f) (simp add: update_def buf_len_def)
      qed
      show ?thesis using w fill b True by simp
    next
      case False
      then have e: "lf_head f + length xs = buf_len f" "r = []" using flat by (auto simp: buf_len_def)
      then have w: "writable_range 0 f = (0, length p)"
        using b flat by (simp add: writable_range_def)
      have xs: "xs \<noteq> [] \<or> buf_len f = 0" using assms e by (auto simp: fifo_holds_def)
      have fill: "\<exists>buf. splice_at (lf_buf f) 0 (map Some ys) = Some buf \<and>
         length buf = buf_len f \<and> fifo_holds kind (update (length ys) (f\<lparr>lf_buf := buf\<rparr>)) (xs @ ys)"
        if ys: "length ys \<le> length p" for ys
      proof (intro exI [of _ "map Some ys @ drop (length ys) p @ map Some xs"] conjI)
        show "splice_at (lf_buf f) 0 (map Some ys) = Some (map Some ys @ drop (length ys) p @ map Some xs)"
          using flat e ys by (simp add: splice_at_def)
        show len: "length (map Some ys @ drop (length ys) p @ map Some xs) = buf_len f"
          using flat e ys by (simp add: buf_len_def)
        show "fifo_holds kind (update (length ys) (f\<lparr>lf_buf := map Some ys @ drop (length ys) p @ map Some xs\<rparr>)) (xs @ ys)"
        proof (cases "xs = []")
          case True
          then have "p = []" "ys = []" using xs flat e ys by (auto simp: buf_len_def)
          then show ?thesis using assms True flat e b by (cases f) (simp add: update_def)
        next
          case False
          have "length ys + length (drop (length ys) p) = length p" using ys by simp
          moreover have "usize_add (lf_count f) (length ys) = length xs + length ys" using b ys flat by simp
          moreover have "kind_len kind (length (map Some ys @ drop (length ys) p @ map Some xs))"
            using kl len by (simp add: buf_len_def)
          ultimately show ?thesis
            using fifo_holds_wrappedI [OF _ refl False, of kind ys "drop (length ys) p"] flat(2)
            by (cases f) (simp add: update_def)
        qed
      qed
      have "(lf_head f + length xs) mod buf_len f = 0" unfolding e by simp
      moreover have "length p = buf_len f - length xs" using flat e by (simp add: buf_len_def)
      ultimately show ?thesis using w fill by (intro exI [of _ 0] exI [of _ "length p"]) auto
    qed
  next
    case (wrapped ys' q zs)
    have e: "lf_head f + length xs = length ys' + buf_len f" using wrapped by (simp add: buf_len_def)
    then have w: "writable_range 0 f = (length ys', length ys' + length q)"
      using b wrapped by (simp add: writable_range_def buf_len_def Let_def)
    have m: "length ys' < buf_len f" using wrapped by (simp add: buf_len_def)
    then have im: "(lf_head f + length xs) mod buf_len f = length ys'" unfolding e by simp
    have fill: "\<exists>buf. splice_at (lf_buf f) (length ys') (map Some ys) = Some buf \<and>
       length buf = buf_len f \<and> fifo_holds kind (update (length ys) (f\<lparr>lf_buf := buf\<rparr>)) (xs @ ys)"
      if ys: "length ys \<le> length q" for ys
    proof (intro exI [of _ "map Some (ys' @ ys) @ drop (length ys) q @ map Some zs"] conjI)
      show "splice_at (lf_buf f) (length ys') (map Some ys) = Some (map Some (ys' @ ys) @ drop (length ys) q @ map Some zs)"
        using wrapped ys by (simp add: splice_at_def)
      show len: "length (map Some (ys' @ ys) @ drop (length ys) q @ map Some zs) = buf_len f"
        using wrapped ys by (simp add: buf_len_def)
      show "fifo_holds kind (update (length ys) (f\<lparr>lf_buf := map Some (ys' @ ys) @ drop (length ys) q @ map Some zs\<rparr>)) (xs @ ys)"
      proof -
        have "length (ys' @ ys) + length (drop (length ys) q) = lf_head f" using ys wrapped by simp
        moreover have "usize_add (lf_count f) (length ys) = length zs + length (ys' @ ys)" using b ys wrapped by simp
        moreover have "kind_len kind (length (map Some (ys' @ ys) @ drop (length ys) q @ map Some zs))"
          using kl len by (simp add: buf_len_def)
        ultimately show ?thesis
          using fifo_holds_wrappedI [OF _ refl wrapped(4), of kind "ys' @ ys" "drop (length ys) q"] wrapped(2)
          by (cases f) (simp add: update_def)
      qed
    qed
    show ?thesis using w fill b im wrapped by (auto simp: buf_len_def)
  qed
qed

lemma write_assume_capacity_holds:
  "fifo_holds kind f xs \<Longrightarrow> length xs + length src \<le> buf_len f \<Longrightarrow>
   \<exists>f'. write_assume_capacity src f = Some f' \<and> fifo_holds kind f' (xs @ src) \<and> buf_len f' = buf_len f"
proof (induction "length src" arbitrary: f xs src rule: less_induct)
  case less
  show ?case
  proof (cases "src = []")
    case True
    then show ?thesis using less.prems by (simp add: write_assume_capacity.simps)
  next
    case False
    obtain i j where w: "writable_range 0 f = (i, j)" "i \<le> j" "j \<le> buf_len f" "i < j"
      and fill: "\<And>ys. length ys \<le> j - i \<Longrightarrow> \<exists>buf. splice_at (lf_buf f) i (map Some ys) = Some buf \<and>
       length buf = buf_len f \<and> fifo_holds kind (update (length ys) (f\<lparr>lf_buf := buf\<rparr>)) (xs @ ys)"
      using writable_ok [OF less.prems(1)] False less.prems(2) by (cases src) auto
    define n where "n = min (j - i) (length src)"
    have n: "0 < n" "n \<le> length src" "n \<le> j - i" using w False by (auto simp: n_def)
    have sl: "slice_of (lf_buf f) i j = Some (take (j - i) (drop i (lf_buf f)))" 
      "length (take (j - i) (drop i (lf_buf f))) = j - i"
      using w by (simp_all add: slice_of_def buf_len_def)
    obtain buf where buf: "splice_at (lf_buf f) i (map Some (take n src)) = Some buf" "length buf = buf_len f"
        "fifo_holds kind (update n (f\<lparr>lf_buf := buf\<rparr>)) (xs @ take n src)"
      using fill [of "take n src"] n by auto
    have "length (drop n src) < length src" using n by simp
    then obtain f' where f': "write_assume_capacity (drop n src) (update n (f\<lparr>lf_buf := buf\<rparr>)) = Some f'"
        "fifo_holds kind f' ((xs @ take n src) @ drop n src)" "buf_len f' = buf_len f"
      using less.hyps [of "drop n src", OF _ buf(3)] less.prems(2) n buf(2) by (auto simp: buf_len_def update_def)
    have "write_assume_capacity src f = Some f'"
      unfolding write_assume_capacity.simps [of src f] w(1) prod.case sl(1) bind.bind_lunit sl(2) Let_def
      using False buf(1) f'(1) by (simp add: n_def [symmetric])
    then show ?thesis using f' by simp
  qed
qed

lemma write_item_assume_capacity_holds:
  assumes "fifo_holds kind f xs" "length xs < buf_len f"
  shows "\<exists>f'. write_item_assume_capacity kind x f = Some f' \<and> fifo_holds kind f' (xs @ [x]) \<and> buf_len f' = buf_len f"
proof -
  obtain i j where w: "i < j" "j \<le> buf_len f" "i = (lf_head f + length xs) mod buf_len f"
    and "\<forall>ys. length ys \<le> j - i \<longrightarrow> (\<exists>buf. splice_at (lf_buf f) i (map Some ys) = Some buf \<and>
       length buf = buf_len f \<and> fifo_holds kind (update (length ys) (f\<lparr>lf_buf := buf\<rparr>)) (xs @ ys))"
    using writable_ok [OF assms(1)] assms(2) by blast
  then have "\<exists>buf. splice_at (lf_buf f) i [Some x] = Some buf \<and> length buf = buf_len f \<and>
      fifo_holds kind (update 1 (f\<lparr>lf_buf := buf\<rparr>)) (xs @ [x])"
    by (elim allE [of _ "[x]"]) auto
  moreover have "wrap_index kind (buf_len f) (usize_add (lf_head f) (lf_count f)) = Some i"
    using fifo_index [OF assms(1), of "length xs"] assms fifo_bounds [OF assms(1)] w by simp
  ultimately show ?thesis
    using w list_update_splice [of i "lf_buf f" "Some x"]
    by (auto simp: write_item_assume_capacity_def buf_len_def update_def)
qed

lemma write_item_holds:
  assumes "fifo_holds kind f xs" "0 < t" "t \<le> 2048" "room kind t (length xs + 1)"
  shows "\<exists>f'. write_item kind t x f = Some (AllocOk, f') \<and> fifo_holds kind f' (xs @ [x])"
proof -
  obtain f1 where "ensure_unused_capacity kind t 1 f = Some (AllocOk, f1)" "fifo_holds kind f1 xs" "length xs + 1 \<le> buf_len f1"
    using ensure_unused_ok [OF assms] by blast
  moreover from this obtain f2 where "write_item_assume_capacity kind x f1 = Some f2" "fifo_holds kind f2 (xs @ [x])"
    using write_item_assume_capacity_holds [of kind f1 xs x] by auto
  ultimately show ?thesis by (simp add: write_item_def)
qed

lemma fifo_write_holds:
  assumes "fifo_holds kind f xs" "0 < t" "t \<le> 2048" "room kind t (length xs + length src)"
  shows "\<exists>f'. fifo_write kind t src f = Some (AllocOk, f') \<and> fifo_holds kind f' (xs @ src)"
proof -
  obtain f1 where "ensure_unused_capacity kind t (length src) f = Some (AllocOk, f1)" "fifo_holds kind f1 xs"
      "length xs + length src \<le> buf_len f1"
    using ensure_unused_ok [OF assms] by blast
  moreover from this obtain f2 where "write_assume_capacity src f1 = Some f2" "fifo_holds kind f2 (xs @ src)"
    using write_assume_capacity_holds [of kind f1 xs src] by auto
  ultimately show ?thesis by (simp add: fifo_write_def)
qed

end
