(* ===== verification/LinearFifoQueue.thy ===== *)
theory LinearFifoQueue
  imports LinearFifo
begin

text \<open>
  The ring buffer of theory \<open>LinearFifo\<close> as a queue: putting items back, removing one from the middle,
  the refinement of a list by whole sequences of operations, and the properties of the component.
\<close>


subsection \<open>Putting items back\<close>

text \<open>Moving the head back by \<open>n\<close> slots.\<close>

lemma rewind_eq:
  assumes "fifo_holds kind f xs" "length xs + n \<le> buf_len f"
  shows "rewind kind n f = Some \<lparr>lf_buf = lf_buf f,
     lf_head = (if n \<le> lf_head f then lf_head f - n else lf_head f + (buf_len f - n)), lf_count = length xs + n\<rparr>"
proof -
  note b = fifo_bounds [OF assms(1)] and kl = fifo_kind_len [OF assms(1)]
  have "wrap_index kind (buf_len f) (lf_head f + (buf_len f - n)) =
      Some (if n \<le> lf_head f then lf_head f - n else lf_head f + (buf_len f - n))"
  proof (cases "buf_len f = 0")
    case True
    then show ?thesis using kl assms b wrap_index_empty [of kind 0] by (simp add: buf_len_def)
  next
    case False
    have h: "lf_head f < buf_len f" using assms(1) False by (auto simp: fifo_holds_def)
    have "(lf_head f + (buf_len f - n)) mod buf_len f =
        (if n \<le> lf_head f then lf_head f - n else lf_head f + (buf_len f - n))"
    proof (cases "n \<le> lf_head f")
      case True
      then have e: "lf_head f + (buf_len f - n) = (lf_head f - n) + buf_len f" using assms(2) by simp
      have "lf_head f - n < buf_len f" using h by simp
      then show ?thesis unfolding e using True by (simp only: mod_add_self2 mod_less if_True)
    next
      case n: False
      then show ?thesis using assms(2) by simp
    qed
    then show ?thesis using wrap_index_mod [of kind "buf_len f"] kl False by (simp add: buf_len_def)
  qed
  then show ?thesis using b assms(2) by (cases f) (simp add: rewind_def)
qed

definition unget_fill :: "'a list \<Rightarrow> 'a linear_fifo \<Rightarrow> (alloc_result \<times> 'a linear_fifo) option" where
  "unget_fill src f2 =
     (case readable_range 0 f2 of (i, j) \<Rightarrow> do {
        s \<leftarrow> slice_of (lf_buf f2) i j;
        let n = min (length s) (length src);
        buf1 \<leftarrow> splice_at (lf_buf f2) i (map Some (take n src));
        let f3 = f2\<lparr>lf_buf := buf1\<rparr>;
        if length s < length src then
          (case readable_range (length s) f3 of (i2, j2) \<Rightarrow> do {
             s2 \<leftarrow> slice_of (lf_buf f3) i2 j2;
             s2' \<leftarrow> splice_at s2 0 (map Some (drop (length s) src));
             buf2 \<leftarrow> splice_at buf1 i2 s2';
             Some (AllocOk, f3\<lparr>lf_buf := buf2\<rparr>)
           })
        else Some (AllocOk, f3)
      })"

text \<open>The items fit in front of the head without wrapping.\<close>

lemma unget_fill_flat:
  assumes buf: "length (p @ m @ r) < 2 ^ 63" and m: "length m = length src" and n: "length src \<le> n" "n < 2 ^ 63"
    and h: "m @ r \<noteq> [] \<or> p = [] \<and> n = 0"
  shows "unget_fill src \<lparr>lf_buf = p @ m @ r, lf_head = length p, lf_count = n\<rparr> =
    Some (AllocOk, \<lparr>lf_buf = p @ map Some src @ r, lf_head = length p, lf_count = n\<rparr>)"
proof -
  define f where "f = \<lparr>lf_buf = p @ m @ r, lf_head = length p, lf_count = n\<rparr>"
  define j where "j = min (length p + n) (length (p @ m @ r))"
  have r0: "readable_range 0 f = (length p, j)"
  proof (cases "m @ r = []")
    case True
    then show ?thesis using h by (simp add: readable_range_def f_def buf_len_def j_def)
  next
    case False
    then have "length p < length (p @ m @ r)" by (cases m; cases r) simp_all
    then show ?thesis using buf n False by (auto simp: readable_range_def f_def buf_len_def j_def Let_def)
  qed
  have j: "length p + length src \<le> j" "j \<le> length (p @ m @ r)" using m n by (simp_all add: j_def)
  then have "slice_of (lf_buf f) (length p) j = Some (take (j - length p) (m @ r))"
    by (simp add: slice_of_def f_def)
  moreover have "length (take (j - length p) (m @ r)) = j - length p" using j by simp
  moreover have "\<not> j - length p < length src" using j by simp
  ultimately show ?thesis
    unfolding unget_fill_def f_def [symmetric] using r0 j m
    by (auto simp: Let_def min_absorb2 f_def)
qed

text \<open>The items wrap: the first part fills the end of the buffer, the rest its start.\<close>

lemma unget_fill_wrapped:
  assumes buf: "length (m2 @ y @ m1) < 2 ^ 63" and m: "length m1 + length m2 = length src" "m1 \<noteq> []"
    and k: "k \<le> length y"
  shows "unget_fill src \<lparr>lf_buf = m2 @ y @ m1, lf_head = length m2 + length y, lf_count = length src + k\<rparr> =
    Some (AllocOk, \<lparr>lf_buf = map Some (drop (length m1) src) @ y @ map Some (take (length m1) src),
      lf_head = length m2 + length y, lf_count = length src + k\<rparr>)"
proof -
  define f where "f = \<lparr>lf_buf = m2 @ y @ m1, lf_head = length m2 + length y, lf_count = length src + k\<rparr>"
  define f3 where "f3 = f\<lparr>lf_buf := m2 @ y @ map Some (take (length m1) src)\<rparr>"
  have "0 < length m1" using m by simp
  then have r0: "readable_range 0 f = (length m2 + length y, length (m2 @ y @ m1))"
    using buf m k by (simp add: readable_range_def f_def buf_len_def)
  have r1: "readable_range (length m1) f3 = (0, length m2 + k)"
    using buf m k by (simp add: readable_range_def f_def f3_def buf_len_def)
  have sl: "slice_of (lf_buf f) (length m2 + length y) (length (m2 @ y @ m1)) = Some m1"
    by (simp add: slice_of_def f_def)
  have sp: "splice_at (lf_buf f) (length m2 + length y) (map Some (take (length m1) src)) =
      Some (m2 @ y @ map Some (take (length m1) src))"
    using m by (simp add: splice_at_def f_def)
  show ?thesis
  proof (cases "length m1 < length src")
    case True
    have "slice_of (lf_buf f3) 0 (length m2 + k) = Some (m2 @ take k y)"
      using k by (simp add: slice_of_def f3_def)
    moreover have "splice_at (m2 @ take k y) 0 (map Some (drop (length m1) src)) = Some (map Some (drop (length m1) src) @ take k y)"
      using m by (intro splice_mid0) simp
    moreover have "splice_at (m2 @ y @ map Some (take (length m1) src)) 0 (map Some (drop (length m1) src) @ take k y) =
        Some (map Some (drop (length m1) src) @ y @ map Some (take (length m1) src))"
      using m k by (simp add: splice_at_def)
    ultimately show ?thesis
      unfolding unget_fill_def f_def [symmetric] r0 prod.case sl bind.bind_lunit Let_def
      using sp True r1 by (simp add: f3_def f_def)
  next
    case False
    then have "length m2 = 0" "length m1 = length src" using m(1) by linarith+
    then show ?thesis
      unfolding unget_fill_def f_def [symmetric] r0 prod.case sl bind.bind_lunit Let_def
      using sp by (simp add: f_def)
  qed
qed

lemma unget_holds:
  assumes "fifo_holds kind f xs" "0 < t" "t \<le> 2048" "room kind t (length xs + length src)"
  shows "\<exists>f'. unget kind t src f = Some (AllocOk, f') \<and> fifo_holds kind f' (src @ xs)"
proof -
  obtain f1 where f1: "ensure_unused_capacity kind t (length src) f = Some (AllocOk, f1)" "fifo_holds kind f1 xs"
      "length xs + length src \<le> buf_len f1"
    using ensure_unused_ok [OF assms] by blast
  note b = fifo_bounds [OF f1(2)] and kl = fifo_kind_len [OF f1(2)]
  let ?n = "length src"
  define h where "h = (if ?n \<le> lf_head f1 then lf_head f1 - ?n else lf_head f1 + (buf_len f1 - ?n))"
  have rw: "rewind kind ?n f1 = Some \<lparr>lf_buf = lf_buf f1, lf_head = h, lf_count = length xs + ?n\<rparr>"
    using rewind_eq [OF f1(2,3)] by (simp add: h_def)
  have "\<exists>f'. unget_fill src \<lparr>lf_buf = lf_buf f1, lf_head = h, lf_count = length xs + ?n\<rparr> = Some (AllocOk, f') \<and>
      fifo_holds kind f' (src @ xs)"
    using f1(2)
  proof (cases rule: fifo_cases)
    case (flat p r)
    show ?thesis
    proof (cases "?n \<le> length p")
      case True
      define p1 where "p1 = take (length p - ?n) p"
      define m where "m = drop (length p - ?n) p"
      have p: "lf_buf f1 = p1 @ m @ map Some xs @ r" "length m = ?n" "h = length p1"
        using flat True by (simp_all add: p1_def m_def h_def)
      have ne: "m @ map Some xs @ r \<noteq> [] \<or> p1 = [] \<and> length xs + ?n = 0"
        using f1(2) p flat True by (auto simp: fifo_holds_def buf_len_def)
      have "unget_fill src \<lparr>lf_buf = lf_buf f1, lf_head = h, lf_count = length xs + ?n\<rparr> =
          Some (AllocOk, \<lparr>lf_buf = p1 @ map Some src @ map Some xs @ r, lf_head = length p1, lf_count = length xs + ?n\<rparr>)"
        unfolding p(1,3) using p b f1(3) ne by (intro unget_fill_flat) (simp_all add: buf_len_def)
      moreover have "kind_len kind (length (p1 @ map Some (src @ xs) @ r))" using kl p by simp
      then have "fifo_holds kind \<lparr>lf_buf = p1 @ map Some (src @ xs) @ r, lf_head = length p1,
          lf_count = length (src @ xs)\<rparr> (src @ xs)"
        using ne p(2) by (intro fifo_holds_flatI) auto
      ultimately show ?thesis by (simp add: add.commute)
    next
      case False
      define k where "k = length r - (?n - length p)"
      have kr: "?n - length p \<le> length r" using f1(3) flat by (simp add: buf_len_def)
      define y where "y = map Some xs @ take k r"
      define m1 where "m1 = drop k r"
      have e: "lf_buf f1 = p @ y @ m1" "length m1 = ?n - length p" "h = length p + length y"
        using flat False kr by (simp_all add: y_def m1_def k_def h_def buf_len_def)
      have m: "length m1 + length p = ?n" "m1 \<noteq> []" using e False by auto
      let ?s1 = "take (length m1) src" and ?s2 = "drop (length m1) src"
      have fill: "unget_fill src \<lparr>lf_buf = lf_buf f1, lf_head = h, lf_count = length xs + ?n\<rparr> =
          Some (AllocOk, \<lparr>lf_buf = map Some ?s2 @ y @ map Some ?s1, lf_head = length p + length y, lf_count = length xs + ?n\<rparr>)"
        unfolding e(1,3) add.commute [of "length xs"] using e b m
        by (intro unget_fill_wrapped) (simp_all add: buf_len_def y_def)
      have "kind_len kind (length (map Some (?s2 @ xs) @ take k r @ map Some ?s1))" using kl e m by (simp add: y_def)
      then have holds: "fifo_holds kind \<lparr>lf_buf = map Some (?s2 @ xs) @ take k r @ map Some ?s1,
          lf_head = length (?s2 @ xs) + length (take k r), lf_count = length ?s1 + length (?s2 @ xs)\<rparr> (?s1 @ ?s2 @ xs)"
        using m by (intro fifo_holds_wrappedI) auto
      have eqs: "length ?s1 + length (?s2 @ xs) = length xs + ?n" "?s1 @ ?s2 @ xs = src @ xs"
        "length (?s2 @ xs) + length (take k r) = length p + length y"
        "map Some (?s2 @ xs) @ take k r @ map Some ?s1 = map Some ?s2 @ y @ map Some ?s1"
        using m by (simp_all add: y_def)
      show ?thesis using fill holds unfolding eqs by blast
    qed
  next
    case (wrapped ys q zs)
    have n: "?n \<le> length q" using f1(3) wrapped by (simp add: buf_len_def)
    define q1 where "q1 = take (length q - ?n) q"
    define m where "m = drop (length q - ?n) q"
    have e: "lf_buf f1 = (map Some ys @ q1) @ m @ map Some zs" "length m = ?n" "h = length (map Some ys @ q1)"
      using wrapped n by (simp_all add: q1_def m_def h_def)
    have "unget_fill src \<lparr>lf_buf = lf_buf f1, lf_head = h, lf_count = length xs + ?n\<rparr> =
        Some (AllocOk, \<lparr>lf_buf = (map Some ys @ q1) @ map Some src @ map Some zs,
          lf_head = length (map Some ys @ q1), lf_count = length xs + ?n\<rparr>)"
      unfolding e(1,3) using e b f1(3) wrapped(4) by (intro unget_fill_flat) (simp_all add: buf_len_def)
    moreover have "kind_len kind (length (map Some ys @ q1 @ map Some (src @ zs)))" using kl e by simp
    then have "fifo_holds kind \<lparr>lf_buf = map Some ys @ q1 @ map Some (src @ zs), lf_head = length ys + length q1,
        lf_count = length (src @ zs) + length ys\<rparr> ((src @ zs) @ ys)"
      using wrapped by (intro fifo_holds_wrappedI) auto
    ultimately show ?thesis using wrapped(2) by (simp add: add.commute add.left_commute)
  qed
  then show ?thesis using f1(1) rw by (simp add: unget_def unget_fill_def)
qed

subsection \<open>Removing an item\<close>

lemma shift_down_one_mid:
  assumes "i = length p" "j = length p + length (x # m)"
  obtains l where "shift_down_one (p @ (x # m) @ r) i j = Some (p @ (m @ [l]) @ r)"
proof
  have "ptr_copy (x # m) 1 0 (length m) = Some (m @ [last (x # m)])" if "m \<noteq> []"
    using that by (cases m rule: rev_cases) (simp_all add: ptr_copy_def slice_of_def splice_at_def)
  moreover have "slice_of (p @ (x # m) @ r) i j = Some (x # m)" using assms by (intro slice_of_mid)
  moreover have "splice_at (p @ (x # m) @ r) i (m @ [last (x # m)]) = Some (p @ (m @ [last (x # m)]) @ r)"
    using assms by (intro splice_mid) simp_all
  ultimately show "shift_down_one (p @ (x # m) @ r) i j = Some (p @ (m @ [last (x # m)]) @ r)"
    by (cases m) (simp_all add: shift_down_one_def)
qed

lemma ordered_remove_holds:
  assumes "fifo_holds kind f xs" "i < length xs"
  shows "\<exists>f'. ordered_remove_item kind i f = Some f' \<and> fifo_holds kind f' (take i xs @ drop (Suc i) xs)"
proof (cases "i = 0")
  case True
  then show ?thesis using discard_holds [OF assms(1), of 1] assms(2) by (auto simp: ordered_remove_item_def)
next
  case i: False
  note b = fifo_bounds [OF assms(1)] and kl = fifo_kind_len [OF assms(1)]
  have sub: "usize_sub (buf_len f) (lf_head f) = buf_len f - lf_head f" using b by simp
  have idx: "wrap_index kind (buf_len f) (usize_add (lf_head f) i) = Some ((lf_head f + i) mod buf_len f)"
    "usize_add (lf_head f) i = lf_head f + i" "usize_sub (lf_count f) 1 = length xs - 1"
    using fifo_index [OF assms(1), of i] assms(2) b by (simp_all)
  show ?thesis using assms(1)
  proof (cases rule: fifo_cases)
    case (flat p r)
    let ?m = "map Some (drop (Suc i) xs) @ r"
    have x: "xs = take i xs @ (xs ! i) # drop (Suc i) xs" using assms(2) by (simp add: id_take_nth_drop)
    have e: "lf_buf f = (p @ map Some (take i xs)) @ (Some (xs ! i) # ?m) @ []"
      unfolding flat(1) by (subst (1) x) simp
    have i1: "lf_head f + i = length (p @ map Some (take i xs))"
        "buf_len f = length (p @ map Some (take i xs)) + length (Some (xs ! i) # ?m)"
      using flat assms(2) by (simp_all add: buf_len_def)
    obtain l where sh: "shift_down_one (lf_buf f) (lf_head f + i) (buf_len f) =
        Some ((p @ map Some (take i xs)) @ (?m @ [l]) @ [])"
      using shift_down_one_mid [OF i1, of "[]"] unfolding e by blast
    let ?b = "p @ map Some (take i xs @ drop (Suc i) xs) @ (r @ [l])"
    have "length xs \<le> buf_len f - lf_head f" using flat by simp
    then have "ordered_remove_item kind i f = Some \<lparr>lf_buf = ?b, lf_head = length p,
        lf_count = length (take i xs @ drop (Suc i) xs)\<rparr>"
      using i b idx sh flat assms(2) sub by (cases f) (simp add: ordered_remove_item_def)
    moreover have "length ?b = length (lf_buf f)" unfolding flat(1) using assms(2) by (simp; linarith)
    then have "kind_len kind (length ?b)" using kl by simp
    then have "fifo_holds kind \<lparr>lf_buf = ?b, lf_head = length p, lf_count = length (take i xs @ drop (Suc i) xs)\<rparr>
        (take i xs @ drop (Suc i) xs)"
      by (rule fifo_holds_flatI [OF _ refl]) simp
    ultimately show ?thesis by blast
  next
    case (wrapped ys q zs)
    have nf: "\<not> length xs \<le> buf_len f - lf_head f" using wrapped b by simp
    have wl: "usize_sub (usize_add (lf_head f) (lf_count f)) (buf_len f) = length ys"
      using wrapped b by (simp add: buf_len_def)
    show ?thesis
    proof (cases "i < length zs")
      case True
      obtain y ys1 where ys: "ys = y # ys1" using wrapped(3) by (cases ys) auto
      have im: "(lf_head f + i) mod buf_len f = lf_head f + i" using wrapped True by (simp add: buf_len_def)
      let ?m = "map Some (drop (Suc i) zs)"
      have z: "zs = take i zs @ (zs ! i) # drop (Suc i) zs" using True by (simp add: id_take_nth_drop)
      have e: "lf_buf f = (map Some ys @ q @ map Some (take i zs)) @ (Some (zs ! i) # ?m) @ []"
        unfolding wrapped(1) by (subst (1) z) simp
      have i1: "lf_head f + i = length (map Some ys @ q @ map Some (take i zs))"
          "buf_len f = length (map Some ys @ q @ map Some (take i zs)) + length (Some (zs ! i) # ?m)"
        using wrapped True by (simp_all add: buf_len_def)
      obtain l where s1: "shift_down_one (lf_buf f) (lf_head f + i) (buf_len f) =
          Some ((map Some ys @ q @ map Some (take i zs)) @ (?m @ [l]) @ [])"
        using shift_down_one_mid [OF i1, of "[]"] unfolding e by blast
      let ?b1 = "map Some ys @ q @ map Some (take i zs) @ ?m @ [l]"
      let ?b2 = "[] @ (Some y # map Some ys1) @ (q @ map Some (take i zs) @ ?m @ [Some y])"
      have "buf_len f - 1 = length (map Some ys @ q @ map Some (take i zs) @ ?m)"
        using wrapped True by (simp add: buf_len_def)
      then have b2: "?b1[buf_len f - 1 := Some y] = ?b2"
        using list_update_length [of "map Some ys @ q @ map Some (take i zs) @ ?m"] ys by simp
      obtain l' where s2: "shift_down_one ?b2 0 (length ys) =
          Some ([] @ (map Some ys1 @ [l']) @ q @ map Some (take i zs) @ ?m @ [Some y])"
        by (rule shift_down_one_mid [of 0 "[]" "length ys" "Some y" "map Some ys1" "q @ map Some (take i zs) @ ?m @ [Some y]"])
          (simp_all add: ys)
      let ?b = "(map Some ys1 @ [l']) @ q @ map Some (take i zs) @ ?m @ [Some y]"
      have r: "ordered_remove_item kind i f = Some \<lparr>lf_buf = ?b, lf_head = lf_head f, lf_count = length xs - 1\<rparr>"
        using i nf idx im wl s1 s2 b2 b wrapped(1) ys sub by (cases f) (simp add: ordered_remove_item_def)
      have "length (map Some ys1 @ (l' # q) @ map Some (take i zs @ drop (Suc i) zs @ [y])) = length (lf_buf f)"
        unfolding wrapped(1) ys using True by (simp; linarith)
      then have "kind_len kind (length (map Some ys1 @ (l' # q) @ map Some (take i zs @ drop (Suc i) zs @ [y])))"
        using kl by simp
      from fifo_holds_wrappedI [OF this refl]
      have "fifo_holds kind \<lparr>lf_buf = ?b, lf_head = lf_head f, lf_count = length xs - 1\<rparr> ((take i zs @ drop (Suc i) zs @ [y]) @ ys1)"
        using wrapped(2,5) ys True by (cases zs) simp_all
      then show ?thesis using r wrapped(2) ys True by simp
    next
      case False
      define k where "k = i - length zs"
      have k: "k < length ys" using False assms(2) wrapped(2) by (simp add: k_def)
      have "lf_head f + i = k + buf_len f" using False wrapped by (simp add: k_def buf_len_def)
      moreover have "k < buf_len f" "k < lf_head f" using k wrapped by (simp_all add: buf_len_def)
      ultimately have im: "(lf_head f + i) mod buf_len f = k" "k < lf_head f" by simp_all
      let ?m = "map Some (drop (Suc k) ys)"
      have y: "ys = take k ys @ (ys ! k) # drop (Suc k) ys" using k by (simp add: id_take_nth_drop)
      have e: "lf_buf f = map Some (take k ys) @ (Some (ys ! k) # ?m) @ q @ map Some zs"
        unfolding wrapped(1) by (subst (1) y) simp
      have i1: "k = length (map Some (take k ys))" "length ys = length (map Some (take k ys)) + length (Some (ys ! k) # ?m)"
        using k by simp_all
      obtain l where sh: "shift_down_one (lf_buf f) k (length ys) = Some (map Some (take k ys) @ (?m @ [l]) @ q @ map Some zs)"
        using shift_down_one_mid [OF i1, of "q @ map Some zs"] unfolding e by blast
      let ?b = "map Some (take k ys @ drop (Suc k) ys) @ (l # q) @ map Some zs"
      have r: "ordered_remove_item kind i f = Some \<lparr>lf_buf = ?b, lf_head = lf_head f, lf_count = length xs - 1\<rparr>"
        using i nf idx im wl sh b sub by (cases f) (simp add: ordered_remove_item_def)
      have "length ?b = length (lf_buf f)" unfolding wrapped(1) using k by (simp; linarith)
      then have "kind_len kind (length ?b)" using kl by simp
      from fifo_holds_wrappedI [OF this refl wrapped(4)]
      have "fifo_holds kind \<lparr>lf_buf = ?b, lf_head = lf_head f, lf_count = length xs - 1\<rparr> (zs @ take k ys @ drop (Suc k) ys)"
        using wrapped(2,5) k by (cases ys) simp_all
      then show ?thesis using r wrapped(2) False by (simp add: k_def Suc_diff_le)
    qed
  qed
qed


lemma fifo_read_holds:
  assumes "fifo_holds kind f xs"
  shows "\<exists>f'. fifo_read kind dst f = Some (min (length dst) (length xs), take (length dst) xs @ drop (length xs) dst, f') \<and>
    fifo_holds kind f' (drop (length dst) xs)"
proof -
  obtain f' where "read_loop kind (length dst) f = Some (take (length dst) xs, f')" "fifo_holds kind f' (drop (length dst) xs)"
    using read_loop_holds [OF assms] by blast
  moreover have "drop (min (length xs) (length dst)) dst = drop (length xs) dst" by (simp add: min_def)
  ultimately show ?thesis by (simp add: fifo_read_def splice_at_def min.commute)
qed

lemma fifo_write_full:
  assumes "fifo_holds (StaticBuffer m) f xs" "m < length xs + length src"
  shows "fifo_write (StaticBuffer m) t src f = Some (AllocError, f)"
  using ensure_unused_full [OF assms] by (simp add: fifo_write_def)

lemma unget_full:
  assumes "fifo_holds (StaticBuffer m) f xs" "m < length xs + length src"
  shows "unget (StaticBuffer m) t src f = Some (AllocError, f)"
  using ensure_unused_full [OF assms] by (simp add: unget_def)

lemma write_item_full:
  assumes "fifo_holds (StaticBuffer m) f xs" "m \<le> length xs"
  shows "write_item (StaticBuffer m) t x f = Some (AllocError, f)"
  using ensure_unused_full [OF assms(1), of 1 t] assms(2) by (simp add: write_item_def)

subsection \<open>A bounded queue\<close>

text \<open>
  What the users of a fixed buffer rely on: a slice is appended as a whole when it fits and refused
  without a change when it does not, and items come out in order.
\<close>

locale bounded_queue =
  fixes cap :: nat
    and holds :: "'q \<Rightarrow> 'a list \<Rightarrow> bool"
    and put :: "'a list \<Rightarrow> 'q \<Rightarrow> (alloc_result \<times> 'q) option"
    and get :: "'q \<Rightarrow> ('a option \<times> 'q) option"
  assumes put_fits: "holds q xs \<Longrightarrow> length xs + length ys \<le> cap \<Longrightarrow>
      \<exists>q'. put ys q = Some (AllocOk, q') \<and> holds q' (xs @ ys)"
    and put_full: "holds q xs \<Longrightarrow> cap < length xs + length ys \<Longrightarrow> put ys q = Some (AllocError, q)"
    and get_next: "holds q xs \<Longrightarrow>
      \<exists>q'. get q = Some (case xs of [] \<Rightarrow> None | x # _ \<Rightarrow> Some x, q') \<and> holds q' (drop 1 xs)"
    and bounded: "holds q xs \<Longrightarrow> length xs \<le> cap"
begin

lemma put_returns: "holds q xs \<Longrightarrow> \<exists>r q'. put ys q = Some (r, q')"
  using put_fits [of q xs ys] put_full [of q xs ys] by (cases "length xs + length ys \<le> cap") auto

lemma put_result:
  assumes "holds q xs" "put ys q = Some (r, q')"
  shows "if length xs + length ys \<le> cap then r = AllocOk \<and> holds q' (xs @ ys) else r = AllocError \<and> q' = q"
  using assms put_fits [of q xs ys] put_full [of q xs ys] by (auto simp: not_le)

lemma put_get:
  assumes "holds q []" "length ys \<le> cap" "put ys q = Some (r, q')" "ys = y # zs"
  shows "\<exists>q''. get q' = Some (Some y, q'') \<and> holds q'' zs"
  using put_result [OF assms(1,3)] assms(2,4) get_next [of q' ys] by auto

end

lemma ensure_unused_static:
  assumes "fifo_holds (StaticBuffer m) f xs" "length xs + n \<le> m"
  shows "ensure_unused_capacity (StaticBuffer m) t n f = Some (AllocOk, f)"
proof -
  have "writable_length f = m - length xs"
    using fifo_bounds [OF assms(1)] assms(1) by (simp add: writable_length_def fifo_holds_def kind_len_def)
  moreover have "n \<le> m - length xs" using assms(2) by simp
  ultimately show ?thesis by (simp add: ensure_unused_capacity_def)
qed

lemma static_capacity: "fifo_holds (StaticBuffer m) f xs \<Longrightarrow> buf_len f = m"
  by (simp add: fifo_holds_def kind_len_def)

lemma static_write_fits:
  assumes "fifo_holds (StaticBuffer m) f xs" "length xs + length src \<le> m"
  shows "\<exists>f'. fifo_write (StaticBuffer m) t src f = Some (AllocOk, f') \<and> fifo_holds (StaticBuffer m) f' (xs @ src)"
  using ensure_unused_static [OF assms] write_assume_capacity_holds [OF assms(1), of src] assms(2) static_capacity [OF assms(1)]
  by (auto simp: fifo_write_def)

interpretation sq: bounded_queue m "fifo_holds (StaticBuffer m)" "fifo_write (StaticBuffer m) t" "read_item (StaticBuffer m)"
  for m t
proof unfold_locales
  fix f :: "'a linear_fifo" and xs ys :: "'a list"
  assume h: "fifo_holds (StaticBuffer m) f xs"
  show "length xs + length ys \<le> m \<Longrightarrow>
      \<exists>f'. fifo_write (StaticBuffer m) t ys f = Some (AllocOk, f') \<and> fifo_holds (StaticBuffer m) f' (xs @ ys)"
    by (rule static_write_fits [OF h])
  show "m < length xs + length ys \<Longrightarrow> fifo_write (StaticBuffer m) t ys f = Some (AllocError, f)"
    by (rule fifo_write_full [OF h])
  show "\<exists>f'. read_item (StaticBuffer m) f = Some (case xs of [] \<Rightarrow> None | x # _ \<Rightarrow> Some x, f') \<and>
      fifo_holds (StaticBuffer m) f' (drop 1 xs)"
    by (rule read_item_holds [OF h])
  show "length xs \<le> m" using fifo_bounds(2) [OF h] static_capacity [OF h] by simp
qed

subsection \<open>The queue the ring implements\<close>

text \<open>The operations of the interface and their results, over the ring and over a list.\<close>

datatype 'a fifo_op =
  OpWrite "'a list" | OpWriteItem 'a | OpUnget "'a list" | OpRead "'a list" | OpReadItem
  | OpDiscard nat | OpPeek nat | OpRemove nat | OpReset

datatype 'a fifo_result = Done alloc_result | Item "'a option" | ReadInto nat "'a list"

fun fifo_step :: "buffer_kind \<Rightarrow> nat \<Rightarrow> 'a fifo_op \<Rightarrow> 'a linear_fifo \<Rightarrow> ('a fifo_result \<times> 'a linear_fifo) option" where
  "fifo_step kind t (OpWrite src) f = do { (r, f') \<leftarrow> fifo_write kind t src f; Some (Done r, f') }"
| "fifo_step kind t (OpWriteItem x) f = do { (r, f') \<leftarrow> write_item kind t x f; Some (Done r, f') }"
| "fifo_step kind t (OpUnget src) f = do { (r, f') \<leftarrow> unget kind t src f; Some (Done r, f') }"
| "fifo_step kind t (OpRead dst) f = do { (n, dst', f') \<leftarrow> fifo_read kind dst f; Some (ReadInto n dst', f') }"
| "fifo_step kind t OpReadItem f = do { (x, f') \<leftarrow> read_item kind f; Some (Item x, f') }"
| "fifo_step kind t (OpDiscard n) f = do { f' \<leftarrow> discard kind n f; Some (Done AllocOk, f') }"
| "fifo_step kind t (OpPeek i) f = do { x \<leftarrow> peek_item kind i f; Some (Item (Some x), f) }"
| "fifo_step kind t (OpRemove i) f = do { f' \<leftarrow> ordered_remove_item kind i f; Some (Done AllocOk, f') }"
| "fifo_step kind t OpReset f = Some (Done AllocOk, reset_head_if_empty f)"

fun fifo_run :: "buffer_kind \<Rightarrow> nat \<Rightarrow> 'a fifo_op list \<Rightarrow> 'a linear_fifo \<Rightarrow> ('a fifo_result list \<times> 'a linear_fifo) option" where
  "fifo_run kind t [] f = Some ([], f)"
| "fifo_run kind t (p # ps) f = do {
     (r, f1) \<leftarrow> fifo_step kind t p f;
     (rs, f2) \<leftarrow> fifo_run kind t ps f1;
     Some (r # rs, f2)
   }"

text \<open>The reference: a list with the capacity of the kind.\<close>

fun over :: "buffer_kind \<Rightarrow> nat \<Rightarrow> bool" where
  "over (StaticBuffer m) n = (m < n)"
| "over DynamicBuffer n = False"

fun queue_step :: "buffer_kind \<Rightarrow> 'a fifo_op \<Rightarrow> 'a list \<Rightarrow> 'a fifo_result \<times> 'a list" where
  "queue_step kind (OpWrite src) xs =
     (if over kind (length xs + length src) then (Done AllocError, xs) else (Done AllocOk, xs @ src))"
| "queue_step kind (OpWriteItem x) xs =
     (if over kind (length xs + 1) then (Done AllocError, xs) else (Done AllocOk, xs @ [x]))"
| "queue_step kind (OpUnget src) xs =
     (if over kind (length xs + length src) then (Done AllocError, xs) else (Done AllocOk, src @ xs))"
| "queue_step kind (OpRead dst) xs =
     (ReadInto (min (length dst) (length xs)) (take (length dst) xs @ drop (length xs) dst), drop (length dst) xs)"
| "queue_step kind OpReadItem xs = (Item (case xs of [] \<Rightarrow> None | x # _ \<Rightarrow> Some x), drop 1 xs)"
| "queue_step kind (OpDiscard n) xs = (Done AllocOk, drop n xs)"
| "queue_step kind (OpPeek i) xs = (Item (Some (xs ! i)), xs)"
| "queue_step kind (OpRemove i) xs = (Done AllocOk, take i xs @ drop (Suc i) xs)"
| "queue_step kind OpReset xs = (Done AllocOk, xs)"

fun queue_run :: "buffer_kind \<Rightarrow> 'a fifo_op list \<Rightarrow> 'a list \<Rightarrow> 'a fifo_result list \<times> 'a list" where
  "queue_run kind [] xs = ([], xs)"
| "queue_run kind (p # ps) xs =
     (case queue_step kind p xs of (r, ys) \<Rightarrow> case queue_run kind ps ys of (rs, zs) \<Rightarrow> (r # rs, zs))"

text \<open>
  What the callers keep to: offsets stay inside the queue, and a growing buffer stays within what the
  allocator accepts.
\<close>

fun op_allowed :: "buffer_kind \<Rightarrow> nat \<Rightarrow> 'a fifo_op \<Rightarrow> 'a list \<Rightarrow> bool" where
  "op_allowed kind t (OpWrite src) xs = (over kind (length xs + length src) \<or> room kind t (length xs + length src))"
| "op_allowed kind t (OpWriteItem x) xs = (over kind (length xs + 1) \<or> room kind t (length xs + 1))"
| "op_allowed kind t (OpUnget src) xs = (over kind (length xs + length src) \<or> room kind t (length xs + length src))"
| "op_allowed kind t (OpDiscard n) xs = (n \<le> length xs)"
| "op_allowed kind t (OpPeek i) xs = (i < length xs)"
| "op_allowed kind t (OpRemove i) xs = (i < length xs)"
| "op_allowed kind t _ xs = True"

fun run_allowed :: "buffer_kind \<Rightarrow> nat \<Rightarrow> 'a fifo_op list \<Rightarrow> 'a list \<Rightarrow> bool" where
  "run_allowed kind t [] xs = True"
| "run_allowed kind t (p # ps) xs = (op_allowed kind t p xs \<and> run_allowed kind t ps (snd (queue_step kind p xs)))"

lemma over_cases: "over kind n \<longleftrightarrow> (\<exists>m. kind = StaticBuffer m \<and> m < n)"
  by (cases kind) simp_all

lemma fifo_step_refines:
  assumes "fifo_holds kind f xs" "0 < t" "t \<le> 2048" "op_allowed kind t p xs"
  shows "\<exists>f'. fifo_step kind t p f = Some (fst (queue_step kind p xs), f') \<and>
    fifo_holds kind f' (snd (queue_step kind p xs))"
proof (cases p)
  case (OpWrite src)
  then show ?thesis
    using assms fifo_write_holds [OF assms(1-3), of src] fifo_write_full [of _ f xs src t] over_cases [of kind] by fastforce
next
  case (OpWriteItem x)
  then show ?thesis
    using assms write_item_holds [OF assms(1-3), of x] write_item_full [of _ f xs t x] over_cases [of kind] by fastforce
next
  case (OpUnget src)
  then show ?thesis
    using assms unget_holds [OF assms(1-3), of src] unget_full [of _ f xs src t] over_cases [of kind] by fastforce
next
  case (OpRead dst)
  then show ?thesis using fifo_read_holds [OF assms(1), of dst] by auto
next
  case OpReadItem
  then show ?thesis using read_item_holds [OF assms(1)] by auto
next
  case (OpDiscard n)
  then show ?thesis using discard_holds [OF assms(1), of n] assms(4) by auto
next
  case (OpPeek i)
  then show ?thesis using peek_item_ok [OF assms(1), of i] assms(1,4) by simp
next
  case (OpRemove i)
  then show ?thesis using ordered_remove_holds [OF assms(1), of i] assms(4) by auto
next
  case OpReset
  then show ?thesis using reset_head_holds [OF assms(1)] by simp
qed

lemma fifo_run_refines:
  "fifo_holds kind f xs \<Longrightarrow> 0 < t \<Longrightarrow> t \<le> 2048 \<Longrightarrow> run_allowed kind t ps xs \<Longrightarrow>
   \<exists>f'. fifo_run kind t ps f = Some (fst (queue_run kind ps xs), f') \<and> fifo_holds kind f' (snd (queue_run kind ps xs))"
proof (induction ps arbitrary: f xs)
  case (Cons p ps)
  obtain r ys where s: "queue_step kind p xs = (r, ys)" by (cases "queue_step kind p xs")
  obtain f1 where f1: "fifo_step kind t p f = Some (r, f1)" "fifo_holds kind f1 ys"
    using fifo_step_refines [OF Cons.prems(1-3), of p] Cons.prems(4) s by auto
  obtain f2 where "fifo_run kind t ps f1 = Some (fst (queue_run kind ps ys), f2)" "fifo_holds kind f2 (snd (queue_run kind ps ys))"
    using Cons.IH [OF f1(2) Cons.prems(2,3)] Cons.prems(4) s by auto
  then show ?case using f1 s by (cases "queue_run kind ps ys") simp
qed simp

text \<open>Element sizes the rotation can handle.\<close>

lemma realign_loop_0: "realign_loop tmp_len buf head = Some r \<Longrightarrow> tmp_len = 0 \<longrightarrow> head = 0"
proof (erule realign_loop.raw_induct [rotated], intro impI, rule ccontr)
  fix rec :: "nat \<Rightarrow> 'a list \<Rightarrow> nat \<Rightarrow> 'a list option" and tmp_len buf head r
  assume "\<And>tmp_len buf head r. rec tmp_len buf head = Some r \<Longrightarrow> tmp_len = 0 \<longrightarrow> head = 0"
    and "(if head = 0 then Some buf
      else do {
        let n = min head tmp_len;
        let m = length buf - n;
        tmp \<leftarrow> slice_of buf 0 n;
        buf1 \<leftarrow> ptr_copy buf n 0 m;
        buf2 \<leftarrow> splice_at buf1 m tmp;
        rec tmp_len buf2 (head - n)
      }) = Some r" and "tmp_len = 0" "head \<noteq> 0"
  then show False by (auto simp: Let_def bind_eq_Some_conv)
qed

subsection \<open>Properties\<close>






text \<open>
  \<open>std::io::Write::write\<close> on a fixed buffer follows the contract of the trait: it appends as much of
  the source as fits and returns how much that was, \<open>Ok(0)\<close> when the buffer is full, never an error.
\<close>

lemma io_write_short:
  assumes "fifo_holds (StaticBuffer m) f xs"
  shows "\<exists>f'. io_write (StaticBuffer m) src f = Some (Some (min (length src) (m - length xs)), f') \<and>
    fifo_holds (StaticBuffer m) f' (xs @ take (m - length xs) src)"
proof -
  have w: "writable_length f = m - length xs" "length xs \<le> m"
    using fifo_bounds [OF assms] assms by (simp_all add: writable_length_def fifo_holds_def kind_len_def)
  let ?src = "take (min (length src) (m - length xs)) src"
  have e: "?src = take (m - length xs) src" by (simp add: min_def)
  have "length xs + length ?src \<le> m" using w by simp
  then obtain f' where "fifo_write (StaticBuffer m) 1 ?src f = Some (AllocOk, f')" "fifo_holds (StaticBuffer m) f' (xs @ ?src)"
    using sq.put_fits [OF assms, of ?src 1] by blast
  then show ?thesis unfolding e [symmetric] using w by (simp add: io_write_def Let_def)
qed

lemma io_write_short_witness:
  "\<exists>f'. io_write (StaticBuffer 3) [1, 2, 3, 4, 5] (fifo_init (StaticBuffer 3)) = Some (Some 3, f') \<and>
    fifo_holds (StaticBuffer 3) f' [1, 2, 3]"
  using io_write_short [OF fifo_init_holds [of "StaticBuffer 3"], of "[1, 2, 3, 4, 5]"]
  by (simp flip: numeral_3_eq_3)

text \<open>
  \<open>writable_with_size\<close> gives a slice of the requested size inside the buffer and keeps the items;
  writing the slice and calling \<open>update\<close> appends what was written, also when the free space was split
  in two before.
\<close>

lemma writable_with_size_appends:
  assumes "fifo_holds kind f xs" "0 < t" "t \<le> 2048" "room kind t (length xs + length ys)"
  shows "\<exists>i f' buf. writable_with_size kind t (length ys) f = Some (Some i, f') \<and> fifo_holds kind f' xs \<and>
    splice_at (lf_buf f') i (map Some ys) = Some buf \<and>
    fifo_holds kind (update (length ys) (f'\<lparr>lf_buf := buf\<rparr>)) (xs @ ys)"
proof -
  obtain f1 where f1: "ensure_unused_capacity kind t (length ys) f = Some (AllocOk, f1)" "fifo_holds kind f1 xs"
      "length xs + length ys \<le> buf_len f1"
    using ensure_unused_ok [OF assms] by blast
  obtain i j where w: "writable_range 0 f1 = (i, j)" "i \<le> j" "j \<le> buf_len f1"
    and fill: "\<And>ys. length ys \<le> j - i \<Longrightarrow> \<exists>buf. splice_at (lf_buf f1) i (map Some ys) = Some buf \<and>
       length buf = buf_len f1 \<and> fifo_holds kind (update (length ys) (f1\<lparr>lf_buf := buf\<rparr>)) (xs @ ys)"
    using writable_ok [OF f1(2)] by blast
  have sl: "slice_of (lf_buf f1) i j = Some (take (j - i) (drop i (lf_buf f1)))"
      "length (take (j - i) (drop i (lf_buf f1))) = j - i"
    using w by (simp_all add: slice_of_def buf_len_def)
  show ?thesis
  proof (cases "length ys \<le> j - i")
    case True
    then have "writable_with_size kind t (length ys) f = Some (Some i, f1)"
      using f1(1) w(1) sl by (simp add: writable_with_size_def del: length_take length_drop)
    then show ?thesis using fill [OF True] f1(2) by blast
  next
    case False
    obtain r where r: "realign t f1 = Some \<lparr>lf_buf = map Some xs @ r, lf_head = 0, lf_count = length xs\<rparr>"
        "length xs + length r = buf_len f1"
      using realign_ok [OF f1(2) assms(2,3)] by blast
    define f2 where "f2 = \<lparr>lf_buf = map Some xs @ r, lf_head = 0, lf_count = length xs\<rparr>"
    have kl: "kind_len kind (length (map Some xs @ r))" using fifo_kind_len [OF f1(2)] r(2) by (simp add: buf_len_def)
    have h2: "fifo_holds kind f2 xs"
      unfolding f2_def using fifo_holds_flatI [OF kl, of "[]" xs r] by simp
    have len: "0 < length r" "length ys \<le> length r" using False f1(3) r(2) by auto
    have b: "length xs + length r < 2 ^ 63" using fifo_bounds [OF f1(2)] r(2) by simp
    have w2: "writable_range 0 f2 = (length xs, length xs + length r)"
      using len b by (simp add: writable_range_def f2_def buf_len_def Let_def)
    have "slice_of (lf_buf f2) (length xs) (length xs + length r) = Some r" by (simp add: slice_of_def f2_def)
    then have "writable_with_size kind t (length ys) f = Some (Some (length xs), f2)"
      using f1(1) w(1) sl w2 len False r(1) by (simp add: writable_with_size_def f2_def del: length_take length_drop)
    moreover have "\<exists>buf. splice_at (lf_buf f2) (length xs) (map Some ys) = Some buf \<and>
        fifo_holds kind (update (length ys) (f2\<lparr>lf_buf := buf\<rparr>)) (xs @ ys)"
      using writable_ok [OF h2] w2 len by auto
    ultimately show ?thesis using h2 by blast
  qed
qed

lemma writable_with_size_appends_witness:
  "\<exists>i f' buf. writable_with_size DynamicBuffer 1 (length [1, 2 :: u8]) (fifo_init DynamicBuffer) = Some (Some i, f') \<and>
    fifo_holds DynamicBuffer f' [] \<and> splice_at (lf_buf f') i (map Some [1, 2]) = Some buf \<and>
    fifo_holds DynamicBuffer (update (length [1, 2 :: u8]) (f'\<lparr>lf_buf := buf\<rparr>)) ([] @ [1, 2])"
  using writable_with_size_appends [OF fifo_init_holds [of DynamicBuffer], of 1 "[1, 2]"]
  by (simp add: room_def)

end
