(* ===== verification/Channel.thy ===== *)
theory Channel
  imports LinearFifoQueue
begin

text \<open>
  The blocking channel between threads (\<open>src/src/threading/channel.rs\<close>) on top of the ring buffer.
  The state is the mutex, the buffer, the closed flag and, for each thread, the call it makes and how
  far it is. An event is what one thread does between two points where others can run: taking the
  mutex, one iteration of the loop of \<open>write_items\<close> or \<open>read_items\<close> with the mutex held, or waking up
  spuriously. \<open>Condition::signal\<close> wakes one thread parked on the condition, if there is one; which one
  is part of the event.
\<close>

subsection \<open>State\<close>

datatype channel_error = Closed | OutOfMemory

datatype phase = Start | Running | Parked | Woken | Finished "channel_error + nat"

text \<open>The call of a thread: the items and \<open>pushed\<close>, or the number wanted and the items read so far.\<close>

datatype 'a role = Writer "'a list" nat | Reader nat "'a list"

record 'a call =
  cl_role :: "'a role"
  cl_should_block :: bool
  cl_phase :: phase

record 'a channel =
  ch_mutex :: "nat option"
  ch_buffer :: "'a linear_fifo"
  ch_is_closed :: bool
  ch_threads :: "'a call list"

fun is_writer :: "'a call \<Rightarrow> bool" where
  "is_writer c = (case cl_role c of Writer items pushed \<Rightarrow> True | Reader n got \<Rightarrow> False)"

definition init_static :: "nat \<Rightarrow> 'a call list \<Rightarrow> 'a channel" where
  "init_static n calls = \<lparr>ch_mutex = None, ch_buffer = fifo_init (StaticBuffer n), ch_is_closed = False, ch_threads = calls\<rparr>"

text \<open>The calls of the public interface.\<close>

definition write_items_call :: "'a list \<Rightarrow> bool \<Rightarrow> 'a call" where
  "write_items_call items should_block = \<lparr>cl_role = Writer items 0, cl_should_block = should_block, cl_phase = Start\<rparr>"

definition read_items_call :: "nat \<Rightarrow> bool \<Rightarrow> 'a call" where
  "read_items_call n should_block = \<lparr>cl_role = Reader n [], cl_should_block = should_block, cl_phase = Start\<rparr>"

definition write_item_call :: "'a \<Rightarrow> 'a call" where
  "write_item_call x = write_items_call [x] True"

definition read_item_call :: "'a call" where
  "read_item_call = read_items_call 1 True"

subsection \<open>One iteration of the loops\<close>

definition set_thread :: "nat \<Rightarrow> 'a call \<Rightarrow> 'a channel \<Rightarrow> 'a channel" where
  "set_thread i c s = s\<lparr>ch_threads := (ch_threads s)[i := c]\<rparr>"

text \<open>Leaving the call, and \<open>Condition::wait\<close>: both release the mutex.\<close>

definition finish :: "nat \<Rightarrow> 'a call \<Rightarrow> (channel_error + nat) \<Rightarrow> 'a channel \<Rightarrow> 'a channel" where
  "finish i c r s = (set_thread i (c\<lparr>cl_phase := Finished r\<rparr>) s)\<lparr>ch_mutex := None\<rparr>"

definition park :: "nat \<Rightarrow> 'a call \<Rightarrow> 'a channel \<Rightarrow> 'a channel" where
  "park i c s = (set_thread i (c\<lparr>cl_phase := Parked\<rparr>) s)\<lparr>ch_mutex := None\<rparr>"

text \<open>\<open>getters.signal()\<close> and \<open>putters.signal()\<close>, waking the thread \<open>w\<close>.\<close>

definition parked_on :: "bool \<Rightarrow> 'a call \<Rightarrow> bool" where
  "parked_on writers c \<longleftrightarrow> cl_phase c = Parked \<and> is_writer c = writers"

definition signal :: "bool \<Rightarrow> nat option \<Rightarrow> 'a channel \<Rightarrow> 'a channel option" where
  "signal writers w s = (case w of
     None \<Rightarrow> (if list_ex (parked_on writers) (ch_threads s) then None else Some s)
   | Some j \<Rightarrow> (if j < length (ch_threads s) \<and> parked_on writers (ch_threads s ! j)
       then Some (set_thread j ((ch_threads s ! j)\<lparr>cl_phase := Woken\<rparr>) s) else None))"

text \<open>
  The loop body of \<open>write_items\<close> and of \<open>read_items\<close>; the items that went into and out of the buffer
  are given beside the new state.
\<close>

definition write_round ::
  "buffer_kind \<Rightarrow> nat \<Rightarrow> nat \<Rightarrow> nat option \<Rightarrow> 'a call \<Rightarrow> 'a list \<Rightarrow> nat \<Rightarrow> 'a channel \<Rightarrow> ('a list \<times> 'a list \<times> 'a channel) option" where
  "write_round kind t i w c items pushed s =
     (if length items \<le> pushed then Some ([], [], finish i c (Inr pushed) s)
      else if ch_is_closed s then Some ([], [], finish i c (Inl Closed) s)
      else do {
        (r, f) \<leftarrow> fifo_write kind t items (ch_buffer s);
        let s1 = s\<lparr>ch_buffer := f\<rparr>;
        case r of
          AllocOk \<Rightarrow> do {
            s2 \<leftarrow> signal False w s1;
            Some (items, [], set_thread i (c\<lparr>cl_role := Writer items (pushed + 1)\<rparr>) s2)
          }
        | AllocError \<Rightarrow>
            if DYNAMIC kind then Some ([], [], finish i c (Inl OutOfMemory) s1)
            else if cl_should_block c then Some ([], [], park i c s1)
            else Some ([], [], finish i c (Inr pushed) s1)
      })"

definition read_round ::
  "buffer_kind \<Rightarrow> nat \<Rightarrow> nat option \<Rightarrow> 'a call \<Rightarrow> nat \<Rightarrow> 'a list \<Rightarrow> 'a channel \<Rightarrow> ('a list \<times> 'a list \<times> 'a channel) option" where
  "read_round kind i w c n got s =
     (if n \<le> length got then Some ([], [], finish i c (Inr (length got)) s)
      else if readable_length (ch_buffer s) = 0 then
        (if ch_is_closed s then Some ([], [], finish i c (Inl Closed) s)
         else if cl_should_block c then Some ([], [], park i c s)
         else Some ([], [], finish i c (Inr (length got)) s))
      else do {
        (x, f) \<leftarrow> read_item kind (ch_buffer s);
        s1 \<leftarrow> signal True w (s\<lparr>ch_buffer := f\<rparr>);
        case x of
          Some item \<Rightarrow> Some ([], [item], set_thread i (c\<lparr>cl_role := Reader n (got @ [item])\<rparr>) s1)
        | None \<Rightarrow> Some ([], [], if cl_should_block c then park i c s1 else finish i c (Inr (length got)) s1)
      })"

subsection \<open>Events\<close>

datatype event = Acquire nat | Iterate nat "nat option" | Spurious nat

fun chan_event :: "buffer_kind \<Rightarrow> nat \<Rightarrow> event \<Rightarrow> 'a channel \<Rightarrow> ('a list \<times> 'a list \<times> 'a channel) option" where
  "chan_event kind t (Acquire i) s =
     (if i < length (ch_threads s) \<and> ch_mutex s = None \<and>
         (cl_phase (ch_threads s ! i) = Start \<or> cl_phase (ch_threads s ! i) = Woken)
      then Some ([], [], (set_thread i ((ch_threads s ! i)\<lparr>cl_phase := Running\<rparr>) s)\<lparr>ch_mutex := Some i\<rparr>) else None)"
| "chan_event kind t (Iterate i w) s =
     (if i < length (ch_threads s) \<and> cl_phase (ch_threads s ! i) = Running
      then (case cl_role (ch_threads s ! i) of
          Writer items pushed \<Rightarrow> write_round kind t i w (ch_threads s ! i) items pushed s
        | Reader n got \<Rightarrow> read_round kind i w (ch_threads s ! i) n got s)
      else None)"
| "chan_event kind t (Spurious i) s =
     (if i < length (ch_threads s) \<and> cl_phase (ch_threads s ! i) = Parked
      then Some ([], [], set_thread i ((ch_threads s ! i)\<lparr>cl_phase := Woken\<rparr>) s) else None)"

fun chan_run :: "buffer_kind \<Rightarrow> nat \<Rightarrow> event list \<Rightarrow> 'a channel \<Rightarrow> ('a list \<times> 'a list \<times> 'a channel) option" where
  "chan_run kind t [] s = Some ([], [], s)"
| "chan_run kind t (e # es) s = do {
     (ins, outs, s1) \<leftarrow> chan_event kind t e s;
     (ins', outs', s2) \<leftarrow> chan_run kind t es s1;
     Some (ins @ ins', outs @ outs', s2)
   }"


subsection \<open>Threads and the mutex\<close>

lemma set_thread_simps [simp]:
  "ch_mutex (set_thread i c s) = ch_mutex s" "ch_buffer (set_thread i c s) = ch_buffer s"
  "ch_is_closed (set_thread i c s) = ch_is_closed s" "ch_threads (set_thread i c s) = (ch_threads s)[i := c]"
  by (simp_all add: set_thread_def)

definition mutex_ok :: "'a channel \<Rightarrow> bool" where
  "mutex_ok s \<longleftrightarrow> (\<forall>i<length (ch_threads s). cl_phase (ch_threads s ! i) = Running \<longleftrightarrow> ch_mutex s = Some i) \<and>
     (\<forall>i. ch_mutex s = Some i \<longrightarrow> i < length (ch_threads s))"

lemma mutex_ok_release:
  "mutex_ok s \<Longrightarrow> i < length (ch_threads s) \<Longrightarrow> cl_phase (ch_threads s ! i) = Running \<Longrightarrow> p \<noteq> Running \<Longrightarrow>
   mutex_ok (set_thread i (c\<lparr>cl_phase := p\<rparr>) s\<lparr>ch_mutex := None\<rparr>)"
  by (auto simp: mutex_ok_def nth_list_update)

lemma mutex_ok_same:
  "mutex_ok s \<Longrightarrow> i < length (ch_threads s) \<Longrightarrow> cl_phase c = Running \<longleftrightarrow> cl_phase (ch_threads s ! i) = Running \<Longrightarrow>
   mutex_ok (set_thread i c s)"
  by (auto simp: mutex_ok_def nth_list_update)

lemma mutex_ok_buffer [simp]: "mutex_ok (s\<lparr>ch_buffer := f\<rparr>) = mutex_ok s"
  by (simp add: mutex_ok_def)

lemma signal_mutex_ok: "mutex_ok s \<Longrightarrow> signal b w s = Some s' \<Longrightarrow> mutex_ok s'"
  by (auto simp: signal_def parked_on_def split: option.splits if_splits intro!: mutex_ok_same)

lemma signal_fields:
  assumes "signal b w s = Some s'"
  shows "ch_mutex s' = ch_mutex s" "ch_buffer s' = ch_buffer s" "ch_is_closed s' = ch_is_closed s"
    "length (ch_threads s') = length (ch_threads s)"
    "i < length (ch_threads s) \<Longrightarrow> cl_phase (ch_threads s ! i) \<noteq> Parked \<Longrightarrow> ch_threads s' ! i = ch_threads s ! i"
  using assms by (auto simp: signal_def parked_on_def nth_list_update split: option.splits if_splits)

lemma signal_enabled: "\<exists>w s'. signal b w s = Some s'"
proof (cases "list_ex (parked_on b) (ch_threads s)")
  case True
  then obtain j where "j < length (ch_threads s)" "parked_on b (ch_threads s ! j)"
    by (auto simp: list_ex_iff in_set_conv_nth)
  then show ?thesis by (intro exI [of _ "Some j"]) (simp add: signal_def)
next
  case False
  then show ?thesis by (intro exI [of _ None]) (simp add: signal_def)
qed

subsection \<open>Invariant\<close>

definition chan_ok :: "nat \<Rightarrow> 'a channel \<Rightarrow> 'a list \<Rightarrow> bool" where
  "chan_ok m s xs \<longleftrightarrow> fifo_holds (StaticBuffer m) (ch_buffer s) xs \<and> \<not> ch_is_closed s \<and> mutex_ok s"

lemma chan_ok_release:
  assumes "chan_ok m s xs" "i < length (ch_threads s)" "cl_phase (ch_threads s ! i) = Running"
  shows "chan_ok m (finish i c r s) xs" "chan_ok m (park i c s) xs"
  using assms by (simp_all add: chan_ok_def finish_def park_def mutex_ok_release)

lemma write_round_ok:
  assumes ok: "chan_ok m s xs"
    and i: "i < length (ch_threads s)" "cl_phase (ch_threads s ! i) = Running"
    and step: "write_round (StaticBuffer m) t i w (ch_threads s ! i) items pushed s = Some (ins, outs, s')"
  shows "\<exists>xs'. xs @ ins = outs @ xs' \<and> chan_ok m s' xs'"
proof (cases "length items \<le> pushed")
  case True
  then show ?thesis using step ok i by (auto simp: write_round_def intro!: chan_ok_release)
next
  case False
  have cl: "\<not> ch_is_closed s" and h: "fifo_holds (StaticBuffer m) (ch_buffer s) xs" and mu: "mutex_ok s"
    using ok by (simp_all add: chan_ok_def)
  obtain r f where w: "fifo_write (StaticBuffer m) t items (ch_buffer s) = Some (r, f)"
    using sq.put_returns [OF h] by blast
  show ?thesis
  proof (cases "length xs + length items \<le> m")
    case True
    then have r: "r = AllocOk" "fifo_holds (StaticBuffer m) f (xs @ items)" using sq.put_result [OF h w] by simp_all
    obtain s2 where s2: "signal False w (s\<lparr>ch_buffer := f\<rparr>) = Some s2"
        "ins = items" "outs = []" "s' = set_thread i ((ch_threads s ! i)\<lparr>cl_role := Writer items (pushed + 1)\<rparr>) s2"
      using step False cl w r by (auto simp: write_round_def bind_eq_Some_conv)
    note sf = signal_fields [OF s2(1), simplified]
    have "ch_threads s2 ! i = ch_threads s ! i" using sf(5) i by simp
    then have "mutex_ok s'" using s2 signal_mutex_ok [OF _ s2(1)] mu i sf(4) by (auto intro!: mutex_ok_same)
    then have "chan_ok m s' (xs @ items)" using s2 sf r cl by (simp add: chan_ok_def)
    then show ?thesis using s2 by simp
  next
    case full: False
    then have r: "r = AllocError" "f = ch_buffer s" using sq.put_result [OF h w] by simp_all
    have "s\<lparr>ch_buffer := ch_buffer s\<rparr> = s" by simp
    then show ?thesis
      using step False cl w r ok i by (auto simp: write_round_def Let_def split: if_splits intro!: chan_ok_release)
  qed
qed

lemma read_round_ok:
  assumes ok: "chan_ok m s xs"
    and i: "i < length (ch_threads s)" "cl_phase (ch_threads s ! i) = Running"
    and step: "read_round (StaticBuffer m) i w (ch_threads s ! i) n got s = Some (ins, outs, s')"
  shows "\<exists>xs'. xs @ ins = outs @ xs' \<and> chan_ok m s' xs'"
proof (cases "n \<le> length got \<or> xs = []")
  case True
  have "readable_length (ch_buffer s) = length xs" "\<not> ch_is_closed s"
    using ok fifo_bounds by (fastforce simp: chan_ok_def readable_length_def)+
  then show ?thesis
    using step ok i True by (auto simp: read_round_def split: if_splits intro!: chan_ok_release)
next
  case False
  have cl: "\<not> ch_is_closed s" and h: "fifo_holds (StaticBuffer m) (ch_buffer s) xs" and mu: "mutex_ok s"
    using ok by (simp_all add: chan_ok_def)
  have len: "readable_length (ch_buffer s) \<noteq> 0" using fifo_bounds [OF h] False by (simp add: readable_length_def)
  obtain x ys where xs: "xs = x # ys" using False by (cases xs) auto
  obtain f where f: "read_item (StaticBuffer m) (ch_buffer s) = Some (Some x, f)" "fifo_holds (StaticBuffer m) f ys"
    using read_item_holds [OF h] xs by auto
  obtain s2 where s2: "signal True w (s\<lparr>ch_buffer := f\<rparr>) = Some s2"
      "ins = []" "outs = [x]" "s' = set_thread i ((ch_threads s ! i)\<lparr>cl_role := Reader n (got @ [x])\<rparr>) s2"
    using step False len f by (auto simp: read_round_def bind_eq_Some_conv)
  note sf = signal_fields [OF s2(1), simplified]
  have "ch_threads s2 ! i = ch_threads s ! i" using sf(5) i by simp
  then have "mutex_ok s'" using s2 signal_mutex_ok [OF _ s2(1)] mu i sf(4) by (auto intro!: mutex_ok_same)
  then have "chan_ok m s' ys" using s2 sf f cl by (simp add: chan_ok_def)
  then show ?thesis using s2 xs by simp
qed

lemma chan_event_ok:
  assumes ok: "chan_ok m s xs"
    and step: "chan_event (StaticBuffer m) t e s = Some (ins, outs, s')"
  shows "\<exists>xs'. xs @ ins = outs @ xs' \<and> chan_ok m s' xs'"
proof (cases e)
  case (Acquire i)
  then have "mutex_ok s'" "ins = []" "outs = []" "ch_buffer s' = ch_buffer s" "ch_is_closed s' = ch_is_closed s"
    using step ok by (auto simp: chan_ok_def mutex_ok_def nth_list_update split: if_splits)
  then show ?thesis using ok by (simp add: chan_ok_def)
next
  case (Iterate i w)
  then show ?thesis
    using step write_round_ok [OF ok] read_round_ok [OF ok] by (auto split: if_splits role.splits)
next
  case (Spurious i)
  then show ?thesis
    using step ok by (auto simp: chan_ok_def split: if_splits intro!: mutex_ok_same)
qed

lemma chan_run_ok:
  "chan_ok m s xs \<Longrightarrow> chan_run (StaticBuffer m) t es s = Some (ins, outs, s') \<Longrightarrow>
   \<exists>xs'. xs @ ins = outs @ xs' \<and> chan_ok m s' xs'"
proof (induction es arbitrary: s xs ins outs)
  case (Cons e es)
  obtain i1 o1 s1 i2 o2 where e: "chan_event (StaticBuffer m) t e s = Some (i1, o1, s1)"
      "chan_run (StaticBuffer m) t es s1 = Some (i2, o2, s')" "ins = i1 @ i2" "outs = o1 @ o2"
    using Cons.prems(2) by (auto simp: bind_eq_Some_conv)
  obtain xs1 where x1: "xs @ i1 = o1 @ xs1" "chan_ok m s1 xs1" using chan_event_ok [OF Cons.prems(1) e(1)] by blast
  obtain xs2 where "xs1 @ i2 = o2 @ xs2" "chan_ok m s' xs2" using Cons.IH [OF x1(2) e(2)] by blast
  then show ?case using e x1(1) by (metis append.assoc)
qed simp

lemma init_static_ok:
  "0 < m \<Longrightarrow> m < 2 ^ 63 \<Longrightarrow> \<forall>c\<in>set calls. cl_phase c = Start \<Longrightarrow> chan_ok m (init_static m calls) []"
  using fifo_init_holds [of "StaticBuffer m"] by (auto simp: chan_ok_def init_static_def mutex_ok_def)


subsection \<open>No lost wake-ups\<close>

text \<open>
  A call is pending while its loop has an iteration left. While a thread is parked on a condition, the
  awake pending threads of its side are enough to use up what it waits for: the items of the buffer
  for readers, the free slots for writers of one item.
\<close>

definition pending :: "'a call \<Rightarrow> bool" where
  "pending c = (case cl_role c of Writer items pushed \<Rightarrow> pushed < length items | Reader n got \<Rightarrow> length got < n)"

definition awake_on :: "bool \<Rightarrow> 'a call \<Rightarrow> bool" where
  "awake_on writers c \<longleftrightarrow> pending c \<and> is_writer c = writers \<and> cl_phase c \<in> {Start, Running, Woken}"

definition single_write :: "'a call \<Rightarrow> bool" where
  "single_write c = (case cl_role c of Writer items pushed \<Rightarrow> length items = 1 | Reader n got \<Rightarrow> True)"

definition shaped :: "'a call \<Rightarrow> bool" where
  "shaped c \<longleftrightarrow> single_write c \<and> (cl_phase c = Parked \<longrightarrow> pending c)"

definition awake_count :: "bool \<Rightarrow> 'a call list \<Rightarrow> nat" where
  "awake_count b ts = length (filter (awake_on b) ts)"

definition wake :: "(bool \<Rightarrow> nat) \<Rightarrow> 'a call list \<Rightarrow> bool" where
  "wake need ts \<longleftrightarrow> list_all shaped ts \<and> (\<forall>b. list_ex (parked_on b) ts \<longrightarrow> need b \<le> awake_count b ts)"

definition need :: "nat \<Rightarrow> nat \<Rightarrow> bool \<Rightarrow> nat" where
  "need m n b = (if b then m - n else n)"

declare is_writer.simps [simp del]

lemma role_phase [simp]:
  "is_writer (c\<lparr>cl_phase := p\<rparr>) = is_writer c" "pending (c\<lparr>cl_phase := p\<rparr>) = pending c" "single_write (c\<lparr>cl_phase := p\<rparr>) = single_write c"
  by (simp_all add: is_writer.simps pending_def single_write_def)

lemma role_cases [simp]:
  "cl_role c = Writer items pushed \<Longrightarrow> is_writer c" "cl_role c = Reader n got \<Longrightarrow> \<not> is_writer c"
  "is_writer (c\<lparr>cl_role := Writer items pushed\<rparr>)" "\<not> is_writer (c\<lparr>cl_role := Reader n got\<rparr>)"
  "pending (c\<lparr>cl_role := Writer items pushed\<rparr>) = (pushed < length items)"
  "pending (c\<lparr>cl_role := Reader n got\<rparr>) = (length got < n)"
  by (simp_all add: is_writer.simps pending_def)

lemma wake_update:
  assumes w: "wake nd ts" and i: "i < length ts" and c: "shaped c"
    and b: "\<And>b. nd' b = 0 \<or> \<not> parked_on b c \<and>
      nd' b + (if awake_on b (ts ! i) then 1 else 0) \<le> nd b + (if awake_on b c then 1 else 0)"
  shows "wake nd' (ts[i := c])"
  unfolding wake_def
proof (intro conjI allI impI)
  show "list_all shaped (ts[i := c])" using w c by (simp add: wake_def list_all_update)
  fix b assume ex: "list_ex (parked_on b) (ts[i := c])"
  show "nd' b \<le> awake_count b (ts[i := c])"
  proof (cases "nd' b = 0")
    case False
    then have "list_ex (parked_on b) ts" using b [of b] list_ex_update [OF ex] by auto
    then have "nd b \<le> awake_count b ts" using w by (simp add: wake_def)
    then show ?thesis
      using length_filter_update [OF i, of "awake_on b" c] b [of b] False by (auto simp: awake_count_def split: if_splits)
  qed simp
qed

text \<open>A signal pays for one more item, or one more free slot.\<close>

lemma wake_signal:
  assumes w: "wake nd (ch_threads s)" and sg: "signal b k s = Some s'"
  shows "wake (nd(b := nd b + 1)) (ch_threads s')"
proof (cases k)
  case None
  then have s': "s' = s" "\<not> list_ex (parked_on b) (ch_threads s)" using sg by (simp_all add: signal_def split: if_splits)
  then show ?thesis using w by (auto simp: wake_def)
next
  case (Some j)
  then have j: "j < length (ch_threads s)" "parked_on b (ch_threads s ! j)"
      "s' = set_thread j ((ch_threads s ! j)\<lparr>cl_phase := Woken\<rparr>) s"
    using sg by (simp_all add: signal_def split: if_splits)
  have sh: "shaped (ch_threads s ! j)" using w j(1) by (simp add: wake_def list_all_length)
  then have "shaped ((ch_threads s ! j)\<lparr>cl_phase := Woken\<rparr>)" "pending (ch_threads s ! j)"
    using j(2) by (auto simp: shaped_def single_write_def parked_on_def split: role.splits)
  then show ?thesis
    unfolding j(3) set_thread_simps using j(1,2)
    by (intro wake_update [OF w]) (auto simp: parked_on_def awake_on_def pending_def)
qed

lemma shaped_phase: "shaped c \<Longrightarrow> p \<noteq> Parked \<Longrightarrow> shaped (c\<lparr>cl_phase := p\<rparr>)"
  by (simp add: shaped_def single_write_def)

lemma wake_shaped: "wake nd ts \<Longrightarrow> i < length ts \<Longrightarrow> shaped (ts ! i)"
  by (simp add: wake_def list_all_length)

lemma wake_finish:
  assumes "wake nd (ch_threads s)" "i < length (ch_threads s)" "c = ch_threads s ! i"
    and "\<not> pending c \<or> nd (is_writer c) = 0"
  shows "wake nd (ch_threads (finish i c r s))"
proof -
  have "wake nd ((ch_threads s)[i := c\<lparr>cl_phase := Finished r\<rparr>])"
  proof (rule wake_update [OF assms(1,2)])
    show "shaped (c\<lparr>cl_phase := Finished r\<rparr>)" using wake_shaped [OF assms(1,2)] assms(3) by (simp add: shaped_phase)
    fix b show "nd b = 0 \<or> \<not> parked_on b (c\<lparr>cl_phase := Finished r\<rparr>) \<and>
        nd b + (if awake_on b (ch_threads s ! i) then 1 else 0) \<le> nd b + (if awake_on b (c\<lparr>cl_phase := Finished r\<rparr>) then 1 else 0)"
      using assms(3,4) by (auto simp: awake_on_def parked_on_def)
  qed
  then show ?thesis by (simp add: finish_def)
qed

lemma wake_park:
  assumes "wake nd (ch_threads s)" "i < length (ch_threads s)" "c = ch_threads s ! i"
    and "pending c" "nd (is_writer c) = 0"
  shows "wake nd (ch_threads (park i c s))"
proof -
  have "wake nd ((ch_threads s)[i := c\<lparr>cl_phase := Parked\<rparr>])"
  proof (rule wake_update [OF assms(1,2)])
    show "shaped (c\<lparr>cl_phase := Parked\<rparr>)"
      using wake_shaped [OF assms(1,2)] assms(3,4) by (simp add: shaped_def single_write_def pending_def)
    fix b show "nd b = 0 \<or> \<not> parked_on b (c\<lparr>cl_phase := Parked\<rparr>) \<and>
        nd b + (if awake_on b (ch_threads s ! i) then 1 else 0) \<le> nd b + (if awake_on b (c\<lparr>cl_phase := Parked\<rparr>) then 1 else 0)"
      using assms(3,5) by (cases "is_writer c = b") (auto simp: awake_on_def parked_on_def)
  qed
  then show ?thesis by (simp add: park_def)
qed

lemma write_round_wake:
  assumes ok: "chan_ok m s xs" and wk: "wake (need m (length xs)) (ch_threads s)"
    and i: "i < length (ch_threads s)" "cl_phase (ch_threads s ! i) = Running"
    and role: "cl_role (ch_threads s ! i) = Writer items pushed"
    and step: "write_round (StaticBuffer m) t i w (ch_threads s ! i) items pushed s = Some (ins, outs, s')"
  shows "wake (need m (length xs + length ins - length outs)) (ch_threads s')"
proof (cases "length items \<le> pushed")
  case True
  then show ?thesis using step wk i role by (auto simp: write_round_def pending_def intro!: wake_finish)
next
  case False
  have one: "length items = 1" using wake_shaped [OF wk i(1)] role by (simp add: shaped_def single_write_def)
  have cl: "\<not> ch_is_closed s" and h: "fifo_holds (StaticBuffer m) (ch_buffer s) xs" using ok by (simp_all add: chan_ok_def)
  have pend: "pending (ch_threads s ! i)" using False role by (simp add: pending_def)
  obtain r f where w: "fifo_write (StaticBuffer m) t items (ch_buffer s) = Some (r, f)"
    using sq.put_returns [OF h] by blast
  show ?thesis
  proof (cases "length xs + length items \<le> m")
    case True
    then have r: "r = AllocOk" using sq.put_result [OF h w] by simp
    obtain s2 where s2: "signal False w (s\<lparr>ch_buffer := f\<rparr>) = Some s2"
        "ins = items" "outs = []" "s' = set_thread i ((ch_threads s ! i)\<lparr>cl_role := Writer items (pushed + 1)\<rparr>) s2"
      using step False cl w r by (auto simp: write_round_def bind_eq_Some_conv)
    note sf = signal_fields [OF s2(1), simplified]
    have same: "ch_threads s2 ! i = ch_threads s ! i" using sf(5) i by simp
    have w2: "wake ((need m (length xs))(False := length xs + 1)) (ch_threads s2)"
      using wake_signal [OF _ s2(1), of "need m (length xs)"] wk by (simp add: need_def)
    have "wake (need m (length xs + 1)) ((ch_threads s2)[i := (ch_threads s ! i)\<lparr>cl_role := Writer items (pushed + 1)\<rparr>])"
      using i sf(4) same one False True role
      by (intro wake_update [OF w2])
        (auto simp: shaped_def single_write_def parked_on_def awake_on_def pending_def need_def split: if_splits)
    then show ?thesis using s2 one by simp
  next
    case full: False
    then have r: "r = AllocError" "f = ch_buffer s" using sq.put_result [OF h w] by simp_all
    have "length xs \<le> m" using fifo_bounds [OF h] h by (simp add: fifo_holds_def kind_len_def)
    then have z: "need m (length xs) (is_writer (ch_threads s ! i)) = 0" using full one role by (simp add: need_def)
    have "s\<lparr>ch_buffer := ch_buffer s\<rparr> = s" by simp
    then show ?thesis
      using step False cl w r wk i z pend
      by (auto simp: write_round_def Let_def split: if_splits intro!: wake_finish wake_park)
  qed
qed

lemma read_round_wake:
  assumes ok: "chan_ok m s xs" and wk: "wake (need m (length xs)) (ch_threads s)"
    and i: "i < length (ch_threads s)" "cl_phase (ch_threads s ! i) = Running"
    and role: "cl_role (ch_threads s ! i) = Reader n got"
    and step: "read_round (StaticBuffer m) i w (ch_threads s ! i) n got s = Some (ins, outs, s')"
  shows "wake (need m (length xs + length ins - length outs)) (ch_threads s')"
proof (cases "n \<le> length got \<or> xs = []")
  case True
  have "readable_length (ch_buffer s) = length xs" "\<not> ch_is_closed s"
    using ok fifo_bounds by (fastforce simp: chan_ok_def readable_length_def)+
  then show ?thesis
    using step wk i True role
    by (auto simp: read_round_def pending_def need_def split: if_splits intro!: wake_finish wake_park)
next
  case False
  have cl: "\<not> ch_is_closed s" and h: "fifo_holds (StaticBuffer m) (ch_buffer s) xs" using ok by (simp_all add: chan_ok_def)
  have len: "readable_length (ch_buffer s) \<noteq> 0" using fifo_bounds [OF h] False by (simp add: readable_length_def)
  have xm: "length xs \<le> m" "0 < length xs" using fifo_bounds [OF h] h False by (simp_all add: fifo_holds_def kind_len_def)
  obtain x ys where xs: "xs = x # ys" using False by (cases xs) auto
  obtain f where f: "read_item (StaticBuffer m) (ch_buffer s) = Some (Some x, f)" "fifo_holds (StaticBuffer m) f ys"
    using read_item_holds [OF h] xs by auto
  obtain s2 where s2: "signal True w (s\<lparr>ch_buffer := f\<rparr>) = Some s2"
      "ins = []" "outs = [x]" "s' = set_thread i ((ch_threads s ! i)\<lparr>cl_role := Reader n (got @ [x])\<rparr>) s2"
    using step False len f by (auto simp: read_round_def bind_eq_Some_conv)
  note sf = signal_fields [OF s2(1), simplified]
  have same: "ch_threads s2 ! i = ch_threads s ! i" using sf(5) i by simp
  have w2: "wake ((need m (length xs))(True := m - length xs + 1)) (ch_threads s2)"
    using wake_signal [OF _ s2(1), of "need m (length xs)"] wk by (simp add: need_def)
  have "wake (need m (length xs - 1)) ((ch_threads s2)[i := (ch_threads s ! i)\<lparr>cl_role := Reader n (got @ [x])\<rparr>])"
    using i sf(4) same xm role False
    by (intro wake_update [OF w2])
      (auto simp: shaped_def single_write_def parked_on_def awake_on_def pending_def need_def split: if_splits)
  then show ?thesis using s2 by simp
qed

lemma chan_event_wake:
  assumes ok: "chan_ok m s xs" and wk: "wake (need m (length xs)) (ch_threads s)"
    and step: "chan_event (StaticBuffer m) t e s = Some (ins, outs, s')"
  shows "wake (need m (length xs + length ins - length outs)) (ch_threads s')"
proof (cases e)
  case (Acquire i)
  then have e: "i < length (ch_threads s)" "cl_phase (ch_threads s ! i) = Start \<or> cl_phase (ch_threads s ! i) = Woken"
      "ins = []" "outs = []" "ch_threads s' = (ch_threads s)[i := (ch_threads s ! i)\<lparr>cl_phase := Running\<rparr>]"
    using step by (auto split: if_splits)
  then show ?thesis
    using wake_shaped [OF wk e(1)]
    by (simp, intro wake_update [OF wk]) (auto simp: shaped_phase parked_on_def awake_on_def pending_def)
next
  case (Iterate i w)
  then show ?thesis
    using step write_round_wake [OF ok wk] read_round_wake [OF ok wk] by (auto split: if_splits role.splits)
next
  case (Spurious i)
  then have e: "i < length (ch_threads s)" "cl_phase (ch_threads s ! i) = Parked"
      "ins = []" "outs = []" "ch_threads s' = (ch_threads s)[i := (ch_threads s ! i)\<lparr>cl_phase := Woken\<rparr>]"
    using step by (auto split: if_splits)
  then show ?thesis
    using wake_shaped [OF wk e(1)]
    by (simp, intro wake_update [OF wk]) (auto simp: shaped_phase parked_on_def awake_on_def pending_def)
qed


lemma chan_run_wake:
  "chan_ok m s xs \<Longrightarrow> wake (need m (length xs)) (ch_threads s) \<Longrightarrow>
   chan_run (StaticBuffer m) t es s = Some (ins, outs, s') \<Longrightarrow>
   \<exists>xs'. chan_ok m s' xs' \<and> wake (need m (length xs')) (ch_threads s')"
proof (induction es arbitrary: s xs ins outs)
  case (Cons e es)
  obtain i1 o1 s1 i2 o2 where e: "chan_event (StaticBuffer m) t e s = Some (i1, o1, s1)"
      "chan_run (StaticBuffer m) t es s1 = Some (i2, o2, s')"
    using Cons.prems(3) by (auto simp: bind_eq_Some_conv)
  obtain xs1 where x1: "xs @ i1 = o1 @ xs1" "chan_ok m s1 xs1" using chan_event_ok [OF Cons.prems(1) e(1)] by blast
  have "length xs1 = length xs + length i1 - length o1" using arg_cong [OF x1(1), of length] by simp
  then have "wake (need m (length xs1)) (ch_threads s1)"
    using chan_event_wake [OF Cons.prems(1,2) e(1)] by simp
  then show ?case using Cons.IH [OF x1(2) _ e(2)] by blast
qed auto

lemma chan_ok_len: "chan_ok m s xs \<Longrightarrow> lf_count (ch_buffer s) = length xs \<and> length xs \<le> m"
  using fifo_bounds(1,2) [of "StaticBuffer m" "ch_buffer s" xs] by (auto simp: chan_ok_def fifo_holds_def kind_len_def)

subsection \<open>Progress\<close>

lemma write_round_returns:
  assumes ok: "chan_ok m s xs"
  shows "\<exists>w r. write_round (StaticBuffer m) t i w c items pushed s = Some r"
proof -
  have h: "fifo_holds (StaticBuffer m) (ch_buffer s) xs" using ok by (simp add: chan_ok_def)
  obtain r f where w: "fifo_write (StaticBuffer m) t items (ch_buffer s) = Some (r, f)"
    using sq.put_returns [OF h] by blast
  obtain k s2 where "signal False k (s\<lparr>ch_buffer := f\<rparr>) = Some s2" using signal_enabled by blast
  then show ?thesis using w by (intro exI [of _ k]) (auto simp: write_round_def Let_def split: alloc_result.splits)
qed

lemma read_round_returns:
  assumes ok: "chan_ok m s xs"
  shows "\<exists>w r. read_round (StaticBuffer m) i w c n got s = Some r"
proof -
  have h: "fifo_holds (StaticBuffer m) (ch_buffer s) xs" using ok by (simp add: chan_ok_def)
  obtain x f where w: "read_item (StaticBuffer m) (ch_buffer s) = Some (x, f)" using read_item_holds [OF h] by auto
  obtain k s2 where "signal True k (s\<lparr>ch_buffer := f\<rparr>) = Some s2" using signal_enabled by blast
  then show ?thesis using w by (intro exI [of _ k]) (auto simp: read_round_def split: option.splits)
qed

definition enabled :: "buffer_kind \<Rightarrow> nat \<Rightarrow> 'a channel \<Rightarrow> event \<Rightarrow> bool" where
  "enabled kind t s e \<longleftrightarrow> chan_event kind t e s \<noteq> None \<and> (\<forall>i. e \<noteq> Spurious i)"

lemma progress:
  assumes ok: "chan_ok m s xs"
    and c: "j < length (ch_threads s)" "cl_phase (ch_threads s ! j) \<in> {Start, Running, Woken}"
  shows "\<exists>e. enabled (StaticBuffer m) t s e"
proof (cases "ch_mutex s")
  case None
  then have "enabled (StaticBuffer m) t s (Acquire j)" using ok c by (auto simp: enabled_def chan_ok_def mutex_ok_def)
  then show ?thesis ..
next
  case (Some i)
  then have i: "i < length (ch_threads s)" "cl_phase (ch_threads s ! i) = Running"
    using ok by (auto simp: chan_ok_def mutex_ok_def)
  have "\<exists>w. chan_event (StaticBuffer m) t (Iterate i w) s \<noteq> None"
    using i write_round_returns [OF ok] read_round_returns [OF ok] by (cases "cl_role (ch_threads s ! i)") auto
  then show ?thesis unfolding enabled_def by blast
qed

lemma stuck_state:
  assumes ok: "chan_ok m s xs" and m: "0 < m" and wk: "wake (need m (length xs)) (ch_threads s)"
    and st: "\<And>c. c \<in> set (ch_threads s) \<Longrightarrow> cl_phase c \<notin> {Start, Running, Woken}"
    and c: "c \<in> set (ch_threads s)" "cl_phase c = Parked"
  shows "length xs = (if is_writer c then m else 0)"
proof -
  have "awake_count b (ch_threads s) = 0" for b
    using st by (auto simp: awake_count_def awake_on_def filter_empty_conv)
  moreover have "list_ex (parked_on (is_writer c)) (ch_threads s)"
    using c by (auto simp: list_ex_iff parked_on_def)
  ultimately have "need m (length xs) (is_writer c) = 0" using wk by (auto simp: wake_def)
  moreover have "length xs \<le> m" using chan_ok_len [OF ok] by simp
  ultimately show ?thesis by (auto simp: need_def split: if_splits)
qed

lemma write_items_rounds:
  assumes "chan_ok m s xs" "length xs + n * length items \<le> m"
    and "ch_threads s = [\<lparr>cl_role = Writer items pushed, cl_should_block = b, cl_phase = Running\<rparr>]" "pushed + n = length items"
  shows "\<exists>s'. chan_run (StaticBuffer m) t (replicate (n + 1) (Iterate 0 None)) s =
      Some (concat (replicate n items), [], s') \<and> map cl_phase (ch_threads s') = [Finished (Inr (length items))]"
  using assms
proof (induction n arbitrary: s xs pushed)
  case 0
  then show ?case by (auto simp: write_round_def finish_def)
next
  case (Suc n)
  have h: "fifo_holds (StaticBuffer m) (ch_buffer s) xs" using Suc.prems by (simp add: chan_ok_def)
  have fits: "length xs + length items \<le> m" using Suc.prems(2) by simp
  obtain f where f: "fifo_write (StaticBuffer m) t items (ch_buffer s) = Some (AllocOk, f)"
    using sq.put_fits [OF h fits] by blast
  define s1 where "s1 = s\<lparr>ch_buffer := f, ch_threads := [\<lparr>cl_role = Writer items (pushed + 1), cl_should_block = b, cl_phase = Running\<rparr>]\<rparr>"
  have e: "chan_event (StaticBuffer m) t (Iterate 0 None) s = Some (items, [], s1)"
    using Suc.prems(1,3,4) f
    by (simp add: chan_ok_def write_round_def signal_def parked_on_def set_thread_def s1_def)
  obtain xs1 where x1: "xs @ items = [] @ xs1" "chan_ok m s1 xs1"
    using chan_event_ok [OF Suc.prems(1) e] by blast
  define es where "es = replicate (n + 1) (Iterate 0 None)"
  have es: "replicate (Suc n + 1) (Iterate 0 None) = Iterate 0 None # es" by (simp add: es_def)
  obtain s' where "chan_run (StaticBuffer m) t es s1 = Some (concat (replicate n items), [], s')"
      "map cl_phase (ch_threads s') = [Finished (Inr (length items))]"
    using Suc.IH [OF x1(2), of "pushed + 1"] Suc.prems(2,4) x1(1) unfolding es_def by (auto simp: s1_def simp del: replicate.simps)
  then show ?case unfolding es chan_run.simps e by simp
qed

lemma write_items_run:
  assumes "0 < m" "m < 2 ^ 63" "length items * length items \<le> m"
  shows "\<exists>s. chan_run (StaticBuffer m) t (Acquire 0 # replicate (length items + 1) (Iterate 0 None))
      (init_static m [write_items_call items b]) = Some (concat (replicate (length items) items), [], s) \<and>
    map cl_phase (ch_threads s) = [Finished (Inr (length items))]"
proof -
  define s1 where "s1 = (init_static m [write_items_call items b])\<lparr>ch_mutex := Some 0,
    ch_threads := [\<lparr>cl_role = Writer items 0, cl_should_block = b, cl_phase = Running\<rparr>]\<rparr>"
  have ok: "chan_ok m (init_static m [write_items_call items b]) []"
    using assms(1,2) by (intro init_static_ok) (simp_all add: write_items_call_def)
  have e: "chan_event (StaticBuffer m) t (Acquire 0) (init_static m [write_items_call items b]) = Some ([], [], s1)"
    by (simp add: s1_def init_static_def write_items_call_def set_thread_def)
  have "chan_ok m s1 []" using chan_event_ok [OF ok e] by simp
  from write_items_rounds [OF this, of "length items" items 0 b t] assms(3)
  obtain s where "chan_run (StaticBuffer m) t (replicate (length items + 1) (Iterate 0 None)) s1 =
      Some (concat (replicate (length items) items), [], s)" "map cl_phase (ch_threads s) = [Finished (Inr (length items))]"
    by (auto simp: s1_def)
  then show ?thesis unfolding chan_run.simps e by simp
qed

subsection \<open>Properties\<close>

text \<open>
  C18: The channel delivers in order and loses nothing. Under every interleaving of any calls of
  \<open>write_items\<close> and \<open>read_items\<close>, the items taken out so far are a prefix of the items put in, the
  rest, at most the capacity, is in the buffer, and at most one thread is inside a critical section.
\<close>

theorem channel_delivers_in_order:
  assumes "0 < m" "m < 2 ^ 63" "list_all (\<lambda>c. cl_phase c = Start) calls"
    and "chan_run (StaticBuffer m) t es (init_static m calls) = Some (ins, outs, s)"
  shows "\<exists>xs. ins = outs @ xs \<and> length xs \<le> m \<and> fifo_holds (StaticBuffer m) (ch_buffer s) xs \<and>
    (\<forall>i j. i < length (ch_threads s) \<and> j < length (ch_threads s) \<and> cl_phase (ch_threads s ! i) = Running \<and>
       cl_phase (ch_threads s ! j) = Running \<longrightarrow> i = j)"
proof -
  have "chan_ok m (init_static m calls) []" using assms(1,2,3) by (intro init_static_ok) (simp_all add: list_all_iff)
  from chan_run_ok [OF this assms(4)] obtain xs where xs: "ins = outs @ xs" "chan_ok m s xs" by auto
  moreover have "length xs \<le> m" using chan_ok_len [OF xs(2)] by simp
  ultimately show ?thesis by (auto simp: chan_ok_def mutex_ok_def)
qed

theorem channel_delivers_in_order_witness:
  "\<exists>s xs. chan_run (StaticBuffer 4) 8 (Acquire 0 # replicate (length [1, 2 :: nat] + 1) (Iterate 0 None))
      (init_static 4 [write_items_call [1, 2 :: nat] True]) = Some (concat (replicate (length [1, 2 :: nat]) [1, 2]), [], s) \<and>
    concat (replicate (length [1, 2 :: nat]) [1, 2 :: nat]) = [] @ xs \<and> length xs \<le> 4 \<and>
    fifo_holds (StaticBuffer 4) (ch_buffer s) xs"
proof -
  have "\<exists>s. chan_run (StaticBuffer 4) 8 (Acquire 0 # replicate (length [1, 2 :: nat] + 1) (Iterate 0 None))
      (init_static 4 [write_items_call [1, 2 :: nat] True]) = Some (concat (replicate (length [1, 2 :: nat]) [1, 2]), [], s) \<and>
      map cl_phase (ch_threads s) = [Finished (Inr (length [1, 2 :: nat]))]"
    by (rule write_items_run) simp_all
  then obtain s where s: "chan_run (StaticBuffer 4) 8 (Acquire 0 # replicate (length [1, 2 :: nat] + 1) (Iterate 0 None))
      (init_static 4 [write_items_call [1, 2 :: nat] True]) = Some (concat (replicate (length [1, 2 :: nat]) [1, 2]), [], s)"
    by blast
  have "list_all (\<lambda>c. cl_phase c = Start) [write_items_call [1, 2 :: nat] True]" by (simp add: write_items_call_def)
  then have "(0 :: nat) < 4 \<Longrightarrow> (4 :: nat) < 2 ^ 63 \<Longrightarrow> ?thesis"
    using channel_delivers_in_order [OF _ _ _ s] s by blast
  then show ?thesis by (simp only: zero_less_numeral) simp
qed

text \<open>
  C19: No wake-up is lost. When every write is of one item, as the public \<open>write_item\<close> makes it, and no
  thread can take a step of its own, every thread is finished or parked; a parked reader then means
  that the buffer is empty and a parked writer that it is full, so readers and writers are never both
  left waiting.
\<close>

theorem channel_no_lost_wakeup:
  assumes "0 < m" "m < 2 ^ 63" "list_all (\<lambda>c. cl_phase c = Start \<and> single_write c) calls"
    and "chan_run (StaticBuffer m) t es (init_static m calls) = Some (ins, outs, s)"
    and stuck: "\<nexists>e. enabled (StaticBuffer m) t s e"
    and c: "c \<in> set (ch_threads s)" "\<nexists>r. cl_phase c = Finished r"
  shows "cl_phase c = Parked \<and> lf_count (ch_buffer s) = (if is_writer c then m else 0)"
proof -
  have w0: "wake (need m (length [])) (ch_threads (init_static m calls))"
    using assms(3) by (auto simp: wake_def init_static_def shaped_def parked_on_def list_all_iff list_ex_iff)
  have "chan_ok m (init_static m calls) []" using assms(1,2,3) by (intro init_static_ok) (simp_all add: list_all_iff)
  from chan_run_wake [OF this w0 assms(4)]
  obtain xs where ok: "chan_ok m s xs" and wk: "wake (need m (length xs)) (ch_threads s)" by blast
  have st: "cl_phase d \<notin> {Start, Running, Woken}" if "d \<in> set (ch_threads s)" for d
    using progress [OF ok] stuck that by (auto simp: in_set_conv_nth)
  then have "cl_phase c = Parked" using c by (cases "cl_phase c") auto
  moreover have "lf_count (ch_buffer s) = length xs" using chan_ok_len [OF ok] by simp
  ultimately show ?thesis using stuck_state [OF ok assms(1) wk st c(1)] by simp
qed

theorem channel_no_lost_wakeup_witness:
  "\<exists>s. chan_run (StaticBuffer 1) 8 [Acquire 0, Iterate 0 None] (init_static 1 [read_item_call :: nat call]) = Some ([], [], s) \<and>
    cl_phase (ch_threads s ! 0) = Parked \<and> lf_count (ch_buffer s) = (if is_writer (ch_threads s ! 0) then 1 else 0)"
proof -
  define c where "c = (read_item_call :: nat call)\<lparr>cl_phase := Parked\<rparr>"
  define s where "s = (init_static 1 [c])"
  have r: "chan_run (StaticBuffer 1) 8 [Acquire 0, Iterate 0 None] (init_static 1 [read_item_call :: nat call]) = Some ([], [], s)"
    by (simp add: s_def c_def init_static_def read_item_call_def read_items_call_def set_thread_def read_round_def
      readable_length_def fifo_init_def park_def)
  have "\<not> enabled (StaticBuffer 1) 8 s e" for e
    by (cases e) (auto simp: enabled_def s_def c_def init_static_def)
  then have "cl_phase c = Parked \<and> lf_count (ch_buffer s) = (if is_writer c then 1 else 0)"
    using r by (intro channel_no_lost_wakeup [OF _ _ _ r])
      (auto simp: s_def c_def init_static_def read_item_call_def read_items_call_def single_write_def)
  then show ?thesis using r by (auto simp: s_def init_static_def)
qed



end
