(* ===== verification/RwLock.thy ===== *)
theory RwLock
  imports Prelude
begin

text \<open>
  The reader-writer lock (\<open>src/src/threading/RwLock.rs\<close>): the atomic word \<open>state\<close> with the writing bit
  and the two counts, the mutex and the semaphore. Each thread is at a program point of \<open>lock\<close>,
  \<open>unlock\<close>, \<open>lock_shared\<close> or \<open>unlock_shared\<close>; an event is one atomic operation of one thread, in any
  order. The operations on \<open>state\<close> are sequentially consistent. \<open>Mutex\<close> is its holder, \<open>Semaphore\<close> its
  permits. \<open>usize\<close> is 64 bits.
\<close>

subsection \<open>The state word\<close>

definition COUNT_BITS :: nat where "COUNT_BITS = (64 - 1) div 2"

definition COUNT_MAX :: u64 where "COUNT_MAX = push_bit COUNT_BITS 1 - 1"

definition IS_WRITING :: u64 where "IS_WRITING = 1"

definition WRITER :: u64 where "WRITER = push_bit 1 1"

definition READER :: u64 where "READER = push_bit (1 + COUNT_BITS) 1"

definition WRITER_MASK :: u64 where "WRITER_MASK = push_bit 1 COUNT_MAX"

definition READER_MASK :: u64 where "READER_MASK = push_bit (1 + COUNT_BITS) COUNT_MAX"

subsection \<open>Threads\<close>

text \<open>
  The program points. \<open>W\<close>: waiting for the mutex, before the announcement, waiting on the semaphore,
  holding the lock, before releasing the mutex. \<open>R\<close>: in the compare-exchange loop with the value
  loaded, waiting for the mutex, before adding the reader, before releasing the mutex, holding the
  lock, before the post.
\<close>

datatype pc = Idle | WMutex | WAnnounce | WWait | WHeld | WRelease
  | RTry u64 | RMutex | RAdd | RRelease | RHeld | RPost

record raw_rw_lock =
  rw_state :: u64
  rw_mutex :: "nat option"
  rw_permits :: nat
  rw_pcs :: "pc list"

definition rw_new :: "nat \<Rightarrow> raw_rw_lock" where
  "rw_new n = \<lparr>rw_state = 0, rw_mutex = None, rw_permits = 0, rw_pcs = replicate n Idle\<rparr>"

datatype choice = Lock | LockShared | Unlock | Go | WeakFail

definition set_pc :: "nat \<Rightarrow> pc \<Rightarrow> raw_rw_lock \<Rightarrow> raw_rw_lock" where
  "set_pc i p s = s\<lparr>rw_pcs := (rw_pcs s)[i := p]\<rparr>"

definition take_mutex :: "nat \<Rightarrow> pc \<Rightarrow> raw_rw_lock \<Rightarrow> raw_rw_lock option" where
  "take_mutex i p s = (if rw_mutex s = None then Some ((set_pc i p s)\<lparr>rw_mutex := Some i\<rparr>) else None)"

subsection \<open>The steps of the four operations\<close>

fun lock_step :: "nat \<Rightarrow> pc \<Rightarrow> raw_rw_lock \<Rightarrow> raw_rw_lock option" where
  "lock_step i Idle s = Some ((set_pc i WMutex s)\<lparr>rw_state := rw_state s + WRITER\<rparr>)"
| "lock_step i WMutex s = take_mutex i WAnnounce s"
| "lock_step i WAnnounce s =
     Some ((set_pc i (if rw_state s AND READER_MASK \<noteq> 0 then WWait else WHeld) s)
       \<lparr>rw_state := rw_state s + (IS_WRITING - WRITER)\<rparr>)"
| "lock_step i WWait s = (if 0 < rw_permits s then Some ((set_pc i WHeld s)\<lparr>rw_permits := rw_permits s - 1\<rparr>) else None)"
| "lock_step i _ s = None"

fun unlock_step :: "nat \<Rightarrow> pc \<Rightarrow> raw_rw_lock \<Rightarrow> raw_rw_lock option" where
  "unlock_step i WHeld s = Some ((set_pc i WRelease s)\<lparr>rw_state := rw_state s AND NOT IS_WRITING\<rparr>)"
| "unlock_step i WRelease s = Some ((set_pc i Idle s)\<lparr>rw_mutex := None\<rparr>)"
| "unlock_step i _ s = None"

text \<open>The condition of the loop, and its compare-exchange, which may fail without a reason.\<close>

definition no_writer :: "u64 \<Rightarrow> bool" where
  "no_writer st \<longleftrightarrow> st AND (IS_WRITING OR WRITER_MASK) = 0"

fun lock_shared_step :: "nat \<Rightarrow> bool \<Rightarrow> pc \<Rightarrow> raw_rw_lock \<Rightarrow> raw_rw_lock option" where
  "lock_shared_step i weak Idle s = Some (set_pc i (RTry (rw_state s)) s)"
| "lock_shared_step i weak (RTry st) s =
     (if no_writer st
      then (if rw_state s = st \<and> \<not> weak then Some ((set_pc i RHeld s)\<lparr>rw_state := st + READER\<rparr>)
            else Some (set_pc i (RTry (rw_state s)) s))
      else Some (set_pc i RMutex s))"
| "lock_shared_step i weak RMutex s = take_mutex i RAdd s"
| "lock_shared_step i weak RAdd s = Some ((set_pc i RRelease s)\<lparr>rw_state := rw_state s + READER\<rparr>)"
| "lock_shared_step i weak RRelease s = Some ((set_pc i RHeld s)\<lparr>rw_mutex := None\<rparr>)"
| "lock_shared_step i weak _ s = None"

fun unlock_shared_step :: "nat \<Rightarrow> pc \<Rightarrow> raw_rw_lock \<Rightarrow> raw_rw_lock option" where
  "unlock_shared_step i RHeld s =
     (let st = rw_state s in
      Some ((set_pc i (if st AND READER_MASK = READER \<and> st AND IS_WRITING \<noteq> 0 then RPost else Idle) s)
        \<lparr>rw_state := st - READER\<rparr>))"
| "unlock_shared_step i RPost s = Some ((set_pc i Idle s)\<lparr>rw_permits := rw_permits s + 1\<rparr>)"
| "unlock_shared_step i _ s = None"

subsection \<open>Events\<close>

text \<open>
  \<open>Lock\<close>, \<open>LockShared\<close> and \<open>Unlock\<close> start an operation, \<open>Go\<close> continues the one the thread is in,
  \<open>WeakFail\<close> is a spurious failure of the compare-exchange.
\<close>

fun pc_step :: "nat \<Rightarrow> choice \<Rightarrow> pc \<Rightarrow> raw_rw_lock \<Rightarrow> raw_rw_lock option" where
  "pc_step i Lock p s = (if p = Idle then lock_step i p s else None)"
| "pc_step i LockShared p s = (if p = Idle then lock_shared_step i False p s else None)"
| "pc_step i Unlock p s =
     (if p = WHeld then unlock_step i p s else if p = RHeld then unlock_shared_step i p s else None)"
| "pc_step i WeakFail p s = (case p of RTry st \<Rightarrow> (if no_writer st then lock_shared_step i True p s else None) | _ \<Rightarrow> None)"
| "pc_step i Go p s =
     (case p of Idle \<Rightarrow> None | WHeld \<Rightarrow> None | RHeld \<Rightarrow> None
      | WMutex \<Rightarrow> lock_step i p s | WAnnounce \<Rightarrow> lock_step i p s | WWait \<Rightarrow> lock_step i p s
      | WRelease \<Rightarrow> unlock_step i p s
      | RPost \<Rightarrow> unlock_shared_step i p s
      | _ \<Rightarrow> lock_shared_step i False p s)"

definition rw_event :: "nat \<times> choice \<Rightarrow> raw_rw_lock \<Rightarrow> raw_rw_lock option" where
  "rw_event e s = (if fst e < length (rw_pcs s) then pc_step (fst e) (snd e) (rw_pcs s ! fst e) s else None)"

fun rw_run :: "(nat \<times> choice) list \<Rightarrow> raw_rw_lock \<Rightarrow> raw_rw_lock option" where
  "rw_run [] s = Some s"
| "rw_run (e # es) s = (case rw_event e s of None \<Rightarrow> None | Some s' \<Rightarrow> rw_run es s')"

inductive rw_reachable :: "nat \<Rightarrow> raw_rw_lock \<Rightarrow> bool" for n where
  start: "rw_reachable n (rw_new n)"
| step: "rw_reachable n s \<Longrightarrow> rw_event e s = Some s' \<Longrightarrow> rw_reachable n s'"


subsection \<open>The encoding of the counts\<close>

text \<open>The word for the writing bit \<open>w\<close>, \<open>p\<close> pending writers and \<open>r\<close> readers.\<close>

definition enc :: "nat \<Rightarrow> nat \<Rightarrow> nat \<Rightarrow> u64" where
  "enc w p r = of_nat (w + 2 * p + 2 ^ 32 * r)"

definition counts_fit :: "nat \<Rightarrow> nat \<Rightarrow> nat \<Rightarrow> bool" where
  "counts_fit w p r \<longleftrightarrow> w \<le> 1 \<and> p < 2 ^ 31 \<and> r < 2 ^ 31"

lemma unat_enc: "counts_fit w p r \<Longrightarrow> unat (enc w p r) = w + 2 * p + 2 ^ 32 * r"
proof -
  assume "counts_fit w p r"
  then have "w + 2 * p + 2 ^ 32 * r < 2 ^ 64" by (simp add: counts_fit_def)
  then show ?thesis unfolding enc_def unsigned_of_nat by (simp add: take_bit_nat_eq_self)
qed

lemma word_consts: "WRITER = 2" "READER = 2 ^ 32" "IS_WRITING = 1"
  "WRITER_MASK = push_bit 1 (mask 31)" "READER_MASK = push_bit 32 (mask 31)"
  by (simp_all add: WRITER_def READER_def IS_WRITING_def WRITER_MASK_def READER_MASK_def COUNT_MAX_def COUNT_BITS_def
      push_bit_eq_mult mask_eq_exp_minus_1)

lemma and_push_mask: "x AND push_bit n (mask k) = push_bit n (take_bit k (drop_bit n (x :: u64)))"
  by (rule bit_eqI) (auto simp: bit_simps)

lemma and_not_mask: "x AND NOT (mask n) = push_bit n (drop_bit n (x :: u64))"
  by (rule bit_eqI) (auto simp: bit_simps)

lemma readers_field:
  assumes "counts_fit w p r"
  shows "enc w p r AND READER_MASK = push_bit 32 (of_nat r)"
proof -
  have "unat (drop_bit 32 (enc w p r)) = r"
  proof -
    have "unat (drop_bit 32 (enc w p r)) = unat (enc w p r) div 2 ^ 32"
      by (simp add: drop_bit_eq_div unat_div)
    then show ?thesis using assms by (simp add: unat_enc counts_fit_def)
  qed
  then have "drop_bit 32 (enc w p r) = of_nat r" using assms by (simp add: word_unat_eq_iff unat_of_nat take_bit_nat_eq_self counts_fit_def)
  moreover have "take_bit 31 (of_nat r :: u64) = of_nat r"
    using assms by (simp add: counts_fit_def take_bit_nat_eq_self flip: of_nat_take_bit)
  ultimately show ?thesis by (simp only: word_consts and_push_mask)
qed

lemma unat_push32: "r < 2 ^ 31 \<Longrightarrow> unat (push_bit 32 (of_nat r) :: u64) = 2 ^ 32 * r"
  by (simp add: push_bit_eq_mult unat_word_ariths unat_of_nat take_bit_nat_eq_self)


lemma readers_zero: "counts_fit w p r \<Longrightarrow> enc w p r AND READER_MASK = 0 \<longleftrightarrow> r = 0"
  using unat_push32 [of r] by (auto simp: readers_field counts_fit_def unat_eq_0 [symmetric])

lemma readers_one: "counts_fit w p r \<Longrightarrow> enc w p r AND READER_MASK = READER \<longleftrightarrow> r = 1"
proof -
  assume a: "counts_fit w p r"
  have "push_bit 32 (of_nat r) = READER \<longleftrightarrow> unat (push_bit 32 (of_nat r) :: u64) = unat (push_bit 32 (of_nat 1) :: u64)"
    by (simp add: word_consts push_bit_eq_mult word_unat_eq_iff)
  then show ?thesis using a unat_push32 [of r] unat_push32 [of 1] by (simp add: readers_field counts_fit_def)
qed

lemma writing_bit: "counts_fit w p r \<Longrightarrow> enc w p r AND IS_WRITING \<noteq> 0 \<longleftrightarrow> w = 1"
proof -
  assume a: "counts_fit w p r"
  have "unat (enc w p r AND IS_WRITING) = unat (enc w p r) mod 2"
    by (simp add: word_consts and_one_eq unat_mod)
  also have "\<dots> = (w + (p + 2 ^ 31 * r) * 2) mod 2" using a by (simp add: unat_enc ac_simps)
  also have "\<dots> = w" using a unfolding mod_mult_self1 by (simp add: counts_fit_def)
  finally show ?thesis using a by (auto simp: unat_eq_0 [symmetric] counts_fit_def)
qed

lemma no_writer_enc: "counts_fit w p r \<Longrightarrow> no_writer (enc w p r) \<longleftrightarrow> w = 0 \<and> p = 0"
proof -
  assume a: "counts_fit w p r"
  have m: "IS_WRITING OR WRITER_MASK = mask 32" by (simp add: word_consts push_bit_eq_mult mask_eq_exp_minus_1)
  have "unat (enc w p r AND mask 32) = unat (enc w p r) mod 2 ^ 32"
    by (simp flip: take_bit_eq_mask) (simp add: take_bit_eq_mod unat_mod)
  also have "\<dots> = w + 2 * p" using a by (simp add: unat_enc counts_fit_def)
  finally have "enc w p r AND mask 32 = 0 \<longleftrightarrow> w + 2 * p = 0" by (metis unat_eq_0)
  then show ?thesis by (simp add: no_writer_def m)
qed

lemma enc_arith:
  "enc w p r + WRITER = enc w (Suc p) r" "enc 0 (Suc p) r + (IS_WRITING - WRITER) = enc 1 p r"
  "enc w p r + READER = enc w p (Suc r)" "enc w p (Suc r) - READER = enc w p r"
  by (simp_all add: enc_def word_consts algebra_simps)

lemma enc_clear: "counts_fit 1 p r \<Longrightarrow> enc 1 p r AND NOT IS_WRITING = enc 0 p r"
proof -
  assume a: "counts_fit 1 p r"
  have "enc 1 p r AND NOT IS_WRITING = push_bit 1 (drop_bit 1 (enc 1 p r))"
    using and_not_mask [of "enc 1 p r" 1] by (simp add: word_consts)
  moreover have "unat (drop_bit 1 (enc 1 p r)) = p + 2 ^ 31 * r"
    using a by (simp add: drop_bit_eq_div unat_div unat_enc)
  then have "drop_bit 1 (enc 1 p r) = of_nat (p + 2 ^ 31 * r)"
    using a unfolding word_unat_eq_iff unsigned_of_nat by (simp add: take_bit_nat_eq_self counts_fit_def)
  ultimately show ?thesis by (simp add: push_bit_eq_mult enc_def algebra_simps)
qed


subsection \<open>Invariant\<close>

definition counted :: "(pc \<Rightarrow> bool) \<Rightarrow> raw_rw_lock \<Rightarrow> nat" where
  "counted P s = length (filter P (rw_pcs s))"

definition is_pending :: "pc \<Rightarrow> bool" where "is_pending p \<longleftrightarrow> p \<in> {WMutex, WAnnounce}"
definition is_counted_reader :: "pc \<Rightarrow> bool" where "is_counted_reader p \<longleftrightarrow> p \<in> {RRelease, RHeld}"
definition is_writing :: "pc \<Rightarrow> bool" where "is_writing p \<longleftrightarrow> p \<in> {WWait, WHeld}"
definition has_mutex :: "pc \<Rightarrow> bool" where
  "has_mutex p \<longleftrightarrow> p \<in> {WAnnounce, WWait, WHeld, WRelease, RAdd, RRelease}"

lemmas pc_kinds = is_pending_def is_counted_reader_def is_writing_def has_mutex_def

definition rw_inv :: "raw_rw_lock \<Rightarrow> bool" where
  "rw_inv s \<longleftrightarrow> length (rw_pcs s) < 2 ^ 31 \<and>
     (\<forall>i<length (rw_pcs s). has_mutex (rw_pcs s ! i) \<longleftrightarrow> rw_mutex s = Some i) \<and>
     rw_state s = enc (counted is_writing s) (counted is_pending s) (counted is_counted_reader s) \<and>
     (0 < counted ((=) WHeld) s \<longrightarrow> counted is_counted_reader s = 0) \<and>
     rw_permits s + counted ((=) RPost) s =
       (if 0 < counted ((=) WWait) s \<and> counted is_counted_reader s = 0 then 1 else 0)"

lemma counted_set:
  "i < length (rw_pcs s) \<Longrightarrow>
   counted P (set_pc i p s) + (if P (rw_pcs s ! i) then 1 else 0) = counted P s + (if P p then 1 else 0)"
  using length_filter_update [of i "rw_pcs s" P p] by (simp add: counted_def set_pc_def)

lemma counted_fields [simp]:
  "counted P (s\<lparr>rw_state := w\<rparr>) = counted P s" "counted P (s\<lparr>rw_mutex := m\<rparr>) = counted P s"
  "counted P (s\<lparr>rw_permits := k\<rparr>) = counted P s"
  by (simp_all add: counted_def)

lemma set_pc_fields [simp]:
  "rw_state (set_pc i p s) = rw_state s" "rw_mutex (set_pc i p s) = rw_mutex s" "rw_permits (set_pc i p s) = rw_permits s"
  "rw_pcs (set_pc i p s) = (rw_pcs s)[i := p]"
  by (simp_all add: set_pc_def)

lemma counted_pos: "0 < counted P s \<longleftrightarrow> (\<exists>i<length (rw_pcs s). P (rw_pcs s ! i))"
  by (auto simp: counted_def length_filter_conv_card card_gt_0_iff)

lemma counted_le: "counted P s \<le> length (rw_pcs s)"
  by (simp add: counted_def)

text \<open>Two threads at points that hold the mutex are one thread.\<close>

lemma mutex_unique:
  "rw_inv s \<Longrightarrow> i < length (rw_pcs s) \<Longrightarrow> j < length (rw_pcs s) \<Longrightarrow>
   has_mutex (rw_pcs s ! i) \<Longrightarrow> has_mutex (rw_pcs s ! j) \<Longrightarrow> i = j"
  by (auto simp: rw_inv_def)

lemma writing_mutex: "is_writing p \<Longrightarrow> has_mutex p" "WHeld = p \<Longrightarrow> has_mutex p" "WWait = p \<Longrightarrow> has_mutex p"
  by (auto simp: pc_kinds)

lemma counted_holder:
  assumes "rw_inv s" "i < length (rw_pcs s)" "has_mutex (rw_pcs s ! i)" "\<And>p. P p \<Longrightarrow> has_mutex p"
  shows "counted P s = (if P (rw_pcs s ! i) then 1 else 0)"
proof -
  let ?S = "{j. j < length (rw_pcs s) \<and> P (rw_pcs s ! j)}"
  have j: "j = i" if "j \<in> ?S" for j
    using mutex_unique [OF assms(1) _ assms(2), of j] assms(3,4) that by blast
  show ?thesis
  proof (cases "P (rw_pcs s ! i)")
    case True
    then have "?S = {i}" using j assms(2) by blast
    then show ?thesis using True by (simp add: counted_def length_filter_conv_card)
  next
    case False
    then have "?S = {}" using j by blast
    then show ?thesis using False by (simp add: counted_def length_filter_conv_card)
  qed
qed

lemma holder_counts:
  assumes "rw_inv s" "i < length (rw_pcs s)" "has_mutex (rw_pcs s ! i)"
  shows "counted is_writing s = (if is_writing (rw_pcs s ! i) then 1 else 0)"
    "counted ((=) WHeld) s = (if rw_pcs s ! i = WHeld then 1 else 0)"
    "counted ((=) WWait) s = (if rw_pcs s ! i = WWait then 1 else 0)"
  using counted_holder [OF assms, of is_writing] counted_holder [OF assms, of "(=) WHeld"]
    counted_holder [OF assms, of "(=) WWait"] writing_mutex by (simp_all add: eq_commute)

lemma counted_free:
  assumes "rw_inv s" "rw_mutex s = None" "\<And>p. P p \<Longrightarrow> has_mutex p"
  shows "counted P s = 0"
proof -
  have "{j. j < length (rw_pcs s) \<and> P (rw_pcs s ! j)} = {}" using assms by (auto simp: rw_inv_def)
  then show ?thesis by (simp add: counted_def length_filter_conv_card)
qed

lemma counted_change:
  "i < length (rw_pcs s) \<Longrightarrow>
   counted P (set_pc i p s) = counted P s + (if P p then 1 else 0) - (if P (rw_pcs s ! i) then 1 else 0)"
  using counted_set [of i s P p] by simp

lemma rw_inv_fit:
  assumes "rw_inv s"
  shows "counts_fit (counted is_writing s) (counted is_pending s) (counted is_counted_reader s)"
proof -
  have "counted is_writing s \<le> 1"
  proof (cases "counted is_writing s")
    case (Suc k)
    then obtain i where "i < length (rw_pcs s)" "is_writing (rw_pcs s ! i)" using counted_pos [of is_writing s] by auto
    then show ?thesis using holder_counts(1) [OF assms, of i] writing_mutex by simp
  qed simp
  then show ?thesis
    using assms counted_le [of is_pending s] counted_le [of is_counted_reader s] by (auto simp: rw_inv_def counts_fit_def)
qed

lemmas rw_step_simps = counted_change pc_kinds nth_list_update enc_arith

lemma lock_step_inv:
  assumes inv: "rw_inv s" and i: "i < length (rw_pcs s)" and step: "lock_step i (rw_pcs s ! i) s = Some s'"
  shows "rw_inv s'"
proof (cases "rw_pcs s ! i")
  case Idle
  then have "s' = (set_pc i WMutex s)\<lparr>rw_state := rw_state s + WRITER\<rparr>" using step by simp
  then show ?thesis using inv i Idle by (auto simp: rw_inv_def rw_step_simps)
next
  case WMutex
  then have s': "rw_mutex s = None" "s' = (set_pc i WAnnounce s)\<lparr>rw_mutex := Some i\<rparr>"
    using step by (auto simp: take_mutex_def split: if_splits)
  have "0 < counted is_pending s" using counted_pos i WMutex by (auto simp: pc_kinds)
  then show ?thesis using inv i WMutex s' by (auto simp: rw_inv_def rw_step_simps)
next
  case WAnnounce
  have hm: "has_mutex (rw_pcs s ! i)" using WAnnounce by (simp add: pc_kinds)
  have z: "counted is_writing s = 0" "counted ((=) WHeld) s = 0" "counted ((=) WWait) s = 0"
    using holder_counts [OF inv i hm] WAnnounce by (simp_all add: pc_kinds)
  have "0 < counted is_pending s" using counted_pos i WAnnounce by (auto simp: pc_kinds)
  then obtain k where k: "counted is_pending s = Suc k" by (cases "counted is_pending s") auto
  have rd: "rw_state s AND READER_MASK = 0 \<longleftrightarrow> counted is_counted_reader s = 0"
    using readers_zero [OF rw_inv_fit [OF inv]] inv by (simp add: rw_inv_def)
  have "s' = (set_pc i (if rw_state s AND READER_MASK \<noteq> 0 then WWait else WHeld) s)
       \<lparr>rw_state := rw_state s + (IS_WRITING - WRITER)\<rparr>" using step WAnnounce by simp
  then show ?thesis
    using inv i WAnnounce z k rd by (cases "counted is_counted_reader s = 0") (auto simp: rw_inv_def rw_step_simps)
next
  case WWait
  have hm: "has_mutex (rw_pcs s ! i)" using WWait by (simp add: pc_kinds)
  have z: "counted is_writing s = 1" "counted ((=) WHeld) s = 0" "counted ((=) WWait) s = 1"
    using holder_counts [OF inv i hm] WWait by (simp_all add: pc_kinds)
  have s': "0 < rw_permits s" "s' = (set_pc i WHeld s)\<lparr>rw_permits := rw_permits s - 1\<rparr>"
    using step WWait by (auto split: if_splits)
  then show ?thesis using inv i WWait z by (auto simp: rw_inv_def rw_step_simps split: if_splits)
qed (use step in simp_all)


lemma writing_split: "counted is_writing s = counted ((=) WWait) s + counted ((=) WHeld) s"
proof -
  have "length (filter is_writing ps) = length (filter ((=) WWait) ps) + length (filter ((=) WHeld) ps)" for ps
    by (induction ps) (auto simp: is_writing_def)
  then show ?thesis by (simp add: counted_def)
qed

lemma unlock_step_inv:
  assumes inv: "rw_inv s" and i: "i < length (rw_pcs s)" and step: "unlock_step i (rw_pcs s ! i) s = Some s'"
  shows "rw_inv s'"
proof (cases "rw_pcs s ! i")
  case WHeld
  have hm: "has_mutex (rw_pcs s ! i)" using WHeld by (simp add: pc_kinds)
  note h = holder_counts [OF inv i hm] and fit = rw_inv_fit [OF inv]
  have z: "counted is_writing s = 1" "counted ((=) WHeld) s = 1" "counted ((=) WWait) s = 0"
    using h WHeld by (simp_all add: pc_kinds)
  have "rw_state s = enc 1 (counted is_pending s) (counted is_counted_reader s)"
    using inv z by (simp add: rw_inv_def)
  then have c: "rw_state s AND NOT IS_WRITING = enc 0 (counted is_pending s) (counted is_counted_reader s)"
    using enc_clear fit z by simp
  have "s' = (set_pc i WRelease s)\<lparr>rw_state := rw_state s AND NOT IS_WRITING\<rparr>" using step WHeld by simp
  then show ?thesis using inv i WHeld z unfolding c by (auto simp: rw_inv_def rw_step_simps)
next
  case WRelease
  have hm: "has_mutex (rw_pcs s ! i)" using WRelease by (simp add: pc_kinds)
  note h = holder_counts [OF inv i hm]
  have mu: "rw_mutex s = Some i" using inv i hm by (simp add: rw_inv_def)
  have "s' = (set_pc i Idle s)\<lparr>rw_mutex := None\<rparr>" using step WRelease by simp
  then show ?thesis using inv i WRelease h mu by (auto simp: rw_inv_def rw_step_simps)
qed (use step in simp_all)

lemma lock_shared_step_inv:
  assumes inv: "rw_inv s" and i: "i < length (rw_pcs s)" and step: "lock_shared_step i weak (rw_pcs s ! i) s = Some s'"
  shows "rw_inv s'"
proof (cases "rw_pcs s ! i")
  case Idle
  then have "s' = set_pc i (RTry (rw_state s)) s" using step by simp
  then show ?thesis using inv i Idle by (auto simp: rw_inv_def rw_step_simps)
next
  case (RTry st)
  consider (cas) "no_writer st" "rw_state s = st" "s' = (set_pc i RHeld s)\<lparr>rw_state := st + READER\<rparr>"
    | (again) "s' = set_pc i (RTry (rw_state s)) s" | (slow) "s' = set_pc i RMutex s"
    using step RTry by (auto split: if_splits)
  then show ?thesis
  proof cases
    case cas
    then have "counted is_writing s = 0" using no_writer_enc [OF rw_inv_fit [OF inv]] inv by (simp add: rw_inv_def)
    moreover from this have "counted ((=) WWait) s = 0" "counted ((=) WHeld) s = 0" using writing_split [of s] by simp_all
    ultimately show ?thesis using inv i RTry cas by (auto simp: rw_inv_def rw_step_simps)
  next
    case again
    then show ?thesis using inv i RTry by (auto simp: rw_inv_def rw_step_simps)
  next
    case slow
    then show ?thesis using inv i RTry by (auto simp: rw_inv_def rw_step_simps)
  qed
next
  case RMutex
  then have s': "rw_mutex s = None" "s' = (set_pc i RAdd s)\<lparr>rw_mutex := Some i\<rparr>"
    using step by (auto simp: take_mutex_def split: if_splits)
  then show ?thesis using inv i RMutex by (auto simp: rw_inv_def rw_step_simps)
next
  case RAdd
  have hm: "has_mutex (rw_pcs s ! i)" using RAdd by (simp add: pc_kinds)
  note h = holder_counts [OF inv i hm]
  have "s' = (set_pc i RRelease s)\<lparr>rw_state := rw_state s + READER\<rparr>" using step RAdd by simp
  then show ?thesis using inv i RAdd h by (auto simp: rw_inv_def rw_step_simps)
next
  case RRelease
  have hm: "has_mutex (rw_pcs s ! i)" using RRelease by (simp add: pc_kinds)
  note h = holder_counts [OF inv i hm]
  have "0 < counted is_counted_reader s" using counted_pos i RRelease by (auto simp: pc_kinds)
  moreover have "s' = (set_pc i RHeld s)\<lparr>rw_mutex := None\<rparr>" using step RRelease by simp
  moreover have "rw_mutex s = Some i" using inv i hm by (simp add: rw_inv_def)
  ultimately show ?thesis using inv i RRelease h by (auto simp: rw_inv_def rw_step_simps)
qed (use step in simp_all)

lemma unlock_shared_step_inv:
  assumes inv: "rw_inv s" and i: "i < length (rw_pcs s)" and step: "unlock_shared_step i (rw_pcs s ! i) s = Some s'"
  shows "rw_inv s'"
proof (cases "rw_pcs s ! i")
  case RHeld
  have "0 < counted is_counted_reader s" using counted_pos i RHeld by (auto simp: pc_kinds)
  then obtain k where k: "counted is_counted_reader s = Suc k" by (cases "counted is_counted_reader s") auto
  have h0: "counted ((=) WHeld) s = 0" using inv k by (simp add: rw_inv_def)
  have wr: "counted is_writing s = counted ((=) WWait) s" using writing_split [of s] h0 by simp
  note fit = rw_inv_fit [OF inv]
  have st: "rw_state s = enc (counted is_writing s) (counted is_pending s) (Suc k)" using inv k by (simp add: rw_inv_def)
  have one: "rw_state s AND READER_MASK = READER \<longleftrightarrow> k = 0" using readers_one [OF fit] st k by simp
  have wb: "rw_state s AND IS_WRITING \<noteq> 0 \<longleftrightarrow> counted ((=) WWait) s = 1" using writing_bit [OF fit] st k wr by simp
  have le: "counted ((=) WWait) s \<le> 1" using fit wr by (simp add: counts_fit_def)
  have p: "rw_permits s = 0" "counted ((=) RPost) s = 0" using inv k by (simp_all add: rw_inv_def)
  have "s' = (set_pc i (if k = 0 \<and> counted ((=) WWait) s = 1 then RPost else Idle) s)\<lparr>rw_state := rw_state s - READER\<rparr>"
    using step RHeld one wb by (simp add: Let_def)
  then show ?thesis
    using inv i RHeld k h0 p le st by (auto simp: rw_inv_def rw_step_simps)
next
  case RPost
  have "0 < counted ((=) RPost) s" using counted_pos i RPost by auto
  moreover have "s' = (set_pc i Idle s)\<lparr>rw_permits := rw_permits s + 1\<rparr>" using step RPost by simp
  ultimately show ?thesis using inv i RPost by (auto simp: rw_inv_def rw_step_simps split: if_splits)
qed (use step in simp_all)

lemma rw_event_inv:
  assumes inv: "rw_inv s" and step: "rw_event e s = Some s'"
  shows "rw_inv s'"
proof -
  have i: "fst e < length (rw_pcs s)" and pc: "pc_step (fst e) (snd e) (rw_pcs s ! fst e) s = Some s'"
    using step by (auto simp: rw_event_def split: if_splits)
  show ?thesis
    using pc lock_step_inv [OF inv i] unlock_step_inv [OF inv i] lock_shared_step_inv [OF inv i, of False]
      lock_shared_step_inv [OF inv i, of True] unlock_shared_step_inv [OF inv i]
    by (cases "snd e"; cases "rw_pcs s ! fst e") (simp_all split: if_splits)
qed

lemma rw_reachable_inv: "rw_reachable n s \<Longrightarrow> n < 2 ^ 31 \<Longrightarrow> rw_inv s"
proof (induction rule: rw_reachable.induct)
  case start
  then show ?case by (auto simp: rw_inv_def rw_new_def counted_def enc_def pc_kinds)
next
  case (step s e s')
  then show ?case using rw_event_inv by blast
qed


lemma rw_event_length: "rw_event e s = Some s' \<Longrightarrow> length (rw_pcs s') = length (rw_pcs s)"
  by (cases "snd e"; cases "rw_pcs s ! fst e") (auto simp: rw_event_def take_mutex_def Let_def split: if_splits)

lemma rw_run_reachable: "rw_reachable n s \<Longrightarrow> rw_run es s = Some s' \<Longrightarrow> rw_reachable n s'"
  by (induction es arbitrary: s) (auto split: option.splits intro: rw_reachable.step)

text \<open>A thread that is neither idle nor holding the lock can go on unless it waits.\<close>

lemma go_enabled:
  "i < length (rw_pcs s) \<Longrightarrow> rw_pcs s ! i \<notin> {Idle, WHeld, RHeld, WMutex, RMutex, WWait} \<Longrightarrow>
   rw_event (i, Go) s \<noteq> None"
  by (cases "rw_pcs s ! i") (auto simp: rw_event_def)

lemma mutex_enabled:
  "i < length (rw_pcs s) \<Longrightarrow> rw_pcs s ! i \<in> {WMutex, RMutex} \<Longrightarrow> rw_mutex s = None \<Longrightarrow> rw_event (i, Go) s \<noteq> None"
  by (auto simp: rw_event_def take_mutex_def)

lemma rw_progress:
  assumes inv: "rw_inv s" and m: "\<And>j. rw_mutex s = Some j \<Longrightarrow> j < length (rw_pcs s)"
    and i: "i < length (rw_pcs s)" "rw_pcs s ! i \<noteq> Idle"
    and free: "\<And>j. j < length (rw_pcs s) \<Longrightarrow> rw_pcs s ! j \<notin> {WHeld, RHeld}"
  shows "\<exists>j. rw_event (j, Go) s \<noteq> None"
proof (cases "\<exists>j<length (rw_pcs s). rw_pcs s ! j \<notin> {Idle, WHeld, RHeld, WMutex, RMutex, WWait}")
  case True
  then show ?thesis using go_enabled by blast
next
  case False
  then have pcs: "rw_pcs s ! j \<in> {Idle, WMutex, RMutex, WWait}" if "j < length (rw_pcs s)" for j
    using free that by blast
  show ?thesis
  proof (cases "\<exists>j<length (rw_pcs s). rw_pcs s ! j = WWait")
    case True
    then obtain j where j: "j < length (rw_pcs s)" "rw_pcs s ! j = WWait" by blast
    have "counted is_counted_reader s = 0" "counted ((=) RPost) s = 0"
      using counted_pos [of is_counted_reader s] counted_pos [of "(=) RPost" s] pcs by (fastforce simp: pc_kinds)+
    moreover have "0 < counted ((=) WWait) s" using j counted_pos [of "(=) WWait" s] by auto
    ultimately have "rw_permits s = 1" using inv by (simp add: rw_inv_def)
    then show ?thesis using j by (intro exI [of _ j]) (simp add: rw_event_def)
  next
    case nw: False
    have "rw_mutex s = None"
    proof (rule ccontr)
      assume "rw_mutex s \<noteq> None"
      then obtain j where j: "rw_mutex s = Some j" by blast
      then have "has_mutex (rw_pcs s ! j)" using inv m by (auto simp: rw_inv_def)
      then show False using pcs [OF m [OF j]] nw m [OF j] by (auto simp: pc_kinds)
    qed
    moreover have "rw_pcs s ! i \<in> {WMutex, RMutex}" using pcs [OF i(1)] i nw by auto
    ultimately show ?thesis using mutex_enabled i(1) by blast
  qed
qed

lemma rw_mutex_bound: "rw_reachable n s \<Longrightarrow> rw_mutex s = Some j \<Longrightarrow> j < length (rw_pcs s)"
proof (induction arbitrary: j rule: rw_reachable.induct)
  case start
  then show ?case by (simp add: rw_new_def)
next
  case (step s e s')
  have "rw_mutex s' = rw_mutex s \<or> rw_mutex s' = None \<or> rw_mutex s' = Some (fst e)" "fst e < length (rw_pcs s)"
    using step.hyps(2)
    by (cases "snd e"; cases "rw_pcs s ! fst e"; auto simp: rw_event_def take_mutex_def Let_def split: if_splits)+
  then show ?case using step rw_event_length [OF step.hyps(2)] by auto
qed

lemma replicate_two: "replicate 2 x = [x, x]"
  by (simp add: numeral_2_eq_2)

lemmas rw_run_simps = rw_new_def rw_event_def set_pc_def take_mutex_def no_writer_def word_consts push_bit_eq_mult
  mask_eq_exp_minus_1 Let_def

subsection \<open>Properties\<close>

text \<open>
  C21: The lock excludes: in every state that fewer than \<open>2 ^ 31\<close> threads can reach by interleaving
  their atomic steps, a thread that holds the lock for writing is the only one that holds it.
\<close>

theorem rwlock_excludes:
  assumes "rw_reachable n s" "n < 2 ^ 31"
    and "i < length (rw_pcs s)" "rw_pcs s ! i = WHeld" "j < length (rw_pcs s)" "rw_pcs s ! j \<in> {WHeld, RHeld}"
  shows "i = j"
proof -
  have inv: "rw_inv s" using rw_reachable_inv [OF assms(1,2)] .
  have "0 < counted ((=) WHeld) s" using counted_pos [of "(=) WHeld" s] assms(3,4) by auto
  then have "counted is_counted_reader s = 0" using inv by (simp add: rw_inv_def)
  then have "rw_pcs s ! j = WHeld" using counted_pos [of is_counted_reader s] assms(5,6) by (auto simp: pc_kinds)
  then show ?thesis using mutex_unique [OF inv assms(3,5)] assms(4) by (simp add: pc_kinds)
qed


theorem rwlock_excludes_witness:
  "\<exists>s. rw_run [(0, LockShared), (1, Lock), (0, Go), (0, Go), (1, Go), (1, Go)] (rw_new 2) = Some s \<and>
     rw_pcs s ! 1 = WHeld \<and> rw_pcs s ! 0 \<notin> {WHeld, RHeld}"
proof -
  define s where "s = \<lparr>rw_state = 1, rw_mutex = Some 1, rw_permits = 0, rw_pcs = [RMutex, WHeld]\<rparr>"
  have run: "rw_run [(0, LockShared), (1, Lock), (0, Go), (0, Go), (1, Go), (1, Go)] (rw_new 2) = Some s"
    by (simp add: s_def rw_run_simps replicate_two)
  have "rw_reachable 2 s" using rw_run_reachable [OF rw_reachable.start run] .
  then have "1 = (0 :: nat)" if "rw_pcs s ! 0 \<in> {WHeld, RHeld}"
    using rwlock_excludes [of 2 s 1 0] that by (simp add: s_def)
  then show ?thesis using run by (auto simp: s_def)
qed

text \<open>
  C22: The lock does not get stuck: in every reachable state in which no thread holds it and some
  thread is inside an operation, some thread can take its next step; in particular a writer that
  waits on the semaphore has its permit, or the reader that posts it is on its way.
\<close>

theorem rwlock_progress:
  assumes "rw_reachable n s" "n < 2 ^ 31" "i < length (rw_pcs s)" "rw_pcs s ! i \<noteq> Idle"
    and "\<And>j. j < length (rw_pcs s) \<Longrightarrow> rw_pcs s ! j \<notin> {WHeld, RHeld}"
  shows "\<exists>j. rw_event (j, Go) s \<noteq> None"
  using rw_progress [OF rw_reachable_inv [OF assms(1,2)] rw_mutex_bound [OF assms(1)] assms(3-5)] .

theorem rwlock_progress_witness:
  "\<exists>s j. rw_run [(0, LockShared), (0, Go), (1, Lock), (1, Go), (1, Go), (0, Unlock)] (rw_new 2) = Some s \<and>
     rw_pcs s = [RPost, WWait] \<and> rw_event (j, Go) s \<noteq> None"
proof -
  define s where "s = \<lparr>rw_state = 1, rw_mutex = Some 1, rw_permits = 0, rw_pcs = [RPost, WWait]\<rparr>"
  have run: "rw_run [(0, LockShared), (0, Go), (1, Lock), (1, Go), (1, Go), (0, Unlock)] (rw_new 2) = Some s"
    by (simp add: s_def rw_run_simps replicate_two)
  have "rw_reachable 2 s" using rw_run_reachable [OF rw_reachable.start run] .
  then have "\<exists>j. rw_event (j, Go) s \<noteq> None"
    by (rule rwlock_progress [where i = 1]) (auto simp: s_def less_Suc_eq nth_Cons')
  then show ?thesis using run by (auto simp: s_def)
qed

text \<open>
  C23: The state word is the encoding of the threads: the writing bit, the number of writers that wait
  for the mutex and the number of readers, each within its field, so that no count runs into the next.
\<close>

theorem rwlock_state_word:
  assumes "rw_reachable n s" "n < 2 ^ 31"
  shows "unat (rw_state s) = counted is_writing s + 2 * counted is_pending s + 2 ^ 32 * counted is_counted_reader s \<and>
    counted is_writing s \<le> 1 \<and> counted is_pending s < 2 ^ 31 \<and> counted is_counted_reader s < 2 ^ 31"
  using rw_reachable_inv [OF assms] rw_inv_fit [OF rw_reachable_inv [OF assms]] unat_enc
  by (simp add: rw_inv_def counts_fit_def)


theorem rwlock_state_word_witness:
  "\<exists>s. rw_run [(0, LockShared), (0, Go), (1, Lock)] (rw_new 2) = Some s \<and>
     unat (rw_state s) = counted is_writing s + 2 * counted is_pending s + 2 ^ 32 * counted is_counted_reader s \<and>
     counted is_pending s = 1 \<and> counted is_counted_reader s = 1"
proof -
  define s where "s = \<lparr>rw_state = 2 ^ 32 + 2, rw_mutex = None, rw_permits = 0, rw_pcs = [RHeld, WMutex]\<rparr>"
  have run: "rw_run [(0, LockShared), (0, Go), (1, Lock)] (rw_new 2) = Some s"
    by (simp add: s_def rw_run_simps replicate_two)
  have "rw_reachable 2 s" using rw_run_reachable [OF rw_reachable.start run] .
  from rwlock_state_word [OF this] have
    "unat (rw_state s) = counted is_writing s + 2 * counted is_pending s + 2 ^ 32 * counted is_counted_reader s" by simp
  moreover have "counted is_pending s = 1" "counted is_counted_reader s = 1" by (simp_all add: s_def counted_def pc_kinds)
  ultimately show ?thesis using run by blast
qed

end
