(* ===== verification/Base64.thy ===== *)
theory Base64
  imports Prelude
begin

text \<open>
  The scalar Base64 codec (\<open>src/src/base64/lib.rs\<close>, module \<open>zig_base64\<close>): \<open>Base64Encoder\<close> and
  \<open>Base64Decoder\<close>. The encoder writes the six-bit digits of the bytes and the padding
  (\<open>base64_encode_encoded\<close>); the decoder, given a destination of the size it asks for, stays inside it and
  takes exactly what the encoder writes. The accumulators of the codec are \<open>u16\<close>:
  \<open>(acc << k) + v\<close> is \<open>acc * 2 ^ k + v\<close> modulo \<open>2 ^ 16\<close>. A write outside the destination is a panic, or
  undefined behaviour where the source writes without a check; both are \<open>Panic\<close> here.
\<close>

subsection \<open>Alphabets and tables\<close>

definition STANDARD_ALPHABET_CHARS :: bytes where
  "STANDARD_ALPHABET_CHARS = bs ''ABCDEFGHIJKLMNOPQRSTUVWXYZabcdefghijklmnopqrstuvwxyz0123456789+/''"

definition URL_SAFE_ALPHABET_CHARS :: bytes where
  "URL_SAFE_ALPHABET_CHARS = bs ''ABCDEFGHIJKLMNOPQRSTUVWXYZabcdefghijklmnopqrstuvwxyz0123456789-_''"

datatype base64_error = InvalidCharacter | InvalidPadding | NoSpaceLeft

record base64_encoder =
  be_alphabet_chars :: bytes
  be_pad_char :: "u8 option"

record base64_decoder =
  bd_char_to_index :: "nat list"
  bd_pad_char :: "u8 option"

definition encoder_init :: "bytes \<Rightarrow> u8 option \<Rightarrow> base64_encoder" where
  "encoder_init alphabet pad = \<lparr>be_alphabet_chars = alphabet, be_pad_char = pad\<rparr>"

definition INVALID_CHAR :: nat where "INVALID_CHAR = 0xFF"

text \<open>The loop that fills \<open>char_to_index\<close>.\<close>

fun fill_index :: "bytes \<Rightarrow> nat \<Rightarrow> nat list \<Rightarrow> nat list" where
  "fill_index [] i table = table"
| "fill_index (c # cs) i table = fill_index cs (i + 1) (table[unat c := i])"

definition decoder_init :: "bytes \<Rightarrow> u8 option \<Rightarrow> base64_decoder" where
  "decoder_init alphabet pad =
     \<lparr>bd_char_to_index = fill_index alphabet 0 (replicate 256 INVALID_CHAR), bd_pad_char = pad\<rparr>"

definition div_ceil :: "nat \<Rightarrow> nat \<Rightarrow> nat" where
  "div_ceil a b = (a + b - 1) div b"

text \<open>\<open>(acc << k) + v\<close> at \<open>u16\<close>.\<close>

definition acc_push :: "nat \<Rightarrow> nat \<Rightarrow> nat \<Rightarrow> nat" where
  "acc_push acc k v = (acc * 2 ^ k + v) mod 2 ^ 16"

subsection \<open>Encoding\<close>

definition encoder_calc_size :: "base64_encoder \<Rightarrow> nat \<Rightarrow> nat" where
  "encoder_calc_size e source_len =
     (if be_pad_char e \<noteq> None then div_ceil source_len 3 * 4
      else source_len div 3 * 4 + div_ceil (source_len mod 3 * 4) 3)"

text \<open>The inner loop \<open>while acc_len >= 6\<close> and the loop over the source.\<close>

function emit_digits :: "bytes \<Rightarrow> nat \<Rightarrow> nat \<Rightarrow> nat \<Rightarrow> bytes \<Rightarrow> (nat \<times> nat \<times> bytes) outcome" where
  "emit_digits alphabet acc acc_len out_idx dest =
     (if 6 \<le> acc_len then
        bind_outcome (write_at dest out_idx (alphabet ! ((acc div 2 ^ (acc_len - 6)) mod 64)))
          (emit_digits alphabet acc (acc_len - 6) (out_idx + 1))
      else Ret (acc_len, out_idx, dest))"
  by pat_completeness auto
termination
  by (relation "measure (\<lambda>(alphabet, acc, acc_len, out_idx, dest). acc_len)") auto

declare emit_digits.simps [simp del]

fun encode_loop :: "bytes \<Rightarrow> bytes \<Rightarrow> nat \<Rightarrow> nat \<Rightarrow> nat \<Rightarrow> bytes \<Rightarrow> (nat \<times> nat \<times> nat \<times> bytes) outcome" where
  "encode_loop alphabet [] acc acc_len out_idx dest = Ret (acc, acc_len, out_idx, dest)"
| "encode_loop alphabet (v # vs) acc acc_len out_idx dest =
     (let acc = acc_push acc 8 (unat v) in
      bind_outcome (emit_digits alphabet acc (acc_len + 8) out_idx dest)
        (\<lambda>(acc_len, out_idx, dest). encode_loop alphabet vs acc acc_len out_idx dest))"

definition encode_without_size_check :: "base64_encoder \<Rightarrow> bytes \<Rightarrow> bytes \<Rightarrow> (nat \<times> bytes) outcome" where
  "encode_without_size_check e dest source =
     bind_outcome (encode_loop (be_alphabet_chars e) source 0 0 0 dest) (\<lambda>(acc, acc_len, out_idx, dest).
       if 0 < acc_len then
         bind_outcome (write_at dest out_idx (be_alphabet_chars e ! (acc_push acc (6 - acc_len) 0 mod 64)))
           (\<lambda>dest. Ret (out_idx + 1, dest))
       else Ret (out_idx, dest))"

definition base64_encode :: "base64_encoder \<Rightarrow> bytes \<Rightarrow> bytes \<Rightarrow> bytes outcome" where
  "base64_encode e dest source =
     (let out_len = encoder_calc_size e (length source) in
      bind_outcome (encode_without_size_check e dest source) (\<lambda>(out_idx, dest).
        bind_outcome
          (case be_pad_char e of
             Some pad \<Rightarrow> (if out_idx \<le> out_len \<and> out_len \<le> length dest
                 then Ret (take out_idx dest @ replicate (out_len - out_idx) pad @ drop out_len dest) else Panic)
           | None \<Rightarrow> Ret dest)
          (\<lambda>dest. if out_len \<le> length dest then Ret (take out_len dest) else Panic)))"

subsection \<open>Decoding\<close>

definition calc_size_upper_bound :: "base64_decoder \<Rightarrow> nat \<Rightarrow> base64_error + nat" where
  "calc_size_upper_bound d source_len =
     (let result = source_len div 4 * 3; leftover = source_len mod 4 in
      if bd_pad_char d \<noteq> None then (if leftover mod 4 \<noteq> 0 then Inl InvalidPadding else Inr result)
      else if leftover mod 4 = 1 then Inl InvalidPadding
      else Inr (result + leftover * 3 div 4))"

definition calc_size_for_slice :: "base64_decoder \<Rightarrow> bytes \<Rightarrow> base64_error + nat" where
  "calc_size_for_slice d source =
     (case calc_size_upper_bound d (length source) of
        Inl e \<Rightarrow> Inl e
      | Inr result \<Rightarrow>
          (case bd_pad_char d of
             None \<Rightarrow> Inr result
           | Some pad \<Rightarrow>
               (let n = length source;
                    result = (if 1 \<le> n \<and> source ! (n - 1) = pad then result - 1 else result);
                    result = (if 2 \<le> n \<and> source ! (n - 2) = pad then result - 1 else result)
                in Inr result)))"

text \<open>
  The loop over the source: the accumulator, the next index of the destination, the destination and
  what is left from the first padding character on; or an invalid character with the destination.
\<close>

fun decode_loop :: "base64_decoder \<Rightarrow> bytes \<Rightarrow> nat \<Rightarrow> nat \<Rightarrow> nat \<Rightarrow> bytes \<Rightarrow>
    ((base64_error \<times> bytes) + nat \<times> nat \<times> nat \<times> bytes \<times> bytes option) outcome" where
  "decode_loop d [] acc acc_len dest_idx dest = Ret (Inr (acc, acc_len, dest_idx, dest, None))"
| "decode_loop d (c # cs) acc acc_len dest_idx dest =
     (let digit = bd_char_to_index d ! unat c in
      if digit = INVALID_CHAR then
        (if bd_pad_char d = None \<or> Some c \<noteq> bd_pad_char d then Ret (Inl (InvalidCharacter, dest))
         else Ret (Inr (acc, acc_len, dest_idx, dest, Some (c # cs))))
      else
        (let acc = acc_push acc 6 digit; acc_len = acc_len + 6 in
         if 8 \<le> acc_len then
           bind_outcome (write_at dest dest_idx (of_nat (acc div 2 ^ (acc_len - 8))))
             (decode_loop d cs acc (acc_len - 8) (dest_idx + 1))
         else decode_loop d cs acc acc_len dest_idx dest))"

text \<open>The loop over the padding: \<open>None\<close> when every byte is the padding character.\<close>

fun padding_error :: "u8 \<Rightarrow> bytes \<Rightarrow> base64_error option" where
  "padding_error pad [] = None"
| "padding_error pad (c # cs) =
     (if c \<noteq> pad then Some (if unat c = INVALID_CHAR then InvalidCharacter else InvalidPadding)
      else padding_error pad cs)"

definition check_padding :: "base64_decoder \<Rightarrow> nat \<Rightarrow> bytes option \<Rightarrow> base64_error option" where
  "check_padding d acc_len leftover =
     (case leftover of
        None \<Rightarrow> None
      | Some rest \<Rightarrow>
          (case bd_pad_char d of
             None \<Rightarrow> None
           | Some pad \<Rightarrow>
               (case padding_error pad rest of
                  Some e \<Rightarrow> Some e
                | None \<Rightarrow> if length rest \<noteq> acc_len div 2 then Some InvalidPadding else None)))"

text \<open>The result is the error, if there is one, and the destination.\<close>

definition base64_decode :: "base64_decoder \<Rightarrow> bytes \<Rightarrow> bytes \<Rightarrow> (base64_error option \<times> bytes) outcome" where
  "base64_decode d dest source =
     (if bd_pad_char d \<noteq> None \<and> length source mod 4 \<noteq> 0 then Ret (Some InvalidPadding, dest)
      else bind_outcome (decode_loop d source 0 0 0 dest) (\<lambda>r.
        case r of
          Inl (e, dest') \<Rightarrow> Ret (Some e, dest')
        | Inr (acc, acc_len, dest_idx, dest', leftover) \<Rightarrow>
            if 4 < acc_len \<or> acc mod 2 ^ acc_len \<noteq> 0 then Ret (Some InvalidPadding, dest')
            else Ret (check_padding d acc_len leftover, dest')))"

subsection \<open>Six-bit digits\<close>

fun sextets :: "bytes \<Rightarrow> nat list" where
  "sextets [] = []"
| "sextets [a] = [unat a div 4, unat a mod 4 * 16]"
| "sextets [a, b] = [unat a div 4, unat a mod 4 * 16 + unat b div 16, unat b mod 16 * 4]"
| "sextets (a # b # c # r) =
     [unat a div 4, unat a mod 4 * 16 + unat b div 16, unat b mod 16 * 4 + unat c div 64, unat c mod 64] @ sextets r"

lemma unat_u8: "unat (a :: u8) < 256"
  using unsigned_less [of a] by simp

lemma sextets_less: "x \<in> set (sextets src) \<Longrightarrow> x < 64"
proof (induction src rule: sextets.induct)
  case (2 a)
  then show ?case using unat_u8 [of a] by auto
next
  case (3 a b)
  then show ?case using unat_u8 [of a] unat_u8 [of b] by auto
next
  case (4 a b c r)
  then show ?case using unat_u8 [of a] unat_u8 [of b] unat_u8 [of c] by auto
qed simp

lemma length_sextets: "length (sextets src) = length src div 3 * 4 + (length src mod 3 * 4 + 2) div 3"
proof (induction src rule: sextets.induct)
  case (4 a b c r)
  have "length (a # b # c # r) div 3 = length r div 3 + 1" "length (a # b # c # r) mod 3 = length r mod 3" by simp_all
  then show ?case using 4 by (simp only: sextets.simps length_append) simp
qed auto

text \<open>The low bits of the accumulator.\<close>

lemma acc_field: "j + k \<le> 16 \<Longrightarrow> acc_push acc n v div 2 ^ j mod 2 ^ k = (acc * 2 ^ n + v) div 2 ^ j mod 2 ^ k"
proof -
  assume jk: "j + k \<le> 16"
  have "take_bit k (drop_bit j (take_bit 16 (x :: nat))) = take_bit k (drop_bit j x)" for x
    using jk by (intro bit_eqI) (auto simp: bit_simps)
  then show ?thesis by (simp only: acc_push_def take_bit_eq_mod drop_bit_eq_div)
qed

lemma acc_low: "k \<le> 16 \<Longrightarrow> acc_push acc n v mod 2 ^ k = (acc * 2 ^ n + v) mod 2 ^ k"
  using acc_field [of 0 k] by simp

lemma acc_keep: "k \<le> n \<Longrightarrow> k \<le> 16 \<Longrightarrow> acc_push acc n v mod 2 ^ k = v mod 2 ^ k"
proof -
  assume k: "k \<le> n" "k \<le> 16"
  then have "acc * 2 ^ n = acc * 2 ^ (n - k) * 2 ^ k" by (simp flip: power_add)
  then show ?thesis using acc_low [OF k(2), of acc n v] by (simp only: mod_mult_self3)
qed

lemma field:
  assumes "0 < m" "v div m < p"
  shows "(x * (p * m) + v) div m mod (p * r) = x mod r * p + v div (m :: nat)"
proof -
  have "x * (p * m) + v = x * p * m + v" by (simp only: mult.assoc)
  moreover have "(x * p * m + v) div m = x * p + v div m" using assms(1) by (simp only: div_mult_self3)
  ultimately have d: "(x * (p * m) + v) div m = x * p + v div m" by (simp only:)
  show ?thesis unfolding d using assms(2) by (simp add: mod_mult2_eq)
qed

lemma encode_fields:
  assumes "a < 256" "b < 256" "c < 256"
  shows "acc_push acc 8 a div 4 mod 64 = a div 4"
    "acc_push (acc_push acc 8 a) 8 b div 16 mod 64 = a mod 4 * 16 + b div 16"
    "acc_push (acc_push acc' 8 b) 8 c div 64 mod 64 = b mod 16 * 4 + c div 64"
    "acc_push acc'' 8 c mod 64 = c mod 64"
    "acc_push (acc_push acc 8 a) 4 0 mod 64 = a mod 4 * 16"
    "acc_push (acc_push acc' 8 b) 2 0 mod 64 = b mod 16 * 4"
proof -
  have lo: "acc_push x 8 v mod 4 = v mod 4" "acc_push x 8 v mod 16 = v mod 16" "acc_push x 8 v mod 64 = v mod 64" for x v
    using acc_keep [of 2 8 x v] acc_keep [of 4 8 x v] acc_keep [of 6 8 x v] by simp_all
  show "acc_push acc 8 a div 4 mod 64 = a div 4"
    using acc_field [of 2 6 acc 8 a] field [of 4 a 64 acc 1] assms by simp
  show "acc_push (acc_push acc 8 a) 8 b div 16 mod 64 = a mod 4 * 16 + b div 16"
    using acc_field [of 4 6 "acc_push acc 8 a" 8 b] field [of 16 b 16 "acc_push acc 8 a" 4] lo(1) [of acc a] assms by simp
  show "acc_push (acc_push acc' 8 b) 8 c div 64 mod 64 = b mod 16 * 4 + c div 64"
    using acc_field [of 6 6 "acc_push acc' 8 b" 8 c] field [of 64 c 4 "acc_push acc' 8 b" 16] lo(2) [of acc' b] assms by simp
  show "acc_push acc'' 8 c mod 64 = c mod 64" by (rule lo(3))
  show "acc_push (acc_push acc 8 a) 4 0 mod 64 = a mod 4 * 16"
    using acc_low [of 6 "acc_push acc 8 a" 4 0] field [of 1 0 16 "acc_push acc 8 a" 4] lo(1) [of acc a] by simp
  show "acc_push (acc_push acc' 8 b) 2 0 mod 64 = b mod 16 * 4"
    using acc_low [of 6 "acc_push acc' 8 b" 2 0] field [of 1 0 4 "acc_push acc' 8 b" 16] lo(2) [of acc' b] by simp
qed

lemma decode_fields:
  assumes "p < 64" "q < 64" "r < 64" "s < 64"
  shows "acc_push (acc_push acc 6 p) 6 q div 16 mod 256 = p * 4 + q div 16"
    "acc_push (acc_push acc' 6 q) 6 r div 4 mod 256 = q mod 16 * 16 + r div 4"
    "acc_push (acc_push acc'' 6 r) 6 s mod 256 = r mod 4 * 64 + s"
    "acc_push acc 6 q mod 16 = q mod 16" "acc_push acc 6 r mod 4 = r mod 4"
proof -
  have lo: "acc_push x 6 v mod 64 = v mod 64" "acc_push x 6 v mod 16 = v mod 16" "acc_push x 6 v mod 4 = v mod 4" for x v
    using acc_keep [of 2 6 x v] acc_keep [of 4 6 x v] acc_keep [of 6 6 x v] by simp_all
  show "acc_push (acc_push acc 6 p) 6 q div 16 mod 256 = p * 4 + q div 16"
    using acc_field [of 4 8 "acc_push acc 6 p" 6 q] field [of 16 q 4 "acc_push acc 6 p" 64] lo(1) [of acc p] assms by simp
  show "acc_push (acc_push acc' 6 q) 6 r div 4 mod 256 = q mod 16 * 16 + r div 4"
    using acc_field [of 2 8 "acc_push acc' 6 q" 6 r] field [of 4 r 16 "acc_push acc' 6 q" 16] lo(2) [of acc' q] assms by simp
  show "acc_push (acc_push acc'' 6 r) 6 s mod 256 = r mod 4 * 64 + s"
    using acc_low [of 8 "acc_push acc'' 6 r" 6 s] field [of 1 s 64 "acc_push acc'' 6 r" 4] lo(3) [of acc'' r] assms by simp
  show "acc_push acc 6 q mod 16 = q mod 16" "acc_push acc 6 r mod 4 = r mod 4" by (rule lo(2), rule lo(3))
qed

text \<open>The bytes that the decoder puts together again.\<close>

lemma byte_split:
  "unat a div 4 * 4 + (unat a mod 4 * 16 + unat (b :: u8) div 16) div 16 = unat (a :: u8)"
  "(unat a mod 4 * 16 + unat b div 16) mod 16 * 16 + (unat b mod 16 * 4 + unat (c :: u8) div 64) div 4 = unat b"
  "(unat b mod 16 * 4 + unat c div 64) mod 4 * 64 + unat c mod 64 = unat c"
proof -
  have "unat b div 16 < 16" "unat c div 64 < 4" using unat_u8 [of b] unat_u8 [of c] by simp_all
  then show "unat a div 4 * 4 + (unat a mod 4 * 16 + unat b div 16) div 16 = unat a"
    "(unat a mod 4 * 16 + unat b div 16) mod 16 * 16 + (unat b mod 16 * 4 + unat c div 64) div 4 = unat b"
    "(unat b mod 16 * 4 + unat c div 64) mod 4 * 64 + unat c mod 64 = unat c"
    by simp_all
qed

subsection \<open>The encoder writes the digits\<close>

definition encode_finish :: "bytes \<Rightarrow> nat \<times> nat \<times> nat \<times> bytes \<Rightarrow> (nat \<times> bytes) outcome" where
  "encode_finish alphabet = (\<lambda>(acc, acc_len, out_idx, dest).
       if 0 < acc_len then
         bind_outcome (write_at dest out_idx (alphabet ! (acc_push acc (6 - acc_len) 0 mod 64)))
           (\<lambda>dest. Ret (out_idx + 1, dest))
       else Ret (out_idx, dest))"

lemma emit_step:
  "6 \<le> acc_len \<Longrightarrow> emit_digits alphabet acc acc_len out_idx dest =
     bind_outcome (write_at dest out_idx (alphabet ! ((acc div 2 ^ (acc_len - 6)) mod 64)))
       (emit_digits alphabet acc (acc_len - 6) (out_idx + 1))"
  by (simp add: emit_digits.simps)

lemma emit_stop: "acc_len < 6 \<Longrightarrow> emit_digits alphabet acc acc_len out_idx dest = Ret (acc_len, out_idx, dest)"
  by (simp add: emit_digits.simps)

lemma emit_8:
  "emit_digits alphabet acc 8 (length pre) (pre @ x # rest) =
     Ret (2, length (pre @ [alphabet ! (acc div 4 mod 64)]), (pre @ [alphabet ! (acc div 4 mod 64)]) @ rest)"
  by (simp add: emit_step emit_stop write_at_def)

lemma emit_10:
  "emit_digits alphabet acc 10 (length pre) (pre @ x # rest) =
     Ret (4, length (pre @ [alphabet ! (acc div 16 mod 64)]), (pre @ [alphabet ! (acc div 16 mod 64)]) @ rest)"
  by (simp add: emit_step emit_stop write_at_def)

lemma emit_12:
  "emit_digits alphabet acc 12 (length pre) (pre @ x # y # rest) =
     Ret (0, length (pre @ [alphabet ! (acc div 64 mod 64), alphabet ! (acc mod 64)]),
       (pre @ [alphabet ! (acc div 64 mod 64), alphabet ! (acc mod 64)]) @ rest)"
proof -
  have "emit_digits alphabet acc 12 (length pre) (pre @ x # y # rest) =
     emit_digits alphabet acc 6 (length (pre @ [alphabet ! (acc div 64 mod 64)])) ((pre @ [alphabet ! (acc div 64 mod 64)]) @ y # rest)"
    by (subst emit_step) (simp_all add: write_at_def)
  also have "\<dots> = Ret (0, length (pre @ [alphabet ! (acc div 64 mod 64), alphabet ! (acc mod 64)]),
       (pre @ [alphabet ! (acc div 64 mod 64), alphabet ! (acc mod 64)]) @ rest)"
    by (simp add: emit_step emit_stop write_at_def list_update_append)
  finally show ?thesis .
qed

lemma encode_writes_digits:
  "length (sextets src) \<le> length rest \<Longrightarrow>
   bind_outcome (encode_loop alphabet src acc 0 (length pre) (pre @ rest)) (encode_finish alphabet) =
     Ret (length pre + length (sextets src),
       pre @ map ((!) alphabet) (sextets src) @ drop (length (sextets src)) rest)"
proof (induction src arbitrary: acc pre rest rule: sextets.induct)
  case 1
  then show ?case by (simp add: encode_finish_def)
next
  case (2 a)
  then obtain x y r where "rest = x # y # r" by (cases rest; cases "tl rest") auto
  then show ?case
    using encode_fields [OF unat_u8 [of a] unat_u8 [of a] unat_u8 [of a]]
    by (simp add: encode_finish_def Let_def emit_8 write_at_def list_update_append)
next
  case (3 a b)
  then obtain x y z r where "rest = x # y # z # r" by (cases rest; cases "tl rest"; cases "tl (tl rest)") auto
  then show ?case
    using encode_fields [OF unat_u8 [of a] unat_u8 [of b] unat_u8 [of a]]
    by (simp add: encode_finish_def Let_def emit_8 emit_10 [of _ _ "pre @ [q]" for q, simplified]
        write_at_def list_update_append)
next
  case (4 a b c r)
  then obtain x y z w rest' where rest: "rest = x # y # z # w # rest'"
    by (cases rest; cases "tl rest"; cases "tl (tl rest)"; cases "tl (tl (tl rest))") auto
  then have len: "length (sextets r) \<le> length rest'" using 4 by simp
  show ?case
    using encode_fields [OF unat_u8 [of a] unat_u8 [of b] unat_u8 [of c]]
      4(1) [OF len, of _ "pre @ map ((!) alphabet) [unat a div 4, unat a mod 4 * 16 + unat b div 16,
            unat b mod 16 * 4 + unat c div 64, unat c mod 64]"]
    by (simp add: rest Let_def emit_8 emit_10 [of _ _ "pre @ [q]" for q, simplified]
        emit_12 [of _ _ "pre @ [q, q']" for q q', simplified])
qed

lemma encode_without_size_check_digits:
  assumes "length (sextets src) \<le> length dest"
  shows "encode_without_size_check e dest src =
     Ret (length (sextets src), map ((!) (be_alphabet_chars e)) (sextets src) @ drop (length (sextets src)) dest)"
  using encode_writes_digits [OF assms, of "be_alphabet_chars e" 0 "[]"]
  by (simp add: encode_without_size_check_def encode_finish_def)

definition pad_count :: "nat \<Rightarrow> nat" where
  "pad_count n = (3 - n mod 3) mod 3"

definition encoded_text :: "base64_encoder \<Rightarrow> bytes \<Rightarrow> bytes" where
  "encoded_text e src = map ((!) (be_alphabet_chars e)) (sextets src) @
     (case be_pad_char e of None \<Rightarrow> [] | Some pad \<Rightarrow> replicate (pad_count (length src)) pad)"

lemma three_cases: "n mod 3 = 0 \<or> n mod 3 = 1 \<or> n mod 3 = (2 :: nat)"
  by linarith

lemma encoder_calc_size_pad:
  "be_pad_char e = Some p \<Longrightarrow> encoder_calc_size e (length src) = length (sextets src) + pad_count (length src)"
proof -
  assume p: "be_pad_char e = Some p"
  define k r where "k = length src div 3" and "r = length src mod 3"
  then have "length src = 3 * k + r" "r = 0 \<or> r = 1 \<or> r = 2" using three_cases [of "length src"] by simp_all
  then show ?thesis using p by (auto simp: encoder_calc_size_def length_sextets div_ceil_def pad_count_def)
qed

lemma encoder_calc_size_nopad:
  "be_pad_char e = None \<Longrightarrow> encoder_calc_size e (length src) = length (sextets src)"
  by (simp add: encoder_calc_size_def length_sextets div_ceil_def)

lemma length_encoded: "length (encoded_text e src) = encoder_calc_size e (length src)"
  using encoder_calc_size_pad [of e _ src] encoder_calc_size_nopad [of e src]
  by (auto simp: encoded_text_def split: option.split)

lemma base64_encode_length: "base64_encode e dest src = Ret t \<Longrightarrow> length t = encoder_calc_size e (length src)"
  by (auto simp: base64_encode_def Let_def bind_outcome_eq_Ret split: if_splits)

lemma base64_encode_encoded:
  assumes "encoder_calc_size e (length src) \<le> length dest"
  shows "base64_encode e dest src = Ret (encoded_text e src)"
proof (cases "be_pad_char e")
  case None
  then show ?thesis using assms encode_without_size_check_digits [of src dest e]
    by (simp add: base64_encode_def Let_def encoded_text_def encoder_calc_size_nopad)
next
  case (Some p)
  then show ?thesis using assms encode_without_size_check_digits [of src dest e]
    by (simp add: base64_encode_def Let_def encoded_text_def encoder_calc_size_pad [OF Some])
qed

subsection \<open>The decoder reads the digits back\<close>

lemma length_fill_index [simp]: "length (fill_index cs i table) = length table"
  by (induction cs arbitrary: i table) auto

lemma fill_index_other: "c \<notin> set cs \<Longrightarrow> fill_index cs i table ! unat c = table ! unat c"
  by (induction cs arbitrary: i table) (auto simp: nth_list_update word_unat_eq_iff)

lemma fill_index_nth:
  "distinct cs \<Longrightarrow> j < length cs \<Longrightarrow> \<forall>c \<in> set cs. unat c < length table \<Longrightarrow>
   fill_index cs i table ! unat (cs ! j) = i + j"
proof (induction cs arbitrary: i j table)
  case (Cons c cs)
  then show ?case by (cases j) (auto simp: fill_index_other)
qed simp

lemma decoder_digit:
  assumes "distinct alphabet" "length alphabet = 64" "q < 64"
  shows "bd_char_to_index (decoder_init alphabet pad) ! unat (alphabet ! q) = q"
  using fill_index_nth [of alphabet q "replicate 256 INVALID_CHAR" 0] unat_u8 assms by (simp add: decoder_init_def)

lemma decoder_invalid:
  "c \<notin> set alphabet \<Longrightarrow> bd_char_to_index (decoder_init alphabet pad) ! unat c = INVALID_CHAR"
  using unat_u8 [of c] by (simp add: decoder_init_def fill_index_other)

lemma of_nat_byte: "x mod 256 = unat (a :: u8) \<Longrightarrow> of_nat x = a"
  by (simp add: word_unat_eq_iff unat_of_nat)

lemma decode_step:
  assumes "bd_char_to_index d ! unat c = q" "q < 64"
  shows "decode_loop d (c # cs) acc 0 i dest = decode_loop d cs (acc_push acc 6 q) 6 i dest"
    "decode_loop d (c # cs) acc 6 i dest = bind_outcome (write_at dest i (of_nat (acc_push acc 6 q div 16)))
       (decode_loop d cs (acc_push acc 6 q) 4 (i + 1))"
    "decode_loop d (c # cs) acc 4 i dest = bind_outcome (write_at dest i (of_nat (acc_push acc 6 q div 4)))
       (decode_loop d cs (acc_push acc 6 q) 2 (i + 1))"
    "decode_loop d (c # cs) acc 2 i dest = bind_outcome (write_at dest i (of_nat (acc_push acc 6 q)))
       (decode_loop d cs (acc_push acc 6 q) 0 (i + 1))"
  using assms by (simp_all add: Let_def INVALID_CHAR_def)

declare decode_loop.simps(2) [simp del]

text \<open>The bytes that four digits of the alphabet decode to.\<close>

lemma digit_bytes:
  defines "p a \<equiv> unat (a :: u8) div 4" and "q a b \<equiv> unat (a :: u8) mod 4 * 16 + unat (b :: u8) div 16"
    and "r b c \<equiv> unat (b :: u8) mod 16 * 4 + unat (c :: u8) div 64" and "s c \<equiv> unat (c :: u8) mod 64"
  shows "of_nat (acc_push (acc_push acc 6 (p a)) 6 (q a b) div 16) = a"
    "of_nat (acc_push (acc_push acc 6 (q a b)) 6 (r b c) div 4) = b"
    "of_nat (acc_push (acc_push acc 6 (r b c)) 6 (s c)) = c"
proof -
  have lt: "p a < 64" "q a b < 64" "r b c < 64" "s c < 64"
    using unat_u8 [of a] unat_u8 [of b] unat_u8 [of c] by (simp_all add: p_def q_def r_def s_def)
  show "of_nat (acc_push (acc_push acc 6 (p a)) 6 (q a b) div 16) = a"
    using decode_fields(1) [OF lt, of acc] byte_split(1) [of a b] by (intro of_nat_byte) (simp add: p_def q_def)
  show "of_nat (acc_push (acc_push acc 6 (q a b)) 6 (r b c) div 4) = b"
    using decode_fields(2) [OF lt, of acc] byte_split(2) [of a b c] by (intro of_nat_byte) (simp add: q_def r_def)
  show "of_nat (acc_push (acc_push acc 6 (r b c)) 6 (s c)) = c"
    using decode_fields(3) [OF lt, of acc] byte_split(3) [of b c] by (intro of_nat_byte) (simp add: r_def s_def)
qed

lemma digit_rest:
  "acc_push acc 6 (unat (a :: u8) mod 4 * 16) mod 16 = 0" "acc_push acc 6 (unat a mod 16 * 4) mod 4 = 0"
  using acc_keep [of 4 6 acc "unat a mod 4 * 16"] acc_keep [of 2 6 acc "unat a mod 16 * 4"] by simp_all

definition left_bits :: "nat \<Rightarrow> nat" where
  "left_bits n = (if n mod 3 = 0 then 0 else if n mod 3 = 1 then 4 else 2)"

lemma decode_reads_digits:
  assumes d: "\<And>q. q < 64 \<Longrightarrow> bd_char_to_index d ! unat (alphabet ! q) = q"
  shows "length src \<le> length rest \<Longrightarrow>
    \<exists>acc'. decode_loop d (map ((!) alphabet) (sextets src) @ tail) acc 0 (length pre) (pre @ rest) =
       decode_loop d tail acc' (left_bits (length src)) (length pre + length src) (pre @ src @ drop (length src) rest) \<and>
       acc' mod 2 ^ left_bits (length src) = 0"
proof (induction src arbitrary: acc pre rest rule: sextets.induct)
  case 1
  then show ?case by (auto simp: left_bits_def)
next
  case (2 a)
  then obtain x r where "rest = x # r" by (cases rest) auto
  moreover have "\<forall>x \<in> set (sextets [a]). x < 64" by (intro ballI sextets_less)
  ultimately show ?case
    using digit_bytes(1) [of acc a 0] digit_rest(1) [of _ a]
    by (auto simp: decode_step [OF d] write_at_def left_bits_def)
next
  case (3 a b)
  then obtain x y r where "rest = x # y # r" by (cases rest; cases "tl rest") auto
  moreover have "\<forall>x \<in> set (sextets [a, b]). x < 64" by (intro ballI sextets_less)
  ultimately show ?case
    using digit_bytes(1) [of acc a b] digit_bytes(2) [of _ a b 0] digit_rest(2) [of _ b]
    by (auto simp: decode_step [OF d] write_at_def left_bits_def list_update_append)
next
  case (4 a b c r)
  then obtain x y z rest' where rest: "rest = x # y # z # rest'"
    by (cases rest; cases "tl rest"; cases "tl (tl rest)") auto
  then have len: "length r \<le> length rest'" using 4 by simp
  have lt: "\<forall>x \<in> set (sextets [a, b, c]). x < 64" by (intro ballI sextets_less)
  have mods: "left_bits (length (a # b # c # r)) = left_bits (length r)" by (simp add: left_bits_def)
  have "\<exists>acc'. decode_loop d (map ((!) alphabet) (sextets (a # b # c # r)) @ tail) acc 0 (length pre) (pre @ rest) =
      decode_loop d (map ((!) alphabet) (sextets r) @ tail) acc' 0 (length (pre @ [a, b, c])) ((pre @ [a, b, c]) @ rest')"
    using lt digit_bytes(1) [of acc a b] digit_bytes(2) [of _ a b c] digit_bytes(3) [of _ b c]
    by (auto simp: rest decode_step [OF d] write_at_def list_update_append)
  then show ?case using 4(1) [OF len, of _ "pre @ [a, b, c]"] unfolding mods rest by fastforce
qed

subsection \<open>Round trip\<close>

lemma codec_fields [simp]:
  "be_alphabet_chars (encoder_init alphabet pad) = alphabet" "be_pad_char (encoder_init alphabet pad) = pad"
  "bd_pad_char (decoder_init alphabet pad) = pad"
  by (simp_all add: encoder_init_def decoder_init_def)

lemma decode_loop_pad:
  assumes "bd_char_to_index d ! unat p = INVALID_CHAR" "bd_pad_char d = Some p"
  shows "decode_loop d (p # cs) acc acc_len i dest = Ret (Inr (acc, acc_len, i, dest, Some (p # cs)))"
  using assms by (simp add: decode_loop.simps(2) Let_def)

lemma padding_error_replicate [simp]: "padding_error p (replicate n p) = None"
  by (induction n) auto

lemma pad_count_left_bits: "pad_count n = left_bits n div 2" "left_bits n \<le> 4"
  using three_cases [of n] by (auto simp: pad_count_def left_bits_def)

lemma decode_loop_encoded:
  assumes a: "length alphabet = 64" "distinct alphabet" "pad \<notin> Some ` set alphabet"
    and dest: "length src \<le> length dest"
  obtains acc left where
    "decode_loop (decoder_init alphabet pad) (encoded_text (encoder_init alphabet pad) src) 0 0 0 dest =
       Ret (Inr (acc, left_bits (length src), length src, src @ drop (length src) dest, left))"
    "acc mod 2 ^ left_bits (length src) = 0"
    "left = (case pad of None \<Rightarrow> None
       | Some p \<Rightarrow> if pad_count (length src) = 0 then None else Some (replicate (pad_count (length src)) p))"
proof -
  let ?d = "decoder_init alphabet pad" and ?e = "encoder_init alphabet pad"
  let ?tail = "case pad of None \<Rightarrow> [] | Some p \<Rightarrow> replicate (pad_count (length src)) p"
  let ?left = "case pad of None \<Rightarrow> None
       | Some p \<Rightarrow> if pad_count (length src) = 0 then None else Some (replicate (pad_count (length src)) p)"
  obtain acc' where loop: "decode_loop ?d (map ((!) alphabet) (sextets src) @ ?tail) 0 0 0 dest =
      decode_loop ?d ?tail acc' (left_bits (length src)) (length src) (src @ drop (length src) dest)"
      "acc' mod 2 ^ left_bits (length src) = 0"
    using decode_reads_digits [of ?d alphabet src dest ?tail 0 "[]"] decoder_digit [OF a(2,1)] dest by auto
  have enc: "encoded_text ?e src = map ((!) alphabet) (sextets src) @ ?tail" by (simp add: encoded_text_def)
  have "p \<notin> set alphabet" if "pad = Some p" for p using a(3) that by auto
  then have tail: "decode_loop ?d ?tail acc al i x = Ret (Inr (acc, al, i, x, ?left))" for acc al i x
    by (cases "pad_count (length src)") (auto simp: decode_loop_pad decoder_invalid split: option.split)
  show thesis using that [of acc' ?left] loop by (simp add: enc tail)
qed

lemma decode_encoded:
  assumes a: "length alphabet = 64" "distinct alphabet" "pad \<notin> Some ` set alphabet"
    and dest: "length src \<le> length dest"
  shows "base64_decode (decoder_init alphabet pad) dest (encoded_text (encoder_init alphabet pad) src) =
    Ret (None, src @ drop (length src) dest)"
proof -
  let ?d = "decoder_init alphabet pad" and ?e = "encoder_init alphabet pad"
  obtain acc left where loop: "decode_loop ?d (encoded_text ?e src) 0 0 0 dest =
       Ret (Inr (acc, left_bits (length src), length src, src @ drop (length src) dest, left))"
    "acc mod 2 ^ left_bits (length src) = 0"
    "left = (case pad of None \<Rightarrow> None
       | Some p \<Rightarrow> if pad_count (length src) = 0 then None else Some (replicate (pad_count (length src)) p))"
    using decode_loop_encoded [OF assms] by blast
  have guard: "\<not> (bd_pad_char ?d \<noteq> None \<and> length (encoded_text ?e src) mod 4 \<noteq> 0)"
    unfolding length_encoded by (auto simp: encoder_calc_size_def)
  have "check_padding ?d (left_bits (length src)) left = None"
    using pad_count_left_bits(1) [of "length src"] unfolding loop(3) by (auto simp: check_padding_def split: option.split)
  then show ?thesis unfolding base64_decode_def if_not_P [OF guard]
    using loop(1,2) pad_count_left_bits(2) [of "length src"] by simp
qed

lemma calc_size_encoded:
  assumes a: "length alphabet = 64" "pad \<notin> Some ` set alphabet"
  shows "calc_size_for_slice (decoder_init alphabet pad) (encoded_text (encoder_init alphabet pad) src) = Inr (length src)"
proof -
  define k r where kr: "k = length src div 3" "r = length src mod 3"
  then have src: "length src = 3 * k + r" "r = 0 \<or> r = 1 \<or> r = 2" using three_cases [of "length src"] by simp_all
  let ?ds = "map ((!) alphabet) (sextets src)"
  have len: "length ?ds = 4 * k + (r * 4 + 2) div 3" using kr by (simp add: length_sextets)
  have "set ?ds \<subseteq> set alphabet" using sextets_less [of _ src] a(1) by auto
  then have nth: "i < length ?ds \<Longrightarrow> Some (?ds ! i) \<noteq> pad" for i using nth_mem [of i ?ds] a(2) by blast
  let ?enc = "encoded_text (encoder_init alphabet pad) src"
  show ?thesis
  proof (cases pad)
    case None
    then have "?enc = ?ds" by (simp add: encoded_text_def)
    then have n: "length ?enc = 4 * k + (r * 4 + 2) div 3" by (simp only: len)
    have "Suc (Suc (4 * k)) mod 4 = 2" "Suc (Suc (4 * k)) div 4 = k" by presburger+
    then show ?thesis using src(2) unfolding calc_size_for_slice_def calc_size_upper_bound_def n src(1)
      by (elim disjE) (simp_all add: Let_def None)
  next
    case (Some p)
    have pc: "pad_count (length src) = (3 - r) mod 3" by (simp add: pad_count_def kr)
    have enc: "?enc = ?ds @ replicate ((3 - r) mod 3) p" by (simp add: encoded_text_def Some pc)
    then have n: "length ?enc = 4 * k + (r * 4 + 2) div 3 + (3 - r) mod 3" by (simp only: len length_append length_replicate)
    have last: "i < length ?ds \<Longrightarrow> ?enc ! i \<noteq> p" "length ?ds \<le> i \<Longrightarrow> i < length ?enc \<Longrightarrow> ?enc ! i = p" for i
      using nth [of i] unfolding enc by (simp_all add: nth_append Some)
    show ?thesis using src(2) last [of "length ?enc - 1"] last [of "length ?enc - 2"]
      unfolding calc_size_for_slice_def calc_size_upper_bound_def n src(1) len
      by (elim disjE) (auto simp: Let_def Some)
  qed
qed

subsection \<open>What the decoder accepts\<close>

lemma decoder_digit_cases:
  assumes "distinct alphabet" "length alphabet = 64"
  obtains "bd_char_to_index (decoder_init alphabet pad) ! unat c = INVALID_CHAR" "c \<notin> set alphabet"
  | q where "q < 64" "c = alphabet ! q" "bd_char_to_index (decoder_init alphabet pad) ! unat c = q"
  using decoder_invalid [of c alphabet pad] decoder_digit [OF assms, of _ pad] assms(2) by (metis in_set_conv_nth)

text \<open>
  What the loop leaves after \<open>k\<close> digits have been read before it: the destination keeps its length;
  at the end of the digits the next index is \<open>6 * k div 8\<close>, the accumulator holds \<open>6 * k mod 8\<close> bits
  that were not written, and the rest starts with the padding character.
\<close>

fun read_post :: "bytes \<Rightarrow> u8 option \<Rightarrow> bytes \<Rightarrow> nat \<Rightarrow> nat \<Rightarrow>
    (base64_error \<times> bytes) + nat \<times> nat \<times> nat \<times> bytes \<times> bytes option \<Rightarrow> bool" where
  "read_post alphabet pad s k n (Inl (e, dest)) \<longleftrightarrow> length dest = n"
| "read_post alphabet pad s k n (Inr (acc, al, i, dest, left)) \<longleftrightarrow> length dest = n \<and> al < 8 \<and>
     (\<exists>qs. s = map ((!) alphabet) qs @ (case left of None \<Rightarrow> [] | Some t \<Rightarrow> t) \<and> (\<forall>q \<in> set qs. q < 64) \<and>
        i * 8 + al = 6 * (k + length qs) \<and> (qs \<noteq> [] \<longrightarrow> acc mod 64 = last qs) \<and>
        (\<forall>t. left = Some t \<longrightarrow> (\<exists>p t'. pad = Some p \<and> t = p # t')))"

lemma read_post_Cons:
  assumes "read_post alphabet pad s (k + 1) n r" "q < 64"
    and last: "\<And>acc al i dest left. r = Inr (acc, al, i, dest, left) \<Longrightarrow> s = [] \<or> left = Some s \<Longrightarrow> acc mod 64 = q"
  shows "read_post alphabet pad (alphabet ! q # s) k n r"
proof (cases r)
  case (Inl x)
  then show ?thesis using assms(1) by (cases x) simp
next
  case (Inr x)
  obtain acc al i dest left where x: "x = (acc, al, i, dest, left)" by (cases x) blast
  obtain qs where qs: "s = map ((!) alphabet) qs @ (case left of None \<Rightarrow> [] | Some t \<Rightarrow> t)" "\<forall>q \<in> set qs. q < 64"
      "i * 8 + al = 6 * (k + 1 + length qs)" "qs \<noteq> [] \<longrightarrow> acc mod 64 = last qs"
      "\<forall>t. left = Some t \<longrightarrow> (\<exists>p t'. pad = Some p \<and> t = p # t')" "length dest = n" "al < 8"
    using assms(1) unfolding Inr x by auto
  have "qs = [] \<longrightarrow> acc mod 64 = q" using last [OF Inr [unfolded x]] qs(1) by (cases left) auto
  then show ?thesis using qs assms(2) unfolding Inr x read_post.simps
    by (intro conjI exI [of _ "q # qs"]) auto
qed

lemma decode_loop_left:
  "decode_loop d s acc al i dest = Ret (Inr (acc', al', i', dest', Some t)) \<Longrightarrow> length t \<le> length s"
  by (induction d s acc al i dest rule: decode_loop.induct)
    (fastforce simp: decode_loop.simps(2) Let_def bind_outcome_eq_Ret split: if_splits)+

lemma decode_loop_stops:
  "decode_loop d s acc al i dest = Ret (Inr (acc', al', i', dest', left)) \<Longrightarrow> s = [] \<or> left = Some s \<Longrightarrow> acc' = acc"
  by (cases s) (auto simp: decode_loop.simps(2) Let_def bind_outcome_eq_Ret split: if_splits dest!: decode_loop_left)

lemma decode_loop_post:
  assumes a: "distinct alphabet" "length alphabet = 64" "pad \<notin> Some ` set alphabet"
    and "i * 8 + al = 6 * k" "al < 8"
  shows "case decode_loop (decoder_init alphabet pad) s acc al i dest of
      Panic \<Rightarrow> length dest < 6 * (k + length (takeWhile (\<lambda>c. Some c \<noteq> pad) s)) div 8
    | Ret r \<Rightarrow> read_post alphabet pad s k (length dest) r"
  using assms(4-)
proof (induction s arbitrary: acc al i dest k)
  case Nil
  then show ?case by (auto intro!: exI [of _ "[]"])
next
  case (Cons c s)
  let ?d = "decoder_init alphabet pad" and ?K = "length (takeWhile (\<lambda>c. Some c \<noteq> pad) s)"
  from a(1,2) show ?case
  proof (cases rule: decoder_digit_cases [of alphabet pad c])
    case 1
    then show ?thesis using Cons.prems by (auto simp: decode_loop.simps(2) Let_def intro!: exI [of _ "[]"])
  next
    case (2 q)
    have c: "Some c \<noteq> pad" using 2 a(2,3) by auto
    have q: "q \<noteq> INVALID_CHAR" using 2 by (simp add: INVALID_CHAR_def)
    have acc: "acc_push acc 6 q mod 64 = q" using acc_keep [of 6 6 acc q] 2(1) by simp
    consider (panic) "decode_loop ?d (c # s) acc al i dest = Panic" "length dest < i + 1" "i + 1 \<le> 6 * (k + 1) div 8"
      | (round) al' i' dest' where "decode_loop ?d (c # s) acc al i dest = decode_loop ?d s (acc_push acc 6 q) al' i' dest'"
        "length dest' = length dest" "i' * 8 + al' = 6 * (k + 1)" "al' < 8"
    proof (cases "8 \<le> al + 6")
      case True
      have "i + 1 \<le> 6 * (k + 1) div 8" using True Cons.prems(1) by (simp add: less_eq_div_iff_mult_less_eq)
      then show ?thesis using that(1) that(2) [of "al + 6 - 8" "i + 1"] True Cons.prems 2(3) q
        by (cases "i < length dest") (simp_all add: decode_loop.simps(2) Let_def write_at_def)
    next
      case False
      then show ?thesis using that(2) [of "al + 6" i dest] Cons.prems 2(3) q
        by (simp add: decode_loop.simps(2) Let_def)
    qed
    then show ?thesis
    proof cases
      case panic
      have "6 * (k + 1) div 8 \<le> 6 * (k + 1 + ?K) div 8" by (intro div_le_mono) simp
      then show ?thesis using panic c by simp
    next
      case (round al' i' dest')
      note ih = Cons.IH [OF round(3,4), of dest' "acc_push acc 6 q"]
      show ?thesis
      proof (cases "decode_loop ?d s (acc_push acc 6 q) al' i' dest'")
        case Panic
        then show ?thesis using ih round(1,2) c by simp
      next
        case (Ret r)
        then have "read_post alphabet pad s (k + 1) (length dest) r" using ih round(2) by simp
        then have "read_post alphabet pad (c # s) k (length dest) r" unfolding 2(2)
          using read_post_Cons 2(1) decode_loop_stops [of ?d s "acc_push acc 6 q" al' i' dest'] Ret acc by blast
        then show ?thesis using Ret round(1) by simp
      qed
    qed
  qed
qed

lemma of_nat_unat_byte: "x < 256 \<Longrightarrow> unat (of_nat x :: u8) = x"
  by (simp add: unat_of_nat)

text \<open>Digits whose last one has no bits beyond the last byte are those of a byte string.\<close>

lemma sextets_surj:
  assumes "\<forall>q \<in> set qs. q < 64" "length qs mod 4 \<noteq> 1"
    and "length qs mod 4 = 2 \<Longrightarrow> last qs mod 16 = 0" "length qs mod 4 = 3 \<Longrightarrow> last qs mod 4 = 0"
  shows "\<exists>src. sextets src = qs"
  using assms
proof (induction "length qs" arbitrary: qs rule: less_induct)
  case less
  let ?b = "\<lambda>x. of_nat x :: u8"
  consider "qs = []" | p where "qs = [p]" | p q where "qs = [p, q]" | p q r where "qs = [p, q, r]"
    | p q r s qs' where "qs = p # q # r # s # qs'"
    by (metis neq_Nil_conv)
  then show ?case
  proof cases
    case 1
    then show ?thesis by (auto intro: exI [of _ "[]"])
  next
    case (2 p)
    then show ?thesis using less.prems(2) by simp
  next
    case (3 p q)
    then have "p < 64" "q < 64" "q mod 16 = 0" using less.prems by simp_all
    then have "sextets [?b (p * 4 + q div 16)] = qs"
      unfolding 3 sextets.simps by (subst (1 2) of_nat_unat_byte) auto
    then show ?thesis by blast
  next
    case (4 p q r)
    then have "p < 64" "q < 64" "r < 64" "r mod 4 = 0" using less.prems by simp_all
    then have "sextets [?b (p * 4 + q div 16), ?b (q mod 16 * 16 + r div 4)] = qs"
      unfolding 4 sextets.simps by (subst (1 2 3 4) of_nat_unat_byte) auto
    then show ?thesis by blast
  next
    case (5 p q r s qs')
    then have lt: "p < 64" "q < 64" "r < 64" "s < 64" "\<forall>q \<in> set qs'. q < 64" using less.prems(1) by simp_all
    have m: "length qs mod 4 = length qs' mod 4" unfolding 5 by simp
    then have "length qs' mod 4 \<in> {2, 3} \<Longrightarrow> last qs = last qs'" unfolding 5 by auto
    then obtain src where src: "sextets src = qs'"
      using less.hyps [of qs'] less.prems(2-4) lt(5) m 5 by auto
    have "sextets (?b (p * 4 + q div 16) # ?b (q mod 16 * 16 + r div 4) # ?b (r mod 4 * 64 + s) # src) = qs"
      unfolding 5 sextets.simps src using lt by (subst (1 2 3 4 5 6) of_nat_unat_byte) auto
    then show ?thesis by blast
  qed
qed

lemma bits_left:
  assumes "i * 8 + al = 6 * n" "al < (8 :: nat)"
  shows "al = 6 * (n mod 4) mod 8"
proof -
  have "(i * 8 + al) mod 8 = al" using assms(2) by simp
  moreover have "6 * n = 3 * (n div 4) * 8 + 6 * (n mod 4)" using mult_div_mod_eq [of 4 n] by linarith
  ultimately show ?thesis using assms(1) by (metis mod_mult_self3)
qed

lemma bits_sextets: "6 * length (sextets src) = length src * 8 + left_bits (length src)"
proof -
  define k r where kr: "k = length src div 3" "r = length src mod 3"
  have "length src = 3 * k + r" by (simp add: kr)
  moreover have "length (sextets src) = 4 * k + (r * 4 + 2) div 3" by (simp add: length_sextets kr)
  moreover have "r = 0 \<or> r = 1 \<or> r = 2" using three_cases [of "length src"] unfolding kr(2) .
  moreover have "left_bits (length src) = (if r = 0 then 0 else if r = 1 then 4 else 2)" unfolding left_bits_def kr(2) ..
  ultimately show ?thesis by auto
qed

lemma left_bits_sextets:
  assumes "i * 8 + al = 6 * length (sextets src)" "al < 8"
  shows "al = left_bits (length src)" "i = length src"
proof -
  have "i * 8 + al = length src * 8 + left_bits (length src)" using assms(1) bits_sextets [of src] by simp
  moreover have "(i * 8 + al) div 8 = i" "(length src * 8 + left_bits (length src)) div 8 = length src"
    using assms(2) pad_count_left_bits(2) [of "length src"] by simp_all
  ultimately show i: "i = length src" by (simp only:)
  then show "al = left_bits (length src)" using assms(1) bits_sextets [of src] by simp
qed

lemma padding_error_None: "padding_error p t = None \<Longrightarrow> t = replicate (length t) p"
  by (induction t) (auto split: if_splits)

lemma calc_size_room:
  assumes "calc_size_for_slice (decoder_init alphabet pad) s = Inr n"
  shows "6 * length (takeWhile (\<lambda>c. Some c \<noteq> pad) s) div 8 \<le> n"
proof (cases pad)
  case None
  have len: "length s = 4 * (length s div 4) + length s mod 4" "length s mod 4 < 4" by simp_all
  have "n = length s div 4 * 3 + length s mod 4 * 3 div 4" using assms None
    by (auto simp: calc_size_for_slice_def calc_size_upper_bound_def Let_def split: if_splits)
  moreover have "takeWhile (\<lambda>c. Some c \<noteq> pad) s = s" using None by (simp add: takeWhile_eq_all_conv)
  ultimately show ?thesis using len by (simp only:) linarith
next
  case (Some p)
  let ?K = "length (takeWhile (\<lambda>c. Some c \<noteq> pad) s)"
  have "length s mod 4 = 0" using assms Some
    by (auto simp: calc_size_for_slice_def calc_size_upper_bound_def Let_def split: if_splits)
  then obtain m where m: "length s = 4 * m" by auto
  have K: "?K \<le> length s" "i < length s \<Longrightarrow> s ! i = p \<Longrightarrow> ?K \<le> i" for i
    using takeWhile_nth [of i "\<lambda>c. Some c \<noteq> pad" s] nth_mem [of i "takeWhile (\<lambda>c. Some c \<noteq> pad) s"] Some
    by (auto simp: length_takeWhile_le dest: set_takeWhileD intro: leI)
  show ?thesis using assms K(1) K(2) [of "length s - 1"] K(2) [of "length s - 2"]
    by (auto simp: calc_size_for_slice_def calc_size_upper_bound_def Let_def Some m split: if_splits)
qed

fun decode_finish :: "base64_decoder \<Rightarrow> (base64_error \<times> bytes) + nat \<times> nat \<times> nat \<times> bytes \<times> bytes option \<Rightarrow>
    base64_error option \<times> bytes" where
  "decode_finish d (Inl (e, out)) = (Some e, out)"
| "decode_finish d (Inr (acc, al, i, out, left)) =
     (if 4 < al \<or> acc mod 2 ^ al \<noteq> 0 then (Some InvalidPadding, out) else (check_padding d al left, out))"

lemma base64_decode_finish:
  "decode_loop d s 0 0 0 dest = Ret r \<Longrightarrow> base64_decode d dest s =
     Ret (if bd_pad_char d \<noteq> None \<and> length s mod 4 \<noteq> 0 then (Some InvalidPadding, dest) else decode_finish d r)"
  by (cases "(d, r)" rule: decode_finish.cases) (simp_all add: base64_decode_def)

lemma read_post_finish: "read_post alphabet pad s k n r \<Longrightarrow> decode_finish d r = (err, out) \<Longrightarrow> length out = n"
  by (cases "(d, r)" rule: decode_finish.cases) (auto split: if_splits)

lemma decode_finish_None:
  assumes "decode_finish d r = (None, out)"
  obtains acc al i left where "r = Inr (acc, al, i, out, left)" "al \<le> 4" "acc mod 2 ^ al = 0" "check_padding d al left = None"
  using assms by (cases "(d, r)" rule: decode_finish.cases) (auto split: if_splits)

text \<open>The digits that the decoder takes are those of a byte string.\<close>

lemma accepted_digits:
  assumes "\<forall>q \<in> set qs. q < 64" "i * 8 + al = 6 * length qs" "al \<le> 4" "acc mod 2 ^ al = 0" "qs \<noteq> [] \<longrightarrow> acc mod 64 = last qs"
  shows "\<exists>src. sextets src = qs"
proof -
  have dvd: "acc mod 64 mod 16 = acc mod 16" "acc mod 64 mod 4 = acc mod 4" by (simp_all add: mod_mod_cancel)
  have al: "al = 6 * (length qs mod 4) mod 8" using bits_left [OF assms(2)] assms(3) by simp
  show ?thesis
  proof (rule sextets_surj [OF assms(1)])
    show "length qs mod 4 \<noteq> 1" using al assms(3) by auto
    show "length qs mod 4 = 2 \<Longrightarrow> last qs mod 16 = 0" using al assms(4,5) dvd by fastforce
    show "length qs mod 4 = 3 \<Longrightarrow> last qs mod 4 = 0" using al assms(4,5) dvd by fastforce
  qed
qed

lemma read_post_encoded:
  assumes "read_post alphabet pad s 0 n (Inr (acc, al, i, out, left))" "al \<le> 4" "acc mod 2 ^ al = 0"
    and left: "case left of None \<Rightarrow> pad \<noteq> None \<longrightarrow> al = 0 | Some t \<Rightarrow> \<forall>p. pad = Some p \<longrightarrow> t = replicate (al div 2) p"
  shows "\<exists>src. s = encoded_text (encoder_init alphabet pad) src \<and> i = length src"
proof -
  obtain qs where qs: "s = map ((!) alphabet) qs @ (case left of None \<Rightarrow> [] | Some t \<Rightarrow> t)" "\<forall>q \<in> set qs. q < 64"
      "i * 8 + al = 6 * length qs" "al < 8" "qs \<noteq> [] \<longrightarrow> acc mod 64 = last qs"
      "\<forall>t. left = Some t \<longrightarrow> (\<exists>p t'. pad = Some p \<and> t = p # t')"
    using assms(1) by auto
  obtain src where src: "sextets src = qs" using accepted_digits [OF qs(2,3) assms(2,3) qs(5)] by blast
  have al: "al = left_bits (length src)" "i = length src" using left_bits_sextets [of i al src] qs(3,4) src by simp_all
  have "s = encoded_text (encoder_init alphabet pad) src"
    using left qs(1,6) src al(1) by (cases left) (auto simp: encoded_text_def pad_count_left_bits split: option.splits)
  then show ?thesis using al(2) by blast
qed

lemma decode_accepts:
  assumes a: "distinct alphabet" "length alphabet = 64" "pad \<notin> Some ` set alphabet"
    and size: "calc_size_for_slice (decoder_init alphabet pad) s = Inr (length dest)"
  obtains err out where "base64_decode (decoder_init alphabet pad) dest s = Ret (err, out)" "length out = length dest"
    "err = None \<Longrightarrow> s = encoded_text (encoder_init alphabet pad) out"
proof -
  let ?d = "decoder_init alphabet pad"
  obtain r where r: "decode_loop ?d s 0 0 0 dest = Ret r" "read_post alphabet pad s 0 (length dest) r"
    using decode_loop_post [OF a, of 0 0 0 dest s 0] calc_size_room [OF size] by (auto split: outcome.splits)
  then obtain err out where ret: "base64_decode ?d dest s = Ret (err, out)" "length out = length dest"
    using base64_decode_finish [OF r(1)] read_post_finish [OF r(2)] by (cases "decode_finish ?d r") (auto split: if_splits)
  have "s = encoded_text (encoder_init alphabet pad) out" if "err = None"
  proof -
    have guard: "pad \<noteq> None \<longrightarrow> length s mod 4 = 0" and fin: "decode_finish ?d r = (None, out)"
      using ret(1) that base64_decode_finish [OF r(1)] by (auto split: if_splits)
    from fin obtain acc al i left where res: "r = Inr (acc, al, i, out, left)" "al \<le> 4" "acc mod 2 ^ al = 0"
        "check_padding ?d al left = None"
      by (rule decode_finish_None)
    have "left = None \<Longrightarrow> pad \<noteq> None \<longrightarrow> al = 0"
      using guard r(2) unfolding res(1) by (auto dest: bits_left [of i al])
    moreover have "left = Some t \<Longrightarrow> pad = Some p \<Longrightarrow> t = replicate (al div 2) p" for t p
      using res(4) padding_error_None [of p t] by (auto simp: check_padding_def split: option.splits if_splits)
    ultimately obtain src where src: "s = encoded_text (encoder_init alphabet pad) src"
      using read_post_encoded [OF r(2) [unfolded res(1)] res(2,3)] by (cases left) auto
    then have "length src = length dest" using calc_size_encoded [OF a(2,3), of src] size by simp
    then show ?thesis using decode_encoded [OF a(2,1,3), of src dest] ret(1) src by simp
  qed
  then show thesis using that ret by blast
qed

subsection \<open>The properties\<close>

text \<open>
  C24: what \<open>Base64Encoder::encode\<close> writes into a destination of at least \<open>calc_size\<close> bytes is
  \<open>calc_size\<close> bytes long; \<open>calc_size_for_slice\<close> of it is the length of the source, and
  \<open>Base64Decoder::decode\<close> into a destination of that length succeeds and gives the source back, for every
  alphabet of 64 different characters, with or without a padding character outside it.
\<close>

theorem base64_roundtrip:
  assumes "length alphabet = 64" "distinct alphabet" "pad \<notin> Some ` set alphabet"
    and "encoder_calc_size (encoder_init alphabet pad) (length src) \<le> length buf" "length dest = length src"
  shows "\<exists>enc. base64_encode (encoder_init alphabet pad) buf src = Ret enc \<and>
    length enc = encoder_calc_size (encoder_init alphabet pad) (length src) \<and>
    calc_size_for_slice (decoder_init alphabet pad) enc = Inr (length src) \<and>
    base64_decode (decoder_init alphabet pad) dest enc = Ret (None, src)"
  using base64_encode_encoded [OF assms(4)] length_encoded [of "encoder_init alphabet pad" src]
    calc_size_encoded [OF assms(1,3), of src] decode_encoded [OF assms(1-3), of src dest] assms(5) by simp

theorem base64_roundtrip_witness:
  "\<exists>enc. base64_encode (encoder_init STANDARD_ALPHABET_CHARS (Some 61)) (replicate 8 0) (bs ''foob'') = Ret enc \<and>
    length enc = encoder_calc_size (encoder_init STANDARD_ALPHABET_CHARS (Some 61)) (length (bs ''foob'')) \<and>
    calc_size_for_slice (decoder_init STANDARD_ALPHABET_CHARS (Some 61)) enc = Inr (length (bs ''foob'')) \<and>
    base64_decode (decoder_init STANDARD_ALPHABET_CHARS (Some 61)) [1, 2, 3, 4] enc = Ret (None, bs ''foob'')"
  by (rule base64_roundtrip) (simp_all add: STANDARD_ALPHABET_CHARS_def encoder_calc_size_def encoder_init_def div_ceil_def)

text \<open>
  C25: when the destination has the length that \<open>calc_size_for_slice\<close> gives for a source,
  \<open>Base64Decoder::decode\<close> never writes outside it (the writes are unchecked in the source), and when it
  succeeds the source is exactly what the encoder writes for the result: no other padding, no
  nonzero bits after the last byte and no foreign character is accepted.
\<close>

theorem base64_decode_strict:
  assumes "distinct alphabet" "length alphabet = 64" "pad \<notin> Some ` set alphabet"
    and "calc_size_for_slice (decoder_init alphabet pad) s = Inr (length dest)"
  shows "\<exists>err out. base64_decode (decoder_init alphabet pad) dest s = Ret (err, out) \<and> length out = length dest \<and>
    (err = None \<longrightarrow> base64_encode (encoder_init alphabet pad) (replicate (length s) 0) out = Ret s)"
proof -
  obtain err out where out: "base64_decode (decoder_init alphabet pad) dest s = Ret (err, out)" "length out = length dest"
      "err = None \<Longrightarrow> s = encoded_text (encoder_init alphabet pad) out"
    using decode_accepts [OF assms] by blast
  have "err = None \<Longrightarrow> base64_encode (encoder_init alphabet pad) (replicate (length s) 0) out = Ret s"
    using out(3) base64_encode_encoded [of "encoder_init alphabet pad" out "replicate (length s) 0"]
      length_encoded [of "encoder_init alphabet pad" out] by simp
  then show ?thesis using out by blast
qed

theorem base64_decode_strict_witness:
  "\<exists>err out. base64_decode (decoder_init URL_SAFE_ALPHABET_CHARS None) [0, 0] (bs ''Zm-'') = Ret (err, out) \<and>
    length out = length [0, 0 :: u8] \<and>
    (err = None \<longrightarrow> base64_encode (encoder_init URL_SAFE_ALPHABET_CHARS None) (replicate (length (bs ''Zm-'')) 0) out = Ret (bs ''Zm-''))"
  by (rule base64_decode_strict)
    (simp_all add: URL_SAFE_ALPHABET_CHARS_def calc_size_for_slice_def calc_size_upper_bound_def decoder_init_def)

end
