(* ===== verification/Base64Mixed.thy ===== *)
theory Base64Mixed
  imports Base64 Bytes
begin

text \<open>
  The Base64 decoder that ignores characters and the functions of the crate around it
  (\<open>src/src/base64/lib.rs\<close>: \<open>Base64DecoderWithIgnore\<close>, \<open>MIXED_DECODER\<close>, \<open>decode\<close>, \<open>decode_lenient\<close>,
  \<open>decode_alloc\<close>). \<open>MIXED_DECODER\<close> is the fallback behind the SIMD library: a simulation
  (\<open>mixed_simulates\<close>) shows that it does on the source what the standard decoder does on the source cleaned
  of foreign characters, so it accepts exactly what cleans up to an encoding.
\<close>

subsection \<open>The decoder that ignores characters\<close>

record base64_decoder_ignore =
  bi_decoder :: base64_decoder
  bi_char_is_ignored :: "bool list"

fun mark_ignored :: "bytes \<Rightarrow> bool list \<Rightarrow> bool list" where
  "mark_ignored [] table = table"
| "mark_ignored (c # cs) table = mark_ignored cs (table[unat c := True])"

definition ignore_init :: "bytes \<Rightarrow> u8 option \<Rightarrow> bytes \<Rightarrow> base64_decoder_ignore" where
  "ignore_init alphabet pad ignore_chars =
     \<lparr>bi_decoder = decoder_init alphabet pad, bi_char_is_ignored = mark_ignored ignore_chars (replicate 256 False)\<rparr>"

definition standard_base64_decoder_with_ignore :: "bytes \<Rightarrow> base64_decoder_ignore" where
  "standard_base64_decoder_with_ignore ignore = ignore_init STANDARD_ALPHABET_CHARS (Some 61) ignore"

definition mixed_ignored :: bytes where
  "mixed_ignored = [0xFF, 32, 9, 13, 10, 0x0B, 0x0C]"

definition MIXED_DECODER :: base64_decoder_ignore where
  "MIXED_DECODER =
     (let decoder = standard_base64_decoder_with_ignore mixed_ignored;
          table = bd_char_to_index (bi_decoder decoder);
          table = table[unat (URL_SAFE_ALPHABET_CHARS ! 62) := 62];
          table = table[unat (URL_SAFE_ALPHABET_CHARS ! 63) := 63]
      in decoder\<lparr>bi_decoder := (bi_decoder decoder)\<lparr>bd_char_to_index := table\<rparr>\<rparr>)"

text \<open>
  The loop over the source: an error with the bytes written so far and the destination, or what
  \<^const>\<open>decode_loop\<close> gives.
\<close>

fun ignore_loop :: "base64_decoder_ignore \<Rightarrow> bytes \<Rightarrow> nat \<Rightarrow> nat \<Rightarrow> nat \<Rightarrow> bytes \<Rightarrow>
    ((base64_error \<times> nat \<times> bytes) + nat \<times> nat \<times> nat \<times> bytes \<times> bytes option) outcome" where
  "ignore_loop d [] acc acc_len wrote dest = Ret (Inr (acc, acc_len, wrote, dest, None))"
| "ignore_loop d (c # cs) acc acc_len wrote dest =
     (if bi_char_is_ignored d ! unat c then ignore_loop d cs acc acc_len wrote dest
      else
        (let digit = bd_char_to_index (bi_decoder d) ! unat c in
         if digit = INVALID_CHAR then
           (if bd_pad_char (bi_decoder d) = Some c then Ret (Inr (acc, acc_len, wrote, dest, Some (c # cs)))
            else if bi_char_is_ignored d ! INVALID_CHAR then ignore_loop d cs acc acc_len wrote dest
            else Ret (Inl (base64_error.InvalidCharacter, wrote, dest)))
         else
           (let acc = acc_push acc 6 digit; acc_len = acc_len + 6 in
            if 8 \<le> acc_len then
              (if wrote = length dest then Ret (Inl (NoSpaceLeft, wrote, dest))
               else bind_outcome (write_at dest wrote (of_nat (acc div 2 ^ (acc_len - 8))))
                 (ignore_loop d cs acc (acc_len - 8) (wrote + 1)))
            else ignore_loop d cs acc acc_len wrote dest)))"

text \<open>The loop over the padding: the error, or the number of padding characters.\<close>

fun count_padding :: "base64_decoder_ignore \<Rightarrow> u8 \<Rightarrow> bytes \<Rightarrow> nat \<Rightarrow> base64_error + nat" where
  "count_padding d pad [] n = Inr n"
| "count_padding d pad (c # cs) n =
     (if bi_char_is_ignored d ! unat c then count_padding d pad cs n
      else if c \<noteq> pad then Inl (if unat c = INVALID_CHAR then base64_error.InvalidCharacter else InvalidPadding)
      else count_padding d pad cs (n + 1))"

definition ignore_check_padding :: "base64_decoder_ignore \<Rightarrow> nat \<Rightarrow> bytes option \<Rightarrow> base64_error option" where
  "ignore_check_padding d acc_len leftover =
     (case bd_pad_char (bi_decoder d) of
        None \<Rightarrow> None
      | Some pad \<Rightarrow>
          (case leftover of
             Some rest \<Rightarrow>
               (case count_padding d pad rest 0 of
                  Inl e \<Rightarrow> Some e
                | Inr n \<Rightarrow> if n \<noteq> acc_len div 2 then Some InvalidPadding else None)
           | None \<Rightarrow> if 0 < acc_len div 2 then Some InvalidPadding else None))"

text \<open>The result is the error, if there is one, the bytes written and the destination.\<close>

definition ignore_decode :: "base64_decoder_ignore \<Rightarrow> bytes \<Rightarrow> bytes \<Rightarrow> (base64_error option \<times> nat \<times> bytes) outcome" where
  "ignore_decode d dest source =
     bind_outcome (ignore_loop d source 0 0 0 dest) (\<lambda>r.
       case r of
         Inl (e, wrote, dest') \<Rightarrow> Ret (Some e, wrote, dest')
       | Inr (acc, acc_len, wrote, dest', leftover) \<Rightarrow>
           if 4 < acc_len \<or> acc mod 2 ^ acc_len \<noteq> 0 then Ret (Some InvalidPadding, wrote, dest')
           else Ret (ignore_check_padding d acc_len leftover, wrote, dest'))"

subsection \<open>The entry points\<close>

text \<open>
  \<open>simdutf::base64::decode\<close> and \<open>decode_lenient\<close> are parameters: from the source, the destination (and the
  flag of the alphabet) to the result and the destination. \<open>decode_len\<close> is the size that \<open>decode_alloc\<close>
  reserves; its buffer is not initialised, so its contents are an argument.
\<close>

definition SUCCESS :: int where "SUCCESS = 0"

definition INVALID_BASE64_CHARACTER :: int where "INVALID_BASE64_CHARACTER = 7"

record simdutf_result =
  sr_status :: int
  sr_count :: nat

definition is_successful :: "simdutf_result \<Rightarrow> bool" where
  "is_successful r \<longleftrightarrow> sr_status r = SUCCESS"

type_synonym simd_decode = "bytes \<Rightarrow> bytes \<Rightarrow> bool \<Rightarrow> simdutf_result \<times> bytes"

definition decode :: "simd_decode \<Rightarrow> bytes \<Rightarrow> bytes \<Rightarrow> (simdutf_result \<times> bytes) outcome" where
  "decode simd destination source =
     (let (result, destination) = simd source destination False in
      if \<not> is_successful result then
        bind_outcome (ignore_decode MIXED_DECODER destination source) (\<lambda>(err, wrote, destination).
          Ret (\<lparr>sr_status = (if err \<noteq> None then INVALID_BASE64_CHARACTER else SUCCESS), sr_count = wrote\<rparr>, destination))
      else Ret (result, destination))"

definition decode_lenient_len :: "nat \<Rightarrow> nat" where
  "decode_lenient_len source_len = div_ceil source_len 4 * 3"

definition decode_lenient ::
  "simd_decode \<Rightarrow> (bytes \<Rightarrow> bytes \<Rightarrow> simdutf_result \<times> bytes) \<Rightarrow> bytes \<Rightarrow> bytes \<Rightarrow> bool \<Rightarrow> (nat \<times> bytes) outcome" where
  "decode_lenient simd simd_lenient destination source is_urlsafe =
     (let (strict, destination) = simd source destination is_urlsafe in
      if is_successful strict then Ret (sr_count strict, destination)
      else
        (let source = (if length destination < decode_lenient_len (length source) then
               (case index_of_char source 61 of Some index \<Rightarrow> take index source | None \<Rightarrow> source) else source);
             (result, destination) = simd_lenient source destination in
         if is_successful result then Ret (sr_count result, destination)
         else bind_outcome (ignore_decode MIXED_DECODER destination source)
           (\<lambda>(err, wrote, destination). Ret (wrote, destination))))"

definition decode_len :: "bytes \<Rightarrow> nat" where
  "decode_len source =
     (case calc_size_for_slice (decoder_init STANDARD_ALPHABET_CHARS (Some 61)) source of
        Inr v \<Rightarrow> v
      | Inl e \<Rightarrow> length source div 4 * 3 + 2)"

datatype decode_alloc_error = DecodingFailed

definition decode_alloc :: "simd_decode \<Rightarrow> bytes \<Rightarrow> bytes \<Rightarrow> (decode_alloc_error + bytes) outcome" where
  "decode_alloc simd spare input =
     (let len = decode_len input in
      if len \<le> length spare then
        bind_outcome (decode simd (take len spare) input) (\<lambda>(result, destination).
          if \<not> is_successful result then Ret (Inl DecodingFailed)
          else if sr_count result \<le> length destination then Ret (Inr (take (sr_count result) destination)) else Panic)
      else Panic)"

definition url_safe_encode_len_from_size :: "nat \<Rightarrow> nat" where
  "url_safe_encode_len_from_size n =
     (let full_chunks = n div 3; leftover = n mod 3 in full_chunks * 4 + div_ceil (leftover * 4) 3)"

subsection \<open>What the mixed decoder accepts\<close>

definition to_standard :: "u8 \<Rightarrow> u8" where
  "to_standard c = (if c = 45 then 43 else if c = 95 then 47 else c)"

text \<open>Before the first padding character only the digits count, after it all that is not ignored.\<close>

definition cleaned :: "bytes \<Rightarrow> bytes" where
  "cleaned s = filter (\<lambda>c. to_standard c \<in> set STANDARD_ALPHABET_CHARS) (takeWhile (\<lambda>c. c \<noteq> 61) s) @
     filter (\<lambda>c. c \<notin> set mixed_ignored) (dropWhile (\<lambda>c. c \<noteq> 61) s)"

lemma standard_alphabet: "distinct STANDARD_ALPHABET_CHARS" "length STANDARD_ALPHABET_CHARS = 64"
  "61 \<notin> set STANDARD_ALPHABET_CHARS" "set mixed_ignored \<inter> set STANDARD_ALPHABET_CHARS = {}"
  by (simp_all add: STANDARD_ALPHABET_CHARS_def mixed_ignored_def)

lemma standard_nth: "STANDARD_ALPHABET_CHARS ! 62 = 43" "STANDARD_ALPHABET_CHARS ! 63 = 47"
   "URL_SAFE_ALPHABET_CHARS ! 62 = 45" "URL_SAFE_ALPHABET_CHARS ! 63 = 95"
   "45 \<notin> set STANDARD_ALPHABET_CHARS" "95 \<notin> set STANDARD_ALPHABET_CHARS"
  by (simp_all add: STANDARD_ALPHABET_CHARS_def URL_SAFE_ALPHABET_CHARS_def)

lemma mark_ignored_nth:
  "length table = 256 \<Longrightarrow> mark_ignored cs table ! unat (c :: u8) \<longleftrightarrow> c \<in> set cs \<or> table ! unat c"
proof (induction cs arbitrary: table)
  case (Cons a cs)
  then show ?case using unat_u8 [of a] by (auto simp: nth_list_update word_unat_eq_iff)
qed simp

lemma mixed_ignores: "bi_char_is_ignored MIXED_DECODER ! unat c \<longleftrightarrow> c \<in> set mixed_ignored"
  using unat_u8 [of c] by (simp add: MIXED_DECODER_def Let_def standard_base64_decoder_with_ignore_def ignore_init_def mark_ignored_nth)

lemma mixed_ignores_invalid: "bi_char_is_ignored MIXED_DECODER ! INVALID_CHAR"
  using mixed_ignores [of "0xFF"] by (simp add: INVALID_CHAR_def mixed_ignored_def)

lemma mixed_pad: "bd_pad_char (bi_decoder MIXED_DECODER) = Some 61"
  by (simp add: MIXED_DECODER_def Let_def standard_base64_decoder_with_ignore_def ignore_init_def)

abbreviation std_decoder :: base64_decoder where
  "std_decoder \<equiv> decoder_init STANDARD_ALPHABET_CHARS (Some 61)"

lemma mixed_digit: "bd_char_to_index (bi_decoder MIXED_DECODER) ! unat c = bd_char_to_index std_decoder ! unat (to_standard c)"
proof -
  have std: "bd_char_to_index std_decoder ! unat (43 :: u8) = 62" "bd_char_to_index std_decoder ! unat (47 :: u8) = 63"
    using decoder_digit [OF standard_alphabet(1,2), of 62] decoder_digit [OF standard_alphabet(1,2), of 63]
    by (simp_all add: standard_nth)
  have len: "length (bd_char_to_index std_decoder) = 256" by (simp add: decoder_init_def)
  have "bd_char_to_index (bi_decoder MIXED_DECODER) = (bd_char_to_index std_decoder)[45 := 62, 95 := 63]"
    by (simp add: MIXED_DECODER_def Let_def standard_base64_decoder_with_ignore_def ignore_init_def standard_nth)
  moreover have "unat c = 45 \<longleftrightarrow> c = 45" "unat c = 95 \<longleftrightarrow> c = 95" by (auto simp: word_unat_eq_iff)
  ultimately show ?thesis using std len unat_u8 [of c] by (auto simp: to_standard_def nth_list_update)
qed

text \<open>The simulation: the mixed decoder on the source and the standard one on the cleaned source.\<close>

fun loops_match ::
  "((base64_error \<times> bytes) + nat \<times> nat \<times> nat \<times> bytes \<times> bytes option) outcome \<Rightarrow>
   ((base64_error \<times> nat \<times> bytes) + nat \<times> nat \<times> nat \<times> bytes \<times> bytes option) outcome \<Rightarrow> bool" where
  "loops_match Panic r \<longleftrightarrow> (\<exists>out. r = Ret (Inl (NoSpaceLeft, length out, out)))"
| "loops_match (Ret (Inl x)) r \<longleftrightarrow> False"
| "loops_match (Ret (Inr (acc, al, i, out, left))) r \<longleftrightarrow>
     (\<exists>left'. r = Ret (Inr (acc, al, i, out, left')) \<and>
        left = map_option (\<lambda>t. map to_standard (filter (\<lambda>c. c \<notin> set mixed_ignored) t)) left')"

lemma cleaned_Cons:
  "cleaned (c # s) =
     (if c = 61 then c # filter (\<lambda>c. c \<notin> set mixed_ignored) s
      else if to_standard c \<in> set STANDARD_ALPHABET_CHARS then c # cleaned s else cleaned s)"
  by (simp add: cleaned_def mixed_ignored_def)

lemma ignored_not_digit: "c \<in> set mixed_ignored \<Longrightarrow> to_standard c = c \<and> c \<notin> set STANDARD_ALPHABET_CHARS \<and> c \<noteq> 61"
  using standard_alphabet(3,4) by (auto simp: mixed_ignored_def to_standard_def)

lemma mixed_simulates:
  "i \<le> length dest \<Longrightarrow> al < 8 \<Longrightarrow>
   loops_match (decode_loop std_decoder (map to_standard (cleaned s)) acc al i dest) (ignore_loop MIXED_DECODER s acc al i dest)"
proof (induction s arbitrary: acc al i dest)
  case Nil
  then show ?case by (simp add: cleaned_def)
next
  case (Cons c s)
  show ?case
  proof (cases "c \<in> set mixed_ignored")
    case True
    then show ?thesis using Cons ignored_not_digit [OF True] by (simp add: cleaned_Cons mixed_ignores)
  next
    case keep: False
    have inv: "bd_char_to_index std_decoder ! unat (61 :: u8) = INVALID_CHAR"
      using standard_alphabet(3) by (rule decoder_invalid)
    from standard_alphabet(1,2) show ?thesis
    proof (cases rule: decoder_digit_cases [of STANDARD_ALPHABET_CHARS "Some 61" "to_standard c"])
      case 1
      then show ?thesis
      proof (cases "c = 61")
        case True
        have "to_standard 61 = 61" by (simp add: to_standard_def)
        then show ?thesis using keep inv True mixed_ignores [of 61] mixed_digit [of 61]
          by (simp add: cleaned_Cons mixed_pad decode_loop_pad Let_def)
      next
        case False
        then show ?thesis using keep 1 Cons
          by (simp add: cleaned_Cons mixed_ignores mixed_digit mixed_pad mixed_ignores_invalid)
      qed
    next
      case (2 q)
      have q: "q \<noteq> INVALID_CHAR" using 2(1) by (simp add: INVALID_CHAR_def)
      have "to_standard c \<in> set STANDARD_ALPHABET_CHARS" unfolding 2(2) using 2(1) standard_alphabet(2) by simp
      moreover from this have "c \<noteq> 61" using standard_alphabet(3) by (auto simp: to_standard_def split: if_splits)
      ultimately show ?thesis using keep 2(3) q Cons.IH Cons.prems
        by (simp add: cleaned_Cons mixed_ignores mixed_digit decode_loop.simps(2) Let_def write_at_def)
    qed
  qed
qed

lemma count_padding_filter:
  assumes "\<And>c. bi_char_is_ignored d ! unat c \<longleftrightarrow> \<not> keep c"
  shows "count_padding d p t n = Inr m \<longleftrightarrow> filter keep t = replicate (length (filter keep t)) p \<and> m = n + length (filter keep t)"
  using assms by (induction t arbitrary: n) auto

fun wrote_within :: "nat \<Rightarrow> (base64_error \<times> nat \<times> bytes) + nat \<times> nat \<times> nat \<times> bytes \<times> bytes option \<Rightarrow> bool" where
  "wrote_within n (Inl (e, w, out)) \<longleftrightarrow> w \<le> n \<and> length out = n"
| "wrote_within n (Inr (acc, al, w, out, left)) \<longleftrightarrow> w \<le> n \<and> length out = n"

lemma ignore_loop_within:
  "w \<le> length dest \<Longrightarrow> \<exists>r. ignore_loop d s acc al w dest = Ret r \<and> wrote_within (length dest) r"
proof (induction s arbitrary: acc al w dest)
  case (Cons c s)
  have "w \<noteq> length dest \<Longrightarrow> \<exists>r. ignore_loop d s acc' al' (w + 1) (dest[w := v]) = Ret r \<and> wrote_within (length dest) r" for acc' al' v
    using Cons.IH [of "w + 1" "dest[w := v]"] Cons.prems by simp
  then show ?case using Cons by (simp add: Let_def write_at_def)
qed simp

fun ignore_finish :: "base64_decoder_ignore \<Rightarrow> (base64_error \<times> nat \<times> bytes) + nat \<times> nat \<times> nat \<times> bytes \<times> bytes option \<Rightarrow>
    base64_error option \<times> nat \<times> bytes" where
  "ignore_finish d (Inl (e, w, out)) = (Some e, w, out)"
| "ignore_finish d (Inr (acc, al, w, out, left)) =
     (if 4 < al \<or> acc mod 2 ^ al \<noteq> 0 then (Some InvalidPadding, w, out) else (ignore_check_padding d al left, w, out))"

lemma ignore_decode_finish:
  "ignore_loop d s 0 0 0 dest = Ret r \<Longrightarrow> ignore_decode d dest s = Ret (ignore_finish d r)"
  by (cases "(d, r)" rule: ignore_finish.cases) (simp_all add: ignore_decode_def)

lemma wrote_within_finish: "wrote_within n r \<Longrightarrow> ignore_finish d r = (err, w, out) \<Longrightarrow> w \<le> n \<and> length out = n"
  by (cases "(d, r)" rule: ignore_finish.cases) (auto split: if_splits)

lemma ignore_finish_None:
  assumes "ignore_finish d r = (None, w, out)"
  obtains acc al left where "r = Inr (acc, al, w, out, left)" "al \<le> 4" "acc mod 2 ^ al = 0" "ignore_check_padding d al left = None"
  using assms by (cases "(d, r)" rule: ignore_finish.cases) (auto split: if_splits)

lemma mixed_padding:
  "ignore_check_padding MIXED_DECODER al left = None \<longleftrightarrow>
     (case left of None \<Rightarrow> al div 2 = 0
      | Some t \<Rightarrow> filter (\<lambda>c. c \<notin> set mixed_ignored) t = replicate (al div 2) 61)"
proof (cases left)
  case (Some t)
  have "count_padding MIXED_DECODER 61 t 0 = Inr m \<longleftrightarrow> filter (\<lambda>c. c \<notin> set mixed_ignored) t = replicate m 61" for m
    using count_padding_filter [of MIXED_DECODER "\<lambda>c. c \<notin> set mixed_ignored" 61 t 0 m] mixed_ignores by (auto simp: comp_def)
  from this [of "al div 2"] show ?thesis using Some by (auto simp: ignore_check_padding_def mixed_pad split: sum.splits if_splits)
qed (simp add: ignore_check_padding_def mixed_pad)

lemma to_standard_pads: "map to_standard xs = replicate n 61 \<longleftrightarrow> xs = replicate n 61"
  "replicate n 61 = map to_standard xs \<longleftrightarrow> xs = replicate n 61"
proof -
  show "map to_standard xs = replicate n 61 \<longleftrightarrow> xs = replicate n 61"
    by (induction xs arbitrary: n) (auto simp: to_standard_def Cons_replicate_eq split: if_splits)
  then show "replicate n 61 = map to_standard xs \<longleftrightarrow> xs = replicate n 61" by metis
qed

lemma even_bits: "w * 8 + al = 6 * (n :: nat) \<Longrightarrow> al div 2 = 0 \<Longrightarrow> al = 0"
  by presburger

abbreviation std_encoder :: base64_encoder where
  "std_encoder \<equiv> encoder_init STANDARD_ALPHABET_CHARS (Some 61)"

lemma mixed_decode_encoded:
  assumes "map to_standard (cleaned s) = encoded_text std_encoder src" "length src \<le> length dest"
  shows "ignore_decode MIXED_DECODER dest s = Ret (None, length src, src @ drop (length src) dest)"
proof -
  obtain acc left where loop: "decode_loop std_decoder (encoded_text std_encoder src) 0 0 0 dest =
       Ret (Inr (acc, left_bits (length src), length src, src @ drop (length src) dest, left))"
    "acc mod 2 ^ left_bits (length src) = 0"
    "left = (if pad_count (length src) = 0 then None else Some (replicate (pad_count (length src)) 61))"
    using decode_loop_encoded [OF standard_alphabet(2,1) _ assms(2), of "Some 61"] standard_alphabet(3) by auto
  then obtain left' where mixed: "ignore_loop MIXED_DECODER s 0 0 0 dest =
       Ret (Inr (acc, left_bits (length src), length src, src @ drop (length src) dest, left'))"
    "left = map_option (\<lambda>t. map to_standard (filter (\<lambda>c. c \<notin> set mixed_ignored) t)) left'"
    using mixed_simulates [of 0 dest 0 s 0] assms(1) by auto
  have "ignore_check_padding MIXED_DECODER (left_bits (length src)) left' = None"
    using mixed(2) loop(3) pad_count_left_bits(1) [of "length src"] unfolding mixed_padding
    by (cases left') (auto simp: to_standard_pads split: if_splits)
  then show ?thesis using ignore_decode_finish [OF mixed(1)] loop(2) pad_count_left_bits(2) [of "length src"] by simp
qed

lemma mixed_decode_accepts:
  assumes "ignore_decode MIXED_DECODER dest s = Ret (None, w, out)"
  obtains src where "map to_standard (cleaned s) = encoded_text std_encoder src" "w = length src" "w \<le> length dest"
proof -
  obtain r where r: "ignore_loop MIXED_DECODER s 0 0 0 dest = Ret r" "wrote_within (length dest) r"
    using ignore_loop_within [of 0 dest MIXED_DECODER s 0 0] by auto
  then have fin: "ignore_finish MIXED_DECODER r = (None, w, out)" using assms ignore_decode_finish by simp
  then obtain acc al left' where res: "r = Inr (acc, al, w, out, left')" "al \<le> 4" "acc mod 2 ^ al = 0"
      "ignore_check_padding MIXED_DECODER al left' = None"
    by (rule ignore_finish_None)
  obtain left where loop: "decode_loop std_decoder (map to_standard (cleaned s)) 0 0 0 dest = Ret (Inr (acc, al, w, out, left))"
      "left = map_option (\<lambda>t. map to_standard (filter (\<lambda>c. c \<notin> set mixed_ignored) t)) left'"
    using mixed_simulates [of 0 dest 0 s 0] r(1) res(1)
    by (cases "(decode_loop std_decoder (map to_standard (cleaned s)) 0 0 0 dest, Ret r)" rule: loops_match.cases) auto
  have post: "read_post STANDARD_ALPHABET_CHARS (Some 61) (map to_standard (cleaned s)) 0 (length dest) (Inr (acc, al, w, out, left))"
    using decode_loop_post [OF standard_alphabet(1,2), of "Some 61" 0 0 0 dest "map to_standard (cleaned s)" 0]
      standard_alphabet(3) loop(1) by auto
  have "left = None \<Longrightarrow> al = 0"
    using res(4) loop(2) post by (auto simp: mixed_padding intro: even_bits)
  then have "case left of None \<Rightarrow> Some 61 \<noteq> None \<longrightarrow> al = 0 | Some t \<Rightarrow> \<forall>p. Some (61 :: u8) = Some p \<longrightarrow> t = replicate (al div 2) p"
    using res(4) loop(2) unfolding mixed_padding by (auto simp: to_standard_pads split: option.splits)
  then obtain src where "map to_standard (cleaned s) = encoded_text std_encoder src" "w = length src"
    using read_post_encoded [OF post res(2,3)] by blast
  then show thesis using that wrote_within_finish [OF r(2) fin] by blast
qed

text \<open>The encoded size of the URL-safe alphabet is that of the encoder without padding.\<close>

lemma url_safe_encode_len: "url_safe_encode_len_from_size n = encoder_calc_size (encoder_init URL_SAFE_ALPHABET_CHARS None) n"
  by (simp add: url_safe_encode_len_from_size_def encoder_calc_size_def encoder_init_def)

text \<open>
  Where the SIMD decoder stays inside its destination, \<open>decode_alloc\<close> commits only bytes that were
  written; where it fails, the mixed decoder decides.
\<close>

lemma decode_alloc_returns:
  assumes simd: "\<And>source dest r dest'. simd source dest False = (r, dest') \<Longrightarrow>
      length dest' = length dest \<and> (is_successful r \<longrightarrow> sr_count r \<le> length dest)"
    and "decode_len input \<le> length spare"
  shows "\<exists>r. decode_alloc simd spare input = Ret r"
proof -
  obtain r dest where s: "simd input (take (decode_len input) spare) False = (r, dest)" by fastforce
  obtain q where q: "ignore_loop MIXED_DECODER input 0 0 0 dest = Ret q" "wrote_within (length dest) q"
    using ignore_loop_within [of 0 dest MIXED_DECODER input 0 0] by auto
  obtain err w out where fin: "ignore_finish MIXED_DECODER q = (err, w, out)" by (cases "ignore_finish MIXED_DECODER q")
  show ?thesis
    using simd [OF s] assms(2) s ignore_decode_finish [OF q(1)] fin wrote_within_finish [OF q(2) fin]
    by (simp add: decode_alloc_def decode_def Let_def is_successful_def SUCCESS_def)
qed

subsection \<open>The property\<close>

text \<open>
  C26: \<open>MIXED_DECODER\<close> (the fallback of \<open>decode\<close>, \<open>decode_alloc\<close> and \<open>decode_lenient\<close>) never writes outside the
  destination, whatever the source, and reports at most as many bytes as it has. It succeeds exactly
  when the source, cleaned (before the first \<open>'='\<close> all characters of neither alphabet dropped, after it the
  ignored ones) and with \<open>'-'\<close> and \<open>'_'\<close> read as \<open>'+'\<close> and \<open>'/'\<close>, is the padded standard encoding of some bytes
  that fit in the destination; it has then written these bytes and left the rest alone.
\<close>

theorem mixed_decode_exact:
  "(\<exists>err wrote out. ignore_decode MIXED_DECODER dest s = Ret (err, wrote, out) \<and> wrote \<le> length dest \<and>
      length out = length dest) \<and>
   (ignore_decode MIXED_DECODER dest s = Ret (None, n, result) \<longleftrightarrow>
      (\<exists>src. base64_encode std_encoder (replicate (length (cleaned s)) 0) src = Ret (map to_standard (cleaned s)) \<and>
         n = length src \<and> n \<le> length dest \<and> result = src @ drop n dest))"
proof (rule conjI)
  obtain r where r: "ignore_loop MIXED_DECODER s 0 0 0 dest = Ret r" "wrote_within (length dest) r"
    using ignore_loop_within [of 0 dest MIXED_DECODER s 0 0] by auto
  then show "\<exists>err wrote out. ignore_decode MIXED_DECODER dest s = Ret (err, wrote, out) \<and> wrote \<le> length dest \<and>
      length out = length dest"
    using ignore_decode_finish [OF r(1)] wrote_within_finish [OF r(2)] by (cases "ignore_finish MIXED_DECODER r") auto
  have enc: "base64_encode std_encoder (replicate (length t) 0) src = Ret t \<longleftrightarrow> t = encoded_text std_encoder src" for t src
    using base64_encode_encoded [of std_encoder src "replicate (length t) 0"] length_encoded [of std_encoder src]
      base64_encode_length [of std_encoder "replicate (length t) 0" src t] by auto
  have "ignore_decode MIXED_DECODER dest s = Ret (None, n, result) \<longleftrightarrow>
      (\<exists>src. map to_standard (cleaned s) = encoded_text std_encoder src \<and> n = length src \<and> n \<le> length dest \<and>
         result = src @ drop n dest)"
  proof
    assume ok: "ignore_decode MIXED_DECODER dest s = Ret (None, n, result)"
    then obtain src where "map to_standard (cleaned s) = encoded_text std_encoder src" "n = length src" "n \<le> length dest"
      by (rule mixed_decode_accepts)
    then show "\<exists>src. map to_standard (cleaned s) = encoded_text std_encoder src \<and> n = length src \<and> n \<le> length dest \<and>
        result = src @ drop n dest"
      using ok mixed_decode_encoded [of s src dest] by auto
  qed (auto simp: mixed_decode_encoded)
  then show "ignore_decode MIXED_DECODER dest s = Ret (None, n, result) \<longleftrightarrow>
      (\<exists>src. base64_encode std_encoder (replicate (length (cleaned s)) 0) src = Ret (map to_standard (cleaned s)) \<and>
         n = length src \<and> n \<le> length dest \<and> result = src @ drop n dest)"
    using enc [of "map to_standard (cleaned s)"] by simp
qed

end
