(* ===== verification/Vlq.thy ===== *)
theory Vlq
  imports Base64
begin

text \<open>
  The variable-length quantities of source maps (\<open>src/src/base64/lib.rs\<close>, module \<open>vlq\<close>). A quantity is an
  \<open>i32\<close>, here a 32-bit word read with \<open>sint\<close>; the sign is moved to the low bit of a \<open>u32\<close>, which is
  written in digits of five bits with a continuation bit. Decoding at any place of a mapping gives back
  what was encoded there, except \<open>i32::MIN\<close>, which has no sign-magnitude form.
\<close>

unbundle bit_operations_syntax

type_synonym i32 = "32 word"

subsection \<open>Encoding\<close>

definition VLQ_MAX_IN_BYTES :: nat where "VLQ_MAX_IN_BYTES = 7"

definition U7_MAX :: nat where "U7_MAX = 127"

record vlq_quantity =
  vlq_bytes :: bytes
  vlq_len :: nat

definition vlq_slice :: "vlq_quantity \<Rightarrow> bytes" where
  "vlq_slice q = take (vlq_len q) (vlq_bytes q)"

text \<open>The \<open>u32\<close> whose digits are written: twice the magnitude, plus the sign.\<close>

definition sign_magnitude :: "i32 \<Rightarrow> u32" where
  "sign_magnitude value = (if 0 \<le> sint value then push_bit 1 value else push_bit 1 (- value) OR 1)"

text \<open>The loop with the number of rounds left; the last digit returns out of it.\<close>

fun vlq_encode_loop :: "nat \<Rightarrow> u32 \<Rightarrow> bytes \<Rightarrow> nat \<Rightarrow> vlq_quantity outcome" where
  "vlq_encode_loop 0 vlq bytes len = Ret \<lparr>vlq_bytes = bytes, vlq_len = 0\<rparr>"
| "vlq_encode_loop (Suc n) vlq bytes len =
     (let digit = vlq AND 31; vlq = drop_bit 5 vlq;
          digit = (if vlq \<noteq> 0 then digit OR 32 else digit) in
      bind_outcome (write_at bytes len (STANDARD_ALPHABET_CHARS ! unat digit)) (\<lambda>bytes.
        if vlq = 0 then Ret \<lparr>vlq_bytes = bytes, vlq_len = len + 1\<rparr>
        else vlq_encode_loop n vlq bytes (len + 1)))"

definition encode_slow_path :: "i32 \<Rightarrow> vlq_quantity outcome" where
  "encode_slow_path value =
     vlq_encode_loop VLQ_MAX_IN_BYTES (sign_magnitude value) (replicate VLQ_MAX_IN_BYTES 0) 0"

definition VLQ_LOOKUP_TABLE :: "vlq_quantity outcome list" where
  "VLQ_LOOKUP_TABLE = map (\<lambda>j. encode_slow_path (of_nat j)) [0..<256]"

definition vlq_encode :: "i32 \<Rightarrow> vlq_quantity outcome" where
  "vlq_encode value =
     (if 0 \<le> sint value \<and> sint value \<le> 255 then VLQ_LOOKUP_TABLE ! nat (sint value) else encode_slow_path value)"

subsection \<open>Decoding\<close>

record vlq_result =
  vr_value :: i32
  vr_start :: nat

definition BASE64_LUT :: "nat list" where
  "BASE64_LUT = fill_index STANDARD_ALPHABET_CHARS 0 (replicate (U7_MAX + 1) U7_MAX)"

definition vlq_value :: "u32 \<Rightarrow> i32" where
  "vlq_value vlq = (if vlq AND 1 = 0 then drop_bit 1 vlq else - drop_bit 1 vlq)"

fun vlq_decode_loop :: "bytes \<Rightarrow> nat \<Rightarrow> nat \<Rightarrow> nat \<Rightarrow> u32 \<Rightarrow> vlq_result" where
  "vlq_decode_loop [] start i shift vlq = \<lparr>vr_value = 0, vr_start = start\<rparr>"
| "vlq_decode_loop (c # cs) start i shift vlq =
     (let index = of_nat (BASE64_LUT ! unat (c AND 0x7f)) :: u32;
          vlq = vlq OR push_bit (shift mod 32) (index AND 31) in
      if index AND 32 = 0 then \<lparr>vr_value = vlq_value vlq, vr_start = start + i + 1\<rparr>
      else vlq_decode_loop cs start (i + 1) (shift + 5) vlq)"

definition vlq_decode :: "bytes \<Rightarrow> nat \<Rightarrow> vlq_result outcome" where
  "vlq_decode encoded start =
     (if start \<le> length encoded then
        (let window = take (min (length encoded - start) (VLQ_MAX_IN_BYTES + 1)) (drop start encoded) in
         Ret (vlq_decode_loop window start 0 0 0))
      else Panic)"

subsection \<open>The digits\<close>

definition vlq_digit :: "u32 \<Rightarrow> u32" where
  "vlq_digit x = (if drop_bit 5 x \<noteq> 0 then (x AND 31) OR 32 else x AND 31)"

fun vlq_chars :: "nat \<Rightarrow> u32 \<Rightarrow> bytes" where
  "vlq_chars 0 x = []"
| "vlq_chars (Suc n) x =
     STANDARD_ALPHABET_CHARS ! unat (vlq_digit x) # (if drop_bit 5 x = 0 then [] else vlq_chars n (drop_bit 5 x))"

lemma length_vlq_chars: "length (vlq_chars n x) \<le> n"
  by (induction n arbitrary: x) auto

lemma vlq_encode_loop_chars:
  "drop_bit (5 * n) x = 0 \<Longrightarrow> 0 < n \<Longrightarrow> n \<le> length rest \<Longrightarrow>
   vlq_encode_loop n x (pre @ rest) (length pre) =
     Ret \<lparr>vlq_bytes = pre @ vlq_chars n x @ drop (length (vlq_chars n x)) rest, vlq_len = length pre + length (vlq_chars n x)\<rparr>"
proof (induction n arbitrary: x pre rest)
  case (Suc n)
  obtain y rest' where rest: "rest = y # rest'" using Suc.prems(3) by (cases rest) auto
  let ?c = "STANDARD_ALPHABET_CHARS ! unat (vlq_digit x)"
  have "drop_bit (5 * n) (drop_bit 5 x) = 0" using Suc.prems(1) by (simp add: add.commute)
  moreover from this have "drop_bit 5 x \<noteq> 0 \<Longrightarrow> 0 < n" by (cases n) auto
  ultimately have "drop_bit 5 x \<noteq> 0 \<Longrightarrow> vlq_encode_loop n (drop_bit 5 x) ((pre @ [?c]) @ rest') (length (pre @ [?c])) =
      Ret \<lparr>vlq_bytes = (pre @ [?c]) @ vlq_chars n (drop_bit 5 x) @ drop (length (vlq_chars n (drop_bit 5 x))) rest',
        vlq_len = length (pre @ [?c]) + length (vlq_chars n (drop_bit 5 x))\<rparr>"
    using Suc.prems(3) rest by (intro Suc.IH) auto
  then show ?case unfolding rest by (auto simp: Let_def write_at_def vlq_digit_def)
qed simp

lemma and_31: "x AND 31 = take_bit 5 (x :: u32)"
  by (simp add: take_bit_eq_mask mask_eq_exp_minus_1)

lemma bit_32: "bit (32 :: int) n \<longleftrightarrow> n = 5"
  using bit_exp_iff [of 5 n, where ?'a = int] by (simp add: possible_bit_def)

lemma bit_vlq_digit: "bit (vlq_digit x) n \<longleftrightarrow> n < 5 \<and> bit x n \<or> n = 5 \<and> drop_bit 5 x \<noteq> 0"
  by (auto simp: vlq_digit_def and_31 bit_simps bit_32)

lemma vlq_digit_less: "unat (vlq_digit x) < 64"
proof -
  have "vlq_digit x = take_bit 6 (vlq_digit x)" by (rule bit_word_eqI) (auto simp: bit_simps bit_vlq_digit)
  then have "unat (vlq_digit x) = unat (vlq_digit x) mod 64" 
    using unsigned_take_bit_eq [of 6 "vlq_digit x", where ?'a = nat] by (simp add: take_bit_eq_mod)
  then show ?thesis by (metis mod_less_divisor zero_less_numeral)
qed

lemma lut_digit: "q < 64 \<Longrightarrow> BASE64_LUT ! unat ((STANDARD_ALPHABET_CHARS ! q) AND 0x7f) = q"
proof -
  assume q: "q < 64"
  have len: "length STANDARD_ALPHABET_CHARS = 64" by (simp add: STANDARD_ALPHABET_CHARS_def)
  have "list_all (\<lambda>c. c AND 0x7f = c) STANDARD_ALPHABET_CHARS" by (simp add: STANDARD_ALPHABET_CHARS_def)
  then have "(STANDARD_ALPHABET_CHARS ! q) AND 0x7f = STANDARD_ALPHABET_CHARS ! q" using q len by (simp add: list_all_length)
  moreover have small: "list_all (\<lambda>c. unat c < 128) STANDARD_ALPHABET_CHARS" and dist: "distinct STANDARD_ALPHABET_CHARS"
    by (simp_all add: STANDARD_ALPHABET_CHARS_def)
  moreover have "BASE64_LUT ! unat (STANDARD_ALPHABET_CHARS ! q) = q"
    using fill_index_nth [of STANDARD_ALPHABET_CHARS q "replicate (U7_MAX + 1) U7_MAX" 0] small q len dist
    by (simp add: BASE64_LUT_def list_all_iff U7_MAX_def)
  ultimately show ?thesis by simp
qed

lemma vlq_decode_chars:
  "j + n = 7 \<Longrightarrow> x = drop_bit (5 * j) u \<Longrightarrow> drop_bit (5 * n) x = 0 \<Longrightarrow> 0 < n \<Longrightarrow>
   vlq_decode_loop (vlq_chars n x @ rest) start j (5 * j) (take_bit (5 * j) u) =
     \<lparr>vr_value = vlq_value u, vr_start = start + j + length (vlq_chars n x)\<rparr>"
proof (induction n arbitrary: j x)
  case (Suc n)
  have idx: "of_nat (BASE64_LUT ! unat ((STANDARD_ALPHABET_CHARS ! unat (vlq_digit x)) AND 0x7f)) = vlq_digit x"
    using lut_digit [OF vlq_digit_less] by simp
  have acc: "take_bit (5 * j) u OR push_bit (5 * j mod 32) (vlq_digit x AND 31) = take_bit (5 * (j + 1)) u"
    unfolding and_31 using Suc.prems(1,2) by (intro bit_word_eqI) (auto simp: bit_simps bit_vlq_digit)
  have cont: "vlq_digit x AND 32 = 0 \<longleftrightarrow> drop_bit 5 x = 0"
  proof -
    have "vlq_digit x AND 32 = (if drop_bit 5 x = 0 then 0 else 32)"
      by (intro bit_word_eqI) (auto simp: bit_simps bit_vlq_digit bit_32)
    then show ?thesis by simp
  qed
  show ?case
  proof (cases "drop_bit 5 x = 0")
    case True
    have "take_bit (5 * (j + 1)) u = u" using True Suc.prems(2) by (simp add: take_bit_eq_self_iff_drop_bit_eq_0 add.commute)
    then show ?thesis using True idx acc cont by (simp add: Let_def)
  next
    case False
    have n: "0 < n" "drop_bit (5 * n) (drop_bit 5 x) = 0" using Suc.prems(3) False by (cases n; simp)+
    have "drop_bit 5 x = drop_bit (5 * (j + 1)) u" using Suc.prems(2) by (simp add: add.commute)
    then show ?thesis using Suc.IH [OF _ _ n(2,1), of "j + 1"] Suc.prems(1) False idx acc cont
      by (simp add: Let_def algebra_simps)
  qed
qed simp

subsection \<open>The property\<close>

lemma vlq_encode_slow: "vlq_encode v = encode_slow_path v"
proof (cases "0 \<le> sint v \<and> sint v \<le> 255")
  case True
  then have "of_nat (nat (sint v)) = v" by simp
  moreover have "nat (sint v) < 256" using True by linarith
  ultimately show ?thesis using True by (simp add: vlq_encode_def VLQ_LOOKUP_TABLE_def nth_upt del: upt_conv_Cons upt_rec_numeral)
qed (auto simp: vlq_encode_def)

lemma encode_slow_path_chars:
  "encode_slow_path v = Ret \<lparr>vlq_bytes = vlq_chars 7 (sign_magnitude v) @
       replicate (7 - length (vlq_chars 7 (sign_magnitude v))) 0,
     vlq_len = length (vlq_chars 7 (sign_magnitude v))\<rparr>"
proof -
  have "drop_bit (5 * 7) (sign_magnitude v) = 0" by (rule bit_word_eqI) (simp add: bit_simps)
  then show ?thesis using vlq_encode_loop_chars [of 7 "sign_magnitude v" "replicate 7 0" "[]"]
    by (simp add: encode_slow_path_def VLQ_MAX_IN_BYTES_def)
qed

lemma decode_at:
  "vlq_decode (pre @ vlq_chars 7 u @ rest) (length pre) =
     Ret \<lparr>vr_value = vlq_value u, vr_start = length pre + length (vlq_chars 7 u)\<rparr>"
proof -
  let ?cs = "vlq_chars 7 u"
  have "take (min (length (pre @ ?cs @ rest) - length pre) 8) (drop (length pre) (pre @ ?cs @ rest)) =
      ?cs @ take (8 - length ?cs) rest"
    using length_vlq_chars [of 7 u] by (auto simp: min_def)
  moreover have "drop_bit (5 * 7) u = 0" by (rule bit_word_eqI) (simp add: bit_simps)
  ultimately show ?thesis using vlq_decode_chars [of 0 7 u u "take (8 - length ?cs) rest" "length pre"]
    by (simp add: vlq_decode_def VLQ_MAX_IN_BYTES_def)
qed

lemma shift_back: "(\<And>n. 32 \<le> n + k \<Longrightarrow> \<not> bit w n) \<Longrightarrow> drop_bit k (push_bit k w) = (w :: u32)"
  by (intro bit_word_eqI) (auto simp: bit_simps not_le add.commute intro: ccontr)

lemma shift_back_31: "\<not> bit w 31 \<Longrightarrow> drop_bit 1 (push_bit 1 w) = (w :: u32)"
proof (rule shift_back)
  fix n :: nat
  assume "\<not> bit w 31" "32 \<le> n + 1"
  then show "\<not> bit w n" using bit_imp_le_length [of w n] by (cases "n = 31") auto
qed

lemma vlq_value_sign_magnitude:
  assumes "v \<noteq> 0x80000000"
  shows "vlq_value (sign_magnitude v) = v"
proof (cases "0 \<le> sint v")
  case True
  then have "\<not> bit v 31" using bit_last_iff [of v] by simp
  then have "drop_bit 1 (push_bit 1 v) = v" by (rule shift_back_31)
  moreover have "push_bit 1 v AND 1 = 0" by (simp add: and_one_eq mod_2_eq_odd)
  ultimately show ?thesis using True by (simp add: vlq_value_def sign_magnitude_def)
next
  case False
  define m where "m = - v"
  have "\<not> bit m 31"
  proof -
    have "bit v 31" using False bit_last_iff [of v] by simp
    then have "0 < unat v div 2 ^ 31" using bit_unsigned_iff [of v 31, where ?'a = nat] by (auto simp: bit_iff_odd odd_pos)
    moreover have "unat v \<noteq> 2 ^ 31" using assms by (auto simp: word_unat_eq_iff)
    ultimately have "2 ^ 31 < unat v" by (simp add: div_greater_zero_iff)
    moreover have "(unat v + unat m) mod 2 ^ 32 = 0" using unat_word_ariths(1) [of v m] by (simp add: m_def)
    moreover have "unat v < 2 ^ 32" "unat m < 2 ^ 32" using unsigned_less [of v] unsigned_less [of m] by simp_all
    ultimately have "unat m < 2 ^ 31" by (intro ccontr [of "unat m < 2 ^ 31"]) (simp add: le_mod_geq)
    then show ?thesis using bit_unsigned_iff [of m 31, where ?'a = nat] by (simp add: bit_iff_odd)
  qed
  then have "drop_bit 1 (push_bit 1 m OR 1) = m"
    unfolding drop_bit_or shift_back_31 [OF \<open>\<not> bit m 31\<close>] by simp
  moreover have "(push_bit 1 m OR 1) AND 1 = 1" by (simp add: and_one_eq mod_2_eq_odd even_or_iff)
  ultimately show ?thesis using False by (simp add: vlq_value_def sign_magnitude_def m_def)
qed

text \<open>
  C27: \<open>VLQ::encode\<close> gives one to seven bytes for every \<open>i32\<close> without panicking, the lookup table and
  the slow path alike, and \<open>vlq::decode\<close> at the place where these bytes stand in a mapping gives the value
  back and the place after them, whatever follows. The one exception is \<open>i32::MIN\<close>, which reads as 0.
\<close>

theorem vlq_roundtrip:
  "\<exists>q. vlq_encode v = Ret q \<and> 1 \<le> vlq_len q \<and> vlq_len q \<le> 7 \<and>
     vlq_decode (pre @ vlq_slice q @ rest) (length pre) =
       Ret \<lparr>vr_value = (if v = 0x80000000 then 0 else v), vr_start = length pre + vlq_len q\<rparr>"
proof -
  have "1 \<le> length (vlq_chars 7 u)" for u by (simp add: eval_nat_numeral)
  moreover have "vlq_value (sign_magnitude 0x80000000) = 0" by (simp add: sign_magnitude_def vlq_value_def)
  ultimately show ?thesis
    using vlq_encode_slow encode_slow_path_chars [of v] decode_at [of pre "sign_magnitude v" rest]
      vlq_value_sign_magnitude [of v] length_vlq_chars [of 7 "sign_magnitude v"]
    by (auto simp: vlq_slice_def)
qed

end
