(* ===== verification/Glob.thy ===== *)
theory Glob
  imports Prelude
begin

text \<open>
  The glob matcher (\<open>src/src/glob/matcher.rs\<close>, \<open>src/src/glob/lib.rs\<close>): one loop over a pattern and a path with two
  saved positions, of the last \<open>*\<close> and of the last \<open>**\<close>, and a recursion for the alternatives of a
  brace group. Indices are \<open>nat\<close>: \<open>glob_step_inv\<close> bounds each of them by the length of its slice
  plus four, so that they fit a \<open>u32\<close> for slices shorter than that. The separator is that of POSIX.
\<close>

subsection \<open>Characters\<close>

definition is_sep_native :: "u8 \<Rightarrow> bool" where
  "is_sep_native c \<longleftrightarrow> c = 47"

definition wtf8_byte_sequence_length :: "u8 \<Rightarrow> nat" where
  "wtf8_byte_sequence_length b =
     (if b \<le> 0x7F then 1
      else if 0xC0 \<le> b \<and> b \<le> 0xDF then 2
      else if 0xE0 \<le> b \<and> b \<le> 0xEF then 3
      else if 0xF0 \<le> b \<and> b \<le> 0xF7 then 4
      else 1)"

definition decode_wtf8_rune_t_multibyte :: "bytes \<Rightarrow> nat \<Rightarrow> u32 \<Rightarrow> u32" where
  "decode_wtf8_rune_t_multibyte p len zero =
     (let s1 = p ! 1 in
      if s1 AND 0xC0 \<noteq> 0x80 then zero
      else if len = 2 then
        (let cp = push_bit 6 (ucast (p ! 0 AND 0x1F)) OR ucast (s1 AND 0x3F) in
         if cp < 0x80 then zero else cp)
      else
        (let s2 = p ! 2 in
         if s2 AND 0xC0 \<noteq> 0x80 then zero
         else if len = 3 then
           (let cp = push_bit 12 (ucast (p ! 0 AND 0x0F)) OR push_bit 6 (ucast (s1 AND 0x3F)) OR ucast (s2 AND 0x3F) in
            if cp < 0x800 then zero else cp)
         else
           (let s3 = p ! 3 in
            if s3 AND 0xC0 \<noteq> 0x80 then zero
            else
              (let cp = push_bit 18 (ucast (p ! 0 AND 0x07)) OR push_bit 12 (ucast (s1 AND 0x3F)) OR
                    push_bit 6 (ucast (s2 AND 0x3F)) OR ucast (s3 AND 0x3F) in
               if cp < 0x10000 \<or> 0x10FFFF < cp then zero else cp))))"

definition decode_wtf8_rune_t :: "bytes \<Rightarrow> nat \<Rightarrow> u32 \<Rightarrow> u32" where
  "decode_wtf8_rune_t p len zero =
     (if len = 0 then zero else if len = 1 then ucast (p ! 0) else decode_wtf8_rune_t_multibyte p len zero)"

text \<open>The slice is copied into four bytes, filled up with zeros.\<close>

definition decode_wtf8_rune_at :: "bytes \<Rightarrow> nat \<Rightarrow> u32 \<times> nat" where
  "decode_wtf8_rune_at b idx =
     (let len = wtf8_byte_sequence_length (b ! idx);
          buf = take 4 (drop idx b @ replicate 4 0) in
      (decode_wtf8_rune_t buf len 0xFFFD, len))"

subsection \<open>State\<close>

record wildcard =
  w_glob :: nat
  w_path :: nat
  w_depth :: nat

record gstate =
  path_index :: nat
  glob_index :: nat
  wildcard :: wildcard
  globstar :: wildcard
  brace_depth :: nat

record brace =
  open_brace_idx :: nat
  branch_idx :: nat
  close_brace_idx :: nat

definition wildcard_default :: wildcard where
  "wildcard_default = \<lparr>w_glob = 0, w_path = 0, w_depth = 0\<rparr>"

definition gstate_default :: gstate where
  "gstate_default = \<lparr>path_index = 0, glob_index = 0, wildcard = wildcard_default, globstar = wildcard_default, brace_depth = 0\<rparr>"

record match_result =
  matches :: bool
  negated :: bool

definition BRACE_BRANCH_BUDGET :: nat where
  "BRACE_BRANCH_BUDGET = 10000"

definition BRACE_STACK_CAPACITY :: nat where
  "BRACE_STACK_CAPACITY = 10"

definition backtrack :: "gstate \<Rightarrow> gstate" where
  "backtrack s = s\<lparr>path_index := w_path (wildcard s), glob_index := w_glob (wildcard s), brace_depth := w_depth (wildcard s)\<rparr>"

function find_separator :: "bytes \<Rightarrow> nat \<Rightarrow> nat" where
  "find_separator path i = (if i < length path \<and> \<not> is_sep_native (path ! i) then find_separator path (i + 1) else i)"
  by pat_completeness auto
termination
  by (relation "measure (\<lambda>(path, i). length path - i)") auto

declare find_separator.simps [simp del]

definition skip_to_separator :: "gstate \<Rightarrow> bytes \<Rightarrow> bool \<Rightarrow> gstate" where
  "skip_to_separator s path is_end_invalid =
     (if path_index s = length path then s\<lparr>wildcard := (wildcard s)\<lparr>w_path := w_path (wildcard s) + 1\<rparr>\<rparr>
      else
        (let i = find_separator path (path_index s);
             i = (if is_end_invalid \<or> i \<noteq> length path then i + 1 else i);
             w = (wildcard s)\<lparr>w_path := i\<rparr> in
         s\<lparr>wildcard := w, globstar := w\<rparr>))"

subsection \<open>Escapes and runs of globstars\<close>

definition unescape_byte :: "u8 \<Rightarrow> u8" where
  "unescape_byte c =
     (if c = 97 then 0x61 else if c = 98 then 8 else if c = 110 then 10 else if c = 114 then 13
      else if c = 116 then 9 else c)"

text \<open>\<open>None\<close> is an invalid pattern; otherwise the byte and the new index.\<close>

definition unescape :: "u8 \<Rightarrow> bytes \<Rightarrow> nat \<Rightarrow> (u8 \<times> nat) option" where
  "unescape c glob gi =
     (if c = 92 then
        (let gi = gi + 1 in
         if length glob \<le> gi then None else Some (unescape_byte (glob ! gi), gi))
      else Some (c, gi))"

text \<open>The code point, its length and the new index.\<close>

definition get_unicode :: "bytes \<Rightarrow> nat \<Rightarrow> (u32 \<times> nat \<times> nat) option" where
  "get_unicode glob gi =
     (let c = glob ! gi in
      if c \<le> 0x7F \<and> c \<noteq> 92 then Some (ucast c, 1, gi)
      else if c = 92 then
        (let gi = gi + 1 in
         if length glob \<le> gi then None
         else if glob ! gi \<in> {97, 98, 110, 114, 116} then Some (ucast (unescape_byte (glob ! gi)), 1, gi)
         else (let (cp, len) = decode_wtf8_rune_at glob gi in Some (cp, len, gi)))
      else (let (cp, len) = decode_wtf8_rune_at glob gi in Some (cp, len, gi)))"

function skip_globstars_loop :: "bytes \<Rightarrow> nat \<Rightarrow> nat" where
  "skip_globstars_loop glob gi =
     (if gi + 4 \<le> length glob \<and> take 4 (drop gi glob) = bs ''/**/'' then skip_globstars_loop glob (gi + 3) else gi)"
  by pat_completeness auto
termination
  by (relation "measure (\<lambda>(glob, gi). length glob - gi)") auto

declare skip_globstars_loop.simps [simp del]

definition skip_globstars :: "bytes \<Rightarrow> nat \<Rightarrow> nat" where
  "skip_globstars glob gi =
     (let gi = skip_globstars_loop glob (gi + 2);
          gi = (if gi + 3 = length glob \<and> take 3 (drop gi glob) = bs ''/**'' then gi + 3 else gi) in
      gi - 2)"

subsection \<open>One round of the loop\<close>

datatype glob_result = Next gstate | Done bool | Braces gstate

text \<open>What follows \<open>'fallthrough\<close>: back to the saved position, or no match.\<close>

definition fall_through :: "bytes \<Rightarrow> gstate \<Rightarrow> glob_result" where
  "fall_through path s =
     (if 0 < w_path (wildcard s) \<and> w_path (wildcard s) \<le> length path then Next (backtrack s) else Done False)"

text \<open>What follows \<open>'to_else\<close>: a literal character.\<close>

definition literal_step :: "bytes \<Rightarrow> bytes \<Rightarrow> u8 \<Rightarrow> gstate \<Rightarrow> glob_result" where
  "literal_step glob path ch s =
     (if path_index s < length path then
        (case unescape ch glob (glob_index s) of
           None \<Rightarrow> Done False
         | Some (cc, gi) \<Rightarrow>
             (let cc_len = wtf8_byte_sequence_length cc;
                  pi = path_index s;
                  is_match =
                    (if cc = 47 then is_sep_native (path ! pi)
                     else if 1 < cc_len then
                       pi + cc_len \<le> length path \<and> gi + cc_len \<le> length glob \<and>
                       take cc_len (drop pi path) = take cc_len (drop gi glob)
                     else path ! pi = cc) in
              if is_match then
                (let s = s\<lparr>glob_index := gi + cc_len, path_index := pi + cc_len\<rparr> in
                 Next (if cc = 47 then s\<lparr>wildcard := globstar s\<rparr> else s))
              else fall_through path (s\<lparr>glob_index := gi\<rparr>)))
      else fall_through path s)"

definition star_step :: "bytes \<Rightarrow> nat \<Rightarrow> bytes \<Rightarrow> gstate \<Rightarrow> gstate" where
  "star_step glob glob_start path s =
     (let is_globstar = glob_index s + 1 < length glob \<and> glob ! (glob_index s + 1) = 42;
          s = (if is_globstar then s\<lparr>glob_index := skip_globstars glob (glob_index s)\<rparr> else s);
          pi = path_index s;
          s = s\<lparr>wildcard := \<lparr>w_glob = glob_index s,
                w_path = pi + (if pi < length path then wtf8_byte_sequence_length (path ! pi) else 1),
                w_depth = brace_depth s\<rparr>\<rparr>;
          leave_star = (\<lambda>s. if pi < length path \<and> is_sep_native (path ! pi) then s\<lparr>wildcard := globstar s\<rparr> else s) in
      if is_globstar then
        (let gi = glob_index s + 2;
             s = s\<lparr>glob_index := gi\<rparr>;
             is_end_invalid = gi < length glob in
         if is_end_invalid \<and> pi = length path \<and> length glob - gi = 2 \<and> is_sep_native (glob ! gi) \<and> glob ! (gi + 1) = 42
         then s
         else if (gi - glob_start < 3 \<or> glob ! (gi - 3) = 47) \<and> (\<not> is_end_invalid \<or> glob ! gi = 47)
         then skip_to_separator (if is_end_invalid then s\<lparr>glob_index := gi + 1\<rparr> else s) path is_end_invalid
         else leave_star s)
      else leave_star (s\<lparr>glob_index := glob_index s + 1\<rparr>))"

definition any_step :: "bytes \<Rightarrow> bytes \<Rightarrow> gstate \<Rightarrow> glob_result" where
  "any_step glob path s =
     (if path_index s < length path then
        (if \<not> is_sep_native (path ! path_index s) then
           Next (s\<lparr>glob_index := glob_index s + 1,
                   path_index := path_index s + wtf8_byte_sequence_length (path ! path_index s)\<rparr>)
         else fall_through path s)
      else literal_step glob path 63 s)"

text \<open>The loop over the members of a class: \<open>None\<close> is an invalid pattern.\<close>

lemma wtf8_length_bounds: "1 \<le> wtf8_byte_sequence_length b" "wtf8_byte_sequence_length b \<le> 4"
  by (simp_all add: wtf8_byte_sequence_length_def)

lemma decode_len: "snd (decode_wtf8_rune_at b i) = wtf8_byte_sequence_length (b ! i)"
  by (simp add: decode_wtf8_rune_at_def Let_def)

lemma get_unicode_advances:
  assumes "get_unicode glob gi = Some (c, n, gi')"
  shows "gi \<le> gi' \<and> 1 \<le> n"
proof -
  define f where "f = (\<lambda>i. fst (decode_wtf8_rune_at glob i))"
  have d: "decode_wtf8_rune_at glob i = (f i, wtf8_byte_sequence_length (glob ! i))" for i
    by (simp add: f_def prod_eq_iff decode_len)
  show ?thesis using assms wtf8_length_bounds(1)
    by (auto simp: get_unicode_def Let_def d split: if_split_asm)
qed

function class_loop :: "bytes \<Rightarrow> u32 \<Rightarrow> nat \<Rightarrow> bool \<Rightarrow> bool \<Rightarrow> (nat \<times> bool) option" where
  "class_loop glob c gi first is_match =
     (if gi < length glob \<and> (first \<or> glob ! gi \<noteq> 93) then
        (case get_unicode glob gi of
           None \<Rightarrow> None
         | Some (low, low_len, gi') \<Rightarrow>
             (let gi2 = gi' + low_len in
              if gi2 + 1 < length glob \<and> glob ! gi2 = 45 \<and> glob ! (gi2 + 1) \<noteq> 93 then
                (case get_unicode glob (gi2 + 1) of
                   None \<Rightarrow> None
                 | Some (high, high_len, gi3) \<Rightarrow>
                     class_loop glob c (gi3 + high_len) False (is_match \<or> low \<le> c \<and> c \<le> high))
              else class_loop glob c gi2 False (is_match \<or> low \<le> c \<and> c \<le> low)))
      else Some (gi, is_match))"
  by pat_completeness auto
termination
  by (relation "measure (\<lambda>(glob, c, gi, first, is_match). length glob - gi)")
    (auto dest!: get_unicode_advances)

declare class_loop.simps [simp del]

definition class_step :: "bytes \<Rightarrow> bytes \<Rightarrow> gstate \<Rightarrow> glob_result" where
  "class_step glob path s =
     (if path_index s < length path then
        (let gi = glob_index s + 1;
             negated = gi < length glob \<and> (glob ! gi = 94 \<or> glob ! gi = 33);
             gi = (if negated then gi + 1 else gi);
             (c, len) = decode_wtf8_rune_at path (path_index s) in
         case class_loop glob c gi True False of
           None \<Rightarrow> Done False
         | Some (gi, is_match) \<Rightarrow>
             if length glob \<le> gi then Done False
             else
               (let s = s\<lparr>glob_index := gi + 1\<rparr> in
                if is_match \<noteq> negated then Next (s\<lparr>path_index := path_index s + len\<rparr>)
                else fall_through path s))
      else literal_step glob path 91 s)"

definition open_brace_step :: "brace list \<Rightarrow> gstate \<Rightarrow> glob_result" where
  "open_brace_step stack s =
     (case find (\<lambda>b. open_brace_idx b = glob_index s) stack of
        Some b \<Rightarrow> Next (s\<lparr>glob_index := branch_idx b, brace_depth := brace_depth s + 1\<rparr>)
      | None \<Rightarrow> Braces s)"

definition skip_branch :: "gstate \<Rightarrow> bytes \<Rightarrow> brace list \<Rightarrow> gstate option" where
  "skip_branch s glob stack =
     (case find (\<lambda>f. open_brace_idx f < glob_index s \<and> glob_index s \<le> close_brace_idx f) (rev stack) of
        Some f \<Rightarrow>
          Some (if close_brace_idx f < length glob
                then s\<lparr>glob_index := close_brace_idx f + 1, brace_depth := brace_depth s - 1\<rparr>
                else s\<lparr>glob_index := close_brace_idx f\<rparr>)
      | None \<Rightarrow> None)"

definition branch_end_step :: "bytes \<Rightarrow> bytes \<Rightarrow> brace list \<Rightarrow> u8 \<Rightarrow> gstate \<Rightarrow> glob_result" where
  "branch_end_step glob path stack ch s =
     (case (if 0 < brace_depth s then skip_branch s glob stack else None) of
        Some s' \<Rightarrow> Next s'
      | None \<Rightarrow> literal_step glob path ch s)"

definition glob_step :: "bytes \<Rightarrow> nat \<Rightarrow> bytes \<Rightarrow> brace list \<Rightarrow> gstate \<Rightarrow> glob_result" where
  "glob_step glob glob_start path stack s =
     (if glob_index s < length glob \<or> path_index s < length path then
        (if glob_index s < length glob then
           (let ch = glob ! glob_index s in
            if ch = 42 then Next (star_step glob glob_start path s)
            else if ch = 63 then any_step glob path s
            else if ch = 91 then class_step glob path s
            else if ch = 123 then open_brace_step stack s
            else if ch = 44 \<or> ch = 125 then branch_end_step glob path stack ch s
            else literal_step glob path ch s)
         else fall_through path s)
      else Done True)"

subsection \<open>The loop and the alternatives of braces\<close>

text \<open>
  \<open>None\<close> is a loop that does not end. The budget of branches is passed along; \<open>mb\<close> is the call of
  \<open>match_brace\<close>.
\<close>

partial_function (option) glob_loop ::
  "(gstate \<Rightarrow> nat \<Rightarrow> (bool \<times> nat) option) \<Rightarrow> bytes \<Rightarrow> nat \<Rightarrow> bytes \<Rightarrow> brace list \<Rightarrow> gstate \<Rightarrow> nat \<Rightarrow> (bool \<times> nat) option" where
  "glob_loop mb glob glob_start path stack s budget =
     (case glob_step glob glob_start path stack s of
        Next s' \<Rightarrow> glob_loop mb glob glob_start path stack s' budget
      | Done b \<Rightarrow> Some (b, budget)
      | Braces s' \<Rightarrow> mb s' budget)"

declare glob_loop.simps [code]

function find_brace_end_loop :: "bytes \<Rightarrow> nat \<Rightarrow> nat \<Rightarrow> bool \<Rightarrow> nat" where
  "find_brace_end_loop glob i depth in_brackets =
     (if i < length glob then
        (if glob ! i = 123 \<and> \<not> in_brackets then find_brace_end_loop glob (i + 1) (depth + 1) in_brackets
         else if glob ! i = 125 \<and> \<not> in_brackets then
           (if depth - 1 = 0 then i else find_brace_end_loop glob (i + 1) (depth - 1) in_brackets)
         else if glob ! i = 91 \<and> \<not> in_brackets then find_brace_end_loop glob (i + 1) depth True
         else if glob ! i = 93 then find_brace_end_loop glob (i + 1) depth False
         else if glob ! i = 92 then find_brace_end_loop glob (i + 2) depth in_brackets
         else find_brace_end_loop glob (i + 1) depth in_brackets)
      else length glob)"
  by pat_completeness auto
termination
  by (relation "measure (\<lambda>(glob, i, depth, in_brackets). length glob - i)") auto

declare find_brace_end_loop.simps [simp del]

definition find_brace_end :: "bytes \<Rightarrow> nat \<Rightarrow> nat" where
  "find_brace_end glob open_idx = find_brace_end_loop glob open_idx 0 False"

text \<open>The recursive call of \<open>glob_match_impl\<close> is the argument \<open>impl\<close>: stack, state, start, budget.\<close>

type_synonym glob_impl = "brace list \<Rightarrow> gstate \<Rightarrow> nat \<Rightarrow> nat \<Rightarrow> (bool \<times> nat) option"

definition match_brace_branch ::
  "glob_impl \<Rightarrow> gstate \<Rightarrow> nat \<Rightarrow> nat \<Rightarrow> nat \<Rightarrow> brace list \<Rightarrow> nat \<Rightarrow> (bool \<times> nat) option" where
  "match_brace_branch impl s open_brace_index branch_index close_brace_index stack budget =
     (if budget = 0 then Some (False, budget)
      else
        (let budget = budget - 1 in
         if BRACE_STACK_CAPACITY \<le> length stack then Some (False, budget)
         else
           (let stack = stack @ [\<lparr>open_brace_idx = open_brace_index, branch_idx = branch_index,
                                   close_brace_idx = close_brace_index\<rparr>] in
            impl stack (s\<lparr>glob_index := branch_index, brace_depth := length stack\<rparr>) branch_index budget)))"

text \<open>The loop of \<open>match_brace\<close>: \<open>branch\<close> is the call of \<open>match_brace_branch\<close>.\<close>

function match_brace_loop ::
  "(gstate \<Rightarrow> nat \<Rightarrow> nat \<Rightarrow> (bool \<times> nat) option) \<Rightarrow> bytes \<Rightarrow> gstate \<Rightarrow> int \<Rightarrow> bool \<Rightarrow> nat \<Rightarrow> nat \<Rightarrow> (bool \<times> nat) option" where
  "match_brace_loop branch glob s depth in_brackets branch_index budget =
     (let gi = glob_index s; skip = (\<lambda>n. s\<lparr>glob_index := gi + n\<rparr>) in
      if gi < length glob then
        (if glob ! gi = 123 then
           (if \<not> in_brackets then
              match_brace_loop branch glob (skip 1) (depth + 1) in_brackets
                (if depth + 1 = 1 then gi + 1 else branch_index) budget
            else match_brace_loop branch glob (skip 1) depth in_brackets branch_index budget)
         else if glob ! gi = 125 then
           (if \<not> in_brackets then
              (if depth - 1 = 0 then branch s branch_index budget
               else match_brace_loop branch glob (skip 1) (depth - 1) in_brackets branch_index budget)
            else match_brace_loop branch glob (skip 1) depth in_brackets branch_index budget)
         else if glob ! gi = 44 then
           (if depth = 1 \<and> \<not> in_brackets then
              (case branch s branch_index budget of
                 None \<Rightarrow> None
               | Some (matched, budget) \<Rightarrow>
                   if matched then Some (True, budget)
                   else match_brace_loop branch glob (skip 1) depth in_brackets (gi + 1) budget)
            else match_brace_loop branch glob (skip 1) depth in_brackets branch_index budget)
         else if glob ! gi = 91 then match_brace_loop branch glob (skip 1) depth True branch_index budget
         else if glob ! gi = 93 then match_brace_loop branch glob (skip 1) depth False branch_index budget
         else if glob ! gi = 92 then match_brace_loop branch glob (skip 2) depth in_brackets branch_index budget
         else match_brace_loop branch glob (skip 1) depth in_brackets branch_index budget)
      else Some (False, budget))"
  by pat_completeness auto
termination
  by (relation "measure (\<lambda>(branch, glob, s, depth, in_brackets, branch_index, budget). length glob - glob_index s)") auto

declare match_brace_loop.simps [simp del]

definition match_brace :: "glob_impl \<Rightarrow> bytes \<Rightarrow> brace list \<Rightarrow> gstate \<Rightarrow> nat \<Rightarrow> (bool \<times> nat) option" where
  "match_brace impl glob stack s budget =
     (let open_brace_index = glob_index s; close_brace_index = find_brace_end glob open_brace_index in
      match_brace_loop (\<lambda>s branch_index. match_brace_branch impl s open_brace_index branch_index close_brace_index stack)
        glob s 0 False 0 budget)"

text \<open>
  The recursion: \<open>d\<close> is the number of free places on the stack of braces. With none left
  \<open>match_brace_branch\<close> fails to push and makes no call.
\<close>

primrec glob_match_impl :: "nat \<Rightarrow> bytes \<Rightarrow> bytes \<Rightarrow> glob_impl" where
  "glob_match_impl 0 glob path stack s glob_start budget =
     glob_loop (match_brace (\<lambda>_ _ _ _. None) glob stack) glob glob_start path stack s budget"
| "glob_match_impl (Suc d) glob path stack s glob_start budget =
     glob_loop (match_brace (glob_match_impl d glob path) glob stack) glob glob_start path stack s budget"

fun count_bangs :: "bytes \<Rightarrow> nat \<times> bool" where
  "count_bangs [] = (0, False)"
| "count_bangs (c # cs) = (if c = 33 then (let (n, neg) = count_bangs cs in (n + 1, \<not> neg)) else (0, False))"

definition glob_match :: "bytes \<Rightarrow> bytes \<Rightarrow> match_result option" where
  "glob_match glob path =
     (let (glob_start, neg) = count_bangs glob in
      case glob_match_impl BRACE_STACK_CAPACITY glob path [] (gstate_default\<lparr>glob_index := glob_start\<rparr>) glob_start BRACE_BRANCH_BUDGET of
        None \<Rightarrow> None
      | Some (matched, _) \<Rightarrow> Some \<lparr>matches = (matched \<noteq> neg), negated = neg\<rparr>)"

end
