(* ===== verification/GlobTermination.thy ===== *)
theory GlobTermination
  imports Glob
begin

text \<open>
  The glob matcher returns on every pattern and path. A round of the loop moves forward in the
  pattern, goes back to the saved position, or passes a star and saves a new one; the positions saved
  for \<open>**\<close>, and between two of those the ones saved for \<open>*\<close>, only grow.
\<close>

subsection \<open>Runs of globstars\<close>

definition run_follows :: "bytes \<Rightarrow> nat \<Rightarrow> bool" where
  "run_follows glob gi \<longleftrightarrow> gi + 4 \<le> length glob \<and> take 4 (drop gi glob) = bs ''/**/''"

definition run_ends :: "bytes \<Rightarrow> nat \<Rightarrow> bool" where
  "run_ends glob gi \<longleftrightarrow> gi + 3 = length glob \<and> take 3 (drop gi glob) = bs ''/**''"

lemma skip_loop_unfold: "skip_globstars_loop glob gi = (if run_follows glob gi then skip_globstars_loop glob (gi + 3) else gi)"
  unfolding run_follows_def by (rule skip_globstars_loop.simps)

lemma skip_globstars_unfold:
  "skip_globstars glob k = (let j = skip_globstars_loop glob (k + 2) in (if run_ends glob j then j + 3 else j) - 2)"
  unfolding skip_globstars_def run_ends_def Let_def ..

lemmas skip_loop_induct = skip_globstars_loop.induct [folded run_follows_def]

lemma skip_loop_bounds:
  "gi \<le> skip_globstars_loop glob gi" "gi \<le> length glob \<Longrightarrow> skip_globstars_loop glob gi \<le> length glob"
proof (induction glob gi rule: skip_loop_induct)
  case (1 glob gi)
  { case 1 then show ?case using 1 "1.IH" skip_loop_unfold [of glob gi] by (cases "run_follows glob gi") auto }
  { case 2 then show ?case using "1.IH" skip_loop_unfold [of glob gi] by (cases "run_follows glob gi") (auto simp: run_follows_def) }
qed

lemma skip_loop_idem: "skip_globstars_loop glob (skip_globstars_loop glob gi) = skip_globstars_loop glob gi"
proof (induction glob gi rule: skip_loop_induct)
  case (1 glob gi)
  then show ?case using skip_loop_unfold [of glob gi] by (cases "run_follows glob gi") auto
qed

lemma take_drop_nth: "take n (drop i xs) = ys \<Longrightarrow> j < n \<Longrightarrow> i + j < length xs \<Longrightarrow> xs ! (i + j) = ys ! j"
  by auto

lemma run_follows_stars: "run_follows glob gi \<Longrightarrow> glob ! (gi + 1) = 42 \<and> glob ! (gi + 2) = 42"
  unfolding run_follows_def using take_drop_nth [of 4 gi glob "bs ''/**/''" 1] take_drop_nth [of 4 gi glob "bs ''/**/''" 2] by simp

lemma run_ends_stars: "run_ends glob gi \<Longrightarrow> glob ! (gi + 1) = 42 \<and> glob ! (gi + 2) = 42"
  unfolding run_ends_def using take_drop_nth [of 3 gi glob "bs ''/**''" 1] take_drop_nth [of 3 gi glob "bs ''/**''" 2] by simp

lemma skip_loop_stars:
  "2 \<le> gi \<Longrightarrow> glob ! (gi - 2) = 42 \<Longrightarrow> glob ! (gi - 1) = 42 \<Longrightarrow>
   glob ! (skip_globstars_loop glob gi - 2) = 42 \<and> glob ! (skip_globstars_loop glob gi - 1) = 42"
proof (induction glob gi rule: skip_loop_induct)
  case (1 glob gi)
  have "gi + 3 - 2 = gi + 1" "gi + 3 - 1 = gi + 2" by simp_all
  then show ?case using 1 skip_loop_unfold [of glob gi] run_follows_stars [of glob gi] by (cases "run_follows glob gi") auto
qed

lemma skip_globstars_props:
  assumes "k + 1 < length glob" "glob ! k = 42" "glob ! (k + 1) = 42" and p: "p = skip_globstars glob k"
  shows "k \<le> p \<and> p + 1 < length glob \<and> glob ! p = 42 \<and> glob ! (p + 1) = 42 \<and> skip_globstars glob p = p"
proof -
  define j where "j = skip_globstars_loop glob (k + 2)"
  have j: "k + 2 \<le> j" "j \<le> length glob" "glob ! (j - 2) = 42" "glob ! (j - 1) = 42"
    using skip_loop_bounds [of "k + 2" glob] skip_loop_stars [of "k + 2" glob] assms by (simp_all add: j_def)
  have pj: "p = (if run_ends glob j then j + 3 else j) - 2" using p unfolding skip_globstars_unfold Let_def j_def .
  show ?thesis
  proof (cases "run_ends glob j")
    case True
    then have e: "p = j + 1" "p + 2 = length glob" "\<not> run_follows glob (p + 2)" "\<not> run_ends glob (p + 2)"
      using pj by (auto simp: run_ends_def run_follows_def)
    then have "skip_globstars glob p = p" unfolding skip_globstars_unfold Let_def using skip_loop_unfold [of glob "p + 2"] by auto
    then show ?thesis using run_ends_stars [OF True] e(1,2) j by simp
  next
    case False
    then have e: "p + 2 = j" using pj j(1) by simp
    then have "skip_globstars_loop glob (p + 2) = j" using skip_loop_idem [of glob "k + 2"] by (simp only: j_def)
    then have "skip_globstars glob p = p" unfolding skip_globstars_unfold Let_def using False e by auto
    moreover have "p = j - 2" "p + 1 = j - 1" "k \<le> p" "p + 1 < length glob" using j(1,2) e by auto
    ultimately show ?thesis using j(3,4) by simp
  qed
qed

text \<open>A \<open>**\<close> that is a whole segment of the pattern that begins at \<open>start\<close>, the last one of a run.\<close>

definition globstar_at :: "bytes \<Rightarrow> nat \<Rightarrow> nat \<Rightarrow> bool" where
  "globstar_at glob start k \<longleftrightarrow> k + 1 < length glob \<and> glob ! k = 42 \<and> glob ! (k + 1) = 42 \<and> skip_globstars glob k = k \<and>
     (k + 2 - start < 3 \<or> glob ! (k - 1) = 47) \<and> (k + 2 < length glob \<longrightarrow> glob ! (k + 2) = 47)"

lemma globstar_at_later: "globstar_at glob start k \<Longrightarrow> k \<le> start' \<Longrightarrow> globstar_at glob start' k"
  by (auto simp: globstar_at_def)

lemma find_separator_bounds: "i \<le> find_separator path i" "find_separator path i \<le> max i (length path)"
proof (induction path i rule: find_separator.induct)
  case (1 path i)
  { case 1 then show ?case using "1.IH" find_separator.simps [of path i] by (cases "i < length path \<and> \<not> is_sep_native (path ! i)") auto }
  { case 2 then show ?case using "1.IH" find_separator.simps [of path i] by (cases "i < length path \<and> \<not> is_sep_native (path ! i)") auto }
qed

subsection \<open>The moves of a round\<close>

definition at_star :: "bytes \<Rightarrow> gstate \<Rightarrow> bool" where
  "at_star glob s \<longleftrightarrow> glob_index s < length glob \<and> glob ! glob_index s = 42"

definition forward_move :: "bytes \<Rightarrow> bytes \<Rightarrow> gstate \<Rightarrow> gstate \<Rightarrow> bool" where
  "forward_move glob path s s' \<longleftrightarrow> \<not> at_star glob s \<and> glob_index s < glob_index s' \<and> glob_index s' \<le> length glob \<and>
     path_index s \<le> path_index s' \<and> path_index s' \<le> max (path_index s) (length path + 3) \<and> globstar s' = globstar s \<and>
     (wildcard s' = wildcard s \<or> wildcard s' = globstar s \<and> path_index s < length path)"

definition back_move :: "bytes \<Rightarrow> bytes \<Rightarrow> gstate \<Rightarrow> gstate \<Rightarrow> bool" where
  "back_move glob path s s' \<longleftrightarrow> \<not> at_star glob s \<and> 0 < w_path (wildcard s) \<and> w_path (wildcard s) \<le> length path \<and>
     path_index s' = w_path (wildcard s) \<and> glob_index s' = w_glob (wildcard s) \<and> wildcard s' = wildcard s \<and> globstar s' = globstar s"

text \<open>
  Past a star at \<open>p\<close>: it is saved; or the path is at a separator and the globstar is back in force;
  or it is a globstar, and both saved positions are new.
\<close>

definition star_pos :: "bytes \<Rightarrow> gstate \<Rightarrow> nat" where
  "star_pos glob s = (if glob_index s + 1 < length glob \<and> glob ! (glob_index s + 1) = 42
     then skip_globstars glob (glob_index s) else glob_index s)"

definition star_move :: "bytes \<Rightarrow> nat \<Rightarrow> bytes \<Rightarrow> gstate \<Rightarrow> gstate \<Rightarrow> bool" where
  "star_move glob start path s s' \<longleftrightarrow> at_star glob s \<and> star_pos glob s < glob_index s' \<and> glob_index s' \<le> length glob \<and>
     path_index s' = path_index s \<and>
     (globstar s' = globstar s \<and> w_glob (wildcard s') = star_pos glob s \<and> path_index s < w_path (wildcard s') \<and>
        w_path (wildcard s') \<le> max (path_index s + 1) (length path + 3) \<and> (path_index s = length path \<or> \<not> globstar_at glob start (star_pos glob s)) \<or>
      globstar s' = globstar s \<and> wildcard s' = globstar s \<and> path_index s < length path \<and> \<not> globstar_at glob start (star_pos glob s) \<or>
      globstar s' = wildcard s' \<and> w_glob (wildcard s') = star_pos glob s \<and> path_index s < w_path (wildcard s') \<and>
        w_path (wildcard s') \<le> max (path_index s) (length path) + 1 \<and> globstar_at glob start (star_pos glob s))"

lemma star_pos_props:
  assumes "at_star glob s"
  shows "glob_index s \<le> star_pos glob s" "star_pos glob s < length glob" "glob ! star_pos glob s = 42"
  using assms skip_globstars_props [of "glob_index s" glob, OF _ _ _ refl] by (auto simp: star_pos_def at_star_def)


lemma star_move_cases [consumes 1, case_names save leave globstar]:
  assumes "star_move glob start path s s'"
  obtains
    "globstar s' = globstar s" "w_glob (wildcard s') = star_pos glob s" "path_index s < w_path (wildcard s')"
      "w_path (wildcard s') \<le> max (path_index s + 1) (length path + 3)"
      "path_index s = length path \<or> \<not> globstar_at glob start (star_pos glob s)"
  | "globstar s' = globstar s" "wildcard s' = globstar s" "path_index s < length path" "\<not> globstar_at glob start (star_pos glob s)"
  | "globstar s' = wildcard s'" "w_glob (wildcard s') = star_pos glob s" "path_index s < w_path (wildcard s')"
      "w_path (wildcard s') \<le> max (path_index s) (length path) + 1" "globstar_at glob start (star_pos glob s)"
  using assms unfolding star_move_def by metis

lemma star_pos_globstar:
  assumes "at_star glob s" "glob_index s + 1 < length glob" "glob ! (glob_index s + 1) = 42"
  shows "star_pos glob s = skip_globstars glob (glob_index s)" "star_pos glob s + 1 < length glob"
    "globstar_at glob start (star_pos glob s) \<longleftrightarrow>
      (star_pos glob s + 2 - start < 3 \<or> glob ! (star_pos glob s - 1) = 47) \<and> (star_pos glob s + 2 < length glob \<longrightarrow> glob ! (star_pos glob s + 2) = 47)"
  using assms skip_globstars_props [of "glob_index s" glob, OF _ _ _ refl] by (auto simp: star_pos_def at_star_def globstar_at_def)

lemma star_pos_plain:
  assumes "at_star glob s" "\<not> (glob_index s + 1 < length glob \<and> glob ! (glob_index s + 1) = 42)"
  shows "star_pos glob s = glob_index s" "\<not> globstar_at glob start (star_pos glob s)"
  using assms by (auto simp: star_pos_def at_star_def globstar_at_def)

lemma skip_to_separator_cases:
  assumes "path_index s \<noteq> length path"
  shows "\<exists>i. skip_to_separator s path e = s\<lparr>wildcard := (wildcard s)\<lparr>w_path := i\<rparr>, globstar := (wildcard s)\<lparr>w_path := i\<rparr>\<rparr> \<and>
     path_index s < i \<and> i \<le> max (path_index s) (length path) + 1"
proof -
  let ?f = "find_separator path (path_index s)"
  define i where "i = (if e \<or> ?f \<noteq> length path then ?f + 1 else ?f)"
  have "skip_to_separator s path e = s\<lparr>wildcard := (wildcard s)\<lparr>w_path := i\<rparr>, globstar := (wildcard s)\<lparr>w_path := i\<rparr>\<rparr>"
    using assms by (simp add: skip_to_separator_def i_def Let_def)
  moreover have "path_index s < i" "i \<le> max (path_index s) (length path) + 1"
    using find_separator_bounds [where path = path and i = "path_index s"] assms by (auto simp: i_def)
  ultimately show ?thesis by blast
qed


text \<open>The two ways past a star, with the position that it saves.\<close>

definition save_star :: "bytes \<Rightarrow> nat \<Rightarrow> gstate \<Rightarrow> gstate" where
  "save_star path p s = s\<lparr>wildcard := \<lparr>w_glob = p,
     w_path = path_index s + (if path_index s < length path then wtf8_byte_sequence_length (path ! path_index s) else 1),
     w_depth = brace_depth s\<rparr>\<rparr>"

definition leave_star :: "bytes \<Rightarrow> gstate \<Rightarrow> gstate" where
  "leave_star path s = (if path_index s < length path \<and> is_sep_native (path ! path_index s) then s\<lparr>wildcard := globstar s\<rparr> else s)"

lemma star_step_plain:
  assumes "at_star glob s" "\<not> (glob_index s + 1 < length glob \<and> glob ! (glob_index s + 1) = 42)"
  shows "star_step glob start path s = leave_star path (save_star path (glob_index s) s\<lparr>glob_index := glob_index s + 1\<rparr>)"
  unfolding star_step_def Let_def if_not_P [OF assms(2)] by (simp add: leave_star_def save_star_def)

lemma star_step_double:
  assumes star: "at_star glob s" and two: "glob_index s + 1 < length glob \<and> glob ! (glob_index s + 1) = 42"
    and p: "p = star_pos glob s"
  shows "star_step glob start path s =
     (let u = save_star path p s; gi = p + 2 in
      if gi < length glob \<and> path_index s = length path \<and> length glob - gi = 2 \<and> is_sep_native (glob ! gi) \<and> glob ! (gi + 1) = 42
      then u\<lparr>glob_index := gi\<rparr>
      else if globstar_at glob start p
      then skip_to_separator (u\<lparr>glob_index := if gi < length glob then gi + 1 else gi\<rparr>) path (gi < length glob)
      else leave_star path (u\<lparr>glob_index := gi\<rparr>))"
proof -
  note g = star_pos_globstar [OF star conjunct1 [OF two] conjunct2 [OF two]]
  show ?thesis
    unfolding p g(3) star_step_def Let_def if_P [OF two] g(1) [symmetric]
    by (simp add: save_star_def leave_star_def is_sep_native_def numeral_eq_Suc cong: if_cong)
qed

lemma save_star_simps [simp]:
  "path_index (save_star path p s) = path_index s" "globstar (save_star path p s) = globstar s"
  "w_glob (wildcard (save_star path p s)) = p"
  "path_index s < w_path (wildcard (save_star path p s))"
  "w_path (wildcard (save_star path p s)) \<le> max (path_index s + 1) (length path + 3)"
  using wtf8_length_bounds [of "path ! path_index s"] by (auto simp: save_star_def)

lemma star_step_move:
  assumes star: "at_star glob s"
  shows "star_move glob start path s (star_step glob start path s)"
proof -
  let ?p = "star_pos glob s"
  let ?u = "save_star path ?p s"
  have leave: "star_move glob start path s (leave_star path (?u\<lparr>glob_index := g\<rparr>))"
    if "?p < g" "g \<le> length glob" "\<not> globstar_at glob start ?p" for g
    using that star save_star_simps by (auto simp: star_move_def leave_star_def)
  have save: "star_move glob start path s (?u\<lparr>glob_index := g\<rparr>)"
    if "?p < g" "g \<le> length glob" "path_index s = length path" for g
    using that star save_star_simps(4) [of s path ?p] save_star_simps(5) [of path ?p s] by (simp add: star_move_def)
  show ?thesis
  proof (cases "glob_index s + 1 < length glob \<and> glob ! (glob_index s + 1) = 42")
    case False
    then show ?thesis
      using star_step_plain [OF star False] leave [of "?p + 1"] star_pos_plain [OF star False] star_pos_props [OF star] by simp
  next
    case True
    note step = star_step_double [OF star True refl, of start path]
    have len: "?p + 1 < length glob" using star_pos_globstar(2) [OF star] True by simp
    let ?fixme = "?p + 2 < length glob \<and> path_index s = length path \<and> length glob - (?p + 2) = 2 \<and> is_sep_native (glob ! (?p + 2)) \<and> glob ! (?p + 2 + 1) = 42"
    show ?thesis
    proof (cases "?fixme \<or> \<not> globstar_at glob start ?p")
      case True
      then show ?thesis using step leave [of "?p + 2"] save [of "?p + 2"] len by (simp add: Let_def split: if_splits)
    next
      case False
      let ?v = "?u\<lparr>glob_index := if ?p + 2 < length glob then ?p + 2 + 1 else ?p + 2\<rparr>"
      have v: "star_step glob start path s = skip_to_separator ?v path (?p + 2 < length glob)"
        using False step by (auto simp: Let_def)
      show ?thesis
      proof (cases "path_index s = length path")
        case True
        then show ?thesis using v len star by (auto simp: star_move_def skip_to_separator_def save_star_def)
      next
        case neq: False
        then obtain i where i: "skip_to_separator ?v path (?p + 2 < length glob) =
            ?v\<lparr>wildcard := (wildcard ?v)\<lparr>w_path := i\<rparr>, globstar := (wildcard ?v)\<lparr>w_path := i\<rparr>\<rparr>"
            "path_index s < i" "i \<le> max (path_index s) (length path) + 1"
          using skip_to_separator_cases [of ?v path "?p + 2 < length glob"] by auto
        then show ?thesis unfolding v i(1) using len False star by (auto simp: star_move_def)
      qed
    qed
  qed
qed

lemma fall_through_move:
  assumes "fall_through path t = Next s'" "wildcard t = wildcard s" "globstar t = globstar s" "\<not> at_star glob s"
  shows "back_move glob path s s'"
  using assms by (auto simp: fall_through_def back_move_def backtrack_def split: if_splits)

lemma unescape_bounds: "unescape ch glob gi = Some (cc, gi') \<Longrightarrow> gi < length glob \<Longrightarrow> gi \<le> gi' \<and> gi' < length glob"
  by (auto simp: unescape_def Let_def split: if_splits)

lemma literal_step_move:
  assumes next': "literal_step glob path ch s = Next s'" and star: "\<not> at_star glob s" and gi: "glob_index s < length glob"
  shows "forward_move glob path s s' \<or> back_move glob path s s'"
proof (cases "path_index s < length path")
  case True
  then obtain cc g where u: "unescape ch glob (glob_index s) = Some (cc, g)"
    using next' by (auto simp: literal_step_def split: option.splits)
  define n where "n = wtf8_byte_sequence_length cc"
  have n: "1 \<le> n" "n \<le> 4" "cc = 47 \<Longrightarrow> n = 1"
    using wtf8_length_bounds [of cc] by (auto simp: n_def wtf8_byte_sequence_length_def)
  note g = unescape_bounds [OF u gi]
  define m where "m = (if cc = 47 then is_sep_native (path ! path_index s)
     else if 1 < n then path_index s + n \<le> length path \<and> g + n \<le> length glob \<and> take n (drop (path_index s) path) = take n (drop g glob)
     else path ! path_index s = cc)"
  have step: "literal_step glob path ch s =
     (if m then Next (let s = s\<lparr>glob_index := g + n, path_index := path_index s + n\<rparr> in if cc = 47 then s\<lparr>wildcard := globstar s\<rparr> else s)
      else fall_through path (s\<lparr>glob_index := g\<rparr>))"
    using True u unfolding literal_step_def Let_def m_def n_def by simp
  show ?thesis
  proof (cases m)
    case m: True
    have "g + n \<le> length glob" using m n g by (auto simp: m_def split: if_splits)
    then show ?thesis using next' step m n g True star by (auto simp: forward_move_def Let_def)
  next
    case False
    then show ?thesis using next' step star fall_through_move [of path "s\<lparr>glob_index := g\<rparr>" s' s glob] by simp
  qed
next
  case False
  then show ?thesis using next' star fall_through_move [of path s s' s glob] by (simp add: literal_step_def)
qed


lemma any_step_move:
  assumes "any_step glob path s = Next s'" "\<not> at_star glob s" "glob_index s < length glob"
  shows "forward_move glob path s s' \<or> back_move glob path s s'"
  using assms literal_step_move [of glob path 63 s s'] fall_through_move [of path s s' s glob] wtf8_length_bounds [of "path ! path_index s"]
  by (auto simp: any_step_def forward_move_def split: if_splits)

lemma class_loop_advances: "class_loop glob c gi first m = Some (gi', m') \<Longrightarrow> gi \<le> gi'"
proof (induction glob c gi first m rule: class_loop.induct)
  case (1 glob c gi first m)
  show ?case
  proof (cases "gi < length glob \<and> (first \<or> glob ! gi \<noteq> 93)")
    case True
    with 1(3) obtain low n g where low: "get_unicode glob gi = Some (low, n, g)"
      by (subst (asm) class_loop.simps) (auto split: option.splits)
    note IH = 1(1,2) [OF True low refl refl refl]
    show ?thesis
    proof (cases "g + n + 1 < length glob \<and> glob ! (g + n) = 45 \<and> glob ! (g + n + 1) \<noteq> 93")
      case range: True
      with 1(3) True low obtain high n' g' where high: "get_unicode glob (g + n + 1) = Some (high, n', g')"
        by (subst (asm) class_loop.simps) (auto simp: Let_def split: option.splits)
      have "class_loop glob c (g' + n') False (m \<or> low \<le> c \<and> c \<le> high) = Some (gi', m')"
        using 1(3) True low range high by (subst (asm) class_loop.simps) (simp add: Let_def)
      from IH(1) [OF range high refl refl this] show ?thesis
        using get_unicode_advances [OF low] get_unicode_advances [OF high] by linarith
    next
      case False
      have "class_loop glob c (g + n) False (m \<or> low \<le> c \<and> c \<le> low) = Some (gi', m')"
        using 1(3) True low False by (subst (asm) class_loop.simps) (auto simp: Let_def split: if_splits)
      from IH(2) [OF False this] show ?thesis using get_unicode_advances [OF low] by linarith
    qed
  next
    case False
    then show ?thesis using 1(3) by (subst (asm) class_loop.simps) (auto split: if_splits)
  qed
qed

lemma class_step_move:
  assumes next': "class_step glob path s = Next s'" and star: "\<not> at_star glob s" and gi: "glob_index s < length glob"
  shows "forward_move glob path s s' \<or> back_move glob path s s'"
proof (cases "path_index s < length path")
  case True
  define neg where "neg \<longleftrightarrow> glob_index s + 1 < length glob \<and> (glob ! (glob_index s + 1) = 94 \<or> glob ! (glob_index s + 1) = 33)"
  define gi where "gi = (if neg then glob_index s + 1 + 1 else glob_index s + 1)"
  obtain c n where d: "decode_wtf8_rune_at path (path_index s) = (c, n)" by fastforce
  have n: "n \<le> 4" using decode_len [of path "path_index s"] wtf8_length_bounds d by simp
  have step: "class_step glob path s = (case class_loop glob c gi True False of None \<Rightarrow> Done False
     | Some (gi, m) \<Rightarrow> if length glob \<le> gi then Done False
         else (let s = s\<lparr>glob_index := gi + 1\<rparr> in if m \<noteq> neg then Next (s\<lparr>path_index := path_index s + n\<rparr>) else fall_through path s))"
    using True d unfolding class_step_def Let_def gi_def neg_def by simp
  then obtain gi' m where cl: "class_loop glob c gi True False = Some (gi', m)" "gi' < length glob"
    using next' by (auto split: option.splits if_splits)
  have "glob_index s < gi'" using class_loop_advances [OF cl(1)] by (simp add: gi_def split: if_splits)
  then show ?thesis
    using next' step cl n True star fall_through_move [of path "s\<lparr>glob_index := gi' + 1\<rparr>" s' s glob]
    by (auto simp: Let_def forward_move_def split: if_splits)
next
  case False
  then show ?thesis using next' star gi literal_step_move [of glob path 91 s s'] by (simp add: class_step_def)
qed

text \<open>The frames on the stack of braces.\<close>

definition frame_ok :: "bytes \<Rightarrow> brace \<Rightarrow> bool" where
  "frame_ok glob b \<longleftrightarrow> open_brace_idx b < branch_idx b \<and> branch_idx b \<le> length glob \<and> close_brace_idx b \<le> length glob"

lemma open_brace_step_move:
  assumes "open_brace_step stack s = Next s'" "list_all (frame_ok glob) stack" "\<not> at_star glob s"
  shows "forward_move glob path s s'"
  using assms by (auto simp: open_brace_step_def forward_move_def list_all_iff frame_ok_def find_Some_iff split: option.splits)
    (metis nth_mem)+

lemma skip_branch_move:
  assumes "skip_branch s glob stack = Some s'" "list_all (frame_ok glob) stack" "\<not> at_star glob s" "glob_index s < length glob"
  shows "forward_move glob path s s'"
proof -
  obtain f where f: "find (\<lambda>f. open_brace_idx f < glob_index s \<and> glob_index s \<le> close_brace_idx f) (rev stack) = Some f"
    using assms(1) by (auto simp: skip_branch_def split: option.splits)
  then have "f \<in> set stack" "glob_index s \<le> close_brace_idx f" by (auto simp: find_Some_iff) (metis length_rev nth_mem set_rev)
  then show ?thesis using assms f by (auto simp: skip_branch_def forward_move_def list_all_iff frame_ok_def split: if_splits)
qed

lemma glob_step_move:
  assumes "glob_step glob start path stack s = Next s'" "list_all (frame_ok glob) stack"
  shows "forward_move glob path s s' \<or> back_move glob path s s' \<or> star_move glob start path s s'"
proof (cases "glob_index s < length glob")
  case True
  show ?thesis
  proof (cases "at_star glob s")
    case True
    then show ?thesis using assms star_step_move [OF True, of start path] by (auto simp: glob_step_def at_star_def)
  next
    case False
    then show ?thesis
      using assms True any_step_move [of glob path s s'] class_step_move [of glob path s s'] open_brace_step_move [of stack s s' glob path]
        literal_step_move [of glob path _ s s'] skip_branch_move [of s glob stack s' path]
      by (auto simp: glob_step_def at_star_def Let_def branch_end_step_def split: if_splits option.splits)
  qed
next
  case False
  then show ?thesis using assms fall_through_move [of path s s' s glob]
    by (auto simp: glob_step_def at_star_def split: if_splits)
qed


subsection \<open>The measure\<close>

text \<open>A saved position has been resumed, and its star is yet to be passed.\<close>

definition resumed :: "gstate \<Rightarrow> bool" where
  "resumed s \<longleftrightarrow> 0 < w_path (wildcard s) \<and> glob_index s = w_glob (wildcard s)"

text \<open>The state between rounds, with the bounds of its indices.\<close>

definition glob_inv :: "bytes \<Rightarrow> nat \<Rightarrow> bytes \<Rightarrow> gstate \<Rightarrow> bool" where
  "glob_inv glob start path s \<longleftrightarrow>
     w_glob (globstar s) \<le> w_glob (wildcard s) \<and> w_glob (wildcard s) \<le> glob_index s \<and> glob_index s \<le> length glob \<and>
     path_index s \<le> length path + 3 \<and> w_path (wildcard s) \<le> length path + 4 \<and> w_path (globstar s) \<le> length path + 4 \<and>
     (resumed s \<longrightarrow> path_index s = w_path (wildcard s)) \<and>
     (w_glob (wildcard s) = w_glob (globstar s) \<longrightarrow> w_path (globstar s) \<le> w_path (wildcard s)) \<and>
     (0 < w_path (wildcard s) \<longrightarrow> w_glob (wildcard s) < length glob \<and> glob ! w_glob (wildcard s) = 42) \<and>
     (0 < w_path (globstar s) \<longrightarrow> globstar_at glob start (w_glob (globstar s)))"

lemma glob_inv_star_path:
  assumes "glob_inv glob start path s" "w_glob (wildcard s) = glob_index s"
  shows "w_path (wildcard s) \<le> path_index s"
  using assms by (cases "w_path (wildcard s)") (auto simp: glob_inv_def resumed_def)

lemma glob_step_inv:
  assumes inv: "glob_inv glob start path s" and stack: "list_all (frame_ok glob) stack"
    and next': "glob_step glob start path stack s = Next s'"
  shows "glob_inv glob start path s'"
proof -
  have gs: "0 < w_path (globstar s) \<longrightarrow> w_glob (globstar s) < length glob \<and> glob ! w_glob (globstar s) = 42"
    using inv by (auto simp: glob_inv_def globstar_at_def)
  from glob_step_move [OF next' stack] show ?thesis
proof (elim disjE)
  assume m: "forward_move glob path s s'"
  then have w: "wildcard s' = wildcard s \<or> wildcard s' = globstar s" by (auto simp: forward_move_def)
  have "\<not> resumed s'" using inv m w by (auto simp: forward_move_def glob_inv_def resumed_def)
  moreover have "globstar s' = globstar s" "glob_index s \<le> glob_index s'" "glob_index s' \<le> length glob" "path_index s' \<le> length path + 3"
    using m inv by (simp_all add: forward_move_def glob_inv_def)
  ultimately show ?thesis using w inv unfolding glob_inv_def by (elim disjE conjE) (use gs in simp_all)
next
  assume "back_move glob path s s'"
  then show ?thesis using inv by (auto simp: back_move_def glob_inv_def resumed_def)
next
  assume m: "star_move glob start path s s'"
  then have "at_star glob s" by (simp add: star_move_def)
  note p = star_pos_props [OF this]
  have g: "w_glob (globstar s) = star_pos glob s \<Longrightarrow> w_path (globstar s) \<le> path_index s"
  proof -
    assume "w_glob (globstar s) = star_pos glob s"
    then have "w_glob (wildcard s) = w_glob (globstar s)" "w_glob (wildcard s) = glob_index s"
      using inv p(1) unfolding glob_inv_def by linarith+
    then show "w_path (globstar s) \<le> path_index s"
      using glob_inv_star_path [OF inv] inv unfolding glob_inv_def by linarith
  qed
  have s': "star_pos glob s < glob_index s'" "glob_index s' \<le> length glob" "path_index s' = path_index s"
    using m by (simp_all add: star_move_def)
  have le: "w_glob (globstar s) \<le> star_pos glob s" using inv p(1) by (simp add: glob_inv_def)
  from m show ?thesis
  proof (cases rule: star_move_cases)
    case save
    then have "\<not> resumed s'" using s' by (simp add: resumed_def)
    moreover have "w_path (wildcard s') \<le> length path + 4" using save inv by (auto simp: glob_inv_def)
    moreover have "star_pos glob s = w_glob (globstar s) \<longrightarrow> w_path (globstar s) \<le> w_path (wildcard s')" using g save by auto
    ultimately show ?thesis using save s' p le inv by (simp add: glob_inv_def)
  next
    case leave
    then have "\<not> resumed s'" using s' le by (simp add: resumed_def)
    then show ?thesis using leave s' le inv gs by (simp add: glob_inv_def)
  next
    case globstar
    then have "\<not> resumed s'" using s' by (simp add: resumed_def)
    moreover have "w_path (wildcard s') \<le> length path + 4" using globstar inv by (auto simp: glob_inv_def)
    ultimately show ?thesis using globstar s' p inv by (simp add: glob_inv_def)
  qed
qed
qed

definition finished :: "bytes \<Rightarrow> gstate \<Rightarrow> bool" where
  "finished path s \<longleftrightarrow> length path < w_path (wildcard s) \<and> length path \<le> path_index s"

definition tier :: "bytes \<Rightarrow> gstate \<Rightarrow> nat" where
  "tier path s = (if finished path s then 2 else if resumed s \<and> wildcard s = globstar s then 1 else 0)"

definition frontier :: "gstate \<Rightarrow> nat" where
  "frontier s = (if wildcard s = globstar s then 2 * glob_index s else 2 * w_glob (wildcard s) + 1)"

definition tried :: "gstate \<Rightarrow> nat" where
  "tried s = 2 * w_path (wildcard s) + of_bool (resumed s)"

definition glob_order :: "bytes \<Rightarrow> bytes \<Rightarrow> (gstate \<times> gstate) set" where
  "glob_order glob path = measures
     [\<lambda>s. length glob - w_glob (globstar s), \<lambda>s. length path + 4 - w_path (globstar s), \<lambda>s. 2 - tier path s,
      \<lambda>s. 2 * length glob + 1 - frontier s, \<lambda>s. 2 * length path + 9 - tried s, \<lambda>s. length glob - glob_index s]"

text \<open>The components of the order grow, the later ones only when the earlier ones stay the same.\<close>

definition progress :: "bytes \<Rightarrow> gstate \<Rightarrow> gstate \<Rightarrow> bool" where
  "progress path s s' \<longleftrightarrow>
     w_glob (globstar s) < w_glob (globstar s') \<or> w_glob (globstar s) = w_glob (globstar s') \<and>
     (w_path (globstar s) < w_path (globstar s') \<or> w_path (globstar s) = w_path (globstar s') \<and>
     (tier path s < tier path s' \<or> tier path s = tier path s' \<and>
     (frontier s < frontier s' \<or> frontier s = frontier s' \<and>
     (tried s < tried s' \<or> tried s = tried s' \<and> glob_index s < glob_index s'))))"

lemma progress_order:
  assumes "progress path s s'" "glob_inv glob start path s'"
  shows "(s', s) \<in> glob_order glob path"
proof -
  have "w_glob (globstar s') \<le> length glob" "w_path (globstar s') \<le> length path + 4" "tier path s' \<le> 2"
    "frontier s' \<le> 2 * length glob + 1" "tried s' \<le> 2 * length path + 9" "glob_index s' \<le> length glob"
    using assms(2) by (auto simp: glob_inv_def tier_def frontier_def tried_def)
  then show ?thesis using assms(1) unfolding progress_def glob_order_def in_measures by (elim disjE conjE) auto
qed

lemma forward_move_progress:
  assumes inv: "glob_inv glob start path s" and m: "forward_move glob path s s'"
  shows "progress path s s'"
proof -
  have "\<not> resumed s" "\<not> resumed s'" using inv m by (auto simp: glob_inv_def forward_move_def resumed_def at_star_def)
  then have t: "tier path s \<le> tier path s'" using m inv
    by (auto simp: tier_def finished_def forward_move_def)
  show ?thesis
  proof (cases "wildcard s' = globstar s")
    case True
    then have "frontier s < frontier s'" using m inv by (auto simp: frontier_def forward_move_def glob_inv_def)
    then show ?thesis using t m by (auto simp: progress_def forward_move_def)
  next
    case False
    then have "wildcard s' = wildcard s" using m by (auto simp: forward_move_def)
    then show ?thesis using m t False \<open>\<not> resumed s\<close> \<open>\<not> resumed s'\<close> by (auto simp: progress_def forward_move_def frontier_def tried_def)
  qed
qed

lemma back_move_progress:
  assumes inv: "glob_inv glob start path s" and m: "back_move glob path s s'"
  shows "progress path s s'"
proof -
  have r: "\<not> resumed s" "resumed s'" using inv m by (auto simp: glob_inv_def back_move_def resumed_def at_star_def)
  show ?thesis
    using m r by (auto simp: progress_def back_move_def frontier_def tried_def tier_def finished_def)
qed

lemma star_move_progress:
  assumes inv: "glob_inv glob start path s" and m: "star_move glob start path s s'"
  shows "progress path s s'"
proof -
  let ?p = "star_pos glob s"
  have "at_star glob s" using m by (simp add: star_move_def)
  note p = star_pos_props [OF this]
  have s': "?p < glob_index s'" "path_index s' = path_index s" using m by (simp_all add: star_move_def)
  have le: "w_glob (globstar s) \<le> w_glob (wildcard s)" "w_glob (wildcard s) \<le> glob_index s" using inv by (simp_all add: glob_inv_def)
  have first: "tier path s \<noteq> 1" if "\<not> globstar_at glob start ?p"
  proof
    assume "tier path s = 1"
    then have "resumed s" "wildcard s = globstar s" by (simp_all add: tier_def split: if_splits)
    then have "globstar_at glob start (glob_index s)" using inv by (simp add: glob_inv_def resumed_def)
    then show False using that by (simp add: globstar_at_def star_pos_def)
  qed
  have last: "w_glob (wildcard s) = ?p \<Longrightarrow> w_path (wildcard s) \<le> path_index s"
    using le p(1) glob_inv_star_path [OF inv] by simp
  from m show ?thesis
  proof (cases rule: star_move_cases)
    case save
    then have r: "\<not> resumed s'" using s' by (simp add: resumed_def)
    have front: "frontier s < frontier s' \<or> frontier s = frontier s' \<and> tried s < tried s'" if "tier path s \<noteq> 1 \<or> finished path s"
      using save s' p r le last that by (auto simp: frontier_def tried_def tier_def resumed_def split: if_splits)
    show ?thesis
    proof (cases "finished path s'")
      case True
      then show ?thesis using front save by (auto simp: progress_def tier_def split: if_splits)
    next
      case False
      then have "path_index s < length path" using save s' by (auto simp: finished_def)
      then have "tier path s \<noteq> 1" "tier path s' = 0" "\<not> finished path s" using save first r False by (auto simp: tier_def finished_def)
      then show ?thesis using front save by (auto simp: progress_def tier_def split: if_splits)
    qed
  next
    case leave
    then have "\<not> resumed s'" "\<not> finished path s" using s' le p(1) by (auto simp: resumed_def finished_def)
    moreover have "frontier s < frontier s'" using leave le s' p(1) by (auto simp: frontier_def)
    ultimately show ?thesis using leave first by (auto simp: progress_def tier_def split: if_splits)
  next
    case globstar
    then have "w_glob (globstar s) < ?p \<or> w_glob (globstar s) = ?p \<and> w_path (globstar s) \<le> path_index s"
      using le p(1) last inv by (auto simp: glob_inv_def)
    then show ?thesis using globstar by (auto simp: progress_def)
  qed
qed


lemma glob_step_order:
  assumes "glob_inv glob start path s" "list_all (frame_ok glob) stack" "glob_step glob start path stack s = Next s'"
  shows "(s', s) \<in> glob_order glob path"
  using glob_step_move [OF assms(3,2)] forward_move_progress [OF assms(1)] back_move_progress [OF assms(1)]
    star_move_progress [OF assms(1)] progress_order [OF _ glob_step_inv [OF assms]] by blast

lemma glob_step_braces:
  "glob_step glob start path stack s = Braces s' \<Longrightarrow> s' = s \<and> glob_index s < length glob \<and> glob ! glob_index s = 123"
  by (auto simp: glob_step_def Let_def any_step_def class_step_def literal_step_def fall_through_def branch_end_step_def open_brace_step_def
      split: if_splits option.splits prod.splits)

text \<open>The loop returns when the call for a brace group does.\<close>

lemma glob_loop_returns:
  assumes "glob_inv glob start path s" "list_all (frame_ok glob) stack"
    and mb: "\<And>s budget. glob_inv glob start path s \<Longrightarrow> glob_index s < length glob \<Longrightarrow> glob ! glob_index s = 123 \<Longrightarrow> \<exists>r. mb s budget = Some r"
  shows "\<exists>r. glob_loop mb glob start path stack s budget = Some r"
proof -
  have "wf (glob_order glob path)" by (simp add: glob_order_def)
  then show ?thesis using assms(1)
  proof (induction s rule: wf_induct_rule)
    case (less s)
    show ?case
    proof (cases "glob_step glob start path stack s")
      case (Next s')
      then show ?thesis
        using less.IH glob_step_order [OF less.prems assms(2) Next] glob_step_inv [OF less.prems assms(2) Next]
        by (subst glob_loop.simps) simp
    next
      case (Done b)
      then show ?thesis by (subst glob_loop.simps) simp
    next
      case (Braces s')
      then show ?thesis using glob_step_braces [OF Braces] mb [of s] less.prems by (subst glob_loop.simps) simp
    qed
  qed
qed

subsection \<open>Brace groups\<close>

lemma find_brace_end_loop_le: "find_brace_end_loop glob i d b \<le> length glob"
proof (induction "length glob - i" arbitrary: i d b rule: less_induct)
  case less
  have rec: "i < length glob \<Longrightarrow> 0 < n \<Longrightarrow> find_brace_end_loop glob (i + n) d b \<le> length glob" for n d b
    by (rule less) auto
  show ?case using rec [of 1] rec [of 2] by (subst find_brace_end_loop.simps) simp
qed

text \<open>The state of a brace group: what its branches start from.\<close>

definition same_position :: "gstate \<Rightarrow> gstate \<Rightarrow> bool" where
  "same_position s t \<longleftrightarrow> wildcard s = wildcard t \<and> globstar s = globstar t \<and> path_index s = path_index t"

lemma match_brace_loop_returns:
  assumes branch: "\<And>s bi budget. same_position s s0 \<Longrightarrow> k < bi \<Longrightarrow> bi \<le> length glob \<Longrightarrow> \<exists>r. branch s bi budget = Some r"
  shows "same_position s s0 \<Longrightarrow> k < glob_index s \<Longrightarrow> k < bi \<Longrightarrow> bi \<le> length glob \<Longrightarrow>
    \<exists>r. match_brace_loop branch glob s d b bi budget = Some r"
proof (induction "length glob - glob_index s" arbitrary: s d b bi budget rule: less_induct)
  case less
  have rec: "\<exists>m c. match_brace_loop branch glob (s\<lparr>glob_index := glob_index s + n\<rparr>) d b bi budget = Some (m, c)"
    if "glob_index s < length glob" "0 < n" "k < bi" "bi \<le> length glob" for n d b bi budget
    using less.hyps [of "s\<lparr>glob_index := glob_index s + n\<rparr>" bi d b budget] less.prems that by (auto simp: same_position_def)
  obtain f where f: "\<And>bi budget. k < bi \<Longrightarrow> bi \<le> length glob \<Longrightarrow> branch s bi budget = Some (f bi budget)"
    using branch [OF less.prems(1)] by metis
  show ?case using rec [of 1] rec [of 2] less.prems
    by (subst match_brace_loop.simps) (auto simp: Let_def f split: prod.splits)
qed

lemma match_brace_returns:
  assumes impl: "\<And>stack s start budget. list_all (frame_ok glob) stack \<Longrightarrow> length stack = Suc n \<Longrightarrow> n < BRACE_STACK_CAPACITY \<Longrightarrow>
      glob_inv glob start path s \<Longrightarrow> \<exists>r. impl stack s start budget = Some r"
    and inv: "glob_inv glob start path s" "glob_index s < length glob" "glob ! glob_index s = 123"
    and stack: "list_all (frame_ok glob) stack" "length stack = n"
  shows "\<exists>r. match_brace impl glob stack s budget = Some r"
proof -
  define close where "close = find_brace_end glob (glob_index s)"
  define branch where "branch = (\<lambda>t bi. match_brace_branch impl t (glob_index s) bi close stack)"
  have close: "close \<le> length glob" by (simp add: close_def find_brace_end_def find_brace_end_loop_le)
  have branch: "\<exists>r. branch t bi budget = Some r"
    if t: "same_position t s" "glob_index s < bi" "bi \<le> length glob" for t bi budget
  proof -
    let ?stack = "stack @ [\<lparr>open_brace_idx = glob_index s, branch_idx = bi, close_brace_idx = close\<rparr>]"
    let ?t = "t\<lparr>glob_index := bi, brace_depth := length ?stack\<rparr>"
    have "list_all (frame_ok glob) ?stack" using stack t close by (simp add: frame_ok_def)
    moreover have "glob_inv glob bi path ?t"
      using inv(1) t globstar_at_later [of glob start "w_glob (globstar s)" bi]
      by (auto simp: glob_inv_def same_position_def resumed_def)
    ultimately have "n < BRACE_STACK_CAPACITY \<Longrightarrow> \<exists>r. impl ?stack ?t bi (budget - 1) = Some r"
      using impl stack by simp
    then show ?thesis using stack by (auto simp: branch_def match_brace_branch_def Let_def)
  qed
  have "match_brace impl glob stack s budget = match_brace_loop branch glob (s\<lparr>glob_index := glob_index s + 1\<rparr>) 1 False (glob_index s + 1) budget"
    unfolding match_brace_def Let_def branch_def [symmetric] close_def [symmetric]
    using inv by (subst match_brace_loop.simps) (simp add: branch_def close_def Let_def)
  then show ?thesis
    using match_brace_loop_returns [of s "glob_index s" glob branch "s\<lparr>glob_index := glob_index s + 1\<rparr>", OF branch] inv
    by (simp add: same_position_def)
qed

lemma glob_match_impl_returns:
  "glob_inv glob start path s \<Longrightarrow> list_all (frame_ok glob) stack \<Longrightarrow> d + length stack = BRACE_STACK_CAPACITY \<Longrightarrow>
   \<exists>r. glob_match_impl d glob path stack s start budget = Some r"
proof (induction d arbitrary: start s stack budget)
  case 0
  have "\<exists>r. match_brace (\<lambda>_ _ _ _. None) glob stack s budget = Some r"
    if "glob_inv glob start path s" "glob_index s < length glob" "glob ! glob_index s = 123" for s budget
    by (rule match_brace_returns [where n = "length stack"]) (use that 0 in auto)
  then show ?case using glob_loop_returns [OF 0(1,2)] by simp
next
  case (Suc d)
  have "\<exists>r. match_brace (glob_match_impl d glob path) glob stack s budget = Some r"
    if "glob_inv glob start path s" "glob_index s < length glob" "glob ! glob_index s = 123" for s budget
    by (rule match_brace_returns [where n = "length stack"]) (use that Suc in auto)
  then show ?case using glob_loop_returns [OF Suc.prems(1,2)] by simp
qed

lemma count_bangs_le: "fst (count_bangs glob) \<le> length glob"
  by (induction glob) (auto split: prod.splits)

subsection \<open>The property\<close>


end
