(* ===== verification/GlobSpec.thy ===== *)
theory GlobSpec
  imports GlobTermination
begin

text \<open>
  What a glob pattern means. A pattern without brace groups is a list of tokens; a path is a list of
  characters, each as long as its first byte says, with no ASCII byte but the first. A token list matches a character list by plain
  recursion, with no saved positions. The lemmas say how one round of the loop reads one token.
\<close>

subsection \<open>Characters and tokens\<close>

definition rune_ok :: "bytes \<Rightarrow> bool" where
  "rune_ok r \<longleftrightarrow> r \<noteq> [] \<and> length r = wtf8_byte_sequence_length (hd r) \<and> list_all (\<lambda>b. 0x80 \<le> b) (tl r)"

definition rune_value :: "bytes \<Rightarrow> u32" where
  "rune_value r = decode_wtf8_rune_t r (length r) 0xFFFD"

text \<open>A member of a class: a character or a span of them, each one plain or behind a backslash.\<close>

datatype class_char = Plain bytes | Quoted bytes

datatype class_member = Single class_char | Span class_char class_char

fun print_class_char :: "class_char \<Rightarrow> bytes" where
  "print_class_char (Plain r) = r"
| "print_class_char (Quoted r) = 92 # r"

fun class_char_value :: "class_char \<Rightarrow> u32" where
  "class_char_value (Plain r) = rune_value r"
| "class_char_value (Quoted r) = (if hd r \<in> {97, 98, 110, 114, 116} then ucast (unescape_byte (hd r)) else rune_value r)"

fun print_member :: "class_member \<Rightarrow> bytes" where
  "print_member (Single c) = print_class_char c"
| "print_member (Span lo hi) = print_class_char lo @ 45 # print_class_char hi"

fun member_matches :: "u32 \<Rightarrow> class_member \<Rightarrow> bool" where
  "member_matches v (Single c) \<longleftrightarrow> v = class_char_value c"
| "member_matches v (Span lo hi) \<longleftrightarrow> class_char_value lo \<le> v \<and> v \<le> class_char_value hi"

text \<open>\<open>Class\<close> carries the sign of its negation, \<open>Globstar\<close> how many more times \<open>**/\<close> is repeated.\<close>

datatype glob_token =
    Literal bytes
  | Escaped bytes
  | Any
  | Class "u8 option" "class_member list"
  | Slash
  | Star
  | Globstar nat
  | GlobstarEnd nat

fun print_token :: "glob_token \<Rightarrow> bytes" where
  "print_token (Literal r) = r"
| "print_token (Escaped r) = 92 # r"
| "print_token Any = bs ''?''"
| "print_token (Class neg ms) = 91 # (case neg of None \<Rightarrow> [] | Some c \<Rightarrow> [c]) @ concat (map print_member ms) @ bs '']''"
| "print_token Slash = bs ''/''"
| "print_token Star = bs ''*''"
| "print_token (Globstar k) = concat (replicate (Suc k) (bs ''**/''))"
| "print_token (GlobstarEnd k) = concat (replicate k (bs ''**/'')) @ bs ''**''"

abbreviation print_tokens :: "glob_token list \<Rightarrow> bytes" where
  "print_tokens ts \<equiv> concat (map print_token ts)"

definition class_matches :: "u8 option \<Rightarrow> class_member list \<Rightarrow> bytes \<Rightarrow> bool" where
  "class_matches neg ms c \<longleftrightarrow> list_ex (member_matches (rune_value c)) ms \<noteq> (neg \<noteq> None)"

text \<open>The tokens that match one character.\<close>

fun token_matches :: "glob_token \<Rightarrow> bytes \<Rightarrow> bool" where
  "token_matches (Literal r) c \<longleftrightarrow> c = r"
| "token_matches (Escaped r) c \<longleftrightarrow> c = (if length r = 1 then [unescape_byte (hd r)] else r)"
| "token_matches Any c \<longleftrightarrow> c \<noteq> bs ''/''"
| "token_matches (Class neg ms) c \<longleftrightarrow> class_matches neg ms c"
| "token_matches Slash c \<longleftrightarrow> c = bs ''/''"
| "token_matches _ c \<longleftrightarrow> False"

definition single :: "glob_token \<Rightarrow> bool" where
  "single t \<longleftrightarrow> (case t of Literal _ \<Rightarrow> True | Escaped _ \<Rightarrow> True | Any \<Rightarrow> True | Class _ _ \<Rightarrow> True | _ \<Rightarrow> False)"

text \<open>
  The meaning. A star takes characters up to a separator; \<open>**/\<close> takes whole segments; \<open>**\<close> at the end
  takes the rest. As a special case of the code, \<open>**/*\<close> at the end takes at least one character.
\<close>

fun glob_means :: "glob_token list \<Rightarrow> bytes list \<Rightarrow> bool" where
  "glob_means [] cs \<longleftrightarrow> cs = []"
| "glob_means (Star # ts) cs \<longleftrightarrow>
     (\<exists>n \<le> length cs. bs ''/'' \<notin> set (take n cs) \<and> glob_means ts (drop n cs))"
| "glob_means (Globstar k # ts) cs \<longleftrightarrow>
     (\<exists>n \<le> length cs. (n = 0 \<or> cs ! (n - 1) = bs ''/'') \<and> glob_means ts (drop n cs) \<and> \<not> (ts = [Star] \<and> drop n cs = []))"
| "glob_means (GlobstarEnd k # ts) cs \<longleftrightarrow> True"
| "glob_means (t # ts) cs \<longleftrightarrow> (case cs of [] \<Rightarrow> False | c # cs \<Rightarrow> token_matches t c \<and> glob_means ts cs)"

subsection \<open>Well-formed patterns\<close>

text \<open>
  What a token may be so that it is read as itself. A class is not empty, only its first member may
  begin with \<open>]\<close> or \<open>-\<close>, and it does not match the separator. A star is not next to a star, and \<open>**\<close> is a
  whole segment.
\<close>

fun class_char_rune :: "class_char \<Rightarrow> bytes" where
  "class_char_rune (Plain r) = r"
| "class_char_rune (Quoted r) = r"

fun class_char_ok :: "u8 set \<Rightarrow> class_char \<Rightarrow> bool" where
  "class_char_ok bad (Plain r) \<longleftrightarrow> rune_ok r \<and> hd r \<notin> insert 92 bad"
| "class_char_ok bad (Quoted r) \<longleftrightarrow> rune_ok r"

fun member_ok :: "u8 set \<Rightarrow> class_member \<Rightarrow> bool" where
  "member_ok bad (Single c) \<longleftrightarrow> class_char_ok bad c"
| "member_ok bad (Span lo hi) \<longleftrightarrow> class_char_ok bad lo \<and> class_char_ok {93} hi"

definition class_ok :: "u8 option \<Rightarrow> class_member list \<Rightarrow> bool" where
  "class_ok neg ms \<longleftrightarrow> ms \<noteq> [] \<and>
     member_ok (if neg = None then {94, 33} else {}) (hd ms) \<and> list_all (member_ok {93, 45}) (tl ms) \<and>
     (case neg of None \<Rightarrow> True | Some c \<Rightarrow> c = 94 \<or> c = 33) \<and> \<not> class_matches neg ms (bs ''/'')"

fun starts_star :: "glob_token list \<Rightarrow> bool" where
  "starts_star (Star # _) \<longleftrightarrow> True"
| "starts_star _ \<longleftrightarrow> False"

fun starts_globstar :: "glob_token list \<Rightarrow> bool" where
  "starts_globstar (Globstar _ # _) \<longleftrightarrow> True"
| "starts_globstar (GlobstarEnd _ # _) \<longleftrightarrow> True"
| "starts_globstar _ \<longleftrightarrow> False"

fun pattern_ok :: "bool \<Rightarrow> glob_token list \<Rightarrow> bool" where
  "pattern_ok b [] \<longleftrightarrow> True"
| "pattern_ok b (Literal r # ts) \<longleftrightarrow> rune_ok r \<and> hd r \<notin> {42, 63, 91, 123, 92, 47} \<and> pattern_ok False ts"
| "pattern_ok b (Escaped r # ts) \<longleftrightarrow> rune_ok r \<and> hd r \<noteq> 47 \<and> pattern_ok False ts"
| "pattern_ok b (Any # ts) \<longleftrightarrow> pattern_ok False ts"
| "pattern_ok b (Class neg ms # ts) \<longleftrightarrow> class_ok neg ms \<and> pattern_ok False ts"
| "pattern_ok b (Slash # ts) \<longleftrightarrow> pattern_ok True ts"
| "pattern_ok b (Star # ts) \<longleftrightarrow> \<not> starts_star ts \<and> pattern_ok False ts"
| "pattern_ok b (Globstar k # ts) \<longleftrightarrow> b \<and> \<not> starts_globstar ts \<and> pattern_ok True ts"
| "pattern_ok b (GlobstarEnd k # ts) \<longleftrightarrow> b \<and> ts = []"

lemma wtf8_length_ascii [simp]: "b \<le> 0x7F \<Longrightarrow> wtf8_byte_sequence_length b = 1"
  by (simp add: wtf8_byte_sequence_length_def)

lemma rune_ok_single: "rune_ok [b] \<longleftrightarrow> wtf8_byte_sequence_length b = 1"
  by (auto simp: rune_ok_def)

lemma rune_ok_slash: "rune_ok r \<Longrightarrow> hd r = 47 \<longleftrightarrow> r = bs ''/''"
  by (cases r) (auto simp: rune_ok_def wtf8_byte_sequence_length_def)

lemma rune_ok_tail: "rune_ok r \<Longrightarrow> b \<in> set (tl r) \<Longrightarrow> \<not> b \<le> 0x7F"
  by (auto simp: rune_ok_def list_all_iff word_le_nat_alt)

text \<open>Two characters one of which begins with the other are equal.\<close>

lemma rune_ok_eq: "rune_ok r \<Longrightarrow> rune_ok c \<Longrightarrow> take (length r) (c @ x) = r \<longleftrightarrow> c = r"
proof
  assume ok: "rune_ok r" "rune_ok c" and t: "take (length r) (c @ x) = r"
  obtain a r' b c' where cons: "r = a # r'" "c = b # c'" using ok by (cases r; cases c) (auto simp: rune_ok_def)
  then have "a = b" using t by simp
  then have "length r = length c" using ok cons by (simp add: rune_ok_def)
  then show "c = r" using t by simp
qed simp

lemma rune_ok_byte: "rune_ok c \<Longrightarrow> wtf8_byte_sequence_length b = 1 \<Longrightarrow> hd c = b \<longleftrightarrow> c = [b]"
  by (cases c) (auto simp: rune_ok_def)

lemma single_not_slash: "single t \<Longrightarrow> pattern_ok b (t # ts) \<Longrightarrow> \<not> token_matches t (bs ''/'')"
  by (cases t) (auto simp: single_def class_ok_def rune_ok_def unescape_byte_def split: if_splits)


subsection \<open>Positions\<close>

text \<open>The tokens from an index on, and the characters from an index on; \<open>b\<close> is the start of a segment.\<close>

definition at_tokens :: "bytes \<Rightarrow> nat \<Rightarrow> nat \<Rightarrow> glob_token list \<Rightarrow> bool" where
  "at_tokens glob start i ts \<longleftrightarrow> (\<exists>b. pattern_ok b ts \<and> i \<le> length glob \<and> drop i glob = print_tokens ts \<and>
     (b \<longrightarrow> i = start \<or> 0 < i \<and> glob ! (i - 1) = 47))"

definition at_runes :: "bytes list \<Rightarrow> nat \<Rightarrow> bytes list \<Rightarrow> bool" where
  "at_runes rs p cs \<longleftrightarrow> (\<exists>ds. rs = ds @ cs \<and> p = length (concat ds))"

lemma at_runes_Nil: "at_runes rs p [] \<Longrightarrow> p = length (concat rs)"
  by (auto simp: at_runes_def)

lemma at_runes_Cons:
  assumes "at_runes rs p (c # cs)" "list_all rune_ok rs"
  shows "rune_ok c" "p < length (concat rs)" "concat rs ! p = hd c" "drop p (concat rs) = c @ concat cs"
    "at_runes rs (p + length c) cs" "p + length c \<le> length (concat rs)" "length c = wtf8_byte_sequence_length (hd c)"
proof -
  obtain ds where d: "rs = ds @ c # cs" "p = length (concat ds)" using assms(1) by (auto simp: at_runes_def)
  then show c: "rune_ok c" and "drop p (concat rs) = c @ concat cs" "p + length c \<le> length (concat rs)"
    using assms(2) by simp_all
  have "c \<noteq> []" using c by (simp add: rune_ok_def)
  then show "p < length (concat rs)" "concat rs ! p = hd c" using d by (cases c; simp)+
  show "at_runes rs (p + length c) cs" unfolding at_runes_def using d by (intro exI [of _ "ds @ [c]"]) simp
  show "length c = wtf8_byte_sequence_length (hd c)" using c by (simp add: rune_ok_def)
qed

lemma at_runes_append:
  assumes "at_runes rs p (as @ cs)"
  shows "at_runes rs (p + length (concat as)) cs"
proof -
  obtain ds where "rs = ds @ as @ cs" "p = length (concat ds)" using assms by (auto simp: at_runes_def)
  then show ?thesis unfolding at_runes_def by (intro exI [of _ "ds @ as"]) simp
qed

lemma at_runes_le: "at_runes rs p cs \<Longrightarrow> p \<le> length (concat rs)"
  by (auto simp: at_runes_def)

lemma at_tokens_Nil: "at_tokens glob start i [] \<Longrightarrow> i = length glob"
  by (auto simp: at_tokens_def)

lemma print_token_nonempty: "pattern_ok b (t # ts) \<Longrightarrow> print_token t \<noteq> []"
  by (cases t) (auto simp: rune_ok_def)

lemma at_tokens_drop: "at_tokens glob start i (t # ts) \<Longrightarrow> drop i glob = print_token t @ print_tokens ts"
  by (auto simp: at_tokens_def)

lemma drop_append_conv: "drop i xs = as @ zs \<Longrightarrow> drop (i + length as) xs = zs"
  by (metis add.commute append_eq_conv_conj drop_drop)

lemma drop_Cons_conv: "drop i xs = a # zs \<Longrightarrow> i < length xs \<and> xs ! i = a"
  by (metis drop_all hd_drop_conv_nth leI list.distinct(1) list.sel(1))

lemma drop_nth_conv: "drop i xs = as @ zs \<Longrightarrow> k < length as \<Longrightarrow> i + k < length xs \<and> xs ! (i + k) = as ! k"
proof -
  assume d: "drop i xs = as @ zs" and k: "k < length as"
  then have "length xs - i = length as + length zs" by (metis length_append length_drop)
  then have "i + k < length xs" using k by linarith
  moreover from this have "xs ! (i + k) = drop i xs ! k" by simp
  ultimately show ?thesis using d k by (simp add: nth_append)
qed

lemma drop_length_conv: "drop i xs = as @ zs \<Longrightarrow> as \<noteq> [] \<Longrightarrow> i + length as \<le> length xs"
proof -
  assume d: "drop i xs = as @ zs" and a: "as \<noteq> []"
  then have "length xs - i = length as + length zs" by (metis length_append length_drop)
  moreover have "0 < length as" using a by simp
  ultimately show ?thesis by linarith
qed

lemma print_globstar: "concat (replicate (Suc k) x) = concat (replicate k x) @ x"
  by (induction k) simp_all

lemma at_tokens_next:
  assumes "at_tokens glob start i (t # ts)"
  shows "at_tokens glob start (i + length (print_token t)) ts"
proof -
  obtain b where b: "pattern_ok b (t # ts)" "drop i glob = print_token t @ print_tokens ts" "i \<le> length glob"
    using assms by (auto simp: at_tokens_def)
  have d: "drop (i + length (print_token t)) glob = print_tokens ts" by (rule drop_append_conv [OF b(2)])
  have le: "i + length (print_token t) \<le> length glob" using arg_cong [OF b(2), of length] b(3) by simp
  define b' where "b' \<longleftrightarrow> t = Slash \<or> (\<exists>k. t = Globstar k)"
  have ok: "pattern_ok b' ts"
    using b(1) by (cases t) (auto simp: b'_def)
  have "glob ! (i + length (print_token t) - 1) = 47" "0 < length (print_token t)" if b'
  proof -
    have "last (print_token t) = 47" "print_token t \<noteq> []" using that by (auto simp: b'_def print_globstar simp del: replicate.simps)
    moreover from this have "i + length (print_token t) - 1 = i + (length (print_token t) - 1)" by (cases "print_token t") auto
    ultimately show "glob ! (i + length (print_token t) - 1) = 47" "0 < length (print_token t)"
      using drop_nth_conv [OF b(2), of "length (print_token t) - 1"] by (simp_all add: last_conv_nth)
  qed
  then show ?thesis unfolding at_tokens_def using d le ok by (intro exI [of _ b']) auto
qed


subsection \<open>Reading one token\<close>

lemma unescape_byte_length: "wtf8_byte_sequence_length (unescape_byte b) = wtf8_byte_sequence_length b"
  by (simp add: unescape_byte_def wtf8_byte_sequence_length_def)

lemma unescape_byte_multi: "wtf8_byte_sequence_length b \<noteq> 1 \<Longrightarrow> unescape_byte b = b"
  by (auto simp: unescape_byte_def)

lemma fall_through_glob_index [simp]: "fall_through path (s\<lparr>glob_index := gi\<rparr>) = fall_through path s"
  by (simp add: fall_through_def backtrack_def)

text \<open>A literal: \<open>r\<close> is what stands in the pattern at \<open>gi\<close>, \<open>e\<close> the character it means.\<close>

lemma literal_step_reads:
  assumes u: "unescape ch glob (glob_index s) = Some (cc, gi)" and r: "rune_ok r" "drop gi glob = r @ z"
    and e: "e = (if length r = 1 then [cc] else r)" "cc = hd r \<or> length r = 1 \<and> wtf8_byte_sequence_length cc = 1" "cc \<noteq> 47"
    and rs: "list_all rune_ok rs" "at_runes rs (path_index s) cs"
  shows "literal_step glob (concat rs) ch s =
     (case cs of c # cs' \<Rightarrow> if c = e then Next (s\<lparr>glob_index := gi + length r, path_index := path_index s + length c\<rparr>)
        else fall_through (concat rs) s
      | [] \<Rightarrow> fall_through (concat rs) s)"
proof (cases cs)
  case Nil
  then show ?thesis using at_runes_Nil rs by (auto simp: literal_step_def)
next
  case (Cons c cs')
  note c = at_runes_Cons [OF rs(2) [unfolded Cons] rs(1)]
  have n: "wtf8_byte_sequence_length cc = length r" using r(1) e(2) by (auto simp: rune_ok_def)
  have len: "1 \<le> length r" using r(1) by (cases r) (auto simp: rune_ok_def)
  have gi: "gi + length r \<le> length glob" using drop_length_conv [OF r(2)] len by (cases "r = []") auto
  have eq: "(if 1 < length r then path_index s + length r \<le> length (concat rs) \<and> gi + length r \<le> length glob \<and>
       take (length r) (drop (path_index s) (concat rs)) = take (length r) (drop gi glob) else hd c = cc) \<longleftrightarrow> c = e"
  proof (cases "1 < length r")
    case True
    have "path_index s + length r \<le> length (concat rs)" if "c = r" using c(6) that by simp
    then show ?thesis using True gi rune_ok_eq [OF r(1) c(1), of "concat cs'"] e(1) unfolding c(4) r(2) by auto
  next
    case False
    then have "length r = 1" using len by simp
    then show ?thesis using rune_ok_byte [OF c(1), of cc] n e(1) by simp
  qed
  have l: "c = e \<Longrightarrow> length c = length r" using e(1) by auto
  show ?thesis
    unfolding literal_step_def u option.case prod.case Let_def n c(3) using c(2) e(3) eq l Cons by auto
qed

lemma at_token_byte:
  assumes "at_tokens glob start i (t # ts)" "print_token t = a # as"
  shows "i < length glob" "glob ! i = a"
  using drop_Cons_conv [of i glob a "as @ print_tokens ts"] at_tokens_drop [OF assms(1)] assms(2) by simp_all

text \<open>A token for one character is read, or the match falls back.\<close>

definition reads_single :: "bytes list \<Rightarrow> gstate \<Rightarrow> glob_token \<Rightarrow> bytes list \<Rightarrow> glob_result \<Rightarrow> bool" where
  "reads_single rs s t cs r \<longleftrightarrow>
     (case cs of c # cs' \<Rightarrow> if token_matches t c
        then r = Next (s\<lparr>glob_index := glob_index s + length (print_token t), path_index := path_index s + length c\<rparr>)
        else r = fall_through (concat rs) s
      | [] \<Rightarrow> r = fall_through (concat rs) s)"

lemma read_literal:
  assumes at: "at_tokens glob start (glob_index s) (Literal r # ts)" and rs: "list_all rune_ok rs" "at_runes rs (path_index s) cs"
  shows "reads_single rs s (Literal r) cs (glob_step glob start (concat rs) [] s)"
proof -
  obtain b where ok: "rune_ok r" "hd r \<notin> {42, 63, 91, 123, 92, 47}" using at by (auto simp: at_tokens_def)
  then obtain a r' where a: "r = a # r'" by (cases r) (auto simp: rune_ok_def)
  have gi: "glob_index s < length glob" "glob ! glob_index s = a" using at_token_byte [OF at] a by simp_all
  have u: "unescape a glob (glob_index s) = Some (a, glob_index s)" using ok(2) a by (simp add: unescape_def)
  have d: "drop (glob_index s) glob = r @ print_tokens ts" using at_tokens_drop [OF at] by simp
  have e: "r = (if length r = 1 then [a] else r)" using a by auto
  have "glob_step glob start (concat rs) [] s = literal_step glob (concat rs) a s"
    using gi ok(2) a by (simp add: glob_step_def Let_def branch_end_step_def skip_branch_def)
  moreover note literal_step_reads [OF u ok(1) d e _ _ rs]
  ultimately show ?thesis using a ok(2) by (auto simp: reads_single_def split: list.splits if_splits)
qed

lemma read_escaped:
  assumes at: "at_tokens glob start (glob_index s) (Escaped r # ts)" and rs: "list_all rune_ok rs" "at_runes rs (path_index s) cs"
  shows "reads_single rs s (Escaped r) cs (glob_step glob start (concat rs) [] s)"
proof -
  obtain b where ok: "rune_ok r" "hd r \<noteq> 47" using at by (auto simp: at_tokens_def)
  then obtain a r' where a: "r = a # r'" by (cases r) (auto simp: rune_ok_def)
  have gi: "glob_index s < length glob" "glob ! glob_index s = 92" using at_token_byte [OF at] by simp_all
  have d0: "drop (glob_index s) glob = [92] @ r @ print_tokens ts" using at_tokens_drop [OF at] by simp
  have d: "drop (glob_index s + 1) glob = r @ print_tokens ts" using drop_append_conv [OF d0] by simp
  have g1: "glob_index s + 1 < length glob" "glob ! (glob_index s + 1) = a" using drop_Cons_conv [of "glob_index s + 1" glob a] d a by auto
  have u: "unescape 92 glob (glob_index s) = Some (unescape_byte a, glob_index s + 1)" using g1 by (simp add: unescape_def Let_def)
  have cc: "unescape_byte a = hd r \<or> length r = 1 \<and> wtf8_byte_sequence_length (unescape_byte a) = 1" "unescape_byte a \<noteq> 47"
    using ok unescape_byte_multi [of a] unescape_byte_length [of a] a by (auto simp: rune_ok_def unescape_byte_def split: if_splits)
  have "glob_step glob start (concat rs) [] s = literal_step glob (concat rs) 92 s"
    using gi by (simp add: glob_step_def Let_def)
  moreover note literal_step_reads [OF u ok(1) d refl cc rs]
  ultimately show ?thesis using a by (auto simp: reads_single_def split: list.splits if_splits)
qed


lemma read_any:
  assumes at: "at_tokens glob start (glob_index s) (Any # ts)" and rs: "list_all rune_ok rs" "at_runes rs (path_index s) cs"
  shows "reads_single rs s Any cs (glob_step glob start (concat rs) [] s)"
proof -
  have "glob_index s < length glob" "glob ! glob_index s = 63" using at_token_byte [OF at] by simp_all
  then have step: "glob_step glob start (concat rs) [] s = any_step glob (concat rs) s" by (simp add: glob_step_def Let_def)
  show ?thesis
  proof (cases cs)
    case Nil
    then show ?thesis using step at_runes_Nil rs by (auto simp: any_step_def literal_step_def reads_single_def)
  next
    case (Cons c cs')
    note c = at_runes_Cons [OF rs(2) [unfolded Cons] rs(1)]
    then show ?thesis using step Cons rune_ok_slash [OF c(1)] by (simp add: any_step_def reads_single_def is_sep_native_def)
  qed
qed

text \<open>A separator in the pattern also puts the saved position of the last globstar in force.\<close>

lemma read_slash:
  assumes at: "at_tokens glob start (glob_index s) (Slash # ts)" and rs: "list_all rune_ok rs" "at_runes rs (path_index s) cs"
  shows "glob_step glob start (concat rs) [] s =
     (case cs of c # cs' \<Rightarrow> if c = bs ''/''
        then Next (s\<lparr>glob_index := glob_index s + 1, path_index := path_index s + 1, wildcard := globstar s\<rparr>)
        else fall_through (concat rs) s
      | [] \<Rightarrow> fall_through (concat rs) s)"
proof -
  have gi: "glob_index s < length glob" "glob ! glob_index s = 47" using at_token_byte [OF at] by simp_all
  then have step: "glob_step glob start (concat rs) [] s = literal_step glob (concat rs) 47 s" by (simp add: glob_step_def Let_def)
  show ?thesis
  proof (cases cs)
    case Nil
    then show ?thesis using step at_runes_Nil rs by (auto simp: literal_step_def)
  next
    case (Cons c cs')
    note c = at_runes_Cons [OF rs(2) [unfolded Cons] rs(1)]
    then show ?thesis using step Cons rune_ok_slash [OF c(1)]
      by (simp add: literal_step_def unescape_def is_sep_native_def Let_def)
  qed
qed

subsection \<open>Reading a class\<close>

lemma decode_prefix:
  assumes "\<And>i. i < n \<Longrightarrow> p ! i = q ! i" "n \<le> 4" "1 \<le> n"
  shows "decode_wtf8_rune_t p n z = decode_wtf8_rune_t q n z"
proof -
  consider "n = 1" | "n = 2" | "n = 3" | "n = 4" using assms(2,3) by linarith
  then show ?thesis
  proof cases
    case 1
    then show ?thesis using assms(1) [of 0] by (simp add: decode_wtf8_rune_t_def)
  next
    case 2
    then show ?thesis using assms(1) [of 0] assms(1) [of 1]
      by (simp add: decode_wtf8_rune_t_def decode_wtf8_rune_t_multibyte_def Let_def)
  next
    case 3
    then show ?thesis using assms(1) [of 0] assms(1) [of 1] assms(1) [of 2]
      by (simp add: decode_wtf8_rune_t_def decode_wtf8_rune_t_multibyte_def Let_def)
  next
    case 4
    then show ?thesis using assms(1) [of 0] assms(1) [of 1] assms(1) [of 2] assms(1) [of 3]
      by (simp add: decode_wtf8_rune_t_def decode_wtf8_rune_t_multibyte_def Let_def)
  qed
qed

lemma decode_rune:
  assumes r: "rune_ok r" and d: "drop i b = r @ z"
  shows "decode_wtf8_rune_at b i = (rune_value r, length r)"
proof -
  have "r \<noteq> []" using r by (simp add: rune_ok_def)
  then have h: "b ! i = hd r" using drop_nth_conv [OF d, of 0] by (simp add: hd_conv_nth)
  have n: "length r = wtf8_byte_sequence_length (hd r)" using r by (simp add: rune_ok_def)
  have "decode_wtf8_rune_t (take 4 (r @ z @ replicate 4 0)) (length r) 0xFFFD = rune_value r"
    unfolding rune_value_def using wtf8_length_bounds [of "hd r"] n by (intro decode_prefix) (simp_all add: nth_append)
  then show ?thesis unfolding decode_wtf8_rune_at_def Let_def h n [symmetric] d by simp
qed

lemma get_unicode_reads:
  assumes "class_char_ok {} c" "drop gi glob = print_class_char c @ z"
  shows "\<exists>g n. get_unicode glob gi = Some (class_char_value c, n, g) \<and> g + n = gi + length (print_class_char c)"
proof (cases c)
  case (Plain r)
  then have r: "rune_ok r" "hd r \<noteq> 92" "drop gi glob = r @ z" using assms by auto
  then have "r \<noteq> []" by (simp add: rune_ok_def)
  then have h: "glob ! gi = hd r" using drop_nth_conv [OF r(3), of 0] by (simp add: hd_conv_nth)
  show ?thesis
  proof (cases "hd r \<le> 0x7F")
    case True
    then have "length r = 1" using r(1) by (simp add: rune_ok_def)
    then show ?thesis using True Plain r(2) h hd_conv_nth [OF \<open>r \<noteq> []\<close>]
      by (simp add: get_unicode_def rune_value_def decode_wtf8_rune_t_def Let_def)
  next
    case False
    then show ?thesis using Plain r(2) h decode_rune [OF r(1,3)] by (simp add: get_unicode_def Let_def)
  qed
next
  case (Quoted r)
  then have r: "rune_ok r" "drop gi glob = [92] @ r @ z" using assms by auto
  have d: "drop (gi + 1) glob = r @ z" using drop_append_conv [OF r(2)] by simp
  have ne: "r \<noteq> []" using r(1) by (simp add: rune_ok_def)
  then have h: "gi + 1 < length glob" "glob ! (gi + 1) = hd r" "glob ! gi = 92"
    using drop_nth_conv [OF d, of 0] drop_nth_conv [OF r(2), of 0] by (simp_all add: hd_conv_nth)
  show ?thesis
  proof (cases "hd r \<in> {97, 98, 110, 114, 116}")
    case True
    then have "length r = 1" using r(1) by (auto simp: rune_ok_def)
    then show ?thesis using True Quoted h by (simp add: get_unicode_def Let_def)
  next
    case False
    then show ?thesis using Quoted h decode_rune [OF r(1) d] by (simp add: get_unicode_def Let_def)
  qed
qed


lemma class_char_ok_mono: "class_char_ok bad c \<Longrightarrow> class_char_ok {} c"
  by (cases c) auto

lemma class_char_first:
  assumes "class_char_ok bad c"
  shows "print_class_char c \<noteq> []" "x \<in> bad \<Longrightarrow> x \<noteq> 92 \<Longrightarrow> hd (print_class_char c) \<noteq> x"
  using assms by (cases c; auto simp: rune_ok_def)+

lemma class_loop_member:
  assumes ok: "member_ok bad m" and d: "drop gi glob = print_member m @ y # z" "y \<noteq> 45" and first: "first \<or> 93 \<in> bad"
  shows "class_loop glob v gi first a = class_loop glob v (gi + length (print_member m)) False (a \<or> member_matches v m)"
proof -
  define c where "c = (case m of Single c \<Rightarrow> c | Span lo hi \<Rightarrow> lo)"
  obtain t where t: "print_member m = print_class_char c @ t" by (cases m) (auto simp: c_def)
  have c: "class_char_ok bad c" using ok by (cases m) (auto simp: c_def)
  have d1: "drop gi glob = print_class_char c @ t @ y # z" using d(1) t by simp
  obtain g n where u: "get_unicode glob gi = Some (class_char_value c, n, g)" "g + n = gi + length (print_class_char c)"
    using get_unicode_reads [OF class_char_ok_mono [OF c] d1] by blast
  have g0: "gi < length glob" "glob ! gi = hd (print_class_char c)"
    using drop_nth_conv [OF d1, of 0] class_char_first(1) [OF c] by (auto simp: hd_conv_nth)
  have go: "gi < length glob \<and> (first \<or> glob ! gi \<noteq> 93)" using g0 first class_char_first(2) [OF c, of 93] by auto
  have d2: "drop (g + n) glob = t @ y # z" unfolding u(2) by (rule drop_append_conv [OF d1])
  show ?thesis
  proof (cases m)
    case (Single c')
    then have "t = []" "c' = c" using t by (auto simp: c_def)
    then have "glob ! (g + n) \<noteq> 45" using drop_nth_conv [of "g + n" glob "[y]" z 0] d2 d(2) by simp
    then have "class_loop glob v gi first a = class_loop glob v (g + n) False (a \<or> class_char_value c \<le> v \<and> v \<le> class_char_value c)"
      using go u(1) by (subst class_loop.simps) (simp add: Let_def)
    moreover have "class_char_value c \<le> v \<and> v \<le> class_char_value c \<longleftrightarrow> v = class_char_value c" by auto
    ultimately show ?thesis using Single u(2) \<open>c' = c\<close> by simp
  next
    case (Span lo hi)
    then have hi: "t = 45 # print_class_char hi" "lo = c" "class_char_ok {93} hi" using t ok by (auto simp: c_def)
    have d3: "drop (g + n) glob = [45] @ print_class_char hi @ y # z" using d2 hi by simp
    have d4: "drop (g + n + 1) glob = print_class_char hi @ y # z" using drop_append_conv [OF d3] by simp
    have r: "g + n + 1 < length glob \<and> glob ! (g + n) = 45 \<and> glob ! (g + n + 1) \<noteq> 93"
      using drop_nth_conv [OF d3, of 0] drop_nth_conv [OF d4, of 0] class_char_first(1) [OF hi(3)] class_char_first(2) [OF hi(3), of 93] by (auto simp: hd_conv_nth)
    obtain g' n' where u': "get_unicode glob (g + n + 1) = Some (class_char_value hi, n', g')"
        "g' + n' = g + n + 1 + length (print_class_char hi)"
      using get_unicode_reads [OF class_char_ok_mono [OF hi(3)] d4] by blast
    have "class_loop glob v gi first a = class_loop glob v (g' + n') False (a \<or> class_char_value c \<le> v \<and> v \<le> class_char_value hi)"
      using go u(1) u'(1) r by (subst class_loop.simps) (simp add: Let_def)
    moreover have "g' + n' = gi + length (print_member m)" using u(2) u'(2) Span hi by simp
    ultimately show ?thesis using Span hi(2) by simp
  qed
qed

lemma member_first:
  assumes "member_ok bad m"
  shows "print_member m \<noteq> []" "x \<in> bad \<Longrightarrow> x \<noteq> 92 \<Longrightarrow> hd (print_member m) \<noteq> x"
proof -
  obtain c t where c: "print_member m = print_class_char c @ t" "class_char_ok bad c" using assms by (cases m) auto
  show "print_member m \<noteq> []" "x \<in> bad \<Longrightarrow> x \<noteq> 92 \<Longrightarrow> hd (print_member m) \<noteq> x"
    using class_char_first(1) [OF c(2)] class_char_first(2) [OF c(2), of x] c(1) by simp_all
qed

lemma members_first:
  assumes "list_all (member_ok {93, 45}) ms"
  shows "\<exists>y z'. concat (map print_member ms) @ 93 # z = y # z' \<and> y \<noteq> 45"
proof (cases ms)
  case (Cons m ms')
  then have "print_member m \<noteq> []" "hd (print_member m) \<noteq> 45" using assms member_first [of "{93, 45}" m] by auto
  then show ?thesis using Cons by (cases "print_member m") auto
qed simp

lemma class_loop_members:
  "list_all (member_ok {93, 45}) ms \<Longrightarrow> drop gi glob = concat (map print_member ms) @ 93 # z \<Longrightarrow>
   class_loop glob v gi False a = Some (gi + length (concat (map print_member ms)), a \<or> list_ex (member_matches v) ms)"
proof (induction ms arbitrary: gi a)
  case Nil
  then have "gi < length glob" "glob ! gi = 93" using drop_Cons_conv [of gi glob 93 z] by simp_all
  then show ?case by (subst class_loop.simps) simp
next
  case (Cons m ms)
  obtain y z' where y: "concat (map print_member ms) @ 93 # z = y # z'" "y \<noteq> 45" using members_first Cons.prems(1) by (metis list.pred_inject(2))
  have d: "drop gi glob = print_member m @ y # z'" using Cons.prems(2) y(1) by simp
  have "class_loop glob v gi False a = class_loop glob v (gi + length (print_member m)) False (a \<or> member_matches v m)"
    using Cons.prems(1) class_loop_member [OF _ d y(2), of "{93, 45}" False] by simp
  also have "\<dots> = Some (gi + length (print_member m) + length (concat (map print_member ms)), (a \<or> member_matches v m) \<or> list_ex (member_matches v) ms)"
    using Cons.prems drop_append_conv [OF d] y(1) by (intro Cons.IH) simp_all
  finally show ?case by (simp add: add.assoc)
qed

lemma read_class:
  assumes at: "at_tokens glob start (glob_index s) (Class neg ms # ts)" and rs: "list_all rune_ok rs" "at_runes rs (path_index s) cs"
  shows "reads_single rs s (Class neg ms) cs (glob_step glob start (concat rs) [] s)"
proof -
  have "glob_index s < length glob" "glob ! glob_index s = 91" using at_token_byte [OF at] by simp_all
  then have step: "glob_step glob start (concat rs) [] s = class_step glob (concat rs) s" by (simp add: glob_step_def Let_def)
  show ?thesis
  proof (cases cs)
    case Nil
    then show ?thesis using step at_runes_Nil rs by (auto simp: class_step_def literal_step_def unescape_def reads_single_def)
  next
    case (Cons c cs')
    note c = at_runes_Cons [OF rs(2) [unfolded Cons] rs(1)]
    let ?gi = "glob_index s + 1"
    define sign where "sign = (case neg of None \<Rightarrow> [] | Some c \<Rightarrow> [c])"
    obtain m ms' where ms: "ms = m # ms'" "member_ok (if neg = None then {94, 33} else {}) m" "list_all (member_ok {93, 45}) ms'"
        "neg = None \<or> neg = Some 94 \<or> neg = Some 33"
      using at by (cases ms) (auto simp: at_tokens_def class_ok_def split: option.splits)
    obtain y z where y: "concat (map print_member ms') @ 93 # print_tokens ts = y # z" "y \<noteq> 45" using members_first [OF ms(3)] by blast
    have d0: "drop (glob_index s) glob = [91] @ sign @ print_member m @ concat (map print_member ms') @ 93 # print_tokens ts"
      using at_tokens_drop [OF at] ms(1) by (simp add: sign_def)
    have d1: "drop ?gi glob = sign @ print_member m @ y # z" using drop_append_conv [OF d0] y by simp
    have d2: "drop (?gi + length sign) glob = print_member m @ y # z" by (rule drop_append_conv [OF d1])
    note first = member_first [OF ms(2)]
    have head: "sign = [] \<Longrightarrow> ?gi < length glob \<and> glob ! ?gi = hd (print_member m)"
      using drop_nth_conv [OF d2, of 0] first(1) by (simp add: hd_conv_nth)
    have neg: "(?gi < length glob \<and> (glob ! ?gi = 94 \<or> glob ! ?gi = 33)) \<longleftrightarrow> neg \<noteq> None"
    proof (cases neg)
      case None
      then show ?thesis using head first(2) [of 94] first(2) [of 33] by (auto simp: sign_def)
    next
      case (Some x)
      then have "?gi < length glob" "glob ! ?gi = x" using drop_nth_conv [OF d1, of 0] by (auto simp: sign_def)
      then show ?thesis using ms(4) Some by auto
    qed
    have gi: "(if neg \<noteq> None then ?gi + 1 else ?gi) = ?gi + length sign" by (cases neg) (auto simp: sign_def)
    have loop: "class_loop glob v (?gi + length sign) True False =
        Some (glob_index s + length (print_token (Class neg ms)) - 1, list_ex (member_matches v) ms)" for v
    proof -
      have "class_loop glob v (?gi + length sign) True False = class_loop glob v (?gi + length sign + length (print_member m)) False (member_matches v m)"
        using class_loop_member [OF ms(2) d2 y(2), of True v False] by simp
      also have "\<dots> = Some (?gi + length sign + length (print_member m) + length (concat (map print_member ms')), list_ex (member_matches v) ms)"
        using class_loop_members [OF ms(3) drop_append_conv [OF d2, folded y(1)]] ms(1) by simp
      finally show ?thesis using ms(1) by (cases neg) (simp_all add: sign_def)
    qed
    obtain q where q: "length (print_token (Class neg ms)) = Suc q" by (cases "print_token (Class neg ms)") simp_all
    have "glob_index s + q < length glob" using drop_length_conv [OF at_tokens_drop [OF at]] q by (cases "print_token (Class neg ms)") simp_all
    then have "class_step glob (concat rs) s = (if list_ex (member_matches (rune_value c)) ms \<noteq> (neg \<noteq> None)
        then Next (s\<lparr>glob_index := glob_index s + length (print_token (Class neg ms)), path_index := path_index s + length c\<rparr>)
        else fall_through (concat rs) s)"
      unfolding class_step_def Let_def neg gi loop decode_rune [OF c(1,4)] q
      using c(2) by (cases neg) auto
    then show ?thesis using step Cons by (cases neg) (simp_all add: reads_single_def class_matches_def del: print_token.simps)
  qed
qed


subsection \<open>Reading stars\<close>

lemma pattern_first_byte:
  assumes "pattern_ok b ts" "\<not> starts_star ts" "\<not> starts_globstar ts"
  shows "print_tokens ts \<noteq> 42 # z"
proof (cases ts)
  case (Cons t ts')
  then show ?thesis using assms by (cases t) (auto simp: rune_ok_def append_eq_Cons_conv)
qed simp

lemma not_globstar_inside: "pattern_ok False ts \<Longrightarrow> \<not> starts_globstar ts"
  by (cases ts rule: starts_globstar.cases) auto

text \<open>A star with a position saved for its next character.\<close>

lemma read_star:
  assumes at: "at_tokens glob start (glob_index s) (Star # ts)" and rs: "list_all rune_ok rs" "at_runes rs (path_index s) cs"
  defines "w \<equiv> \<lambda>n. \<lparr>w_glob = glob_index s, w_path = path_index s + n, w_depth = brace_depth s\<rparr>"
  shows "glob_step glob start (concat rs) [] s = Next (s\<lparr>glob_index := glob_index s + 1, wildcard :=
     (case cs of c # cs' \<Rightarrow> if c = bs ''/'' then globstar s else w (length c) | [] \<Rightarrow> w 1)\<rparr>)"
proof -
  obtain b where ok: "\<not> starts_star ts" "pattern_ok False ts" using at by (auto simp: at_tokens_def)
  have d: "drop (glob_index s) glob = [42] @ print_tokens ts" using at_tokens_drop [OF at] by simp
  have gi: "glob_index s < length glob" "glob ! glob_index s = 42" using at_token_byte [OF at] by simp_all
  have d1: "drop (glob_index s + 1) glob = print_tokens ts" using drop_append_conv [OF d] by simp
  have no: "\<not> (glob_index s + 1 < length glob \<and> glob ! (glob_index s + 1) = 42)"
    using pattern_first_byte [OF ok(2,1) not_globstar_inside [OF ok(2)]] d1 by (metis Cons_nth_drop_Suc)
  have step: "glob_step glob start (concat rs) [] s = Next (star_step glob start (concat rs) s)" using gi by (simp add: glob_step_def Let_def)
  show ?thesis
  proof (cases cs)
    case Nil
    then show ?thesis using step at_runes_Nil rs unfolding star_step_def Let_def if_not_P [OF no] w_def by simp
  next
    case (Cons c cs')
    note c = at_runes_Cons [OF rs(2) [unfolded Cons] rs(1)]
    show ?thesis using step c(2,3,7) rune_ok_slash [OF c(1)] Cons
      unfolding star_step_def Let_def if_not_P [OF no] w_def by (simp add: is_sep_native_def)
  qed
qed

lemma run_follows_drop: "drop i glob = x \<Longrightarrow> run_follows glob i \<longleftrightarrow> take 4 x = bs ''/**/''"
proof -
  assume d: "drop i glob = x"
  have "i + 4 \<le> length glob" if "take 4 x = bs ''/**/''" using arg_cong [OF that, of length] d by auto
  then show ?thesis using d by (auto simp: run_follows_def)
qed

lemma run_ends_drop: "drop i glob = x \<Longrightarrow> run_ends glob i \<longleftrightarrow> x = bs ''/**''"
proof -
  assume d: "drop i glob = x"
  have "i + 3 = length glob" if "x = bs ''/**''" using arg_cong [OF that, of length] d by auto
  then show ?thesis using d by (auto simp: run_ends_def)
qed

lemma skip_loop_run:
  assumes "\<And>i. drop i glob = 47 # x \<Longrightarrow> \<not> run_follows glob i"
  shows "drop i glob = 47 # concat (replicate k (bs ''**/'')) @ x \<Longrightarrow> skip_globstars_loop glob i = i + 3 * k \<and> drop (i + 3 * k) glob = 47 # x"
proof (induction k arbitrary: i)
  case 0
  then show ?case using assms skip_loop_unfold [of glob i] by simp
next
  case (Suc k)
  have d: "drop i glob = bs ''/**'' @ 47 # concat (replicate k (bs ''**/'')) @ x" using Suc.prems by simp
  then have "run_follows glob i" using run_follows_drop by simp
  moreover have "drop (i + 3) glob = 47 # concat (replicate k (bs ''**/'')) @ x" using drop_append_conv [OF d] by (simp add: eval_nat_numeral)
  ultimately show ?case using Suc.IH [of "i + 3"] skip_loop_unfold [of glob i] by (simp add: algebra_simps)
qed


lemma print_no_double_star:
  assumes "pattern_ok b ts" "\<not> starts_globstar ts"
  shows "print_tokens ts \<noteq> 42 # 42 # z"
proof (cases "starts_star ts")
  case True
  then obtain ts' where ts: "ts = Star # ts'" by (cases ts rule: starts_star.cases) auto
  then have "print_tokens ts' \<noteq> 42 # z" using assms pattern_first_byte not_globstar_inside by auto
  then show ?thesis using ts by simp
next
  case False
  then show ?thesis using pattern_first_byte [OF assms(1) False assms(2)] by simp
qed

lemma print_single_star:
  assumes "pattern_ok b ts" "\<not> starts_globstar ts"
  shows "print_tokens ts = [42] \<longleftrightarrow> ts = [Star]"
proof (cases "starts_star ts")
  case True
  then obtain ts' where ts: "ts = Star # ts'" by (cases ts rule: starts_star.cases) auto
  then have "print_tokens ts' = [] \<longleftrightarrow> ts' = []" using assms(1) print_token_nonempty [of False] by (cases ts') auto
  then show ?thesis using ts by simp
next
  case False
  then show ?thesis using pattern_first_byte [OF assms(1) False assms(2)] by auto
qed

lemma skip_globstars_slash:
  assumes at: "at_tokens glob start i (Globstar k # ts)"
  shows "skip_globstars glob i = i + 3 * k"
proof -
  obtain b where ok: "\<not> starts_globstar ts" "pattern_ok True ts" using at by (auto simp: at_tokens_def)
  have d: "drop i glob = bs ''**'' @ 47 # concat (replicate k (bs ''**/'')) @ print_tokens ts" using at_tokens_drop [OF at] by simp
  then have d2: "drop (i + 2) glob = 47 # concat (replicate k (bs ''**/'')) @ print_tokens ts"
    using drop_append_conv [OF d] by (simp add: eval_nat_numeral)
  have no: "\<not> run_follows glob j" "\<not> run_ends glob j" if "drop j glob = 47 # print_tokens ts" for j
    using print_no_double_star [OF ok(2,1)] run_follows_drop [OF that] run_ends_drop [OF that]
    by (cases "print_tokens ts"; cases "tl (print_tokens ts)"; auto)+
  have "skip_globstars_loop glob (i + 2) = i + 2 + 3 * k" "drop (i + 2 + 3 * k) glob = 47 # print_tokens ts"
    using skip_loop_run [of glob "print_tokens ts", OF no(1) d2] by simp_all
  then show ?thesis using no(2) by (simp add: skip_globstars_unfold Let_def del: add_2_eq_Suc')
qed

lemma skip_globstars_end:
  assumes at: "at_tokens glob start i (GlobstarEnd k # ts)"
  shows "skip_globstars glob i = i + 3 * k" "i + 3 * k + 2 = length glob"
proof -
  have d: "drop i glob = concat (replicate k (bs ''**/'')) @ bs ''**''" using at by (auto simp: at_tokens_def)
  have "length (concat (replicate k (bs ''**/''))) = 3 * k" by (induction k) simp_all
  then show len: "i + 3 * k + 2 = length glob" using arg_cong [OF d, of length] by simp
  show "skip_globstars glob i = i + 3 * k"
  proof (cases k)
    case 0
    then have "drop (i + 2) glob = []" using len by simp
    then have "\<not> run_follows glob (i + 2)" "\<not> run_ends glob (i + 2)" using run_follows_drop run_ends_drop by auto
    then show ?thesis using 0 skip_loop_unfold [of glob "i + 2"] by (simp add: skip_globstars_unfold Let_def del: add_2_eq_Suc')
  next
    case (Suc m)
    have d1: "drop i glob = bs ''**'' @ 47 # concat (replicate m (bs ''**/'')) @ bs ''**''" using d Suc by simp
    then have d2: "drop (i + 2) glob = 47 # concat (replicate m (bs ''**/'')) @ bs ''**''"
      using drop_append_conv [OF d1] by (simp add: eval_nat_numeral)
    have "\<not> run_follows glob j" if "drop j glob = 47 # bs ''**''" for j using run_follows_drop [OF that] by simp
    from skip_loop_run [of glob "bs ''**''", OF this d2]
    have "skip_globstars_loop glob (i + 2) = i + 2 + 3 * m" "run_ends glob (i + 2 + 3 * m)" using run_ends_drop by auto
    then show ?thesis using Suc by (simp add: skip_globstars_unfold Let_def del: add_2_eq_Suc')
  qed
qed


lemma find_separator_skip:
  "drop p path = as @ z \<Longrightarrow> 47 \<notin> set as \<Longrightarrow> find_separator path p = find_separator path (p + length as)"
proof (induction as arbitrary: p)
  case (Cons a as)
  have "p < length path" "path ! p = a" using drop_Cons_conv [of p path a] Cons.prems(1) by auto
  moreover have "drop (p + 1) path = as @ z" using drop_append_conv [of p path "[a]" "as @ z"] Cons.prems(1) by simp
  ultimately show ?case using Cons by (subst find_separator.simps) (simp add: is_sep_native_def)
qed simp

lemma find_separator_runes:
  "at_runes rs p cs \<Longrightarrow> list_all rune_ok rs \<Longrightarrow>
   find_separator (concat rs) p = p + length (concat (takeWhile (\<lambda>c. c \<noteq> bs ''/'') cs))"
proof (induction cs arbitrary: p)
  case Nil
  then show ?case using at_runes_Nil by (subst find_separator.simps) auto
next
  case (Cons c cs)
  note c = at_runes_Cons [OF Cons.prems]
  show ?case
  proof (cases "c = bs ''/''")
    case True
    then show ?thesis using c(2,3) by (subst find_separator.simps) (simp add: is_sep_native_def)
  next
    case False
    then have "47 \<notin> set c" using rune_ok_slash [OF c(1)] rune_ok_tail [OF c(1), of 47] by (cases c) auto
    then show ?thesis using find_separator_skip [OF c(4)] Cons.IH [OF c(5) Cons.prems(2)] False by simp
  qed
qed

text \<open>
  The position after the next separator, with the characters there: past the end, or, for \<open>**\<close> at the
  end of a pattern, at the end, if there is none.
\<close>

fun next_segment :: "bytes list \<Rightarrow> bytes list option" where
  "next_segment [] = None"
| "next_segment (c # cs) = (if c = bs ''/'' then Some cs else next_segment cs)"

lemma next_segment_Some: "next_segment cs = Some ds \<Longrightarrow> cs = takeWhile (\<lambda>c. c \<noteq> bs ''/'') cs @ bs ''/'' # ds"
  by (induction cs) (auto split: if_splits)

lemma next_segment_None: "next_segment cs = None \<longleftrightarrow> bs ''/'' \<notin> set cs"
  by (induction cs) auto

lemma skip_to_separator_runes:
  assumes "at_runes rs (path_index s) cs" "list_all rune_ok rs" "cs \<noteq> []"
  shows "\<exists>i. skip_to_separator s (concat rs) e = s\<lparr>wildcard := (wildcard s)\<lparr>w_path := i\<rparr>, globstar := (wildcard s)\<lparr>w_path := i\<rparr>\<rparr> \<and>
     0 < i \<and> (case next_segment cs of Some ds \<Rightarrow> at_runes rs i ds | None \<Rightarrow> if e then length (concat rs) < i else at_runes rs i [])"
proof -
  let ?f = "path_index s + length (concat (takeWhile (\<lambda>c. c \<noteq> bs ''/'') cs))"
  obtain c cs' where c: "cs = c # cs'" using assms(3) by (cases cs) auto
  have p: "path_index s \<noteq> length (concat rs)" using at_runes_Cons(2) [OF assms(1) [unfolded c] assms(2)] by simp
  show ?thesis
  proof (cases "next_segment cs")
    case None
    then have tw: "takeWhile (\<lambda>c. c \<noteq> bs ''/'') cs = cs" by (auto simp: next_segment_None takeWhile_eq_all_conv)
    have "?f = length (concat rs)" unfolding tw using at_runes_append [of rs "path_index s" cs "[]"] at_runes_Nil assms(1) by simp
    moreover have "at_runes rs (length (concat rs)) []" by (simp add: at_runes_def)
    moreover have "0 < length (concat rs)" using at_runes_Cons(2) [OF assms(1) [unfolded c] assms(2)] by linarith
    ultimately show ?thesis using p None find_separator_runes [OF assms(1,2)]
      by (intro exI [of _ "if e then length (concat rs) + 1 else length (concat rs)"]) (simp add: skip_to_separator_def Let_def)
  next
    case (Some ds)
    have split: "at_runes rs (path_index s) (takeWhile (\<lambda>c. c \<noteq> bs ''/'') cs @ bs ''/'' # ds)"
      unfolding next_segment_Some [OF Some, symmetric] by (rule assms(1))
    note d = at_runes_Cons [OF at_runes_append [OF split] assms(2)]
    then show ?thesis using p Some find_separator_runes [OF assms(1,2)]
      by (intro exI [of _ "?f + 1"]) (simp add: skip_to_separator_def Let_def)
  qed
qed


text \<open>The state after \<open>**/\<close>, and after \<open>**\<close> at the end; \<open>w\<close> is the position that is saved.\<close>

lemma globstar_step:
  assumes at: "at_tokens glob start (glob_index s) (t # ts)" and t: "t = Globstar k \<or> t = GlobstarEnd k"
    and rs: "list_all rune_ok rs" "at_runes rs (path_index s) cs"
  defines "p \<equiv> glob_index s + 3 * k"
  shows "glob_step glob start (concat rs) [] s =
     Next (if t = Globstar k \<and> cs = [] \<and> ts = [Star] then save_star (concat rs) p s\<lparr>glob_index := p + 2\<rparr>
       else skip_to_separator (save_star (concat rs) p s\<lparr>glob_index := if t = Globstar k then p + 2 + 1 else p + 2\<rparr>) (concat rs) (t = Globstar k))"
    and "drop p glob = bs ''**'' @ (if t = Globstar k then 47 # print_tokens ts else [])"
    and "p = start \<or> 0 < p \<and> glob ! (p - 1) = 47"
proof -
  have skip: "skip_globstars glob (glob_index s) = p" using t at skip_globstars_slash skip_globstars_end(1) by (auto simp: p_def)
  obtain b where "pattern_ok b (t # ts)" "b \<longrightarrow> glob_index s = start \<or> 0 < glob_index s \<and> glob ! (glob_index s - 1) = 47"
    using at unfolding at_tokens_def by blast
  then have b: "pattern_ok True (t # ts)" "glob_index s = start \<or> 0 < glob_index s \<and> glob ! (glob_index s - 1) = 47" using t by auto
  define rest where "rest = (if t = Globstar k then 47 # print_tokens ts else [])"
  have d0: "drop (glob_index s) glob = concat (replicate k (bs ''**/'')) @ bs ''**'' @ rest"
    using at_tokens_drop [OF at] t b(1) by (auto simp: rest_def print_globstar simp del: replicate.simps)
  have klen: "length (concat (replicate k (bs ''**/''))) = 3 * k" by (induction k) simp_all
  show d1: "drop p glob = bs ''**'' @ (if t = Globstar k then 47 # print_tokens ts else [])" unfolding rest_def [symmetric] using drop_append_conv [OF d0] klen by (simp add: p_def)
  have d2: "drop (p + 2) glob = rest" using drop_append_conv [OF d1 [folded rest_def]] by (simp add: eval_nat_numeral)
  have le: "p + 2 \<le> length glob" using drop_length_conv [OF d1] by (simp add: eval_nat_numeral)
  have stars: "glob_index s < length glob" "glob ! glob_index s = 42" "glob_index s + 1 < length glob \<and> glob ! (glob_index s + 1) = 42"
  proof -
    obtain z where z: "drop (glob_index s) glob = bs ''**'' @ z" using d0 by (cases k) auto
    show "glob_index s < length glob" "glob ! glob_index s = 42" "glob_index s + 1 < length glob \<and> glob ! (glob_index s + 1) = 42"
      using drop_nth_conv [OF z, of 0] drop_nth_conv [OF z, of 1] by simp_all
  qed
  show before: "p = start \<or> 0 < p \<and> glob ! (p - 1) = 47"
  proof (cases k)
    case 0
    then show ?thesis using b by (auto simp: p_def)
  next
    case (Suc m)
    then have "glob ! (glob_index s + (3 * k - 1)) = concat (replicate k (bs ''**/'')) ! (3 * k - 1)"
      using drop_nth_conv [OF d0, of "3 * k - 1"] klen by simp
    also have "\<dots> = 47" using Suc klen last_conv_nth [of "concat (replicate k (bs ''**/''))"] by (simp add: print_globstar del: replicate.simps)
    finally show ?thesis using Suc by (simp add: p_def)
  qed
  have more: "p + 2 < length glob \<longleftrightarrow> t = Globstar k" "t = Globstar k \<Longrightarrow> glob ! (p + 2) = 47"
    using d2 t le drop_Cons_conv [of "p + 2" glob 47] by (auto simp: rest_def split: if_splits)
  have len: "length glob - (p + 2) = length rest" using d2 by (metis length_drop)
  have fixme: "length glob - (p + 2) = 2 \<and> glob ! (p + 2 + 1) = 42 \<longleftrightarrow> ts = [Star]" if g: "t = Globstar k"
  proof -
    have "print_tokens ts = [42] \<longleftrightarrow> ts = [Star]" using b(1) g print_single_star [of True ts] by auto
    moreover have "glob ! (p + 2 + 1) = x" if "print_tokens ts = [x]" for x
      using drop_nth_conv [of "p + 2" glob rest "[]" 1] d2 g that by (simp add: rest_def)
    moreover have "length glob - (p + 2) = 2 \<longleftrightarrow> (\<exists>x. print_tokens ts = [x])"
      unfolding len using g by (auto simp: rest_def length_Suc_conv eval_nat_numeral)
    ultimately show ?thesis by metis
  qed
  have empty: "path_index s = length (concat rs) \<longleftrightarrow> cs = []"
    using rs at_runes_Nil at_runes_Cons(2) by (cases cs) (auto dest: at_runes_Nil at_runes_Cons(2))
  have star: "at_star glob s" using stars by (simp add: at_star_def)
  have pos: "star_pos glob s = p" using stars skip by (simp add: star_pos_def)
  have gs: "globstar_at glob start p"
    using star_pos_globstar(3) [OF star, of start] stars before more pos by (auto simp: numeral_eq_Suc)
  have c1: "(t = Globstar k \<and> path_index s = length (concat rs) \<and> length glob - (p + 2) = 2 \<and> is_sep_native (glob ! (p + 2)) \<and>
      glob ! (p + 2 + 1) = 42) \<longleftrightarrow> t = Globstar k \<and> cs = [] \<and> ts = [Star]"
    using more empty fixme by (auto simp: is_sep_native_def)
  have "glob_step glob start (concat rs) [] s = Next (star_step glob start (concat rs) s)"
    using stars by (simp add: glob_step_def Let_def)
  then show "glob_step glob start (concat rs) [] s =
     Next (if t = Globstar k \<and> cs = [] \<and> ts = [Star] then save_star (concat rs) p s\<lparr>glob_index := p + 2\<rparr>
       else skip_to_separator (save_star (concat rs) p s\<lparr>glob_index := if t = Globstar k then p + 2 + 1 else p + 2\<rparr>) (concat rs) (t = Globstar k))"
    unfolding star_step_double [OF star stars(3) pos [symmetric]] Let_def more(1) c1 if_P [OF gs] .
qed

end
