(* ===== verification/GlobMatch.thy ===== *)
theory GlobMatch
  imports GlobSpec
begin

text \<open>
  The loop with its two saved positions decides the meaning of \<open>GlobSpec\<close>: whatever an older saved
  position could still match is matched from the newer one, or from where the loop is.
\<close>

subsection \<open>Unfolding the meaning\<close>

abbreviation sep :: bytes where
  "sep \<equiv> bs ''/''"

definition plain :: "glob_token \<Rightarrow> bool" where
  "plain t \<longleftrightarrow> (case t of Globstar _ \<Rightarrow> False | GlobstarEnd _ \<Rightarrow> False | _ \<Rightarrow> True)"

definition in_segment :: "glob_token \<Rightarrow> bool" where
  "in_segment t \<longleftrightarrow> single t \<and> \<not> token_matches t sep"

lemma means_single: "single t \<or> t = Slash \<Longrightarrow> glob_means (t # ts) cs \<longleftrightarrow> (\<exists>c cs'. cs = c # cs' \<and> token_matches t c \<and> glob_means ts cs')"
  by (cases t) (auto simp: single_def split: list.splits)

lemma means_star_Nil: "glob_means (Star # ts) [] \<longleftrightarrow> glob_means ts []"
  by simp

lemma means_star_Cons:
  "glob_means (Star # ts) (c # cs) \<longleftrightarrow> glob_means ts (c # cs) \<or> c \<noteq> sep \<and> glob_means (Star # ts) cs"
proof -
  have "glob_means (Star # ts) (c # cs) \<longleftrightarrow> (\<exists>n. n \<le> length (c # cs) \<and> sep \<notin> set (take n (c # cs)) \<and> glob_means ts (drop n (c # cs)))"
    by simp
  also have "\<dots> \<longleftrightarrow> glob_means ts (c # cs) \<or> (\<exists>n. n \<le> length cs \<and> c \<noteq> sep \<and> sep \<notin> set (take n cs) \<and> glob_means ts (drop n cs))"
    (is "(\<exists>n. ?P n) \<longleftrightarrow> _ \<or> (\<exists>n. ?Q n)")
  proof -
    have "?P 0 \<longleftrightarrow> glob_means ts (c # cs)" "?P (Suc n) \<longleftrightarrow> ?Q n" for n by auto
    then show ?thesis by (metis not0_implies_Suc)
  qed
  finally show ?thesis by auto
qed

lemma means_globstar_Nil: "glob_means (Globstar k # ts) [] \<longleftrightarrow> glob_means ts [] \<and> ts \<noteq> [Star]"
  by auto

lemma means_globstar_suffix:
  assumes "glob_means (Globstar k # ts) e" "z \<noteq> []" "last z = sep"
  shows "glob_means (Globstar k # ts) (z @ e)"
proof -
  obtain n where n: "n \<le> length e" "n = 0 \<or> e ! (n - 1) = sep" "glob_means ts (drop n e)" "\<not> (ts = [Star] \<and> drop n e = [])"
    using assms(1) by auto
  have "(z @ e) ! (length z + n - 1) = sep"
    using n(2) assms(2,3) by (cases n) (auto simp: nth_append last_conv_nth)
  then show ?thesis using n by (simp only: glob_means.simps) (intro exI [of _ "length z + n"], simp)
qed

lemma means_globstar_next:
  assumes "cs \<noteq> []"
  shows "glob_means (Globstar k # ts) cs \<longleftrightarrow>
     glob_means ts cs \<or> (case next_segment cs of None \<Rightarrow> False | Some ds \<Rightarrow> glob_means (Globstar k' # ts) ds)"
proof
  assume "glob_means (Globstar k # ts) cs"
  then obtain n where n: "n \<le> length cs" "n = 0 \<or> cs ! (n - 1) = sep" "glob_means ts (drop n cs)" "\<not> (ts = [Star] \<and> drop n cs = [])"
    by auto
  show "glob_means ts cs \<or> (case next_segment cs of None \<Rightarrow> False | Some ds \<Rightarrow> glob_means (Globstar k' # ts) ds)"
  proof (cases n)
    case (Suc m)
    then have m: "m < length cs" "cs ! m = sep" using n by auto
    then obtain ds where ds: "next_segment cs = Some ds" using next_segment_None [of cs] by (cases "next_segment cs") (auto simp: in_set_conv_nth)
    let ?a = "takeWhile (\<lambda>c. c \<noteq> sep) cs"
    note cs = next_segment_Some [OF ds]
    have "length ?a \<le> m"
    proof (rule ccontr)
      assume "\<not> length ?a \<le> m"
      then have "?a ! m = sep" "?a ! m \<in> set ?a"
        using m takeWhile_nth [of m "\<lambda>c. c \<noteq> sep" cs] nth_mem [of m ?a] by auto
      then show False using set_takeWhileD by fastforce
    qed
    then obtain j where "m = length ?a + j" using le_Suc_ex by blast
    then have j: "n = length ?a + 1 + j" using Suc by simp
    have d: "drop (length ?a + 1 + i) cs = drop i ds" for i by (subst cs) simp
    have "j = 0 \<or> ds ! (j - 1) = sep"
    proof (cases j)
      case (Suc i)
      then have "cs ! (length ?a + 1 + i) = sep" using n(2) j by auto
      moreover have "cs ! (length ?a + 1 + i) = ds ! i" by (subst cs) (simp add: nth_append)
      ultimately show ?thesis using Suc by simp
    qed simp
    moreover have "j \<le> length ds" using n(1) j arg_cong [OF d [of 0], of length] by simp
    ultimately have "glob_means (Globstar k' # ts) ds" unfolding glob_means.simps using n(3,4) d [of j] unfolding j by metis
    then show ?thesis using ds by simp
  qed (use n in simp)
next
  assume r: "glob_means ts cs \<or> (case next_segment cs of None \<Rightarrow> False | Some ds \<Rightarrow> glob_means (Globstar k' # ts) ds)"
  show "glob_means (Globstar k # ts) cs"
  proof (cases "glob_means ts cs")
    case True
    then show ?thesis using assms by (auto intro!: exI [of _ 0])
  next
    case False
    then obtain ds where ds: "next_segment cs = Some ds" "glob_means (Globstar k # ts) ds" using r by (auto split: option.splits)
    have "cs = (takeWhile (\<lambda>c. c \<noteq> sep) cs @ [sep]) @ ds" using next_segment_Some [OF ds(1)] by simp
    then show ?thesis using means_globstar_suffix [OF ds(2), of "takeWhile (\<lambda>c. c \<noteq> sep) cs @ [sep]"] by (metis last_snoc snoc_eq_iff_butlast)
  qed
qed

subsection \<open>What older positions can still match\<close>

lemma means_in_segment:
  "list_all in_segment mid \<Longrightarrow> glob_means (mid @ ts) ds \<Longrightarrow>
   \<exists>f e. ds = f @ e \<and> length f = length mid \<and> sep \<notin> set f \<and> glob_means ts e"
proof (induction mid arbitrary: ds)
  case (Cons t mid)
  then obtain c ds' where c: "ds = c # ds'" "token_matches t c" "glob_means (mid @ ts) ds'"
    by (auto simp: in_segment_def means_single)
  moreover obtain f e where "ds' = f @ e" "length f = length mid" "sep \<notin> set f" "glob_means ts e"
    using Cons.IH [OF _ c(3)] Cons.prems(1) by auto
  moreover have "c \<noteq> sep" using c(2) Cons.prems(1) by (auto simp: in_segment_def)
  ultimately show ?case by (intro exI [of _ "c # f"] exI [of _ e]) auto
qed auto

abbreviation seps :: "bytes list \<Rightarrow> nat" where
  "seps cs \<equiv> count_list cs sep"

abbreviation slashes :: "glob_token list \<Rightarrow> nat" where
  "slashes ts \<equiv> count_list ts Slash"

lemma plain_cases: "plain t \<Longrightarrow> single t \<or> t = Slash \<or> t = Star"
  by (cases t) (auto simp: plain_def single_def)

lemma means_plain:
  "list_all plain mid \<Longrightarrow> glob_means (mid @ ts) ds \<Longrightarrow>
   \<exists>f e. ds = f @ e \<and> glob_means ts e \<and> slashes mid \<le> seps f \<and> (mid = [] \<longrightarrow> f = []) \<and>
     (mid \<noteq> [] \<and> last mid = Slash \<longrightarrow> f \<noteq> [] \<and> last f = sep)"
proof (induction mid arbitrary: ds)
  case (Cons t mid)
  consider "single t \<or> t = Slash" | "t = Star" using Cons.prems(1) plain_cases by auto
  then obtain g ds' where g: "ds = g @ ds'" "glob_means (mid @ ts) ds'" "slashes [t] \<le> seps g" "t = Slash \<longrightarrow> g = [sep]"
  proof cases
    case 1
    then obtain c ds' where "ds = c # ds'" "token_matches t c" "glob_means (mid @ ts) ds'" using Cons.prems(2) means_single by auto
    then show ?thesis using that [of "[c]" ds'] by (cases "t = Slash") auto
  next
    case 2
    then obtain n where "glob_means (mid @ ts) (drop n ds)" using Cons.prems(2) by auto
    then show ?thesis using that [of "take n ds" "drop n ds"] 2 by simp
  qed
  obtain f e where f: "ds' = f @ e" "glob_means ts e" "slashes mid \<le> seps f" "mid = [] \<longrightarrow> f = []"
      "mid \<noteq> [] \<and> last mid = Slash \<longrightarrow> f \<noteq> [] \<and> last f = sep"
    using Cons.IH [OF _ g(2)] Cons.prems(1) by auto
  have "slashes (t # mid) \<le> seps (g @ f)" using f(3) g(3) by (auto simp: count_list_append split: if_splits)
  moreover have "t # mid \<noteq> [] \<and> last (t # mid) = Slash \<longrightarrow> g @ f \<noteq> [] \<and> last (g @ f) = sep"
    using f(4,5) g(4) by (cases "mid = []") auto
  ultimately show ?case using g(1) f(1,2) by (intro exI [of _ "g @ f"] exI [of _ e]) auto
qed auto


text \<open>
  From the saved star, the tokens passed since are all of one segment and of one character each; the
  character \<open>x\<close> that it would take next is the first one taken since.
\<close>

definition star_rel :: "glob_token list \<Rightarrow> bytes list \<Rightarrow> glob_token list \<Rightarrow> bytes list \<Rightarrow> bool" where
  "star_rel wts wcs ts cs \<longleftrightarrow>
     (\<exists>mid x pre. wts = Star # mid @ ts \<and> list_all in_segment mid \<and> x # wcs = pre @ cs \<and> length pre = length mid \<and> sep \<notin> set (x # pre)) \<or>
     wts = ts \<and> wcs = cs \<and> starts_star ts"

lemma star_slides:
  assumes "star_rel wts wcs ts cs" "glob_means wts wcs"
  shows "glob_means ts cs \<and> starts_star ts \<or> (\<exists>y f e. cs = y # f @ e \<and> sep \<notin> set (y # f) \<and> glob_means ts e)"
proof (cases "wts = ts \<and> wcs = cs \<and> starts_star ts")
  case False
  then obtain mid x pre where m: "wts = Star # mid @ ts" "list_all in_segment mid" "x # wcs = pre @ cs" "length pre = length mid" "sep \<notin> set (x # pre)"
    using assms(1) by (auto simp: star_rel_def)
  obtain n where n: "n \<le> length wcs" "sep \<notin> set (take n wcs)" "glob_means (mid @ ts) (drop n wcs)" using assms(2) m(1) by auto
  obtain f e where f: "drop n wcs = f @ e" "length f = length mid" "sep \<notin> set f" "glob_means ts e" using means_in_segment [OF m(2) n(3)] by auto
  have all: "pre @ cs = (x # take n wcs @ f) @ e" using m(3) f(1) append_take_drop_id [of n wcs] by (metis append_Cons append_assoc)
  have none: "sep \<notin> set (x # take n wcs @ f)" using m(5) n(2) f(3) by auto
  define h where "h = drop (length pre) (x # take n wcs @ f)"
  have "length pre < length (x # take n wcs @ f)" using m(4) f(2) by simp
  then obtain y g where h: "h = y # g" unfolding h_def by (metis Cons_nth_drop_Suc)
  have "cs = h @ e" using arg_cong [OF all, of "drop (length pre)"] \<open>length pre < _\<close>
    unfolding drop_append h_def [symmetric] by simp
  moreover have "sep \<notin> set h" using none in_set_dropD unfolding h_def by metis
  ultimately show ?thesis using h f(4) by (intro disjI2 exI [of _ y] exI [of _ g] exI [of _ e]) auto
qed (use assms in auto)

text \<open>
  From the saved globstar, tokens that are not globstars have been passed, and it would start one
  separator later than the loop did.
\<close>

definition globstar_rel :: "glob_token list \<Rightarrow> bytes list \<Rightarrow> glob_token list \<Rightarrow> bytes list \<Rightarrow> bool" where
  "globstar_rel gts gcs ts cs \<longleftrightarrow>
     (\<exists>k mid. gts = Globstar k # mid @ ts \<and> list_all plain mid \<and> seps gcs + 1 = slashes mid + seps cs) \<or>
     gts = ts \<and> gcs = cs \<and> starts_globstar ts \<or>
     (\<exists>k. gts = [GlobstarEnd k] \<and> ts = [])"

lemma globstar_rel_later:
  assumes "globstar_rel gts gcs ts cs" "glob_means gts gcs" "\<not> starts_globstar ts" "ts \<noteq> []"
  shows "0 < seps cs"
proof -
  obtain k mid where m: "gts = Globstar k # mid @ ts" "list_all plain mid" "seps gcs + 1 = slashes mid + seps cs"
    using assms by (auto simp: globstar_rel_def)
  obtain n where "glob_means (mid @ ts) (drop n gcs)" using assms(2) m(1) by auto
  from means_plain [OF m(2) this] obtain f e where "drop n gcs = f @ e" "slashes mid \<le> seps f" by auto
  then have "slashes mid \<le> seps (drop n gcs)" by (simp add: count_list_append)
  also have "\<dots> \<le> seps gcs" using count_list_append [of "take n gcs" "drop n gcs" sep] by simp
  finally show ?thesis using m(3) by linarith
qed

lemma before_globstar:
  "pattern_ok b (mid @ ts) \<Longrightarrow> starts_globstar ts \<Longrightarrow> mid \<noteq> [] \<Longrightarrow> list_all plain mid \<Longrightarrow> last mid = Slash"
proof (induction mid arbitrary: b)
  case (Cons t mid)
  show ?case
  proof (cases "mid = []")
    case True
    then show ?thesis using Cons.prems not_globstar_inside [of ts] by (cases t) (auto simp: plain_def)
  next
    case False
    have "\<exists>b'. pattern_ok b' (mid @ ts)" using Cons.prems(1) by (cases t) (auto simp: False)
    then show ?thesis using Cons False by auto
  qed
qed simp

text \<open>A new globstar covers what the older one could still match.\<close>

lemma globstar_covers:
  assumes rel: "globstar_rel gts gcs ts cs" and means: "glob_means gts gcs" and ts: "ts = Globstar k # ts'"
    and ok: "pattern_ok b gts" and runes: "at_runes rs p gcs" "at_runes rs q cs"
  shows "glob_means ts cs"
proof (cases "gts = ts \<and> gcs = cs")
  case False
  then obtain k' mid where m: "gts = Globstar k' # mid @ ts" "list_all plain mid" "seps gcs + 1 = slashes mid + seps cs"
    using rel ts by (auto simp: globstar_rel_def)
  have "mid \<noteq> []" "pattern_ok True (mid @ ts)" using ok m(1) ts by auto
  then have slash: "mid \<noteq> []" "last mid = Slash" using before_globstar m(2) ts by auto
  obtain n where "glob_means (mid @ ts) (drop n gcs)" using means m(1) by auto
  from means_plain [OF m(2) this] slash obtain f e where f: "drop n gcs = f @ e" "glob_means ts e" "slashes mid \<le> seps f" "f \<noteq> []" "last f = sep"
    by auto
  define d where "d = take n gcs @ f"
  have gcs: "gcs = d @ e" using f(1) append_take_drop_id [of n gcs] by (simp add: d_def)
  have d: "d \<noteq> []" "last d = sep" "slashes mid \<le> seps d" using f by (auto simp: d_def count_list_append)
  obtain as bs' where rs: "rs = as @ gcs" "rs = bs' @ cs" using runes unfolding at_runes_def by metis
  have less: "seps e < seps cs" using m(3) d(3) gcs by (simp add: count_list_append)
  have "suffix e cs \<or> suffix cs e" using rs gcs by (metis suffixI suffix_append suffix_same_cases)
  moreover have "\<not> suffix cs e" using less by (auto simp: suffix_def count_list_append)
  ultimately obtain z where z: "cs = z @ e" by (auto simp: suffix_def)
  have "z \<noteq> []" using less z by auto
  moreover have "as @ d = bs' @ z" using rs gcs z by simp
  then have "last z = sep" using d \<open>z \<noteq> []\<close> by (metis last_appendR)
  ultimately show ?thesis using means_globstar_suffix f(2) ts z by auto
qed (use means in simp)


subsection \<open>The invariant\<close>

definition saved :: "bytes \<Rightarrow> nat \<Rightarrow> bytes list \<Rightarrow> wildcard \<Rightarrow> glob_token list \<Rightarrow> bytes list \<Rightarrow> bool" where
  "saved glob start rs w ts cs \<longleftrightarrow> 0 < w_path w \<and> at_tokens glob start (w_glob w) ts \<and> at_runes rs (w_path w) cs"

definition dead :: "bytes list \<Rightarrow> wildcard \<Rightarrow> bool" where
  "dead rs w \<longleftrightarrow> w_path w = 0 \<or> length (concat rs) < w_path w"

text \<open>The position of the last globstar, if it can still be resumed: \<open>G\<close> are its tokens and characters.\<close>

fun globstar_saved :: "bytes \<Rightarrow> nat \<Rightarrow> bytes list \<Rightarrow> wildcard \<Rightarrow> (glob_token list \<times> bytes list) option \<Rightarrow> bool" where
  "globstar_saved glob start rs g None \<longleftrightarrow> dead rs g"
| "globstar_saved glob start rs g (Some (gts, gcs)) \<longleftrightarrow> saved glob start rs g gts gcs"

fun later_rel :: "(glob_token list \<times> bytes list) option \<Rightarrow> glob_token list \<Rightarrow> bytes list \<Rightarrow> bool" where
  "later_rel None ts cs \<longleftrightarrow> True"
| "later_rel (Some (gts, gcs)) ts cs \<longleftrightarrow> globstar_rel gts gcs ts cs"

fun later_means :: "(glob_token list \<times> bytes list) option \<Rightarrow> bool" where
  "later_means None \<longleftrightarrow> False"
| "later_means (Some (gts, gcs)) \<longleftrightarrow> glob_means gts gcs"

text \<open>
  What the saved positions \<open>w\<close>, \<open>g\<close> are to a loop at tokens and characters whose answer is \<open>a\<close>: the path
  has ended and nothing is left to resume; only the globstar may be resumed; or the star.
\<close>

inductive resumable :: "bytes \<Rightarrow> nat \<Rightarrow> bytes list \<Rightarrow> bool \<Rightarrow> wildcard \<Rightarrow> wildcard \<Rightarrow> glob_token list \<Rightarrow> bytes list \<Rightarrow> bool"
  for glob start rs a where
  at_end: "dead rs w \<Longrightarrow> a = glob_means ts [] \<Longrightarrow> resumable glob start rs a w g ts []"
| from_globstar: "globstar_saved glob start rs g G \<Longrightarrow> later_rel G ts cs \<Longrightarrow>
    a = (glob_means ts cs \<or> later_means G) \<Longrightarrow> resumable glob start rs a g g ts cs"
| from_star: "globstar_saved glob start rs g G \<Longrightarrow> later_rel G ts cs \<Longrightarrow> saved glob start rs w wts wcs \<Longrightarrow> later_rel G wts wcs \<Longrightarrow>
    star_rel wts wcs ts cs \<Longrightarrow> a = (glob_means ts cs \<or> glob_means wts wcs \<or> later_means G) \<Longrightarrow>
    resumable glob start rs a w g ts cs"

definition glob_ok :: "bytes \<Rightarrow> nat \<Rightarrow> bytes list \<Rightarrow> bool \<Rightarrow> gstate \<Rightarrow> bool" where
  "glob_ok glob start rs a s \<longleftrightarrow> (\<exists>ts cs. at_tokens glob start (glob_index s) ts \<and> at_runes rs (path_index s) cs \<and>
     resumable glob start rs a (wildcard s) (globstar s) ts cs)"

fun step_ok :: "bytes \<Rightarrow> nat \<Rightarrow> bytes list \<Rightarrow> bool \<Rightarrow> glob_result \<Rightarrow> bool" where
  "step_ok glob start rs a (Next s) \<longleftrightarrow> glob_ok glob start rs a s"
| "step_ok glob start rs a (Done b) \<longleftrightarrow> b = a"
| "step_ok glob start rs a (Braces s) \<longleftrightarrow> False"

lemma saved_alive: "saved glob start rs w ts cs \<Longrightarrow> 0 < w_path w \<and> w_path w \<le> length (concat rs)"
  using at_runes_le by (auto simp: saved_def)

lemma globstar_rel_starts: "globstar_rel gts gcs ts cs \<Longrightarrow> starts_globstar gts"
  by (auto simp: globstar_rel_def)

lemma star_rel_starts: "star_rel wts wcs ts cs \<Longrightarrow> starts_star wts"
  by (auto simp: star_rel_def)

text \<open>Where the loop cannot go on, it resumes a saved position, or there is no match.\<close>

lemma fall_through_ok:
  assumes "resumable glob start rs a (wildcard s) (globstar s) ts cs" "\<not> glob_means ts cs"
  shows "step_ok glob start rs a (fall_through (concat rs) s)"
  using assms(1)
proof cases
  case at_end
  then show ?thesis using assms(2) by (auto simp: fall_through_def dead_def)
next
  case (from_globstar G)
  show ?thesis
  proof (cases G)
    case None
    then show ?thesis using from_globstar assms(2) by (auto simp: fall_through_def dead_def)
  next
    case (Some p)
    obtain gts gcs where p: "p = (gts, gcs)" by fastforce
    have s: "saved glob start rs (globstar s) gts gcs" "globstar_rel gts gcs ts cs" "a = glob_means gts gcs"
      using from_globstar Some p assms(2) by auto
    have "globstar_rel gts gcs gts gcs" using globstar_rel_starts [OF s(2)] by (simp add: globstar_rel_def)
    then have "resumable glob start rs a (globstar s) (globstar s) gts gcs"
      using s Some p by (intro resumable.from_globstar [of _ _ _ _ G]) auto
    then show ?thesis using saved_alive [OF s(1)] s(1) from_globstar(1)
      by (auto simp: fall_through_def backtrack_def glob_ok_def saved_def)
  qed
next
  case (from_star G wts wcs)
  have "star_rel wts wcs wts wcs" using star_rel_starts [OF from_star(5)] by (simp add: star_rel_def)
  then have "resumable glob start rs a (wildcard s) (globstar s) wts wcs"
    using from_star assms(2) by (intro resumable.from_star [of _ _ _ _ G _ _ _ wts wcs]) auto
  then show ?thesis using saved_alive [OF from_star(3)] from_star(3)
    by (auto simp: fall_through_def backtrack_def glob_ok_def saved_def)
qed


subsection \<open>One token\<close>

lemma later_rel_next:
  assumes "later_rel G (t # ts) (c # cs)" "plain t" "t = Slash \<longleftrightarrow> c = sep"
  shows "later_rel G ts cs"
proof (cases G)
  case (Some p)
  obtain gts gcs where p: "p = (gts, gcs)" by fastforce
  then obtain k mid where m: "gts = Globstar k # mid @ t # ts" "list_all plain mid" "seps gcs + 1 = slashes mid + seps (c # cs)"
    using assms Some by (auto simp: globstar_rel_def plain_def split: glob_token.splits)
  then show ?thesis using assms(2,3) Some p
    by (auto simp: globstar_rel_def count_list_append intro!: exI [of _ k] exI [of _ "mid @ [t]"])
qed simp

lemma later_rel_token:
  assumes "later_rel G (Star # ts) cs"
  shows "later_rel G ts cs"
proof (cases G)
  case (Some p)
  obtain gts gcs where p: "p = (gts, gcs)" by fastforce
  then obtain k mid where m: "gts = Globstar k # mid @ Star # ts" "list_all plain mid" "seps gcs + 1 = slashes mid + seps cs"
    using assms Some by (auto simp: globstar_rel_def)
  then show ?thesis using Some p
    by (auto simp: globstar_rel_def plain_def count_list_append intro!: exI [of _ k] exI [of _ "mid @ [Star]"])
qed simp

lemma later_rel_skip:
  assumes "later_rel G (Star # ts) (c # cs)" "c \<noteq> sep"
  shows "later_rel G (Star # ts) cs"
  using assms by (cases G) (auto simp: globstar_rel_def)

lemma single_step:
  assumes "resumable glob start rs a w g (t # ts) (c # cs)" "in_segment t" "token_matches t c"
  shows "resumable glob start rs a w g ts cs"
  using assms(1)
proof cases
  case (from_globstar G)
  have t: "plain t" "c \<noteq> sep" "t \<noteq> Slash" using assms(2,3) by (auto simp: in_segment_def single_def plain_def split: glob_token.splits)
  have "glob_means (t # ts) (c # cs) \<longleftrightarrow> glob_means ts cs" using assms(2,3) means_single by (auto simp: in_segment_def)
  then show ?thesis unfolding from_globstar(1) using from_globstar later_rel_next [OF from_globstar(3)] t
    by (intro resumable.from_globstar [of _ _ _ _ G]) auto
next
  case (from_star G wts wcs)
  have t: "plain t" "c \<noteq> sep" "t \<noteq> Slash" using assms(2,3) by (auto simp: in_segment_def single_def plain_def split: glob_token.splits)
  have m: "glob_means (t # ts) (c # cs) \<longleftrightarrow> glob_means ts cs" using assms(2,3) means_single by (auto simp: in_segment_def)
  obtain mid x pre where r: "wts = Star # mid @ t # ts" "list_all in_segment mid" "x # wcs = pre @ c # cs" "length pre = length mid" "sep \<notin> set (x # pre)"
    using from_star(5) assms(2) by (cases t) (auto simp: star_rel_def in_segment_def single_def)
  have "star_rel wts wcs ts cs" unfolding star_rel_def
    using r t assms(2) by (intro disjI1 exI [of _ "mid @ [t]"] exI [of _ x] exI [of _ "pre @ [c]"]) auto
  then show ?thesis using from_star later_rel_next [OF from_star(2)] t m
    by (intro resumable.from_star [of _ _ _ _ G _ _ _ wts wcs]) auto
qed

lemma means_star_append: "sep \<notin> set f \<Longrightarrow> glob_means (Star # ts) e \<Longrightarrow> glob_means (Star # ts) (f @ e)"
  by (induction f) (auto simp: means_star_Cons simp del: glob_means.simps)

lemma star_covers:
  assumes "star_rel wts wcs (Star # ts) cs" "glob_means wts wcs"
  shows "glob_means (Star # ts) cs"
  using star_slides [OF assms] means_star_append [of "_ # _"] by fastforce

lemma slash_step:
  assumes "resumable glob start rs a w g (Slash # ts) (sep # cs)"
  shows "resumable glob start rs a g g ts cs"
  using assms
proof cases
  case (from_globstar G)
  then show ?thesis using later_rel_next [OF from_globstar(3)]
    by (intro resumable.from_globstar [of _ _ _ _ G]) (auto simp: plain_def)
next
  case (from_star G wts wcs)
  have "\<not> glob_means wts wcs" using star_slides [OF from_star(5)] by auto
  then show ?thesis using from_star later_rel_next [OF from_star(2)]
    by (intro resumable.from_globstar [of _ _ _ _ G]) (auto simp: plain_def)
qed

lemma later_ended: "later_rel G (Star # ts) [] \<Longrightarrow> \<not> later_means G"
  using globstar_rel_later [of _ _ "Star # ts" "[]"] by (cases G) auto

lemma star_step_end:
  assumes "resumable glob start rs a w g (Star # ts) []" "dead rs w'"
  shows "resumable glob start rs a w' g ts []"
  using assms(1)
proof cases
  case at_end
  then show ?thesis using assms(2) means_star_Nil by (intro resumable.at_end) auto
next
  case (from_globstar G)
  then show ?thesis using assms(2) means_star_Nil later_ended by (intro resumable.at_end) auto
next
  case (from_star G wts wcs)
  then have "a = glob_means (Star # ts) []" using later_ended star_covers by blast
  then show ?thesis using assms(2) means_star_Nil by (intro resumable.at_end) auto
qed

lemma star_step_take:
  assumes "resumable glob start rs a w g (Star # ts) (c # cs)" "c \<noteq> sep" "saved glob start rs w' (Star # ts) cs"
  shows "resumable glob start rs a w' g ts (c # cs)"
proof -
  have rel: "star_rel (Star # ts) cs ts (c # cs)" unfolding star_rel_def
    using assms(2) by (intro disjI1 exI [of _ "[]"] exI [of _ c]) auto
  obtain G where G: "globstar_saved glob start rs g G" "later_rel G (Star # ts) (c # cs)" "a = (glob_means (Star # ts) (c # cs) \<or> later_means G)"
    using assms(1) star_covers by cases blast+
  show ?thesis using G later_rel_token [OF G(2)] later_rel_skip [OF G(2) assms(2)] rel assms(2,3) means_star_Cons
    by (intro resumable.from_star [of _ _ _ _ G _ _ _ "Star # ts" cs]) auto
qed

lemma star_step_stop:
  assumes "resumable glob start rs a w g (Star # ts) (sep # cs)"
  shows "resumable glob start rs a g g ts (sep # cs)"
proof -
  obtain G where G: "globstar_saved glob start rs g G" "later_rel G (Star # ts) (sep # cs)" "a = (glob_means (Star # ts) (sep # cs) \<or> later_means G)"
    using assms star_covers by cases blast+
  show ?thesis using G later_rel_token [OF G(2)] means_star_Cons by (intro resumable.from_globstar [of _ _ _ _ G]) auto
qed


lemma resumable_globstar:
  assumes "resumable glob start rs a w g (Globstar k # ts) cs" "at_runes rs q cs"
  shows "a = glob_means (Globstar k # ts) cs"
  using assms(1)
proof cases
  case (from_globstar G)
  have "glob_means (Globstar k # ts) cs" if l: "later_means G"
  proof -
    obtain gts gcs where G: "G = Some (gts, gcs)" using l by (cases G) auto
    then have "globstar_rel gts gcs (Globstar k # ts) cs" "glob_means gts gcs" "saved glob start rs g gts gcs"
      using from_globstar l by auto
    then show ?thesis using globstar_covers [OF _ _ refl _ _ assms(2)] by (auto simp: saved_def at_tokens_def)
  qed
  then show ?thesis using from_globstar(4) by blast
next
  case (from_star G wts wcs)
  obtain mid where mid: "wts = Star # mid @ Globstar k # ts" "list_all in_segment mid" using from_star(5) by (auto simp: star_rel_def)
  obtain b where "pattern_ok b wts" using from_star(3) by (auto simp: saved_def at_tokens_def)
  moreover have "list_all plain (Star # mid)" using mid(2) by (auto simp: list_all_iff in_segment_def single_def plain_def split: glob_token.splits)
  ultimately have "last (Star # mid) = Slash" using before_globstar [of b "Star # mid" "Globstar k # ts"] mid(1) by simp
  moreover have "last (Star # mid) \<noteq> Slash"
  proof (cases "mid = []")
    case False
    then have "in_segment (last mid)" using mid(2) by (simp add: list_all_iff)
    then show ?thesis using False by (auto simp: in_segment_def single_def)
  qed simp
  ultimately show ?thesis by contradiction
qed simp

lemma globstar_step_end:
  assumes "resumable glob start rs a w g (Globstar k # ts) []" "at_runes rs q []" "dead rs w'"
  shows "resumable glob start rs a w' g (if ts = [Star] then [Slash, Star] else ts) []"
  using resumable_globstar [OF assms(1,2)] assms(3) means_globstar_Nil [of k ts] by (intro resumable.at_end) auto

lemma globstar_step_next:
  assumes "resumable glob start rs a w g (Globstar k # ts) cs" "at_runes rs q cs" "cs \<noteq> []"
    and g': "case next_segment cs of None \<Rightarrow> dead rs g' | Some ds \<Rightarrow> saved glob start rs g' (Globstar 0 # ts) ds"
  shows "resumable glob start rs a g' g' ts cs"
proof -
  define G where "G = map_option (\<lambda>ds. (Globstar 0 # ts, ds)) (next_segment cs)"
  have "globstar_saved glob start rs g' G" using g' by (auto simp: G_def split: option.splits)
  moreover have "later_rel G ts cs"
  proof (cases "next_segment cs")
    case (Some ds)
    have "seps cs = seps (takeWhile (\<lambda>c. c \<noteq> sep) cs) + seps (sep # ds)"
      using arg_cong [OF next_segment_Some [OF Some], of "seps"] count_list_append by metis
    moreover have "seps (takeWhile (\<lambda>c. c \<noteq> sep) cs) = 0" by (induction cs) auto
    ultimately show ?thesis using Some by (auto simp: G_def globstar_rel_def intro!: exI [of _ 0] exI [of _ "[]"])
  qed (simp add: G_def)
  moreover have "a = (glob_means ts cs \<or> later_means G)"
    using resumable_globstar [OF assms(1,2)] means_globstar_next [OF assms(3), of k ts 0] by (simp add: G_def split: option.splits)
  ultimately show ?thesis by (rule resumable.from_globstar)
qed

lemma resumable_globstar_end: "resumable glob start rs a w g (GlobstarEnd k # ts) cs \<Longrightarrow> a"
  by (erule resumable.cases) auto

lemma globstar_end_step:
  assumes "resumable glob start rs a w g (GlobstarEnd k # ts) cs"
  shows "cs = [] \<Longrightarrow> dead rs w' \<Longrightarrow> resumable glob start rs a w' g [] cs"
    and "saved glob start rs g' [GlobstarEnd 0] ds \<Longrightarrow> resumable glob start rs a g' g' [] cs"
proof -
  have a: a by (rule resumable_globstar_end [OF assms])
  show "resumable glob start rs a w' g [] cs" if "cs = []" "dead rs w'" using that a by (simp add: resumable.at_end)
  show "resumable glob start rs a g' g' [] cs" if "saved glob start rs g' [GlobstarEnd 0] ds"
    using that a by (intro resumable.from_globstar [of _ _ _ _ "Some ([GlobstarEnd 0], ds)"]) (auto simp: globstar_rel_def)
qed


subsection \<open>One round\<close>

lemma glob_okI:
  assumes "at_tokens glob start (glob_index s) ts" "at_runes rs (path_index s) cs" "resumable glob start rs a (wildcard s) (globstar s) ts cs"
  shows "glob_ok glob start rs a s"
  using assms by (auto simp: glob_ok_def)

lemma reads_single_ok:
  assumes at: "at_tokens glob start (glob_index s) (t # ts)" and rs: "list_all rune_ok rs" "at_runes rs (path_index s) cs"
    and res: "resumable glob start rs a (wildcard s) (globstar s) (t # ts) cs" and t: "single t"
    and r: "reads_single rs s t cs r"
  shows "step_ok glob start rs a r"
proof (cases "\<exists>c cs'. cs = c # cs' \<and> token_matches t c")
  case True
  then obtain c cs' where c: "cs = c # cs'" "token_matches t c" by blast
  have "\<not> token_matches t sep" using single_not_slash [OF t] at by (auto simp: at_tokens_def)
  then have "resumable glob start rs a (wildcard s) (globstar s) ts cs'" using single_step res c t by (simp add: in_segment_def)
  then have "glob_ok glob start rs a (s\<lparr>glob_index := glob_index s + length (print_token t), path_index := path_index s + length c\<rparr>)"
    using at_tokens_next [OF at] at_runes_Cons(5) [OF rs(2) [unfolded c(1)] rs(1)] by (intro glob_okI) simp_all
  then show ?thesis using r c by (simp add: reads_single_def)
next
  case False
  then have "r = fall_through (concat rs) s" using r by (auto simp: reads_single_def split: list.splits)
  moreover have "\<not> glob_means (t # ts) cs" using False t means_single by auto
  ultimately show ?thesis using fall_through_ok res by simp
qed

lemma saved_star_token:
  assumes at: "at_tokens glob start i (Star # ts)" and rs: "at_runes rs p (c # cs)" "list_all rune_ok rs"
  shows "saved glob start rs \<lparr>w_glob = i, w_path = p + length c, w_depth = d\<rparr> (Star # ts) cs"
  using at at_runes_Cons(1,5) [OF rs] by (auto simp: saved_def rune_ok_def)

lemma star_round:
  assumes at: "at_tokens glob start (glob_index s) (Star # ts)" and rs: "list_all rune_ok rs" "at_runes rs (path_index s) cs"
    and res: "resumable glob start rs a (wildcard s) (globstar s) (Star # ts) cs"
  shows "step_ok glob start rs a (glob_step glob start (concat rs) [] s)"
proof -
  note next' = at_tokens_next [OF at]
  show ?thesis
  proof (cases cs)
    case Nil
    have "dead rs \<lparr>w_glob = glob_index s, w_path = path_index s + 1, w_depth = brace_depth s\<rparr>"
      using at_runes_Nil rs(2) Nil by (simp add: dead_def)
    then show ?thesis using read_star [OF at rs] star_step_end [OF res [unfolded Nil]] next' rs(2) Nil by (auto intro!: glob_okI)
  next
    case (Cons c cs')
    show ?thesis
    proof (cases "c = sep")
      case True
      then show ?thesis using read_star [OF at rs] star_step_stop [OF res [unfolded Cons True]] next' rs(2) Cons
        by (auto intro!: glob_okI)
    next
      case False
      then show ?thesis
        using read_star [OF at rs] star_step_take [OF res [unfolded Cons] False saved_star_token [OF at rs(2) [unfolded Cons] rs(1)]] next' rs(2) Cons
        by (auto intro!: glob_okI)
    qed
  qed
qed


lemma globstar_round:
  assumes at: "at_tokens glob start (glob_index s) (Globstar k # ts)" and rs: "list_all rune_ok rs" "at_runes rs (path_index s) cs"
    and res: "resumable glob start rs a (wildcard s) (globstar s) (Globstar k # ts) cs"
  shows "step_ok glob start rs a (glob_step glob start (concat rs) [] s)"
proof -
  define p where "p = glob_index s + 3 * k"
  define u where "u = save_star (concat rs) p s"
  note step = globstar_step [OF at disjI1 [OF refl] rs, folded p_def]
  have drop': "drop p glob = bs ''**'' @ 47 # print_tokens ts" using step(2) by simp
  have at_p: "at_tokens glob start p (Globstar 0 # ts)"
    using at step(3) drop' drop_length_conv [OF drop'] by (auto simp: at_tokens_def intro!: exI [of _ True])
  have at_next: "at_tokens glob start (p + 2 + 1) ts" using at_tokens_next [OF at_p] by (simp add: eval_nat_numeral)
  have u: "path_index u = path_index s" "globstar u = globstar s" "w_glob (wildcard u) = p" "path_index s < w_path (wildcard u)"
    by (simp_all add: u_def)
  show ?thesis
  proof (cases "cs = []")
    case True
    then have len: "path_index s = length (concat rs)" using at_runes_Nil rs(2) by simp
    have dead: "dead rs (wildcard u)" "dead rs ((wildcard u)\<lparr>w_path := w_path (wildcard u) + 1\<rparr>)" using u(4) len by (auto simp: dead_def)
    note ended = globstar_step_end [OF res [unfolded True] rs(2) [unfolded True]]
    show ?thesis
    proof (cases "ts = [Star]")
      case star: True
      have "drop (p + 2) glob = print_tokens [Slash, Star]" using drop_append_conv [OF drop'] star by (simp add: eval_nat_numeral)
      moreover have "p + 2 \<le> length glob" using drop_length_conv [OF drop'] by (simp add: eval_nat_numeral)
      ultimately have "at_tokens glob start (p + 2) [Slash, Star]" by (auto simp: at_tokens_def intro!: exI [of _ False])
      then show ?thesis unfolding step(1) using True star ended [OF dead(1)] u rs(2) by (auto simp: u_def [symmetric] intro!: glob_okI)
    next
      case False
      then show ?thesis unfolding step(1) using True ended [OF dead(2)] u rs(2) at_next len
        by (auto simp: u_def [symmetric] skip_to_separator_def intro!: glob_okI)
    qed
  next
    case False
    let ?v = "u\<lparr>glob_index := p + 2 + 1\<rparr>"
    have "at_runes rs (path_index ?v) cs" using rs(2) u(1) by simp
    from skip_to_separator_runes [OF this rs(1) False, of True] obtain i where
      i: "skip_to_separator ?v (concat rs) True = ?v\<lparr>wildcard := (wildcard ?v)\<lparr>w_path := i\<rparr>, globstar := (wildcard ?v)\<lparr>w_path := i\<rparr>\<rparr>"
        "0 < i" "case next_segment cs of Some ds \<Rightarrow> at_runes rs i ds | None \<Rightarrow> length (concat rs) < i" unfolding if_True by blast
    have g: "case next_segment cs of None \<Rightarrow> dead rs ((wildcard u)\<lparr>w_path := i\<rparr>)
        | Some ds \<Rightarrow> saved glob start rs ((wildcard u)\<lparr>w_path := i\<rparr>) (Globstar 0 # ts) ds"
      using i(2,3) at_p u(3) by (auto simp: dead_def saved_def split: option.splits)
    have "glob_step glob start (concat rs) [] s = Next (skip_to_separator ?v (concat rs) True)"
      unfolding step(1) using False by (simp add: u_def)
    then show ?thesis using globstar_step_next [OF res rs(2) False g] at_next rs(2) u(1) unfolding i(1) by (auto intro!: glob_okI)
  qed
qed

lemma globstar_end_round:
  assumes at: "at_tokens glob start (glob_index s) (GlobstarEnd k # ts)" and rs: "list_all rune_ok rs" "at_runes rs (path_index s) cs"
    and res: "resumable glob start rs a (wildcard s) (globstar s) (GlobstarEnd k # ts) cs"
  shows "step_ok glob start rs a (glob_step glob start (concat rs) [] s)"
proof -
  define p where "p = glob_index s + 3 * k"
  define u where "u = save_star (concat rs) p s"
  note step = globstar_step [OF at disjI2 [OF refl] rs, folded p_def]
  have drop': "drop p glob = bs ''**''" and len: "p + 2 = length glob" using step(2) skip_globstars_end(2) [OF at] by (simp_all add: p_def)
  have at_p: "at_tokens glob start p [GlobstarEnd 0]"
    using step(3) drop' len by (auto simp: at_tokens_def intro!: exI [of _ True])
  have at_next: "at_tokens glob start (p + 2) []" using len by (auto simp: at_tokens_def)
  let ?v = "u\<lparr>glob_index := p + 2\<rparr>"
  have u: "path_index u = path_index s" "globstar u = globstar s" "w_glob (wildcard u) = p" "path_index s < w_path (wildcard u)"
    by (simp_all add: u_def)
  have next': "glob_step glob start (concat rs) [] s = Next (skip_to_separator ?v (concat rs) False)"
    unfolding step(1) by (simp add: u_def)
  have v: "at_runes rs (path_index ?v) cs" using rs(2) u(1) by simp
  show ?thesis
  proof (cases "cs = []")
    case True
    then have "path_index s = length (concat rs)" using at_runes_Nil rs(2) by simp
    moreover from this have "dead rs ((wildcard u)\<lparr>w_path := w_path (wildcard u) + 1\<rparr>)" using u(4) by (auto simp: dead_def)
    ultimately show ?thesis unfolding next' using globstar_end_step(1) [OF res True] u rs(2) at_next
      by (auto simp: skip_to_separator_def intro!: glob_okI)
  next
    case False
    have "\<exists>i ds. skip_to_separator ?v (concat rs) False = ?v\<lparr>wildcard := (wildcard ?v)\<lparr>w_path := i\<rparr>, globstar := (wildcard ?v)\<lparr>w_path := i\<rparr>\<rparr> \<and>
        0 < i \<and> at_runes rs i ds"
      using skip_to_separator_runes [OF v rs(1) False, of False] by (cases "next_segment cs") auto
    then obtain i ds where i: "skip_to_separator ?v (concat rs) False = ?v\<lparr>wildcard := (wildcard ?v)\<lparr>w_path := i\<rparr>, globstar := (wildcard ?v)\<lparr>w_path := i\<rparr>\<rparr>"
        "0 < i" "at_runes rs i ds" by blast
    have "saved glob start rs ((wildcard u)\<lparr>w_path := i\<rparr>) [GlobstarEnd 0] ds" using i(2,3) at_p u(3) by (simp add: saved_def)
    then show ?thesis unfolding next' i(1) using globstar_end_step(2) [OF res] at_next rs(2) u(1) by (auto intro!: glob_okI)
  qed
qed


lemma glob_step_ok:
  assumes "glob_ok glob start rs a s" "list_all rune_ok rs"
  shows "step_ok glob start rs a (glob_step glob start (concat rs) [] s)"
proof -
  obtain ts cs where at: "at_tokens glob start (glob_index s) ts" and rs: "at_runes rs (path_index s) cs"
      and res: "resumable glob start rs a (wildcard s) (globstar s) ts cs"
    using assms(1) by (auto simp: glob_ok_def)
  show ?thesis
  proof (cases ts)
    case Nil
    then have g: "glob_index s = length glob" using at_tokens_Nil at by simp
    show ?thesis
    proof (cases cs)
      case Nil': Nil
      have "a" using res by cases (simp_all add: Nil Nil')
      then show ?thesis using g at_runes_Nil rs Nil' by (simp add: glob_step_def)
    next
      case (Cons c cs')
      have "glob_step glob start (concat rs) [] s = fall_through (concat rs) s"
        using g at_runes_Cons(2) [OF rs [unfolded Cons] assms(2)] by (simp add: glob_step_def)
      then show ?thesis using fall_through_ok [OF res] Nil Cons by simp
    qed
  next
    case (Cons t ts')
    note at' = at [unfolded Cons] and res' = res [unfolded Cons]
    show ?thesis
    proof (cases t)
      case (Literal r)
      then show ?thesis using reads_single_ok [OF at' assms(2) rs res'] read_literal [OF _ assms(2) rs] at' by (simp add: single_def)
    next
      case (Escaped r)
      then show ?thesis using reads_single_ok [OF at' assms(2) rs res'] read_escaped [OF _ assms(2) rs] at' by (simp add: single_def)
    next
      case Any
      then show ?thesis using reads_single_ok [OF at' assms(2) rs res'] read_any [OF _ assms(2) rs] at' by (simp add: single_def)
    next
      case (Class neg ms)
      then show ?thesis using reads_single_ok [OF at' assms(2) rs res'] read_class [OF _ assms(2) rs] at' by (simp add: single_def)
    next
      case Slash
      note step = read_slash [OF at' [unfolded Slash] assms(2) rs]
      show ?thesis
      proof (cases "\<exists>cs'. cs = sep # cs'")
        case True
        then obtain cs' where c: "cs = sep # cs'" by blast
        have "resumable glob start rs a (globstar s) (globstar s) ts' cs'" using slash_step res' Slash c by simp
        then show ?thesis unfolding step using c at_tokens_next [OF at'] Slash at_runes_Cons(5) [OF rs [unfolded c] assms(2)]
          by (auto intro!: glob_okI)
      next
        case False
        then have "glob_step glob start (concat rs) [] s = fall_through (concat rs) s" unfolding step by (auto split: list.splits)
        moreover have "\<not> glob_means ts cs" using False Cons Slash means_single [of Slash ts' cs] by auto
        ultimately show ?thesis using fall_through_ok [OF res] by simp
      qed
    next
      case Star
      then show ?thesis using star_round [OF _ assms(2) rs] at' res' by simp
    next
      case (Globstar k)
      then show ?thesis using globstar_round [OF _ assms(2) rs] at' res' by simp
    next
      case (GlobstarEnd k)
      then show ?thesis using globstar_end_round [OF _ assms(2) rs] at' res' by simp
    qed
  qed
qed


subsection \<open>The whole match\<close>

lemma glob_loop_decides:
  assumes "glob_inv glob start (concat rs) s" "glob_ok glob start rs a s" "list_all rune_ok rs"
  shows "glob_loop mb glob start (concat rs) [] s budget = Some (a, budget)"
proof -
  have "wf (glob_order glob (concat rs))" by (simp add: glob_order_def)
  then show ?thesis using assms(1,2)
  proof (induction s rule: wf_induct_rule)
    case (less s)
    note ok = glob_step_ok [OF less.prems(2) assms(3)]
    show ?case
    proof (cases "glob_step glob start (concat rs) [] s")
      case (Next s')
      then show ?thesis
        using less.IH [OF glob_step_order [OF less.prems(1) _ Next] glob_step_inv [OF less.prems(1) _ Next]] ok
        by (subst glob_loop.simps) simp
    next
      case (Done b)
      then show ?thesis using ok by (subst glob_loop.simps) simp
    next
      case (Braces s')
      then show ?thesis using ok by simp
    qed
  qed
qed

lemma count_bangs_pattern: "p = [] \<or> hd p \<noteq> 33 \<Longrightarrow> count_bangs (replicate n 33 @ p) = (n, odd n)"
proof (induction n)
  case 0
  then show ?case by (cases p) simp_all
qed simp

lemma glob_match_means:
  assumes "pattern_ok True ts" "print_tokens ts = [] \<or> hd (print_tokens ts) \<noteq> 33" "list_all rune_ok cs"
  shows "glob_match (replicate n 33 @ print_tokens ts) (concat cs) =
     Some \<lparr>matches = (glob_means ts cs \<noteq> odd n), negated = odd n\<rparr>"
proof -
  let ?glob = "replicate n 33 @ print_tokens ts" and ?s = "gstate_default\<lparr>glob_index := n\<rparr>"
  have "glob_inv ?glob n (concat cs) ?s"
    by (simp add: glob_inv_def gstate_default_def wildcard_default_def resumed_def)
  moreover have "resumable ?glob n cs (glob_means ts cs) wildcard_default wildcard_default ts cs"
    by (rule resumable.from_globstar [of _ _ _ _ None]) (simp_all add: dead_def wildcard_default_def)
  then have "glob_ok ?glob n cs (glob_means ts cs) ?s"
    using assms(1) by (intro glob_okI [of _ _ _ ts _ cs]) (auto simp: at_tokens_def at_runes_def gstate_default_def intro!: exI [of _ True])
  ultimately have "glob_match_impl (Suc d) ?glob (concat cs) [] ?s n budget = Some (glob_means ts cs, budget)" for d budget
    using glob_loop_decides assms(3) by simp
  from this [of 9 BRACE_BRANCH_BUDGET] have "glob_match_impl BRACE_STACK_CAPACITY ?glob (concat cs) [] ?s n BRACE_BRANCH_BUDGET =
      Some (glob_means ts cs, BRACE_BRANCH_BUDGET)" by (simp add: BRACE_STACK_CAPACITY_def)
  then show ?thesis unfolding glob_match_def using count_bangs_pattern [OF assms(2), of n] by simp
qed




text \<open>
  Why a class must not match the separator, and \<open>**\<close> must be a whole segment. A negated class takes a
  separator, but a star after it forgets that an earlier star could still move: the second pattern
  matches with \<open>a\<close> for the first star. A run of \<open>**/\<close> that begins inside a segment is read as its last
  one, which is a whole segment; a single one is read as a star.
\<close>

lemma class_takes_separator:
  "glob_match (bs ''[!x]'') (bs ''/'') = Some \<lparr>matches = True, negated = False\<rparr>"
  "glob_match (bs ''*[!x]*c'') (bs ''a/c'') = Some \<lparr>matches = False, negated = False\<rparr>"
  by code_simp+

lemma globstar_inside_segment:
  "glob_match (bs ''a**/b'') (bs ''ax/y/b'') = Some \<lparr>matches = False, negated = False\<rparr>"
  "glob_match (bs ''a**/**/b'') (bs ''ax/y/b'') = Some \<lparr>matches = True, negated = False\<rparr>"
  by code_simp+

end
