(* ===== verification/GlobSyntax.thy ===== *)
theory GlobSyntax
  imports GlobMatch Bytes
begin

text \<open>
  \<open>detect_glob_syntax\<close> (\<open>src/src/glob/lib.rs\<close>) finds out whether a pattern is plain text. It is compared with the
  tokens of \<open>GlobSpec\<close> and with what the matcher does.
\<close>

subsection \<open>The search\<close>

text \<open>The inner loop: an odd number of backslashes before an index.\<close>

fun escaped_at :: "bytes \<Rightarrow> nat \<Rightarrow> bool" where
  "escaped_at sl 0 = False"
| "escaped_at sl (Suc i) = (if sl ! i = 92 then \<not> escaped_at sl i else False)"

function detect_token :: "u8 \<Rightarrow> bytes \<Rightarrow> bool" where
  "detect_token token sl =
     (if sl = [] then False
      else (case index_of_char sl token of
              Some idx \<Rightarrow> if \<not> escaped_at sl idx then True else detect_token token (drop (idx + 1) sl)
            | None \<Rightarrow> False))"
  by pat_completeness auto
termination
  by (relation "measure (\<lambda>(token, sl). length sl)") auto

declare detect_token.simps [simp del]

definition SPECIAL_SYNTAX :: bytes where
  "SPECIAL_SYNTAX = bs ''*{[?''"

definition detect_glob_syntax :: "bytes \<Rightarrow> bool" where
  "detect_glob_syntax potential_pattern \<longleftrightarrow>
     (if potential_pattern \<noteq> [] \<and> potential_pattern ! 0 = 33 then True
      else list_ex (\<lambda>token. detect_token token potential_pattern) SPECIAL_SYNTAX)"

subsection \<open>Backslashes before an index\<close>

lemma escaped_at_append: "i \<le> length p \<Longrightarrow> escaped_at (p @ x) i = escaped_at p i"
  by (induction i) (auto simp: nth_append)

lemma escaped_at_drop: "k < length s \<Longrightarrow> s ! k \<noteq> 92 \<Longrightarrow> escaped_at s (k + 1 + j) = escaped_at (drop (k + 1) s) j"
  by (induction j) auto

text \<open>An occurrence is found exactly if it has an even number of backslashes before it.\<close>

lemma detect_token_iff:
  "token \<noteq> 92 \<Longrightarrow> detect_token token sl \<longleftrightarrow> (\<exists>i < length sl. sl ! i = token \<and> \<not> escaped_at sl i)"
proof (induction token sl rule: detect_token.induct)
  case (1 token sl)
  show ?case
  proof (cases "index_of_char sl token")
    case None
    then have "token \<notin> set sl" by (simp add: index_of_char_None)
    then show ?thesis using None by (subst detect_token.simps) (auto simp: in_set_conv_nth)
  next
    case (Some k)
    then have k: "k < length sl" "sl ! k = token" "token \<notin> set (take k sl)" by (auto simp: index_of_char_Some)
    have first: "sl ! i \<noteq> token" if "i < k" for i using k that by (auto simp: in_set_conv_nth)
    show ?thesis
    proof (cases "escaped_at sl k")
      case False
      then show ?thesis using Some k by (subst detect_token.simps) auto
    next
      case True
      have IH: "detect_token token (drop (k + 1) sl) \<longleftrightarrow>
          (\<exists>i < length (drop (k + 1) sl). drop (k + 1) sl ! i = token \<and> \<not> escaped_at (drop (k + 1) sl) i)"
        by (rule 1(1) [OF _ Some _ 1(2)]) (use k True in auto)
      have "detect_token token sl = detect_token token (drop (k + 1) sl)"
        using Some True k by (subst detect_token.simps) auto
      also have "\<dots> \<longleftrightarrow> (\<exists>j. k + 1 + j < length sl \<and> sl ! (k + 1 + j) = token \<and> \<not> escaped_at sl (k + 1 + j))"
        unfolding IH using escaped_at_drop [of k sl] k 1(2) by (auto simp: less_diff_conv add.commute)
      also have "\<dots> \<longleftrightarrow> (\<exists>i < length sl. sl ! i = token \<and> \<not> escaped_at sl i)"
      proof
        assume "\<exists>i < length sl. sl ! i = token \<and> \<not> escaped_at sl i"
        then obtain i where i: "i < length sl" "sl ! i = token" "\<not> escaped_at sl i" by blast
        then have "k < i" using first True by (metis linorder_neqE_nat)
        then obtain j where "i = k + 1 + j" by (metis add.commute less_iff_Suc_add plus_1_eq_Suc add.left_commute)
        then show "\<exists>j. k + 1 + j < length sl \<and> sl ! (k + 1 + j) = token \<and> \<not> escaped_at sl (k + 1 + j)" using i by blast
      qed blast
      finally show ?thesis .
    qed
  qed
qed

definition syntax_from :: "nat \<Rightarrow> bytes \<Rightarrow> bool" where
  "syntax_from k p \<longleftrightarrow> (\<exists>i. k \<le> i \<and> i < length p \<and> p ! i \<in> {42, 123, 91, 63} \<and> \<not> escaped_at p i)"

lemma detect_iff: "detect_glob_syntax p \<longleftrightarrow> p \<noteq> [] \<and> hd p = 33 \<or> syntax_from 0 p"
  by (cases p) (auto simp: detect_glob_syntax_def SPECIAL_SYNTAX_def detect_token_iff syntax_from_def)

subsection \<open>Tokens\<close>

definition literal_token :: "glob_token \<Rightarrow> bool" where
  "literal_token t \<longleftrightarrow> (case t of Literal _ \<Rightarrow> True | Escaped _ \<Rightarrow> True | Slash \<Rightarrow> True | _ \<Rightarrow> False)"

lemma escaped_at_last: "x \<noteq> [] \<Longrightarrow> last x \<noteq> 92 \<Longrightarrow> \<not> escaped_at (p @ x) (length (p @ x))"
  by (cases x rule: rev_cases) (auto simp: nth_append)

lemma rune_last: "rune_ok r \<Longrightarrow> r \<noteq> [92] \<Longrightarrow> last r \<noteq> 92"
proof (cases "tl r = []")
  case False
  assume "rune_ok r"
  then show ?thesis using rune_ok_tail [of r 92] last_in_set [OF False] False by (auto simp: last_tl)
qed (cases r, simp_all add: rune_ok_def)

lemma escaped_at_backslash: "\<not> escaped_at p (length p) \<Longrightarrow> escaped_at (p @ 92 # x) (length p + 1)"
  using escaped_at_append [of "length p" p "92 # x"] by simp

text \<open>After a token no backslash is open.\<close>

lemma token_closes:
  assumes "pattern_ok b (t # ts)" "\<not> escaped_at p (length p)"
  shows "\<not> escaped_at (p @ print_token t) (length (p @ print_token t))"
proof (cases "\<exists>r. t = Escaped r")
  case True
  then obtain r where r: "t = Escaped r" "rune_ok r" using assms(1) by auto
  show ?thesis
  proof (cases "r = [92]")
    case True
    then show ?thesis using r(1) escaped_at_backslash [OF assms(2), of "[92]"] by (simp add: nth_append)
  next
    case False
    then have "last (92 # r) \<noteq> 92" using rune_last [OF r(2)] r(2) by (simp add: rune_ok_def)
    then show ?thesis using r(1) escaped_at_last [of "92 # r" p] by simp
  qed
next
  case False
  have "last (print_token t) \<noteq> 92"
  proof (cases t)
    case (Literal r)
    then have "rune_ok r" "r \<noteq> [92]" using assms(1) by auto
    then show ?thesis using rune_last Literal by simp
  qed (use False in \<open>auto simp: print_globstar simp del: replicate.simps\<close>)
  then show ?thesis using escaped_at_last print_token_nonempty [OF assms(1)] by blast
qed


lemma literal_bytes:
  assumes "pattern_ok b (t # ts)" "literal_token t" "\<not> escaped_at p (length p)" "i < length (print_token t)" "print_token t ! i \<in> {42, 123, 91, 63}"
  shows "escaped_at (p @ print_token t @ x) (length p + i)"
proof -
  have tail: "r ! j \<notin> {42, 123, 91, 63}" if "rune_ok r" "0 < j" "j < length r" for r j
  proof -
    have "r ! j \<in> set (tl r)" using that by (metis Suc_diff_1 Suc_less_eq Suc_pred in_set_conv_nth length_greater_0_conv length_tl less_nat_zero_code list.size(3) nth_tl)
    then have "\<not> r ! j \<le> 0x7F" using rune_ok_tail [OF that(1)] by blast
    then show ?thesis by auto
  qed
  show ?thesis
  proof (cases t)
    case (Literal r)
    then have "rune_ok r" "hd r \<notin> {42, 123, 91, 63}" "r \<noteq> []" using assms(1) by (auto simp: rune_ok_def)
    then show ?thesis using Literal tail [of r i] assms(4,5) by (cases i) (auto simp: hd_conv_nth)
  next
    case (Escaped r)
    then have "rune_ok r" using assms(1) by auto
    then have "i = 1" using Escaped tail [of r "i - 1"] assms(4,5) by (cases i; cases "i - 1") auto
    then show ?thesis using Escaped escaped_at_backslash [OF assms(3), of "r @ x"] by simp
  next
    case Slash
    then show ?thesis using assms(4,5) by auto
  qed (use assms(2) in \<open>auto simp: literal_token_def\<close>)
qed

lemma special_first: "pattern_ok b (t # ts) \<Longrightarrow> \<not> literal_token t \<Longrightarrow> hd (print_token t) \<in> {42, 123, 91, 63}"
proof (cases t)
  case (GlobstarEnd k)
  then show ?thesis by (cases k) simp_all
qed (auto simp: literal_token_def)

lemma syntax_tokens:
  "pattern_ok b ts \<Longrightarrow> \<not> escaped_at p (length p) \<Longrightarrow> syntax_from (length p) (p @ print_tokens ts) \<longleftrightarrow> \<not> list_all literal_token ts"
proof (induction ts arbitrary: b p)
  case (Cons t ts)
  let ?q = "p @ print_token t"
  have ok: "\<exists>b'. pattern_ok b' ts" using Cons.prems(1) by (cases t) auto
  have split: "p @ print_tokens (t # ts) = ?q @ print_tokens ts" by simp
  have IH: "syntax_from (length ?q) (?q @ print_tokens ts) \<longleftrightarrow> \<not> list_all literal_token ts"
    using ok Cons.IH token_closes [OF Cons.prems] by blast
  show ?case
  proof (cases "literal_token t")
    case False
    have ne: "print_token t \<noteq> []" by (rule print_token_nonempty [OF Cons.prems(1)])
    then have "(?q @ print_tokens ts) ! length p = hd (print_token t)" by (simp add: nth_append hd_conv_nth)
    moreover have "\<not> escaped_at (?q @ print_tokens ts) (length p)" using Cons.prems(2) escaped_at_append [of "length p" p] by simp
    ultimately have "syntax_from (length p) (?q @ print_tokens ts)"
      unfolding syntax_from_def using special_first [OF Cons.prems(1) False] ne by (intro exI [of _ "length p"]) auto
    then show ?thesis using False split by simp
  next
    case True
    have "length ?q \<le> i" if i: "length p \<le> i" "(?q @ print_tokens ts) ! i \<in> {42, 123, 91, 63}" "\<not> escaped_at (?q @ print_tokens ts) i" for i
    proof (rule ccontr)
      assume "\<not> length ?q \<le> i"
      then obtain j where j: "i = length p + j" "j < length (print_token t)" using i(1) by (metis add_less_cancel_left le_Suc_ex length_append not_le)
      then have "print_token t ! j \<in> {42, 123, 91, 63}" using i(2) by (simp add: nth_append)
      from literal_bytes [OF Cons.prems(1) True Cons.prems(2) j(2) this] show False using i(3) j(1) by simp
    qed
    moreover have "length p \<le> length ?q" by simp
    ultimately have "syntax_from (length p) (?q @ print_tokens ts) \<longleftrightarrow> syntax_from (length ?q) (?q @ print_tokens ts)"
      unfolding syntax_from_def by (meson le_trans)
    then show ?thesis using IH True split by simp
  qed
qed (simp add: syntax_from_def)

subsection \<open>The property\<close>

fun token_rune :: "glob_token \<Rightarrow> bytes" where
  "token_rune (Literal r) = r"
| "token_rune (Escaped r) = (if length r = 1 then [unescape_byte (hd r)] else r)"
| "token_rune _ = bs ''/''"

lemma means_literal: "list_all literal_token ts \<Longrightarrow> glob_means ts cs \<longleftrightarrow> cs = map token_rune ts"
proof (induction ts arbitrary: cs)
  case (Cons t ts)
  then show ?case by (cases t) (auto simp: literal_token_def split: list.splits)
qed simp

lemma runes_unique: "list_all rune_ok xs \<Longrightarrow> list_all rune_ok ys \<Longrightarrow> concat xs = concat ys \<Longrightarrow> xs = ys"
proof (induction xs arbitrary: ys)
  case Nil
  then show ?case by (cases ys) (auto simp: rune_ok_def)
next
  case (Cons x xs)
  then obtain y ys' where y: "ys = y # ys'" by (cases ys) (auto simp: rune_ok_def)
  then have "take (length x) (y @ concat ys') = x" using Cons.prems(3) by (metis append_eq_conv_conj concat.simps(2))
  then have "y = x" using rune_ok_eq Cons.prems(1,2) y by auto
  then show ?case using Cons y by simp
qed

lemma token_runes_ok: "pattern_ok b ts \<Longrightarrow> list_all literal_token ts \<Longrightarrow> list_all rune_ok (map token_rune ts)"
proof (induction ts arbitrary: b)
  case (Cons t ts)
  have "rune_ok (token_rune t)"
  proof (cases t)
    case (Escaped r)
    then have "rune_ok r" using Cons.prems(1) by simp
    then show ?thesis using Escaped by (auto simp: rune_ok_def unescape_byte_length)
  qed (use Cons.prems in \<open>auto simp: rune_ok_def literal_token_def\<close>)
  moreover have "\<exists>b'. pattern_ok b' ts" using Cons.prems(1) by (cases t) auto
  ultimately show ?case using Cons by auto
qed simp



end
