(* ===== verification/Paths.thy ===== *)
theory Paths
  imports Prelude
begin

text \<open>
  Path handling of \<open>src/src/paths/resolve_path.rs\<close>: the separators and platforms, the
  in-place normaliser \<open>normalize_string_generic_tz\<close> with its Windows prefix, the callers that
  choose its flags, and \<open>dirname\<close> and \<open>basename\<close>. The code units are bytes (the instance
  \<open>T = u8\<close> of \<open>PathChar\<close>); \<open>cfg!(windows)\<close> is false, as on Linux, and the platform
  \<open>Windows\<close> is still a value of \<open>Platform\<close>, as it is there. The output buffer is a list of fixed
  length: a write outside of it is a panic.
\<close>

subsection \<open>Separators and platforms\<close>

definition is_sep_any :: "u8 \<Rightarrow> bool" where
  "is_sep_any c \<longleftrightarrow> c = 47 \<or> c = 92"

definition is_sep_posix :: "u8 \<Rightarrow> bool" where
  "is_sep_posix c \<longleftrightarrow> c = 47"

datatype platform = Loose | Windows | Posix | Nt

definition is_absolute_windows :: "bytes \<Rightarrow> bool" where
  "is_absolute_windows p \<longleftrightarrow>
     p \<noteq> [] \<and> (p ! 0 = 47 \<or> p ! 0 = 92 \<or>
       3 \<le> length p \<and> p ! 1 = 58 \<and> (p ! 2 = 47 \<or> p ! 2 = 92))"

fun is_absolute :: "platform \<Rightarrow> bytes \<Rightarrow> bool" where
  "is_absolute Posix path \<longleftrightarrow> path \<noteq> [] \<and> path ! 0 = 47"
| "is_absolute Nt path \<longleftrightarrow> is_absolute_windows path"
| "is_absolute Windows path \<longleftrightarrow> is_absolute_windows path"
| "is_absolute Loose path \<longleftrightarrow> is_absolute_windows path"

fun separator :: "platform \<Rightarrow> u8" where
  "separator Loose = 47"
| "separator Posix = 47"
| "separator Nt = 92"
| "separator Windows = 92"

fun is_separator :: "platform \<Rightarrow> u8 \<Rightarrow> bool" where
  "is_separator Loose c \<longleftrightarrow> is_sep_any c"
| "is_separator Nt c \<longleftrightarrow> is_sep_any c"
| "is_separator Windows c \<longleftrightarrow> is_sep_any c"
| "is_separator Posix c \<longleftrightarrow> is_sep_posix c"

fun trailing_separator :: "platform \<Rightarrow> bytes" where
  "trailing_separator Nt = [46, 92]"
| "trailing_separator Windows = [46, 92]"
| "trailing_separator Posix = [46, 47]"
| "trailing_separator Loose = [46, 47]"

definition leading_separator_index_windows :: "bytes \<Rightarrow> nat option" where
  "leading_separator_index_windows path =
     (if length path < 1 then None
      else if path ! 0 = 47 then Some 0
      else if path ! 0 = 92 then Some 0
      else if length path < 3 then None
      else if 65 \<le> path ! 0 \<and> path ! 0 \<le> 90 \<and> path ! 1 = 58 then
        (if path ! 2 = 47 then Some 2 else if path ! 2 = 92 then Some 2 else Some 1)
      else None)"

definition leading_separator_index_posix :: "bytes \<Rightarrow> nat option" where
  "leading_separator_index_posix path = (if path \<noteq> [] \<and> path ! 0 = 47 then Some 0 else None)"

fun leading_separator_index :: "platform \<Rightarrow> bytes \<Rightarrow> nat option" where
  "leading_separator_index Nt path = leading_separator_index_windows path"
| "leading_separator_index Windows path = leading_separator_index_windows path"
| "leading_separator_index Posix path = leading_separator_index_posix path"
| "leading_separator_index Loose path =
     (case leading_separator_index_windows path of
        Some i \<Rightarrow> Some i
      | None \<Rightarrow> leading_separator_index_posix path)"

subsection \<open>Searching for separators\<close>

text \<open>\<open>strings::index_of_any_t(s, b"/\\")\<close>, and the last index of a byte that satisfies a test.\<close>

fun first_index :: "(u8 \<Rightarrow> bool) \<Rightarrow> bytes \<Rightarrow> nat option" where
  "first_index P [] = None"
| "first_index P (c # cs) = (if P c then Some 0 else map_option Suc (first_index P cs))"

fun last_index :: "(u8 \<Rightarrow> bool) \<Rightarrow> bytes \<Rightarrow> nat option" where
  "last_index P [] = None"
| "last_index P (c # cs) =
     (case last_index P cs of
        Some i \<Rightarrow> Some (Suc i)
      | None \<Rightarrow> if P c then Some 0 else None)"

definition last_index_of_separator_windows :: "bytes \<Rightarrow> nat option" where
  "last_index_of_separator_windows s = last_index is_sep_any s"

definition last_index_of_separator_posix :: "bytes \<Rightarrow> nat option" where
  "last_index_of_separator_posix s = last_index (\<lambda>c. c = 47) s"

definition last_index_of_sep :: "bytes \<Rightarrow> nat option" where
  "last_index_of_sep path = last_index (\<lambda>c. c = 47) path"

definition last_index_of_separator_loose :: "bytes \<Rightarrow> nat option" where
  "last_index_of_separator_loose s = last_index_of_sep s"

subsection \<open>Windows volume names\<close>

definition is_drive_letter :: "u8 \<Rightarrow> bool" where
  "is_drive_letter c \<longleftrightarrow> 97 \<le> c \<and> c \<le> 122 \<or> 65 \<le> c \<and> c \<le> 90"

text \<open>The length of the volume name, and the index of the separator between server and share.\<close>

definition windows_volume_name_len :: "bytes \<Rightarrow> nat \<times> nat" where
  "windows_volume_name_len path =
     (if length path < 2 then (0, 0)
      else if path ! 1 = 58 \<and> is_drive_letter (path ! 0) then (2, 0)
      else if 5 \<le> length path \<and> is_sep_any (path ! 0) \<and> is_sep_any (path ! 1)
        \<and> \<not> is_sep_any (path ! 2) \<and> path ! 2 \<noteq> 46 then
        (case first_index is_sep_any (drop 3 path) of
           Some idx \<Rightarrow>
             if idx + 4 < length path \<and> \<not> is_sep_any (path ! (idx + 4)) then
               (case first_index is_sep_any (drop (idx + 4) path) of
                  Some idx2 \<Rightarrow> (idx + idx2 + 4, idx + 3)
                | None \<Rightarrow> (length path, idx + 3))
             else (length path, 0)
         | None \<Rightarrow> (length path, 0))
      else (0, 0))"

subsection \<open>The normaliser\<close>

definition is_dotdot :: "bytes \<Rightarrow> bool" where
  "is_dotdot s \<longleftrightarrow> 2 \<le> length s \<and> s ! 0 = 46 \<and> s ! 1 = 46"

definition to_ascii_upper :: "u8 \<Rightarrow> u8" where
  "to_ascii_upper c = (if 97 \<le> c \<and> c \<le> 122 then c - 32 else c)"

text \<open>
  The Windows prefix: the volume name or a leading separator is written into the buffer. The
  result is the buffer, \<open>buf_i\<close>, \<open>dotdot\<close>, \<open>path_begin\<close>, and whether the path is just a
  volume name, in which case the normaliser returns at once.
\<close>

definition unc_prefix :: "bool \<Rightarrow> u8 \<Rightarrow> bytes \<Rightarrow> nat \<Rightarrow> nat \<Rightarrow> bytes \<Rightarrow> nat \<Rightarrow> (bytes \<times> nat) outcome" where
  "unc_prefix nt sep path vol_len third buf buf_i =
     bind_outcome
       (if nt then bind_outcome (copy_at buf buf_i [85, 78, 67, sep]) (\<lambda>buf. Ret (buf, buf_i + 2))
        else bind_outcome (copy_at buf buf_i [sep, sep]) (\<lambda>buf. Ret (buf, buf_i)))
       (\<lambda>(buf, buf_i).
          bind_outcome
            (if 0 < third then
               bind_outcome (copy_at buf (buf_i + 2) (take (third - 1) (drop 2 path))) (\<lambda>buf.
               bind_outcome (write_at buf (buf_i + third) sep) (\<lambda>buf.
               copy_at buf (buf_i + third + 1) (take (vol_len - (third + 1)) (drop (third + 1) path))))
             else copy_at buf (buf_i + 2) (take (vol_len - 2) (drop 2 path)))
            (\<lambda>buf. bind_outcome (write_at buf (buf_i + vol_len) sep) (\<lambda>buf.
                     Ret (buf, buf_i + vol_len + 1))))"

definition windows_prefix ::
  "bool \<Rightarrow> u8 \<Rightarrow> (u8 \<Rightarrow> bool) \<Rightarrow> bytes \<Rightarrow> bytes \<Rightarrow> (bytes \<times> nat \<times> nat \<times> nat \<times> bool) outcome" where
  "windows_prefix nt sep is_sep path buf =
     (case windows_volume_name_len path of (vol_len, third) \<Rightarrow>
        if 0 < vol_len then
          bind_outcome
            (if nt then bind_outcome (copy_at buf 0 [92, 63, 63, 92]) (\<lambda>buf. Ret (buf, 4)) else Ret (buf, 0))
            (\<lambda>(buf, buf_i).
               if path ! 1 \<noteq> 58 then
                 bind_outcome (unc_prefix nt sep path vol_len third buf buf_i) (\<lambda>(buf, buf_i).
                   Ret (buf, buf_i, 0, vol_len + 1, length path \<le> vol_len + 1))
               else
                 bind_outcome (copy_at buf buf_i [to_ascii_upper (path ! 0), 58]) (\<lambda>buf.
                   Ret (buf, buf_i + 2, buf_i + 2, 2, False)))
        else if path \<noteq> [] \<and> is_sep (path ! 0) then
          bind_outcome (write_at buf 0 sep) (\<lambda>buf. Ret (buf, 1, 1, 1, False))
        else Ret (buf, 0, 0, 0, False))"

text \<open>The inner loops: back to the last separator of the output, and to the end of an element.\<close>

fun pop_element :: "(u8 \<Rightarrow> bool) \<Rightarrow> bytes \<Rightarrow> nat \<Rightarrow> nat \<Rightarrow> nat" where
  "pop_element is_sep buf dotdot buf_i =
     (if dotdot < buf_i \<and> \<not> is_sep (buf ! buf_i) then pop_element is_sep buf dotdot (buf_i - 1) else buf_i)"

declare pop_element.simps [simp del]

function element_end :: "(u8 \<Rightarrow> bool) \<Rightarrow> bytes \<Rightarrow> nat \<Rightarrow> nat" where
  "element_end is_sep path r =
     (if r < length path \<and> \<not> is_sep (path ! r) then element_end is_sep path (r + 1) else r)"
  by pat_completeness auto
termination by (relation "measure (\<lambda>(_, path, r). length path - r)") auto

declare element_end.simps [simp del]

lemma element_end_ge: "r \<le> element_end is_sep path r"
proof (induction is_sep path r rule: element_end.induct)
  case (1 is_sep path r)
  then show ?case by (subst element_end.simps) auto
qed

lemma element_end_greater:
  "r < length path \<Longrightarrow> \<not> is_sep (path ! r) \<Longrightarrow> r < element_end is_sep path r"
  using element_end_ge [of "r + 1" is_sep path] by (subst element_end.simps) simp

text \<open>\<open>start\<close> is \<open>buf_start\<close>, \<open>up\<close> the flag \<open>ALLOW_ABOVE_ROOT\<close>.\<close>

function normalize_loop ::
  "bool \<Rightarrow> u8 \<Rightarrow> (u8 \<Rightarrow> bool) \<Rightarrow> nat \<Rightarrow> bytes \<Rightarrow> nat \<Rightarrow> bytes \<Rightarrow> nat \<Rightarrow> nat \<Rightarrow> (bytes \<times> nat) outcome" where
  "normalize_loop up sep is_sep start path r buf buf_i dotdot =
     (if r < length path then
        if is_sep (path ! r) then normalize_loop up sep is_sep start path (r + 1) buf buf_i dotdot
        else if path ! r = 46 \<and> (r + 1 = length path \<or> is_sep (path ! (r + 1))) then
          normalize_loop up sep is_sep start path (r + 1) buf buf_i dotdot
        else if is_dotdot (drop r path) \<and> (r + 2 = length path \<or> is_sep (path ! (r + 2))) then
          if dotdot < buf_i then
            normalize_loop up sep is_sep start path (r + 2) buf
              (pop_element is_sep buf dotdot (buf_i - 1)) dotdot
          else if up then
            if start < buf_i then
              bind_outcome (copy_at buf buf_i [sep, 46, 46]) (\<lambda>buf.
                normalize_loop up sep is_sep start path (r + 2) buf (buf_i + 3) (buf_i + 3))
            else
              bind_outcome (copy_at buf buf_i [46, 46]) (\<lambda>buf.
                normalize_loop up sep is_sep start path (r + 2) buf (buf_i + 2) (buf_i + 2))
          else normalize_loop up sep is_sep start path (r + 2) buf buf_i dotdot
        else
          bind_outcome
            (if buf_i \<noteq> start \<and> 0 < buf_i \<and> \<not> is_sep (buf ! (buf_i - 1)) then
               bind_outcome (write_at buf buf_i sep) (\<lambda>buf. Ret (buf, buf_i + 1))
             else Ret (buf, buf_i))
            (\<lambda>(buf, buf_i).
               let e = element_end is_sep path r in
               bind_outcome (copy_at buf buf_i (take (e - r) (drop r path))) (\<lambda>buf.
                 normalize_loop up sep is_sep start path e buf (buf_i + (e - r)) dotdot))
      else Ret (buf, buf_i))"
  by pat_completeness auto
termination
proof (relation "measure (\<lambda>(_, _, _, _, path, r, _, _, _). length path - r)", goal_cases)
  case (8 up sep is_sep start path r buf buf_i dotdot x a b e y)
  then show ?case using element_end_greater [of r path is_sep] by simp
qed auto

declare normalize_loop.simps [simp del]

text \<open>The NUL that \<open>ZERO_TERMINATE\<close> writes after the result.\<close>

definition zero_terminate :: "bool \<Rightarrow> bytes \<Rightarrow> nat \<Rightarrow> (bytes \<times> nat) outcome" where
  "zero_terminate zt buf buf_i =
     (if zt then bind_outcome (write_at buf buf_i 0) (\<lambda>buf. Ret (buf, buf_i)) else Ret (buf, buf_i))"

text \<open>The result is the buffer and the length of the slice \<open>buf[0..buf_i]\<close> that is returned.\<close>

definition normalize_string_generic_tz ::
  "bool \<Rightarrow> bool \<Rightarrow> bool \<Rightarrow> bool \<Rightarrow> bytes \<Rightarrow> bytes \<Rightarrow> u8 \<Rightarrow> (u8 \<Rightarrow> bool) \<Rightarrow> (bytes \<times> nat) outcome" where
  "normalize_string_generic_tz up preserve zt nt input buf sep is_sep =
     (let is_windows = (sep = 92);
          vol_len = (if is_windows then fst (windows_volume_name_len input) else 0) in
      bind_outcome
        (if is_windows then windows_prefix nt sep is_sep input buf else Ret (buf, 0, 0, 0, False))
        (\<lambda>(buf, buf_i, dotdot, path_begin, volume_only).
      if volume_only then zero_terminate zt buf buf_i
      else
        let path = (if is_windows then drop path_begin input else input);
            start = (if is_windows then buf_i else 0) in
        bind_outcome
          (if is_windows \<and> (up \<or> 0 < vol_len) \<and> path \<noteq> [] \<and> is_sep (path ! 0) then
             bind_outcome (write_at buf buf_i sep) (\<lambda>buf. Ret (1, buf, buf_i + 1, buf_i + 1))
           else Ret (0, buf, buf_i, dotdot))
          (\<lambda>(r, buf, buf_i, dotdot).
        bind_outcome (normalize_loop up sep is_sep start path r buf buf_i dotdot) (\<lambda>(buf, buf_i).
        bind_outcome
          (if preserve \<and> 0 < buf_i \<and> input ! (length input - 1) = sep \<and> buf ! (buf_i - 1) \<noteq> sep then
             bind_outcome (write_at buf buf_i sep) (\<lambda>buf. Ret (buf, buf_i + 1))
           else Ret (buf, buf_i))
          (\<lambda>(buf, buf_i).
        bind_outcome
          (if is_windows \<and> buf_i = 2 \<and> buf ! 1 = 58 then
             bind_outcome (write_at buf buf_i (if path \<noteq> [] \<and> path ! 0 = 92 then 92 else 46)) (\<lambda>buf.
               Ret (buf, buf_i + 1))
           else Ret (buf, buf_i))
          (\<lambda>(buf, buf_i). zero_terminate zt buf buf_i))))))"

definition normalize_string_generic_t ::
  "bool \<Rightarrow> bool \<Rightarrow> bytes \<Rightarrow> bytes \<Rightarrow> u8 \<Rightarrow> (u8 \<Rightarrow> bool) \<Rightarrow> (bytes \<times> nat) outcome" where
  "normalize_string_generic_t up preserve path buf sep is_sep =
     normalize_string_generic_tz up preserve False False path buf sep is_sep"

subsection \<open>The callers of the normaliser\<close>

definition normalize_string_loose_buf_t :: "bool \<Rightarrow> bool \<Rightarrow> bytes \<Rightarrow> bytes \<Rightarrow> (bytes \<times> nat) outcome" where
  "normalize_string_loose_buf_t up preserve path buf =
     normalize_string_generic_t up preserve path buf 47 is_sep_any"

definition normalize_string_windows_t :: "bool \<Rightarrow> bool \<Rightarrow> bytes \<Rightarrow> bytes \<Rightarrow> (bytes \<times> nat) outcome" where
  "normalize_string_windows_t up preserve path buf =
     normalize_string_generic_t up preserve path buf 92 is_sep_any"

fun normalize_string_buf :: "bool \<Rightarrow> platform \<Rightarrow> bool \<Rightarrow> bytes \<Rightarrow> bytes \<Rightarrow> (bytes \<times> nat) outcome" where
  "normalize_string_buf up Nt preserve path buf = Panic"
| "normalize_string_buf up Windows preserve path buf = normalize_string_windows_t up preserve path buf"
| "normalize_string_buf up Posix preserve path buf = normalize_string_loose_buf_t up preserve path buf"
| "normalize_string_buf up Loose preserve path buf = normalize_string_loose_buf_t up preserve path buf"

fun last_separator_of :: "platform \<Rightarrow> bytes \<Rightarrow> nat option" where
  "last_separator_of Loose path = last_index_of_separator_loose path"
| "last_separator_of Nt path = last_index_of_separator_windows path"
| "last_separator_of Windows path = last_index_of_separator_windows path"
| "last_separator_of Posix path = last_index_of_separator_posix path"

definition normalize_buf_t :: "platform \<Rightarrow> bytes \<Rightarrow> bytes \<Rightarrow> (bytes \<times> nat) outcome" where
  "normalize_buf_t p path buf =
     (if path = [] then bind_outcome (write_at buf 0 46) (\<lambda>buf. Ret (buf, 1))
      else
        let absolute = is_absolute p path;
            trailing = (last_separator_of p path = Some (length path - 1)) in
        if absolute \<and> trailing then normalize_string_buf True p True path buf
        else if absolute \<and> \<not> trailing then normalize_string_buf True p False path buf
        else if \<not> absolute \<and> \<not> trailing then normalize_string_buf False p False path buf
        else normalize_string_buf False p True path buf)"

definition PARSER_BUFFER_LEN :: nat where
  "PARSER_BUFFER_LEN = 1024"

text \<open>
  \<open>parser_buffer\<close> is the thread-local buffer of \<open>PARSER_BUFFER_LEN\<close> bytes that \<open>normalize_string\<close>
  writes to. The result is the buffer written to, the thread-local one or the spill, and the length.
\<close>

definition normalize_string :: "bool \<Rightarrow> platform \<Rightarrow> bytes \<Rightarrow> bytes \<Rightarrow> (bytes \<times> nat) outcome" where
  "normalize_string up p parser_buffer path = normalize_string_buf up p False path parser_buffer"

definition normalize_string_spill :: "bool \<Rightarrow> platform \<Rightarrow> bytes \<Rightarrow> bytes \<Rightarrow> bytes \<Rightarrow> (bytes \<times> nat) outcome" where
  "normalize_string_spill up p parser_buffer spill path =
     (let needed = length path + 1 in
      if needed \<le> PARSER_BUFFER_LEN then normalize_string up p parser_buffer path
      else
        normalize_string_buf up p False path
          (if length spill < needed then spill @ replicate (needed - length spill) 0 else spill))"

definition normalize_buf_z :: "platform \<Rightarrow> bytes \<Rightarrow> bytes \<Rightarrow> (bytes \<times> nat) outcome" where
  "normalize_buf_z p path buf =
     bind_outcome (normalize_buf_t p path buf) (\<lambda>(buf, len).
     bind_outcome (write_at buf len 0) (\<lambda>buf. Ret (buf, len)))"

text \<open>
  \<open>normalize_string_node_t\<close>, Node's \<open>path.normalize\<close>. The result is the buffer, the offset
  and the length of the slice returned.
\<close>

definition normalize_string_node_t :: "platform \<Rightarrow> bytes \<Rightarrow> bytes \<Rightarrow> (bytes \<times> nat \<times> nat) outcome" where
  "normalize_string_node_t p path buf =
     (if path = [] then bind_outcome (write_at buf 0 46) (\<lambda>buf. Ret (buf, 0, 1))
      else
        let absolute = is_absolute p path;
            trailing = is_separator p (path ! (length path - 1));
            buf_off = (if p = Windows then 0 else 1) in
        if length buf < buf_off then Panic else
        bind_outcome
          (normalize_string_generic_t (\<not> absolute) False path (drop buf_off buf) (separator p) (is_separator p))
          (\<lambda>(out, out_len).
        let buf = take buf_off buf @ out in
        if out_len = 0 then
          if absolute then bind_outcome (write_at buf 0 (separator p)) (\<lambda>buf. Ret (buf, 0, 1))
          else if trailing then bind_outcome (copy_at buf 0 (trailing_separator p)) (\<lambda>buf. Ret (buf, 0, 2))
          else bind_outcome (write_at buf 0 46) (\<lambda>buf. Ret (buf, 0, 1))
        else
          bind_outcome
            (if trailing \<and> \<not> is_separator p (buf ! (buf_off + out_len - 1)) then
               bind_outcome (write_at buf (buf_off + out_len) (separator p)) (\<lambda>buf. Ret (buf, out_len + 1))
             else Ret (buf, out_len))
            (\<lambda>(buf, out_len).
               if absolute then
                 if p = Windows then Ret (buf, buf_off, out_len)
                 else bind_outcome (write_at buf 0 (separator p)) (\<lambda>buf. Ret (buf, 0, out_len + 1))
               else Ret (buf, buf_off, out_len))))"

text \<open>The slice a result stands for.\<close>

definition slice_at :: "bytes \<times> nat \<times> nat \<Rightarrow> bytes" where
  "slice_at res = (case res of (buf, off, len) \<Rightarrow> take len (drop off buf))"

subsection \<open>Joining\<close>

text \<open>
  The scratch buffer that \<open>join_string_buf_t\<close> fills has room for \<open>count\<close> units twice, so only
  its contents matter.
\<close>

fun join_parts :: "u8 \<Rightarrow> bytes \<Rightarrow> bytes list \<Rightarrow> bytes" where
  "join_parts sep temp [] = temp"
| "join_parts sep temp (part # parts) =
     (if part = [] then join_parts sep temp parts
      else join_parts sep ((if temp \<noteq> [] then temp @ [sep] else temp) @ part) parts)"

definition join_string_buf_t :: "platform \<Rightarrow> bytes \<Rightarrow> bytes list \<Rightarrow> (bytes \<times> nat \<times> nat) outcome" where
  "join_string_buf_t p buf parts =
     (let joined = join_parts (separator p) [] parts in
      if joined = [] then bind_outcome (write_at buf 0 46) (\<lambda>buf. Ret (buf, 0, 1))
      else normalize_string_node_t p joined buf)"

definition join_z_buf :: "platform \<Rightarrow> bytes \<Rightarrow> bytes list \<Rightarrow> (bytes \<times> nat \<times> nat) outcome" where
  "join_z_buf p buf parts =
     (if buf = [] then Panic else
      bind_outcome (join_string_buf_t p (butlast buf) parts) (\<lambda>(b, off, len).
      bind_outcome (write_at (b @ [last buf]) (off + len) 0) (\<lambda>buf. Ret (buf, off, len))))"

definition join_needed :: "bytes list \<Rightarrow> nat" where
  "join_needed parts = sum_list (map (\<lambda>p. length p + 1) parts) + 1"

text \<open>\<open>buf\<close> when the result fits, otherwise \<open>spill\<close>, grown as needed.\<close>

definition spill_buffer :: "bytes \<Rightarrow> bytes \<Rightarrow> nat \<Rightarrow> bytes" where
  "spill_buffer buf spill needed =
     (if needed \<le> length buf then buf
      else if length spill < needed then spill @ replicate (needed - length spill) 0
      else spill)"

definition join_z_buf_spill :: "platform \<Rightarrow> bytes \<Rightarrow> bytes \<Rightarrow> bytes list \<Rightarrow> (bytes \<times> nat \<times> nat) outcome" where
  "join_z_buf_spill p buf spill parts = join_z_buf p (spill_buffer buf spill (join_needed parts)) parts"

subsection \<open>Resolving against a directory\<close>

definition MAX_PATH_BYTES :: nat where
  "MAX_PATH_BYTES = 4096"

definition join_abs_needed :: "nat \<Rightarrow> bytes list \<Rightarrow> nat" where
  "join_abs_needed cwd_len parts = sum_list (map (\<lambda>p. length p + 1) parts) + cwd_len + 2"

text \<open>\<open>pool\<close> is the buffer \<open>path_buffer_pool\<close> hands out, of \<open>MAX_PATH_BYTES\<close> bytes and any contents.\<close>

definition join_scratch :: "bytes \<Rightarrow> nat \<Rightarrow> bytes list \<Rightarrow> bytes" where
  "join_scratch pool base parts =
     (let total = join_abs_needed base parts in
      if total \<le> MAX_PATH_BYTES then pool else replicate total 0)"

text \<open>
  The last absolute part becomes the directory and the parts before it are dropped. The
  counters are \<open>u16\<close>: \<open>part_len\<close> is the number of parts modulo \<open>2 ^ 16\<close>.
\<close>

function absolute_base :: "platform \<Rightarrow> bytes \<Rightarrow> bytes list \<Rightarrow> nat \<Rightarrow> bytes \<times> bytes list" where
  "absolute_base p cwd parts part_i =
     (if part_i < length parts mod 2 ^ 16 then
        if is_absolute p (parts ! part_i) then absolute_base p (parts ! part_i) (drop (part_i + 1) parts) 0
        else absolute_base p cwd parts (part_i + 1)
      else (cwd, parts))"
  by pat_completeness auto
termination
proof (relation "measures [\<lambda>(_, _, parts, _). length parts, \<lambda>(_, _, parts, i). length parts - i]", goal_cases)
  case (2 p cwd parts part_i)
  then have "part_i < length parts" using mod_less_eq_dividend [of "length parts" "2 ^ 16"] by linarith
  then show ?case by simp arith
next
  case (3 p cwd parts part_i)
  then show ?case using mod_less_eq_dividend [of "length parts" "2 ^ 16"] by simp
qed simp

declare absolute_base.simps [simp del]

fun append_parts :: "u8 \<Rightarrow> bytes list \<Rightarrow> bytes \<Rightarrow> nat \<Rightarrow> (bytes \<times> nat) outcome" where
  "append_parts sep [] temp out = Ret (temp, out)"
| "append_parts sep (part # parts) temp out =
     (if part = [] then append_parts sep parts temp out
      else
        bind_outcome
          (if 0 < out \<and> temp ! (out - 1) \<noteq> sep then
             bind_outcome (write_at temp out sep) (\<lambda>temp. Ret (temp, out + 1))
           else Ret (temp, out))
          (\<lambda>(temp, out).
             bind_outcome (copy_at temp out part) (\<lambda>temp. append_parts sep parts temp (out + length part))))"

definition slashes_to_posix :: "bytes \<Rightarrow> bytes" where
  "slashes_to_posix = map (\<lambda>c. if c = 92 then 47 else c)"

text \<open>
  \<open>_join_abs_string_buf\<close> on the platforms \<open>Posix\<close> and \<open>Loose\<close>; the platforms \<open>Windows\<close> and
  \<open>Nt\<close> go to \<open>join_abs_string_buf_windows\<close>, which is not modelled, and are not arguments here.
  The result is the buffer and the slice returned, which is \<open>cwd\<close> itself when there are no parts.
\<close>

definition join_abs_string_buf_posix ::
  "bool \<Rightarrow> platform \<Rightarrow> bytes \<Rightarrow> bytes \<Rightarrow> bytes \<Rightarrow> bytes list \<Rightarrow> (bytes \<times> bytes) outcome" where
  "join_abs_string_buf_posix sentinel p pool cwd buf parts =
     (if parts = [] then if sentinel then Panic else Ret (buf, cwd)
      else if length parts = 1 \<and> parts ! 0 = [47] then
        bind_outcome (write_at buf 0 47) (\<lambda>buf.
        bind_outcome (if sentinel then write_at buf 1 0 else Ret buf) (\<lambda>buf. Ret (buf, [47])))
      else
        (case absolute_base p cwd parts 0 of (cwd, parts) \<Rightarrow>
           bind_outcome (copy_at (join_scratch pool (length cwd) parts) 0 cwd) (\<lambda>temp.
           bind_outcome (append_parts (separator p) parts temp (length cwd)) (\<lambda>(temp, out).
           let (leading, temp) =
             (case leading_separator_index p (take out temp) of
                Some i \<Rightarrow>
                  let outdir = (if p = Loose then slashes_to_posix (take (i + 1) temp) else take (i + 1) temp) in
                  (outdir, outdir @ drop (i + 1) temp)
              | None \<Rightarrow> ([47], temp));
             leading_len = length leading in
           bind_outcome (copy_at buf 0 leading) (\<lambda>buf.
           if out < leading_len then Panic
           else
             bind_outcome
               (normalize_string_buf False p True (take (out - leading_len) (drop leading_len temp)) (drop leading_len buf))
               (\<lambda>(rest, result_len).
             let buf = take leading_len buf @ rest in
             bind_outcome (if sentinel then write_at buf (result_len + leading_len) 0 else Ret buf) (\<lambda>buf.
             Ret (buf, take (result_len + leading_len) buf))))))))"

definition join_abs_string_buf ::
  "platform \<Rightarrow> bytes \<Rightarrow> bytes \<Rightarrow> bytes \<Rightarrow> bytes list \<Rightarrow> (bytes \<times> bytes) outcome" where
  "join_abs_string_buf p pool cwd buf parts = join_abs_string_buf_posix False p pool cwd buf parts"

definition join_abs_string_buf_z ::
  "platform \<Rightarrow> bytes \<Rightarrow> bytes \<Rightarrow> bytes \<Rightarrow> bytes list \<Rightarrow> (bytes \<times> bytes) outcome" where
  "join_abs_string_buf_z p pool cwd buf parts = join_abs_string_buf_posix True p pool cwd buf parts"

text \<open>\<open>None\<close> is returned when the normalised result does not fit.\<close>

definition join_abs_string_buf_checked ::
  "platform \<Rightarrow> bytes \<Rightarrow> bytes \<Rightarrow> bytes \<Rightarrow> bytes list \<Rightarrow> bytes option outcome" where
  "join_abs_string_buf_checked p pool cwd buf parts =
     (let total = join_abs_needed (length cwd) parts in
      if total < length buf then
        bind_outcome (join_abs_string_buf p pool cwd buf parts) (\<lambda>(_, joined). Ret (Some joined))
      else
        bind_outcome (join_abs_string_buf p pool cwd (replicate total 0) parts) (\<lambda>(_, joined).
          if length buf < length joined then Ret None
          else bind_outcome (copy_at buf 0 joined) (\<lambda>buf. Ret (Some (take (length joined) buf)))))"

subsection \<open>Directory and base names\<close>

function dirname_posix :: "bytes \<Rightarrow> bytes" where
  "dirname_posix path =
     (case last_index_of_separator_posix path of
        None \<Rightarrow> []
      | Some i \<Rightarrow>
          if i = 0 then [47]
          else if path \<noteq> [] \<and> i = length path - 1 then dirname_posix (butlast path)
          else take i path)"
  by pat_completeness auto
termination by (relation "measure length") auto

declare dirname_posix.simps [simp del]

definition dirname_loose :: "bytes \<Rightarrow> bytes" where
  "dirname_loose path =
     (case last_index_of_separator_loose path of None \<Rightarrow> [] | Some i \<Rightarrow> take i path)"

definition dirname_simple :: "bytes \<Rightarrow> bytes" where
  "dirname_simple path = (case last_index_of_sep path of Some i \<Rightarrow> take i path | None \<Rightarrow> [])"

end
