(* ===== verification/PathsNormalize.thy ===== *)
theory PathsNormalize
  imports Paths
begin

text \<open>
  What the normaliser computes on the platforms whose separator is \<open>/\<close>: a path is the list of
  its names, the maximal runs of bytes that are no separators; \<open>.\<close> is dropped, \<open>..\<close> removes the
  name before it and is kept in front only where \<open>ALLOW_ABOVE_ROOT\<close> is set, and the result is the
  remaining names with one separator between two. The output never overtakes the input, so a
  buffer of the length of the path is enough.
\<close>

subsection \<open>Names and normal forms\<close>

function names :: "(u8 \<Rightarrow> bool) \<Rightarrow> bytes \<Rightarrow> bytes list" where
  "names P [] = []"
| "names P (c # cs) =
     (if P c then names P cs
      else takeWhile (\<lambda>c. \<not> P c) (c # cs) # names P (dropWhile (\<lambda>c. \<not> P c) (c # cs)))"
  by pat_completeness auto
termination
  by (relation "measure (\<lambda>(_, s). length s)") (auto simp: le_imp_less_Suc length_dropWhile_le)

text \<open>A normal form: how many \<open>..\<close> stand in front, and the names after them.\<close>

type_synonym normal = "nat \<times> bytes list"

fun normal_step :: "bool \<Rightarrow> bytes \<Rightarrow> normal \<Rightarrow> normal" where
  "normal_step up x (n, ns) =
     (if x = [46] then (n, ns)
      else if x = [46, 46] then
        if ns \<noteq> [] then (n, butlast ns) else if up then (n + 1, ns) else (n, ns)
      else (n, ns @ [x]))"

definition normal_form :: "bool \<Rightarrow> bytes list \<Rightarrow> normal" where
  "normal_form up xs = fold (normal_step up) xs (0, [])"

definition elements :: "normal \<Rightarrow> bytes list" where
  "elements nf = replicate (fst nf) [46, 46] @ snd nf"

definition render :: "u8 \<Rightarrow> bytes list \<Rightarrow> bytes" where
  "render sep xs = drop 1 (concat (map ((#) sep) xs))"

definition name_ok :: "(u8 \<Rightarrow> bool) \<Rightarrow> bytes \<Rightarrow> bool" where
  "name_ok P x \<longleftrightarrow> x \<noteq> [] \<and> list_all (\<lambda>c. \<not> P c) x"

text \<open>The result of normalising: the elements, and the separator at the end when it is preserved.\<close>

definition normalized :: "bool \<Rightarrow> bool \<Rightarrow> u8 \<Rightarrow> (u8 \<Rightarrow> bool) \<Rightarrow> bytes \<Rightarrow> bytes" where
  "normalized up preserve sep P path =
     (let out = render sep (elements (normal_form up (names P path))) in
      if preserve \<and> out \<noteq> [] \<and> last path = sep then out @ [sep] else out)"

subsection \<open>Rendering\<close>

lemma render_Nil [simp]: "render sep [] = []"
  by (simp add: render_def)

lemma render_single [simp]: "render sep [x] = x"
  by (simp add: render_def)

lemma render_snoc: "xs \<noteq> [] \<Longrightarrow> render sep (xs @ [x]) = render sep xs @ sep # x"
  by (cases xs) (simp_all add: render_def)

lemma render_append:
  "xs \<noteq> [] \<Longrightarrow> ys \<noteq> [] \<Longrightarrow> render sep (xs @ ys) = render sep xs @ sep # render sep ys"
  by (cases xs; cases ys) (simp_all add: render_def)

lemma render_eq_Nil: "list_all (\<lambda>x. x \<noteq> []) xs \<Longrightarrow> render sep xs = [] \<longleftrightarrow> xs = []"
  by (cases xs) (auto simp: render_def)

lemma render_last:
  "xs \<noteq> [] \<Longrightarrow> last xs \<noteq> [] \<Longrightarrow> last (render sep xs) = last (last xs)"
proof (induction xs rule: rev_induct)
  case (snoc x xs)
  then show ?case by (cases "xs = []") (simp_all add: render_snoc)
qed simp

lemma elements_up [simp]: "elements (Suc n, []) = elements (n, []) @ [[46, 46]]"
  by (simp add: elements_def replicate_append_same [symmetric] del: replicate_append_same)

lemma elements_snoc [simp]: "elements (n, ns @ [x]) = elements (n, ns) @ [x]"
  by (simp add: elements_def)

lemma elements_0 [simp]: "elements (0, ns) = ns"
  by (simp add: elements_def)

lemma elements_eq_Nil [simp]: "elements (n, ns) = [] \<longleftrightarrow> n = 0 \<and> ns = []"
  by (simp add: elements_def)

definition normal_ok :: "(u8 \<Rightarrow> bool) \<Rightarrow> normal \<Rightarrow> bool" where
  "normal_ok P nf \<longleftrightarrow> list_all (name_ok P) (snd nf)"

lemma elements_ok: "\<not> P 46 \<Longrightarrow> normal_ok P nf \<Longrightarrow> list_all (name_ok P) (elements nf)"
  by (auto simp: normal_ok_def elements_def name_ok_def list_all_iff)

lemma names_ok: "list_all (name_ok P) (names P path)"
proof (induction P path rule: names.induct)
  case (2 P c cs)
  have "name_ok P (takeWhile (\<lambda>c. \<not> P c) (c # cs))" if "\<not> P c"
    unfolding name_ok_def list_all_iff using that by (auto dest: set_takeWhileD)
  then show ?case using 2 by simp
qed simp

lemma normal_step_ok: "normal_ok P nf \<Longrightarrow> name_ok P x \<Longrightarrow> normal_ok P (normal_step up x nf)"
  by (cases nf) (auto simp: normal_ok_def list_all_iff dest: in_set_butlastD)

lemma fold_normal_ok:
  "normal_ok P nf \<Longrightarrow> list_all (name_ok P) xs \<Longrightarrow> normal_ok P (fold (normal_step up) xs nf)"
  by (induction xs arbitrary: nf) (auto simp: normal_step_ok)

lemma render_elements_last:
  assumes "\<not> P 46" "normal_ok P nf" "elements nf \<noteq> []"
  shows "render sep (elements nf) \<noteq> [] \<and> \<not> P (last (render sep (elements nf)))"
proof -
  have ok: "list_all (name_ok P) (elements nf)" using elements_ok assms by blast
  then have "name_ok P (last (elements nf))" using assms(3) by (simp add: list_all_iff)
  then have "last (elements nf) \<noteq> [] \<and> \<not> P (last (last (elements nf)))"
    by (auto simp: name_ok_def list_all_iff)
  moreover have "list_all (\<lambda>x. x \<noteq> []) (elements nf)"
    using ok by (auto simp: list_all_iff name_ok_def)
  ultimately show ?thesis using assms(3) by (simp add: render_last render_eq_Nil)
qed

subsection \<open>The inner loops\<close>

lemma pop_element_stops:
  assumes "d \<le> k" "k \<le> i" "\<forall>j. k < j \<and> j \<le> i \<longrightarrow> \<not> P (buf ! j)" "k = d \<or> P (buf ! k)"
  shows "pop_element P buf d i = k"
  using assms(2,3)
proof (induction "i - k" arbitrary: i)
  case 0
  then have "i = k" by simp
  then show ?case using assms(4) by (subst pop_element.simps) auto
next
  case (Suc m)
  then have "m = i - 1 - k" "k \<le> i - 1" "k < i" by simp_all
  moreover from Suc have "\<forall>j. k < j \<and> j \<le> i - 1 \<longrightarrow> \<not> P (buf ! j)" by (meson diff_le_self le_trans)
  ultimately have "pop_element P buf d (i - 1) = k" using Suc.hyps(1) by blast
  moreover have "\<not> P (buf ! i)" using Suc.prems \<open>k < i\<close> by simp
  ultimately show ?case using assms(1) \<open>k < i\<close> by (subst pop_element.simps) simp
qed

lemma element_end_takeWhile:
  "element_end P (pre @ suf) (length pre) = length pre + length (takeWhile (\<lambda>c. \<not> P c) suf)"
proof (induction suf arbitrary: pre)
  case Nil
  then show ?case by (subst element_end.simps) simp
next
  case (Cons c suf)
  then show ?case using Cons [of "pre @ [c]"] by (subst element_end.simps) (simp add: nth_append)
qed

subsection \<open>The tests of the loop read the next name\<close>

abbreviation run :: "(u8 \<Rightarrow> bool) \<Rightarrow> bytes \<Rightarrow> bytes" where
  "run P s \<equiv> takeWhile (\<lambda>c. \<not> P c) s"

lemma run_is_dot:
  "\<not> P 46 \<Longrightarrow> suf \<noteq> [] \<Longrightarrow>
   (suf ! 0 = 46 \<and> (1 = length suf \<or> P (suf ! 1))) = (run P suf = [46])"
  by (cases suf; cases "tl suf") auto

lemma run_is_dotdot:
  "\<not> P 46 \<Longrightarrow> suf \<noteq> [] \<Longrightarrow>
   (is_dotdot suf \<and> (2 = length suf \<or> P (suf ! 2))) = (run P suf = [46, 46])"
  by (cases suf; cases "tl suf"; cases "tl (tl suf)") (auto simp: is_dotdot_def)

lemma normalize_loop_name:
  assumes P: "\<not> P 46" and suf: "suf \<noteq> []" "\<not> P (hd suf)"
  shows "normalize_loop up sep P start (pre @ suf) (length pre) buf i d =
    (if run P suf = [46] then normalize_loop up sep P start (pre @ suf) (length pre + 1) buf i d
     else if run P suf = [46, 46] then
       if d < i then normalize_loop up sep P start (pre @ suf) (length pre + 2) buf (pop_element P buf d (i - 1)) d
       else if up then
         if start < i then
           bind_outcome (copy_at buf i [sep, 46, 46]) (\<lambda>buf.
             normalize_loop up sep P start (pre @ suf) (length pre + 2) buf (i + 3) (i + 3))
         else
           bind_outcome (copy_at buf i [46, 46]) (\<lambda>buf.
             normalize_loop up sep P start (pre @ suf) (length pre + 2) buf (i + 2) (i + 2))
       else normalize_loop up sep P start (pre @ suf) (length pre + 2) buf i d
     else
       bind_outcome
         (if i \<noteq> start \<and> 0 < i \<and> \<not> P (buf ! (i - 1)) then
            bind_outcome (write_at buf i sep) (\<lambda>buf. Ret (buf, i + 1))
          else Ret (buf, i))
         (\<lambda>(buf, i). bind_outcome (copy_at buf i (run P suf)) (\<lambda>buf.
            normalize_loop up sep P start (pre @ suf) (length pre + length (run P suf)) buf (i + length (run P suf)) d)))"
proof -
  have c0: "length pre < length (pre @ suf)" "\<not> P ((pre @ suf) ! length pre)"
    using suf by (simp_all add: nth_append hd_conv_nth)
  have c1: "((pre @ suf) ! length pre = 46 \<and>
      (length pre + 1 = length (pre @ suf) \<or> P ((pre @ suf) ! (length pre + 1)))) = (run P suf = [46])"
    using run_is_dot [of P suf, OF P suf(1)] by (simp add: nth_append)
  have c2: "(is_dotdot (drop (length pre) (pre @ suf)) \<and>
      (length pre + 2 = length (pre @ suf) \<or> P ((pre @ suf) ! (length pre + 2)))) = (run P suf = [46, 46])"
    using run_is_dotdot [of P suf, OF P suf(1)] by (simp add: nth_append)
  have c3: "take (length (run P suf)) (drop (length pre) (pre @ suf)) = run P suf"
    by (simp add: takeWhile_eq_take [symmetric])
  show ?thesis
    by (subst normalize_loop.simps)
      (simp only: c0 c1 c2 element_end_takeWhile add_diff_cancel_left' c3 Let_def if_True if_False)
qed

subsection \<open>The loop computes the normal form\<close>

definition loops_to :: "bool \<Rightarrow> u8 \<Rightarrow> (u8 \<Rightarrow> bool) \<Rightarrow> bytes \<Rightarrow> bytes \<Rightarrow> normal \<Rightarrow> bytes \<Rightarrow> bool" where
  "loops_to up sep P pre suf nf rest \<longleftrightarrow>
     (\<exists>rest'. normalize_loop up sep P 0 (pre @ suf) (length pre) (render sep (elements nf) @ rest)
         (length (render sep (elements nf))) (length (render sep (elements (fst nf, [])))) =
       Ret (render sep (elements (fold (normal_step up) (names P suf) nf)) @ rest',
         length (render sep (elements (fold (normal_step up) (names P suf) nf)))) \<and>
       length (render sep (elements (fold (normal_step up) (names P suf) nf))) + length rest' =
         length (render sep (elements nf)) + length rest \<and>
       (suf \<noteq> [] \<and> P (last suf) \<longrightarrow> rest' \<noteq> []))"

lemma loops_to_step:
  assumes loop: "normalize_loop up sep P 0 (pre @ suf) (length pre) (render sep (elements nf) @ rest)
         (length (render sep (elements nf))) (length (render sep (elements (fst nf, [])))) =
       normalize_loop up sep P 0 (pre @ suf) (length (pre @ run P suf)) (render sep (elements nf') @ rest')
         (length (render sep (elements nf'))) (length (render sep (elements (fst nf', []))))"
    and total: "length (render sep (elements nf')) + length rest' = length (render sep (elements nf)) + length rest"
    and nf': "nf' = normal_step up (run P suf) nf"
    and suf: "suf \<noteq> []" "\<not> P (hd suf)"
    and later: "loops_to up sep P (pre @ run P suf) (dropWhile (\<lambda>c. \<not> P c) suf) nf' rest'"
  shows "loops_to up sep P pre suf nf rest"
proof -
  have split: "(pre @ run P suf) @ dropWhile (\<lambda>c. \<not> P c) suf = pre @ suf" by simp
  have names: "names P suf = run P suf # names P (dropWhile (\<lambda>c. \<not> P c) suf)"
    using suf by (cases suf) simp_all
  have last: "dropWhile (\<lambda>c. \<not> P c) suf \<noteq> [] \<and> P (last (dropWhile (\<lambda>c. \<not> P c) suf))"
    if "P (last suf)"
    using that suf(1) dropWhile_last [of "last suf" suf "\<lambda>c. \<not> P c"]
    by (metis dropWhile_eq_Nil_conv last_in_set)
  show ?thesis
    using later last unfolding loops_to_def split names nf' [symmetric] fold_simps loop [symmetric] total
    by (metis (no_types, lifting))
qed

lemma loops_to_dot:
  assumes "\<not> P 46" "suf \<noteq> []" "\<not> P (hd suf)" "run P suf = [46]"
    and "loops_to up sep P (pre @ run P suf) (dropWhile (\<lambda>c. \<not> P c) suf) nf rest"
  shows "loops_to up sep P pre suf nf rest"
proof (rule loops_to_step [OF _ refl _ assms(2,3,5)])
  show "nf = normal_step up (run P suf) nf" by (cases nf) (simp add: assms(4))
qed (use assms(1-4) in \<open>simp add: normalize_loop_name [of P suf]\<close>)

lemma last_element:
  assumes "ns \<noteq> []"
  shows "\<exists>a. render sep (elements (n, ns)) = a @ last ns \<and>
     (if elements (n, butlast ns) = [] then a = [] else a = render sep (elements (n, butlast ns)) @ [sep])"
proof -
  have "elements (n, ns) = elements (n, butlast ns) @ [last ns]"
    using assms elements_snoc [of n "butlast ns" "last ns"] by simp
  then show ?thesis
    by (cases "elements (n, butlast ns) = []") (auto simp del: elements_eq_Nil simp add: render_snoc)
qed

lemma render_ups_le: "length (render sep (elements (n, []))) \<le> length (render sep (elements (n, ns)))"
proof (cases "n = 0 \<or> ns = []")
  case False
  then have "render sep (elements (n, ns)) = render sep (elements (n, [])) @ sep # render sep ns"
    using render_append [of "elements (n, [])" ns sep] by (simp add: elements_def)
  then show ?thesis by simp
qed auto

lemma loops_to_pop:
  assumes P: "\<not> P 46" "P sep" and suf: "suf \<noteq> []" "\<not> P (hd suf)" "run P suf = [46, 46]"
    and nf: "normal_ok P (n, ns)" "ns \<noteq> []" and room: "length suf \<le> length rest"
    and later: "\<And>rest'. length (dropWhile (\<lambda>c. \<not> P c) suf) \<le> length rest' \<Longrightarrow>
       loops_to up sep P (pre @ run P suf) (dropWhile (\<lambda>c. \<not> P c) suf) (n, butlast ns) rest'"
  shows "loops_to up sep P pre suf (n, ns) rest"
proof -
  let ?out = "render sep (elements (n, ns))" and ?out' = "render sep (elements (n, butlast ns))"
  let ?d = "length (render sep (elements (n, [])))"
  have x: "last ns \<noteq> []" "\<forall>c \<in> set (last ns). \<not> P c"
    using nf by (auto simp: normal_ok_def name_ok_def list_all_iff)
  obtain a where a: "?out = a @ last ns"
      "if elements (n, butlast ns) = [] then a = [] else a = ?out' @ [sep]"
    using last_element [OF nf(2)] by blast
  obtain y where y: "?out = ?out' @ y" using a by (cases "elements (n, butlast ns) = []") auto
  have d: "?d \<le> length ?out'" by (rule render_ups_le)
  have longer: "length ?out' < length ?out" using a x(1) by (cases "elements (n, butlast ns) = []") auto
  have after: "\<not> P ((?out @ rest) ! j)" if "length ?out' < j" "j \<le> length ?out - 1" for j
  proof -
    have "length a \<le> j" using that(1) a(2) by (cases "elements (n, butlast ns) = []") auto
    moreover have "j < length ?out" using that(2) longer by linarith
    ultimately have j: "length a \<le> j" "j - length a < length (last ns)"
      unfolding a(1) by simp_all
    then have "(?out @ rest) ! j = last ns ! (j - length a)" unfolding a(1) by (simp add: nth_append)
    with j have "(?out @ rest) ! j \<in> set (last ns)" by simp
    then show ?thesis using x(2) by blast
  qed
  have stop: "length ?out' = ?d \<or> P ((?out @ rest) ! length ?out')"
  proof (cases "elements (n, butlast ns) = []")
    case False
    then have "?out = ?out' @ sep # last ns" using a by simp
    then show ?thesis using P(2) by (simp add: nth_append)
  qed simp
  have pop: "pop_element P (?out @ rest) ?d (length ?out - 1) = length ?out'"
    by (rule pop_element_stops [where P = P and k = "length ?out'"]) (use d stop longer after in auto)
  have grow: "?out @ rest = ?out' @ (y @ rest)" using y by simp
  have loop: "normalize_loop up sep P 0 (pre @ suf) (length pre) (?out @ rest) (length ?out) ?d =
     normalize_loop up sep P 0 (pre @ suf) (length (pre @ run P suf)) (?out' @ (y @ rest)) (length ?out') ?d"
    using d longer pop suf normalize_loop_name [of P suf up sep 0 pre "?out @ rest" "length ?out" ?d, OF P(1) suf(1,2)]
    by (simp add: grow)
  have room': "length (dropWhile (\<lambda>c. \<not> P c) suf) \<le> length (y @ rest)"
    using length_dropWhile_le [of "\<lambda>c. \<not> P c" suf] room by simp
  show ?thesis
    by (rule loops_to_step [where nf' = "(n, butlast ns)" and rest' = "y @ rest"])
      (use loop y nf(2) suf later [OF room'] in auto)
qed

lemma loops_to_up:
  assumes P: "\<not> P 46" and suf: "suf \<noteq> []" "\<not> P (hd suf)" "run P suf = [46, 46]"
    and room: "length suf + (if n \<noteq> 0 then 1 else 0) \<le> length rest"
    and later: "\<And>n' rest'. length (dropWhile (\<lambda>c. \<not> P c) suf) \<le> length rest' \<Longrightarrow>
       loops_to up sep P (pre @ run P suf) (dropWhile (\<lambda>c. \<not> P c) suf) (n', []) rest'"
  shows "loops_to up sep P pre suf (n, []) rest"
proof (cases up)
  case True
  let ?new = "(if n = 0 then [46, 46] else [sep, 46, 46])"
  have out: "render sep (elements (Suc n, [])) = render sep (elements (n, [])) @ ?new"
    by (simp add: render_snoc)
  have rest: "length ?new \<le> length rest"
    and room': "length (dropWhile (\<lambda>c. \<not> P c) suf) \<le> length (drop (length ?new) rest)"
  proof -
    have "length suf = length (run P suf) + length (dropWhile (\<lambda>c. \<not> P c) suf)"
      by (metis length_append takeWhile_dropWhile_id)
    then show "length ?new \<le> length rest"
      "length (dropWhile (\<lambda>c. \<not> P c) suf) \<le> length (drop (length ?new) rest)"
      using room suf(3) by (auto split: if_splits)
  qed
  have ne: "0 < length (render sep (elements (n, []))) \<longleftrightarrow> n \<noteq> 0"
    using render_eq_Nil [of "elements (n, [])" sep] by (simp add: elements_def list_all_iff)
  let ?out = "render sep (elements (n, []))"
  have copy: "copy_at (?out @ rest) (length ?out) ?new = Ret ((?out @ ?new) @ drop (length ?new) rest)"
    unfolding copy_at_end using rest by simp
  show ?thesis
  proof (rule loops_to_step [where nf' = "(Suc n, [])" and rest' = "drop (length ?new) rest"])
    show "normalize_loop up sep P 0 (pre @ suf) (length pre) (render sep (elements (n, [])) @ rest)
         (length (render sep (elements (n, [])))) (length (render sep (elements (fst (n, []), [])))) =
       normalize_loop up sep P 0 (pre @ suf) (length (pre @ run P suf))
         (render sep (elements (Suc n, [])) @ drop (length ?new) rest)
         (length (render sep (elements (Suc n, [])))) (length (render sep (elements (fst (Suc n, []), []))))"
      using copy ne True suf(3) unfolding fst_conv out normalize_loop_name [of P suf, OF P suf(1,2)]
      by (cases "n = 0") (simp_all add: numeral_3_eq_3)
  qed (use out rest True suf later [OF room'] in \<open>auto simp del: elements_up\<close>)
next
  case False
  show ?thesis
  proof (rule loops_to_step [where nf' = "(n, [])" and rest' = rest])
    show "loops_to up sep P (pre @ run P suf) (dropWhile (\<lambda>c. \<not> P c) suf) (n, []) rest"
      using later [of rest n] room length_dropWhile_le [of "\<lambda>c. \<not> P c" suf] by (auto split: if_splits)
  qed (use False suf P in \<open>auto simp: normalize_loop_name [of P suf]\<close>)
qed

lemma loops_to_name:
  assumes P: "\<not> P 46" and suf: "suf \<noteq> []" "\<not> P (hd suf)" "run P suf \<noteq> [46]" "run P suf \<noteq> [46, 46]"
    and nf: "normal_ok P (n, ns)"
    and room: "length suf + (if render sep (elements (n, ns)) \<noteq> [] then 1 else 0) \<le> length rest"
    and later: "\<And>rest'. length (dropWhile (\<lambda>c. \<not> P c) suf) \<le> length rest' \<Longrightarrow>
       loops_to up sep P (pre @ run P suf) (dropWhile (\<lambda>c. \<not> P c) suf) (n, ns @ [run P suf]) rest'"
  shows "loops_to up sep P pre suf (n, ns) rest"
proof -
  let ?out = "render sep (elements (n, ns))"
  let ?gap = "if ?out = [] then [] else [sep]"
  have empty: "elements (n, ns) = [] \<longleftrightarrow> ?out = []"
    using render_elements_last [OF P nf, of sep] by (metis render_Nil)
  have out: "render sep (elements (n, ns @ [run P suf])) = ?out @ ?gap @ run P suf"
    using empty by (cases "elements (n, ns) = []") (auto simp del: elements_eq_Nil simp: render_snoc)
  have len: "length suf = length (run P suf) + length (dropWhile (\<lambda>c. \<not> P c) suf)"
    by (metis length_append takeWhile_dropWhile_id)
  have rest: "length ?gap + length (run P suf) \<le> length rest"
    and room': "length (dropWhile (\<lambda>c. \<not> P c) suf) \<le> length (drop (length (?gap @ run P suf)) rest)"
    using room len by (auto split: if_splits)
  have last: "\<not> P ((?out @ rest) ! (length ?out - 1))" if "?out \<noteq> []"
    using render_elements_last [OF P nf, of sep] that empty
    by (auto simp: nth_append last_conv_nth)
  have gap: "(if length ?out \<noteq> 0 \<and> 0 < length ?out \<and> \<not> P ((?out @ rest) ! (length ?out - 1)) then
       bind_outcome (write_at (?out @ rest) (length ?out) sep) (\<lambda>buf. Ret (buf, length ?out + 1))
     else Ret (?out @ rest, length ?out)) =
     Ret ((?out @ ?gap) @ drop (length ?gap) rest, length (?out @ ?gap))"
    using last rest by (auto simp: write_at_copy copy_at_end split: if_splits)
  have copy: "copy_at ((?out @ ?gap) @ drop (length ?gap) rest) (length (?out @ ?gap)) (run P suf) =
     Ret ((?out @ ?gap @ run P suf) @ drop (length (?gap @ run P suf)) rest)"
    using rest unfolding copy_at_end by (simp add: add.commute)
  show ?thesis
  proof (rule loops_to_step [where nf' = "(n, ns @ [run P suf])" and rest' = "drop (length (?gap @ run P suf)) rest"])
    show "normalize_loop up sep P 0 (pre @ suf) (length pre) (?out @ rest)
         (length ?out) (length (render sep (elements (fst (n, ns), [])))) =
       normalize_loop up sep P 0 (pre @ suf) (length (pre @ run P suf))
         (render sep (elements (n, ns @ [run P suf])) @ drop (length (?gap @ run P suf)) rest)
         (length (render sep (elements (n, ns @ [run P suf]))))
         (length (render sep (elements (fst (n, ns @ [run P suf]), []))))"
      unfolding normalize_loop_name [of P suf, OF P suf(1,2)] gap bind_outcome.simps split_conv copy out
      by (simp add: suf(3,4) add.assoc)
  qed (use out rest suf later [OF room'] in \<open>auto simp del: elements_snoc\<close>)
qed

lemma normalize_loop_exact:
  assumes "\<not> P 46" "P sep" "normal_ok P nf"
    "length suf + (if elements nf \<noteq> [] \<and> suf \<noteq> [] \<and> \<not> P (hd suf) then 1 else 0) \<le> length rest"
  shows "loops_to up sep P pre suf nf rest"
  using assms
proof (induction P suf arbitrary: pre nf rest rule: names.induct)
  case (1 P)
  then show ?case by (auto simp: loops_to_def normalize_loop.simps)
next
  case (2 P c cs)
  obtain n ns where nf: "nf = (n, ns)" by (cases nf)
  show ?case
  proof (cases "P c")
    case True
    then have "loops_to up sep P (pre @ [c]) cs nf rest"
      using 2 by (auto split: if_splits)
    then show ?thesis
      using True 2(6) unfolding loops_to_def
      by (subst normalize_loop.simps) (auto simp: nth_append split: if_splits)
  next
    case False
    let ?suf = "c # cs"
    have IH: "loops_to up sep P (pre @ run P ?suf) (dropWhile (\<lambda>c. \<not> P c) ?suf) nf' rest'"
      if "normal_ok P nf'" "length (dropWhile (\<lambda>c. \<not> P c) ?suf) \<le> length rest'" for nf' rest'
      using 2(2) [OF False 2(3,4) that(1)] that(2) hd_dropWhile [of "\<lambda>c. \<not> P c" ?suf]
      by fastforce
    have suf: "?suf \<noteq> []" "\<not> P (hd ?suf)" using False by simp_all
    have room: "length ?suf + (if elements nf \<noteq> [] then 1 else 0) \<le> length rest" using 2(6) suf by simp
    consider "run P ?suf = [46]" | "run P ?suf = [46, 46]" "ns \<noteq> []" | "run P ?suf = [46, 46]" "ns = []"
      | "run P ?suf \<noteq> [46]" "run P ?suf \<noteq> [46, 46]" by blast
    then show ?thesis
    proof cases
      case 1
      have "length (dropWhile (\<lambda>c. \<not> P c) ?suf) \<le> length rest"
        using room length_dropWhile_le [of "\<lambda>c. \<not> P c" ?suf] by (simp split: if_splits)
      then show ?thesis using loops_to_dot [OF 2(3) suf 1] IH 2(5) by blast
    next
      case 2
      have "normal_ok P (n, butlast ns)"
        using \<open>normal_ok P nf\<close> nf by (auto simp: normal_ok_def list_all_iff dest: in_set_butlastD)
      then show ?thesis
        using loops_to_pop [OF \<open>\<not> P 46\<close> \<open>P sep\<close> suf 2(1) _ 2(2)] \<open>normal_ok P nf\<close> room IH nf by simp
    next
      case 3
      have "normal_ok P (n', [])" for n' by (simp add: normal_ok_def)
      then show ?thesis
        using loops_to_up [OF \<open>\<not> P 46\<close> suf 3(1)] room IH nf 3(2) by auto
    next
      case 4
      have x: "name_ok P (run P ?suf)" using names_ok [of P ?suf] False by simp
      then have "normal_ok P (n, ns @ [run P ?suf])"
        using \<open>normal_ok P nf\<close> nf by (auto simp: normal_ok_def)
      note IH' = IH [OF this]
      have "render sep (elements nf) \<noteq> [] \<Longrightarrow> elements nf \<noteq> []" by (metis render_Nil)
      then have room': "length ?suf + (if render sep (elements (n, ns)) \<noteq> [] then 1 else 0) \<le> length rest"
        using room nf by (simp split: if_splits)
      show ?thesis
        using loops_to_name [OF \<open>\<not> P 46\<close> suf 4 \<open>normal_ok P nf\<close> [unfolded nf] room' IH'] nf by simp
    qed
  qed
qed

subsection \<open>The normaliser on the platforms with \<open>/\<close>\<close>

lemma normal_form_ok: "normal_ok P (normal_form up (names P path))"
  unfolding normal_form_def by (rule fold_normal_ok [OF _ names_ok]) (simp add: normal_ok_def)

lemma normalized_Nil [simp]: "normalized up preserve sep P [] = []"
  by (simp add: normalized_def normal_form_def elements_def)

lemma loop_from_start:
  fixes up :: bool
  assumes "\<not> P 46" "P sep" "length path \<le> length buf"
  defines "out \<equiv> render sep (elements (normal_form up (names P path)))"
  shows "\<exists>rest. normalize_loop up sep P 0 path 0 buf 0 0 = Ret (out @ rest, length out) \<and>
      length out + length rest = length buf \<and> (path \<noteq> [] \<and> P (last path) \<longrightarrow> rest \<noteq> [])"
  using normalize_loop_exact [of P sep "(0, [])" path buf up "[]"] assms
  unfolding loops_to_def normal_form_def out_def by (simp add: normal_ok_def)

lemma render_fits:
  fixes up :: bool and path :: bytes
  assumes "\<not> P 46" "P sep"
  defines "out \<equiv> render sep (elements (normal_form up (names P path)))"
  shows "length out \<le> length path" "path \<noteq> [] \<Longrightarrow> P (last path) \<Longrightarrow> length out < length path"
proof -
  obtain rest :: bytes where "length out + length rest = length path"
      "path \<noteq> [] \<and> P (last path) \<longrightarrow> rest \<noteq> []"
    using loop_from_start [where P = P and sep = sep and path = path and buf = path and up = up,
        OF assms(1,2) le_refl] unfolding out_def by blast
  then show "length out \<le> length path" "path \<noteq> [] \<Longrightarrow> P (last path) \<Longrightarrow> length out < length path"
    by (auto simp flip: length_greater_0_conv)
qed

lemma normalized_length:
  assumes "\<not> P 46" "P sep"
  shows "length (normalized up preserve sep P path) \<le> length path"
proof (cases "path = []")
  case False
  then show ?thesis
    using render_fits [where P = P and sep = sep and up = up and path = path] assms
    by (auto simp: normalized_def Let_def)
qed simp

lemma normalize_generic:
  assumes P: "\<not> P 46" "P sep" and sep: "sep \<noteq> 92"
    and room: "length path + (if zt then 1 else 0) \<le> length buf"
  shows "\<exists>rest. normalize_string_generic_tz up preserve zt nt path buf sep P =
       Ret (normalized up preserve sep P path @ rest, length (normalized up preserve sep P path)) \<and>
     length (normalized up preserve sep P path) + length rest = length buf \<and>
     (zt \<longrightarrow> rest \<noteq> [] \<and> hd rest = 0)"
proof -
  let ?nf = "normal_form up (names P path)"
  let ?out = "render sep (elements ?nf)" and ?N = "normalized up preserve sep P path"
  obtain rest where loop: "normalize_loop up sep P 0 path 0 buf 0 0 = Ret (?out @ rest, length ?out)"
    and total: "length ?out + length rest = length buf"
    and left: "path \<noteq> [] \<and> P (last path) \<longrightarrow> rest \<noteq> []"
    using loop_from_start [of P sep path buf up] P room by (auto split: if_splits)
  have nonempty: "path \<noteq> []" if "?out \<noteq> []"
    using that by (auto simp: normal_form_def elements_def)
  have at_end: "(?out @ rest) ! (length ?out - 1) \<noteq> sep" if "?out \<noteq> []"
    using that render_elements_last [of P ?nf sep, OF P(1) normal_form_ok] P(2)
    by (cases "elements ?nf = []") (auto simp: nth_append last_conv_nth)
  have keep: "\<exists>rest'. (if preserve \<and> 0 < length ?out \<and> path ! (length path - 1) = sep \<and>
        (?out @ rest) ! (length ?out - 1) \<noteq> sep then
       bind_outcome (write_at (?out @ rest) (length ?out) sep) (\<lambda>buf. Ret (buf, length ?out + 1))
     else Ret (?out @ rest, length ?out)) = Ret (?N @ rest', length ?N) \<and>
     length ?N + length rest' = length buf"
  proof (cases "preserve \<and> ?out \<noteq> [] \<and> last path = sep")
    case True
    then have N: "?N = ?out @ [sep]" and last: "path ! (length path - 1) = sep" and "rest \<noteq> []"
      using nonempty left P(2) by (auto simp: normalized_def last_conv_nth)
    then obtain c cs where rest: "rest = c # cs" by (cases rest) auto
    show ?thesis
      using True at_end [OF True [THEN conjunct2, THEN conjunct1]] total
      unfolding N last rest by (intro exI [of _ cs]) (simp add: write_at_end)
  next
    case False
    then have "?N = ?out" by (auto simp: normalized_def)
    then show ?thesis using False nonempty total by (auto simp: last_conv_nth)
  qed
  then obtain rest' where keep: "(if preserve \<and> 0 < length ?out \<and> path ! (length path - 1) = sep \<and>
        (?out @ rest) ! (length ?out - 1) \<noteq> sep then
       bind_outcome (write_at (?out @ rest) (length ?out) sep) (\<lambda>buf. Ret (buf, length ?out + 1))
     else Ret (?out @ rest, length ?out)) = Ret (?N @ rest', length ?N)"
    and total': "length ?N + length rest' = length buf" by blast
  have "zt \<Longrightarrow> rest' \<noteq> []"
    using total' normalized_length [OF P, of up preserve path] room by (auto simp flip: length_greater_0_conv)
  then have zero: "zero_terminate zt (?N @ rest') (length ?N) =
      Ret (?N @ (if zt then 0 # tl rest' else rest'), length ?N)"
    by (simp add: zero_terminate_def write_at_end)
  have "normalize_string_generic_tz up preserve zt nt path buf sep P =
      Ret (?N @ (if zt then 0 # tl rest' else rest'), length ?N)"
    unfolding normalize_string_generic_tz_def
    by (simp only: sep Let_def if_False bind_outcome.simps split_conv loop keep zero simp_thms)
  moreover have "length ?N + length (if zt then 0 # tl rest' else rest') = length buf"
    using total' \<open>zt \<Longrightarrow> rest' \<noteq> []\<close> by (cases rest') auto
  ultimately show ?thesis by (intro exI [of _ "if zt then 0 # tl rest' else rest'"]) auto
qed



subsection \<open>Normal forms are stable\<close>

lemma names_append:
  "s' = [] \<or> P (hd s') \<Longrightarrow> names P (s @ s') = names P s @ names P s'"
proof (induction P s rule: names.induct)
  case (2 P c cs)
  have t: "takeWhile (\<lambda>c. \<not> P c) s' = []" "dropWhile (\<lambda>c. \<not> P c) s' = s'"
    using 2(3) by (cases s'; simp)+
  have "takeWhile (\<lambda>c. \<not> P c) (cs @ s') = takeWhile (\<lambda>c. \<not> P c) cs \<and>
    dropWhile (\<lambda>c. \<not> P c) (cs @ s') = dropWhile (\<lambda>c. \<not> P c) cs @ s'"
    by (induction cs) (simp_all add: t)
  then show ?case using 2 by simp
qed simp

lemma names_single: "name_ok P x \<Longrightarrow> names P x = [x]"
proof -
  assume "name_ok P x"
  then obtain c cs where x: "x = c # cs" "\<not> P c" "\<forall>c \<in> set cs. \<not> P c"
    by (cases x) (auto simp: name_ok_def list_all_iff)
  then have "takeWhile (\<lambda>c. \<not> P c) cs = cs" "dropWhile (\<lambda>c. \<not> P c) cs = []" by simp_all
  then show ?thesis using x by (simp del: dropWhile_eq_Nil_conv takeWhile_eq_all_conv)
qed

lemma names_seps: "list_all (name_ok P) xs \<Longrightarrow> P sep \<Longrightarrow> names P (concat (map ((#) sep) xs)) = xs"
proof (induction xs)
  case (Cons x xs)
  have "concat (map ((#) sep) xs) = [] \<or> P (hd (concat (map ((#) sep) xs)))"
    using Cons.prems by (cases xs) simp_all
  then show ?case using Cons names_append [of "concat (map ((#) sep) xs)" P x] by (simp add: names_single)
qed simp

lemma names_render:
  assumes "list_all (name_ok P) xs" "P sep"
  shows "names P (render sep xs) = xs"
proof -
  have "names P (concat (map ((#) sep) xs)) = xs" using assms by (rule names_seps)
  then show ?thesis using assms(2) by (cases xs) (simp_all add: render_def)
qed

lemma names_trailing: "P sep \<Longrightarrow> names P (s @ [sep]) = names P s"
  by (simp add: names_append)

text \<open>What a normal form looks like: no \<open>.\<close>, and \<open>..\<close> only in front and only with \<open>up\<close>.\<close>

definition is_normal :: "bool \<Rightarrow> normal \<Rightarrow> bool" where
  "is_normal up nf \<longleftrightarrow> [46] \<notin> set (snd nf) \<and> [46, 46] \<notin> set (snd nf) \<and> (\<not> up \<longrightarrow> fst nf = 0)"

lemma normal_step_normal: "is_normal up nf \<Longrightarrow> is_normal up (normal_step up x nf)"
  by (cases nf) (auto simp: is_normal_def dest: in_set_butlastD)

lemma fold_normal: "is_normal up nf \<Longrightarrow> is_normal up (fold (normal_step up) xs nf)"
  by (induction xs arbitrary: nf) (auto simp: normal_step_normal)

lemma normal_form_normal: "is_normal up (normal_form up xs)"
  unfolding normal_form_def by (rule fold_normal) (simp add: is_normal_def)

lemma fold_ups: "fold (normal_step True) (replicate n [46, 46]) (m, []) = (m + n, [])"
  by (induction n arbitrary: m) simp_all

lemma fold_names:
  "[46] \<notin> set xs \<Longrightarrow> [46, 46] \<notin> set xs \<Longrightarrow> fold (normal_step up) xs (n, ns) = (n, ns @ xs)"
  by (induction xs arbitrary: ns) auto

lemma normal_form_elements: "is_normal up nf \<Longrightarrow> normal_form up (elements nf) = nf"
proof -
  assume a: "is_normal up nf"
  have "fold (normal_step up) (replicate (fst nf) [46, 46]) (0, []) = (fst nf, [])"
    using a fold_ups [of "fst nf" 0] by (cases up) (simp_all add: is_normal_def)
  then show ?thesis
    using a fold_names [of "snd nf" up "fst nf" "[]"]
    by (simp add: normal_form_def elements_def is_normal_def)
qed

lemma names_normalized:
  assumes "\<not> P 46" "P sep"
  shows "names P (normalized up preserve sep P path) = elements (normal_form up (names P path))"
  using names_render [of P "elements (normal_form up (names P path))" sep]
    elements_ok [of P "normal_form up (names P path)", OF assms(1) normal_form_ok] names_trailing [of P sep] assms(2)
  by (simp add: normalized_def Let_def)

lemma normalized_idem:
  assumes "\<not> P 46" "P sep"
  shows "normalized up preserve sep P (normalized up preserve sep P path) = normalized up preserve sep P path"
proof -
  let ?N = "normalized up preserve sep P path" and ?nf = "normal_form up (names P path)"
  have "normal_form up (names P ?N) = ?nf"
    using names_normalized [OF assms] normal_form_elements [OF normal_form_normal] by simp
  moreover have "\<not> P (last (render sep (elements ?nf)))" if "render sep (elements ?nf) \<noteq> []"
    using that render_elements_last [of P ?nf sep, OF assms(1) normal_form_ok] by (metis render_Nil)
  ultimately show ?thesis
    using assms(2) unfolding normalized_def [of up preserve sep P ?N] by (auto simp: normalized_def Let_def)
qed

subsection \<open>Volumes\<close>

text \<open>
  With \<open>\\<close> as separator (written \<open>92\<close>), a drive letter is a root that \<open>..\<close> does not leave. The
  share of a UNC path is not: \<open>dotdot\<close> stays 0 there, so that two \<open>..\<close> behind \<open>\\s\h\<close> remove the
  share, and the name after them takes its place. And \<open>..\<close> behind the root of a drive, where it is
  kept, is written after a second separator.
\<close>

lemma drive_root_kept:
  "bind_outcome (normalize_string_buf False Windows False [99, 58, 92, 46, 46, 92, 120] (replicate 16 0))
     (\<lambda>(b, n). Ret (take n b)) = Ret [67, 58, 92, 120]"
  by code_simp

lemma unc_share_left:
  "bind_outcome
     (normalize_string_buf False Windows False [92, 92, 115, 92, 104, 92, 46, 46, 92, 46, 46, 92, 120] (replicate 16 0))
     (\<lambda>(b, n). Ret (take n b)) = Ret [92, 92, 115, 92, 120]"
  by code_simp

lemma drive_root_dotdot_doubled:
  "bind_outcome (normalize_buf_t Windows [67, 58, 92, 46, 46, 92, 120] (replicate 16 0)) (\<lambda>(b, n). Ret (take n b)) =
     Ret [67, 58, 92, 92, 46, 46, 92, 120]"
  by code_simp

subsection \<open>The contract of the callers\<close>

text \<open>
  What the callers rely on, for a separator and a test for separators: the loose test, the POSIX
  test, and the comparison with \<open>/\<close> of the archive code meet it.
\<close>

locale separators =
  fixes is_sep :: "u8 \<Rightarrow> bool" and sep :: u8
  assumes dot: "\<not> is_sep 46" and sep: "is_sep sep" and posix: "sep \<noteq> 92"
begin

lemma generic:
  assumes "length path \<le> length buf"
  shows "\<exists>rest. normalize_string_generic_t up preserve path buf sep is_sep =
      Ret (normalized up preserve sep is_sep path @ rest, length (normalized up preserve sep is_sep path)) \<and>
    length (normalized up preserve sep is_sep path) + length rest = length buf"
  using normalize_generic [of is_sep sep path False buf up preserve False] dot sep posix assms
  by (auto simp: normalize_string_generic_t_def)

lemma fits: "length (normalized up preserve sep is_sep path) \<le> length path"
  using dot sep by (rule normalized_length)

lemma idem: "normalized up preserve sep is_sep (normalized up preserve sep is_sep path) = normalized up preserve sep is_sep path"
  using dot sep by (rule normalized_idem)

lemma again:
  assumes "normalize_string_generic_t up preserve path buf sep is_sep = Ret (b, n)"
    and "length path \<le> length buf" "n \<le> length buf'"
  shows "\<exists>b'. normalize_string_generic_t up preserve (take n b) buf' sep is_sep = Ret (b', n) \<and> take n b' = take n b"
  using generic [OF assms(2), of up preserve] generic [of "take n b" buf' up preserve] assms idem
  by fastforce

end

lemma is_sep_any_simps [simp]: "is_sep_any 47" "is_sep_any 92" "\<not> is_sep_any 46"
  by (simp_all add: is_sep_any_def)

lemma is_sep_posix_simps [simp]: "is_sep_posix 47" "\<not> is_sep_posix 46"
  by (simp_all add: is_sep_posix_def)

interpretation loose: separators is_sep_any 47
  by unfold_locales simp_all

interpretation posix: separators is_sep_posix 47
  by unfold_locales simp_all

interpretation slash: separators "\<lambda>c. c = 47" 47
  by unfold_locales simp_all

end
