(* ===== verification/PathsBounds.thy ===== *)
theory PathsBounds
  imports PathsNormalize
begin

text \<open>
  The room that the normaliser needs on every platform: the output is at most one byte longer
  than the input, also behind a drive letter, a UNC volume or a root, where separators are written
  that the input does not have. \<open>normalize_string_spill\<close> sizes its buffer by this.
\<close>

subsection \<open>The loop\<close>

lemma element_end_spec:
  "r \<le> length path \<Longrightarrow> element_end P path r \<le> length path \<and>
   (element_end P path r < length path \<longrightarrow> P (path ! element_end P path r)) \<and>
   (r < element_end P path r \<longrightarrow> \<not> P (path ! (element_end P path r - 1)))"
proof (induction P path r rule: element_end.induct)
  case (1 P path r)
  show ?case
  proof (cases "r < length path \<and> \<not> P (path ! r)")
    case True
    then have "element_end P path r = element_end P path (r + 1)" by (subst element_end.simps) simp
    moreover have "\<not> P (path ! (element_end P path (r + 1) - 1))"
      using 1(1) True element_end_ge [of "r + 1" P path] by (cases "r + 1 < element_end P path (r + 1)") auto
    ultimately show ?thesis using 1(1) True by simp
  next
    case False
    then show ?thesis using 1(2) by (subst (1 2 3 4 5) element_end.simps) auto
  qed
qed

lemma pop_element_le: "pop_element P buf d i \<le> i"
proof (induction P buf d i rule: pop_element.induct)
  case (1 P buf d i)
  then show ?case by (subst pop_element.simps) (auto intro: le_trans)
qed

definition room_inv :: "(u8 \<Rightarrow> bool) \<Rightarrow> nat \<Rightarrow> bytes \<Rightarrow> nat \<Rightarrow> nat \<Rightarrow> bool" where
  "room_inv P start path r i \<longleftrightarrow> r \<le> length path \<and> i \<le> start + r + 1 \<and>
     ((r = 0 \<or> P (path ! (r - 1))) \<longrightarrow> i \<le> start + r) \<and>
     (r < length path \<and> \<not> P (path ! r) \<longrightarrow> r = 0 \<or> P (path ! (r - 1)))"

definition loop_room :: "bool \<Rightarrow> u8 \<Rightarrow> (u8 \<Rightarrow> bool) \<Rightarrow> nat \<Rightarrow> bytes \<Rightarrow> nat \<Rightarrow> bytes \<Rightarrow> nat \<Rightarrow> nat \<Rightarrow> bool" where
  "loop_room up sep P start path r buf i d \<longleftrightarrow>
     (\<exists>buf' i'. normalize_loop up sep P start path r buf i d = Ret (buf', i') \<and> length buf' = length buf \<and>
        i' \<le> start + length path + 1 \<and> (path = [] \<or> P (last path) \<longrightarrow> i' \<le> start + length path))"

lemma copy_at_room: "i + length xs \<le> length buf \<Longrightarrow> \<exists>buf'. copy_at buf i xs = Ret buf' \<and> length buf' = length buf"
  by (simp add: copy_at_def)

lemma loop_room_same:
  "normalize_loop up sep P start path r buf i d = normalize_loop up sep P start path r' buf' i' d' \<Longrightarrow>
   length buf' = length buf \<Longrightarrow> loop_room up sep P start path r' buf' i' d' \<Longrightarrow> loop_room up sep P start path r buf i d"
  by (auto simp: loop_room_def)

text \<open>The step at the start of a name.\<close>

lemma loop_room_name:
  assumes less: "r < length path" and sep: "\<not> P (path ! r)" and i: "i \<le> start + r"
    and room: "start + length path + 1 \<le> length buf"
    and later: "\<And>r' buf' i' d'. r < r' \<Longrightarrow> room_inv P start path r' i' \<Longrightarrow> length buf' = length buf \<Longrightarrow>
      loop_room up sep P start path r' buf' i' d'"
  shows "loop_room up sep P start path r buf i d"
proof -
  let ?L = "normalize_loop up sep P start path"
  have inv: "room_inv P start path r' i'"
    if "r < r'" "r' \<le> length path" "\<not> P (path ! (r' - 1))" "r' = length path \<or> P (path ! r')" "i' \<le> start + r' + 1" for r' i'
    using that by (auto simp: room_inv_def)
  consider (dot) "path ! r = 46 \<and> (r + 1 = length path \<or> P (path ! (r + 1)))"
    | (dotdot) "\<not> (path ! r = 46 \<and> (r + 1 = length path \<or> P (path ! (r + 1))))"
        "is_dotdot (drop r path) \<and> (r + 2 = length path \<or> P (path ! (r + 2)))"
    | (name) "\<not> (path ! r = 46 \<and> (r + 1 = length path \<or> P (path ! (r + 1))))"
        "\<not> (is_dotdot (drop r path) \<and> (r + 2 = length path \<or> P (path ! (r + 2))))" by blast
  then show ?thesis
  proof cases
    case dot
    then have "?L r buf i d = ?L (r + 1) buf i d" using less sep by (subst normalize_loop.simps) simp
    moreover have "room_inv P start path (r + 1) i" by (rule inv) (use dot less sep i in auto)
    ultimately show ?thesis using loop_room_same later by (metis less_add_one)
  next
    case dotdot
    have r2: "r + 2 \<le> length path" "path ! r = 46" "path ! (r + 1) = 46"
      using dotdot(2) by (auto simp: is_dotdot_def)
    have inv2: "room_inv P start path (r + 2) i'" if "i' \<le> start + r + 3" for i'
      by (rule inv) (use dotdot r2 sep that in auto)
    show ?thesis
    proof (cases "\<not> d < i \<and> up")
      case True
      let ?new = "if start < i then [sep, 46, 46] else [46, 46]"
      have "length ?new \<le> 3" by simp
      then have "i + length ?new \<le> length buf" using i r2(1) room by linarith
      then obtain buf' where buf': "copy_at buf i ?new = Ret buf'" "length buf' = length buf"
        using copy_at_room by blast
      have "?L r buf i d = ?L (r + 2) buf' (i + length ?new) (i + length ?new)"
        using True less sep dotdot buf'(1)
        by (subst normalize_loop.simps) (auto simp: numeral_3_eq_3 numeral_2_eq_2 split: if_splits)
      moreover have "room_inv P start path (r + 2) (i + length ?new)" by (rule inv2) (use i in auto)
      ultimately show ?thesis using loop_room_same later buf'(2) by (metis less_add_same_cancel1 zero_less_numeral)
    next
      case False
      let ?i = "if d < i then pop_element P buf d (i - 1) else i"
      have "?L r buf i d = ?L (r + 2) buf ?i d"
        using False less sep dotdot by (subst normalize_loop.simps) auto
      moreover have "room_inv P start path (r + 2) ?i"
        by (rule inv2) (use i pop_element_le [of P buf d "i - 1"] in auto)
      ultimately show ?thesis using loop_room_same later by (metis less_add_same_cancel1 zero_less_numeral)
    qed
  next
    case name
    define e where "e = element_end P path r"
    note e = element_end_spec [OF less_imp_le [OF less], of P, folded e_def]
    have "r < e" unfolding e_def using less sep by (rule element_end_greater [where is_sep = P])
    let ?x = "take (e - r) (drop r path)"
    have "e \<le> length path" using e by blast
    then have x: "length ?x = e - r" by simp
    obtain b j where gap: "(if i \<noteq> start \<and> 0 < i \<and> \<not> P (buf ! (i - 1)) then
        bind_outcome (write_at buf i sep) (\<lambda>buf. Ret (buf, i + 1)) else Ret (buf, i)) = Ret (b, j)"
      and j: "length b = length buf" "j \<le> i + 1"
    proof (cases "i \<noteq> start \<and> 0 < i \<and> \<not> P (buf ! (i - 1))")
      case True
      moreover have "write_at buf i sep = Ret (buf[i := sep])" using i less room by (simp add: write_at_def)
      ultimately show thesis using that [of "buf[i := sep]" "i + 1"] by simp
    next
      case False
      show thesis by (rule that [OF if_not_P [OF False] refl]) simp
    qed
    have "j + (e - r) \<le> length b" using j i e room \<open>r < e\<close> by linarith
    then obtain b' where copy: "copy_at b j ?x = Ret b'" "length b' = length buf"
      using copy_at_room [of j ?x b] x j(1) by auto
    have "?L r buf i d = ?L e b' (j + (e - r)) d"
      by (subst normalize_loop.simps)
        (simp only: less sep name if_True if_False gap bind_outcome.simps split_conv Let_def e_def [symmetric] copy(1))
    moreover have "room_inv P start path e (j + (e - r))"
      by (rule inv) (use e \<open>r < e\<close> j i in auto)
    ultimately show ?thesis using loop_room_same later \<open>r < e\<close> copy(2) by metis
  qed
qed

lemma normalize_loop_room:
  assumes "room_inv P start path r i" "start + length path + 1 \<le> length buf"
  shows "loop_room up sep P start path r buf i d"
  using assms
proof (induction "length path - r" arbitrary: r buf i d rule: less_induct)
  case (less r buf i d)
  have "r \<le> length path" using less.prems(1) by (simp add: room_inv_def)
  then consider "r = length path" | "r < length path" "P (path ! r)" | "r < length path" "\<not> P (path ! r)"
    by fastforce
  then show ?case
  proof cases
    case 1
    then show ?thesis
      using less.prems by (cases "path = []") (auto simp: loop_room_def normalize_loop.simps room_inv_def last_conv_nth)
  next
    case 2
    then have "normalize_loop up sep P start path r buf i d = normalize_loop up sep P start path (r + 1) buf i d"
      by (subst normalize_loop.simps) simp
    moreover have "room_inv P start path (r + 1) i" using less.prems 2 by (auto simp: room_inv_def)
    ultimately show ?thesis
      using loop_room_same [OF _ refl] less.hyps [of "r + 1" i buf d] 2 less.prems(2) by simp
  next
    case 3
    show ?thesis
    proof (rule loop_room_name [where P = P])
      show "r < length path" "\<not> P (path ! r)" "start + length path + 1 \<le> length buf"
        using 3 less.prems(2) by simp_all
      show "i \<le> start + r" using less.prems(1) 3 by (auto simp: room_inv_def)
    next
      fix r' :: nat and buf' :: bytes and i' d' :: nat
      assume "r < r'" "room_inv P start path r' i'" "length buf' = length buf"
      then show "loop_room up sep P start path r' buf' i' d'"
        using less.hyps [of r' i' buf' d'] 3(1) less.prems(2) by simp
    qed
  qed
qed

subsection \<open>The prefix\<close>

lemma first_index_less: "first_index P s = Some k \<Longrightarrow> k < length s"
  by (induction s arbitrary: k) (auto split: if_splits)

lemma volume_len:
  assumes "windows_volume_name_len path = (vol, third)"
  shows "vol \<le> length path"
    "0 < vol \<Longrightarrow> path ! 1 \<noteq> 58 \<Longrightarrow> 4 \<le> vol \<and> (0 < third \<longrightarrow> 3 \<le> third \<and> third < vol)"
    "0 < vol \<Longrightarrow> 2 \<le> length path"
proof -
  have "vol \<le> length path \<and> (0 < vol \<longrightarrow> 2 \<le> length path \<and>
     (path ! 1 \<noteq> 58 \<longrightarrow> 4 \<le> vol \<and> (0 < third \<longrightarrow> 3 \<le> third \<and> third < vol)))"
    using assms unfolding windows_volume_name_len_def
    by (auto split: if_splits option.splits dest!: first_index_less)
  then show "vol \<le> length path"
    "0 < vol \<Longrightarrow> path ! 1 \<noteq> 58 \<Longrightarrow> 4 \<le> vol \<and> (0 < third \<longrightarrow> 3 \<le> third \<and> third < vol)"
    "0 < vol \<Longrightarrow> 2 \<le> length path" by auto
qed

lemma unc_prefix_room:
  assumes "4 \<le> vol" "0 < third \<Longrightarrow> 3 \<le> third \<and> third < vol" "vol \<le> length path" "vol + 1 \<le> length buf"
  shows "\<exists>buf'. unc_prefix False sep path vol third buf 0 = Ret (buf', vol + 1) \<and> length buf' = length buf"
proof -
  obtain b where b: "copy_at buf 0 [sep, sep] = Ret b" "length b = length buf"
    using copy_at_room [of 0 "[sep, sep]" buf] assms by auto
  have "\<exists>b'. (if 0 < third then
        bind_outcome (copy_at b (0 + 2) (take (third - 1) (drop 2 path))) (\<lambda>buf.
        bind_outcome (write_at buf (0 + third) sep) (\<lambda>buf.
        copy_at buf (0 + third + 1) (take (vol - (third + 1)) (drop (third + 1) path))))
      else copy_at b (0 + 2) (take (vol - 2) (drop 2 path))) = Ret b' \<and> length b' = length buf"
  proof (cases "0 < third")
    case True
    then have t: "3 \<le> third" "third < vol" using assms(2) by auto
    have "0 + 2 + length (take (third - 1) (drop 2 path)) \<le> length b" using t assms b(2) by simp
    then obtain b1 where b1: "copy_at b (0 + 2) (take (third - 1) (drop 2 path)) = Ret b1" "length b1 = length b"
      using copy_at_room by blast
    have "0 + third + 1 + length (take (vol - (third + 1)) (drop (third + 1) path)) \<le> length (b1[third := sep])"
      using t assms b(2) b1(2) by simp
    then obtain b2 where b2: "copy_at (b1[third := sep]) (0 + third + 1) (take (vol - (third + 1)) (drop (third + 1) path)) = Ret b2"
        "length b2 = length b1"
      using copy_at_room by force
    have "write_at b1 (0 + third) sep = Ret (b1[third := sep])" using t assms(4) b(2) b1(2) by (simp add: write_at_def)
    then show ?thesis using True b b1 b2 by simp
  next
    case False
    have "0 + 2 + length (take (vol - 2) (drop 2 path)) \<le> length b" using assms b(2) by simp
    then show ?thesis using False copy_at_room b(2) by force
  qed
  then show ?thesis using b assms(4) by (auto simp: unc_prefix_def write_at_def)
qed

lemma windows_prefix_room:
  assumes "length path + 1 \<le> length buf"
  shows "\<exists>buf' i d begin only. windows_prefix False sep P path buf = Ret (buf', i, d, begin, only) \<and>
    length buf' = length buf \<and> i \<le> length path + 1 \<and>
    (\<not> only \<longrightarrow> i = begin \<and> begin \<le> length path)"
proof -
  obtain vol third where v: "windows_volume_name_len path = (vol, third)" by fastforce
  note len = volume_len [OF v]
  consider (unc) "0 < vol" "path ! 1 \<noteq> 58" | (drive) "0 < vol" "path ! 1 = 58" | (root) "vol = 0" "path \<noteq> [] \<and> P (path ! 0)"
    | (none) "vol = 0" "\<not> (path \<noteq> [] \<and> P (path ! 0))" by blast
  then show ?thesis
  proof cases
    case unc
    obtain buf' where "unc_prefix False sep path vol third buf 0 = Ret (buf', vol + 1)" "length buf' = length buf"
      using unc_prefix_room [of vol third path buf sep] len(1,2) unc assms by auto
    then show ?thesis using unc v len(1) assms by (auto simp: windows_prefix_def)
  next
    case drive
    obtain buf' where "copy_at buf 0 [to_ascii_upper (path ! 0), 58] = Ret buf'" "length buf' = length buf"
      using copy_at_room [of 0 "[to_ascii_upper (path ! 0), 58]" buf] assms len(3) drive by auto
    then show ?thesis using drive v len(3) by (auto simp: windows_prefix_def)
  next
    case root
    then show ?thesis using v assms by (cases path) (auto simp: windows_prefix_def write_at_def)
  next
    case none
    then show ?thesis using v by (auto simp: windows_prefix_def)
  qed
qed

text \<open>A single byte, where the output is never two bytes long.\<close>

lemma windows_single:
  assumes "2 \<le> length buf"
  shows "\<exists>buf' n. normalize_string_generic_tz up preserve False False [c] buf 92 is_sep_any = Ret (buf', n) \<and>
    length buf' = length buf \<and> n \<le> 1"
proof -
  obtain b0 b1 b where buf: "buf = b0 # b1 # b" using assms by (cases buf; cases "tl buf") auto
  have vol: "windows_volume_name_len [c] = (0, 0)" by (simp add: windows_volume_name_len_def)
  have loop0: "normalize_loop up 92 is_sep_any 1 [] 0 (92 # b1 # b) 1 1 = Ret (92 # b1 # b, 1)"
    by (subst normalize_loop.simps) simp
  have ends: "element_end is_sep_any [c] 0 = 1" if "\<not> is_sep_any c"
    using that by (subst element_end.simps, subst element_end.simps) simp
  have loop1: "normalize_loop up 92 is_sep_any 0 [a] (Suc 0) x n d = Ret (x, n)" for a x n d
    by (subst normalize_loop.simps) simp
  have loop2: "\<exists>x n. normalize_loop up 92 is_sep_any 0 [c] 0 (b0 # b1 # b) 0 0 = Ret (x # b1 # b, n) \<and> n \<le> 1"
    if "\<not> is_sep_any c"
    using that ends [OF that]
    by (subst normalize_loop.simps) (auto simp: is_dotdot_def copy_at_def loop1)
  show ?thesis
  proof (cases "is_sep_any c")
    case True
    then show ?thesis
      using loop0 by (simp add: normalize_string_generic_tz_def windows_prefix_def vol buf write_at_def zero_terminate_def Let_def)
  next
    case False
    then obtain x n where "normalize_loop up 92 is_sep_any 0 [c] 0 (b0 # b1 # b) 0 0 = Ret (x # b1 # b, n)" "n \<le> 1"
      using loop2 by blast
    moreover have "c \<noteq> 92" using False by auto
    ultimately show ?thesis
      using False by (simp add: normalize_string_generic_tz_def windows_prefix_def vol buf zero_terminate_def Let_def)
  qed
qed

lemma normalize_windows_room:
  assumes room: "length path + 1 \<le> length buf"
  shows "\<exists>buf' n. normalize_string_generic_tz up preserve False False path buf 92 is_sep_any = Ret (buf', n) \<and>
    length buf' = length buf \<and> n \<le> length path + 1"
proof (cases "length path = 1")
  case True
  then obtain c where "path = [c]" by (cases path) auto
  then show ?thesis using windows_single [of buf up preserve c] room by fastforce
next
  case False
  obtain b i d start only where pre: "windows_prefix False 92 is_sep_any path buf = Ret (b, i, d, start, only)"
    and b: "length b = length buf" "i \<le> length path + 1" and start: "\<not> only \<longrightarrow> i = start \<and> start \<le> length path"
    using windows_prefix_room [OF room, of 92 is_sep_any] by blast
  show ?thesis
  proof (cases only)
    case True
    then show ?thesis
      using pre b by (simp add: normalize_string_generic_tz_def zero_terminate_def Let_def)
  next
    case False
    let ?path = "drop i path"
    have i: "start = i" "i \<le> length path" using start False by auto
    let ?lead = "(up \<or> 0 < fst (windows_volume_name_len path)) \<and> ?path \<noteq> [] \<and> is_sep_any (?path ! 0)"
    let ?r = "if ?lead then 1 else 0 :: nat"
    define b1 where "b1 = (if ?lead then b[i := 92] else b)"
    have lead: "(if True \<and> ?lead then
        bind_outcome (write_at b i 92) (\<lambda>buf. Ret (1, buf, i + 1, i + 1)) else Ret (0, b, i, d)) =
      Ret (?r, b1, i + ?r, if ?lead then i + 1 else d)"
      using i(2) room b(1) by (auto simp: b1_def write_at_def)
    have inv: "room_inv is_sep_any i ?path ?r (i + ?r)"
      by (cases "?path = []") (auto simp: room_inv_def Suc_le_eq)
    have "i + length ?path + 1 \<le> length b1" using room b(1) i(2) by (simp add: b1_def)
    from normalize_loop_room [OF inv this, of up 92 "if ?lead then i + 1 else d"]
    obtain b2 j where loop: "normalize_loop up 92 is_sep_any i ?path ?r b1 (i + ?r) (if ?lead then i + 1 else d) = Ret (b2, j)"
      and b2: "length b2 = length buf" "j \<le> length path + 1" "?path = [] \<or> is_sep_any (last ?path) \<longrightarrow> j \<le> length path"
      using i(2) b(1) by (auto simp: loop_room_def b1_def)
    have j: "j \<le> length path" if "path ! (length path - 1) = 92"
      using that b2(3) by (cases "?path = []") (auto simp: last_drop last_conv_nth)
    define keep where "keep \<longleftrightarrow> preserve \<and> 0 < j \<and> path ! (length path - 1) = 92 \<and> b2 ! (j - 1) \<noteq> 92"
    define b3 k where "b3 = (if keep then b2[j := 92] else b2)" and "k = (if keep then j + 1 else j)"
    have trail: "(if preserve \<and> 0 < j \<and> path ! (length path - 1) = 92 \<and> b2 ! (j - 1) \<noteq> 92 then
        bind_outcome (write_at b2 j 92) (\<lambda>buf. Ret (buf, j + 1)) else Ret (b2, j)) = Ret (b3, k)"
      and k: "k \<le> length path + 1" "length b3 = length buf"
      using j room b2(1,2) by (auto simp: keep_def b3_def k_def write_at_def)
    have two: "2 \<le> length path" if "k = 2"
    proof (cases "path = []")
      case True
      then show ?thesis using b2(3) that by (auto simp: k_def keep_def)
    next
      case False
      then show ?thesis using \<open>length path \<noteq> 1\<close> by (cases path; cases "tl path") auto
    qed
    let ?c = "if ?path \<noteq> [] \<and> ?path ! 0 = 92 then 92 else 46"
    have dot: "\<exists>b4 m. (if True \<and> k = 2 \<and> b3 ! 1 = 58 then
        bind_outcome (write_at b3 k ?c) (\<lambda>buf. Ret (buf, k + 1)) else Ret (b3, k)) = Ret (b4, m) \<and>
       length b4 = length buf \<and> m \<le> length path + 1"
    proof (cases "k = 2 \<and> b3 ! 1 = 58")
      case True
      then have "write_at b3 k ?c = Ret (b3[k := ?c])" using two k(2) room by (simp add: write_at_def)
      then show ?thesis using True two k(2) by simp
    qed (use k in auto)
    then obtain b4 m where dot: "(if True \<and> k = 2 \<and> b3 ! 1 = 58 then
        bind_outcome (write_at b3 k ?c) (\<lambda>buf. Ret (buf, k + 1)) else Ret (b3, k)) = Ret (b4, m)"
      and m: "length b4 = length buf" "m \<le> length path + 1" by blast
    have "normalize_string_generic_tz up preserve False False path buf 92 is_sep_any = Ret (b4, m)"
      unfolding normalize_string_generic_tz_def Let_def
      by (simp only: refl if_True pre bind_outcome.simps split_conv False if_False i(1) lead loop trail dot
          zero_terminate_def)
    then show ?thesis using m by blast
  qed
qed

subsection \<open>The callers\<close>

lemma normalize_buf_room:
  assumes "p \<noteq> Nt" "length path + 1 \<le> length buf"
  shows "\<exists>buf' n. normalize_string_buf up p preserve path buf = Ret (buf', n) \<and>
    length buf' = length buf \<and> n \<le> length path + 1"
proof (cases "p = Windows")
  case True
  then show ?thesis
    using normalize_windows_room [OF assms(2), of up preserve]
    by (simp add: normalize_string_windows_t_def normalize_string_generic_t_def)
next
  case False
  then have "normalize_string_buf up p preserve path buf = normalize_string_generic_t up preserve path buf 47 is_sep_any"
    using assms(1) by (cases p) (simp_all add: normalize_string_loose_buf_t_def)
  then show ?thesis
    using loose.generic [of path buf up preserve] loose.fits [of up preserve path] assms(2) by fastforce
qed

text \<open>
  C40: \<open>normalize_string_spill\<close> never panics: on the platforms \<open>Posix\<close>, \<open>Loose\<close> and \<open>Windows\<close>, for
  every path, whatever the buffers hold and however long the spill is, the buffer it chooses has
  room for the result, which is at most one byte longer than the path (a bare UNC volume gains a
  separator).
\<close>

theorem normalize_spill_room:
  assumes "p \<noteq> Nt" "length parser_buffer = PARSER_BUFFER_LEN"
  shows "\<exists>buf n. normalize_string_spill up p parser_buffer spill path = Ret (buf, n) \<and>
    n \<le> length path + 1 \<and> n \<le> length buf"
proof -
  let ?buf = "if length path + 1 \<le> PARSER_BUFFER_LEN then parser_buffer
    else if length spill < length path + 1 then spill @ replicate (length path + 1 - length spill) 0 else spill"
  have room: "length path + 1 \<le> length ?buf" using assms(2) by auto
  have "normalize_string_spill up p parser_buffer spill path = normalize_string_buf up p False path ?buf"
    by (simp add: normalize_string_spill_def normalize_string_def)
  then show ?thesis using normalize_buf_room [OF assms(1) room, of up False] room by fastforce
qed

theorem normalize_spill_room_witness:
  "\<exists>buf n. normalize_string_spill True Windows (replicate 1024 0) [] ([92, 92] @ replicate 1022 115) = Ret (buf, n) \<and>
    n \<le> 1025 \<and> n \<le> length buf"
  using normalize_spill_room [of Windows "replicate 1024 0" True "[]" "[92, 92] @ replicate 1022 115"]
  by (simp add: PARSER_BUFFER_LEN_def)

end
