(* ===== verification/PathsJoin.thy ===== *)
theory PathsJoin
  imports PathsNormalize
begin

text \<open>
  Resolving and joining (\<open>join_abs_string_buf\<close>, \<open>join_abs_string_buf_checked\<close>,
  \<open>normalize_string_node_t\<close>, \<open>join_string_buf_t\<close>) on the platform \<open>Posix\<close>: what is returned, in
  terms of the names of the parts, and that every buffer the code sizes is large enough.
\<close>

subsection \<open>The last absolute part\<close>

definition is_abs :: "bytes \<Rightarrow> bool" where
  "is_abs part \<longleftrightarrow> is_absolute Posix part"

text \<open>The directory and the parts resolved against it.\<close>

definition resolve_base :: "bytes \<Rightarrow> bytes list \<Rightarrow> bytes \<times> bytes list" where
  "resolve_base cwd parts =
     (let after = takeWhile (\<lambda>p. \<not> is_abs p) (rev parts);
          before = dropWhile (\<lambda>p. \<not> is_abs p) (rev parts) in
      (if before = [] then cwd else hd before, rev after))"

lemma resolve_base_none:
  "list_all (\<lambda>p. \<not> is_abs p) parts \<Longrightarrow> resolve_base cwd parts = (cwd, parts)"
proof -
  assume "list_all (\<lambda>p. \<not> is_abs p) parts"
  then have "takeWhile (\<lambda>p. \<not> is_abs p) (rev parts) = rev parts"
    "dropWhile (\<lambda>p. \<not> is_abs p) (rev parts) = []"
    by (simp_all add: list_all_iff takeWhile_eq_all_conv)
  then show ?thesis unfolding resolve_base_def by (simp only: Let_def simp_thms if_True rev_rev_ident)
qed

lemma resolve_base_abs:
  "is_abs a \<Longrightarrow> resolve_base cwd (xs @ a # ys) = resolve_base a ys"
proof (cases "list_all (\<lambda>p. \<not> is_abs p) ys")
  case True
  assume "is_abs a"
  moreover have "takeWhile (\<lambda>p. \<not> is_abs p) (rev ys @ a # rev xs) = rev ys"
    "dropWhile (\<lambda>p. \<not> is_abs p) (rev ys @ a # rev xs) = a # rev xs"
    using True \<open>is_abs a\<close>
    by (subst takeWhile_append2 dropWhile_append2; auto simp: list_all_iff)+
  ultimately show ?thesis
    using resolve_base_none [OF True, of a] by (simp add: resolve_base_def Let_def)
next
  case False
  then obtain y where "y \<in> set (rev ys)" "is_abs y" by (auto simp: list_all_iff)
  then show ?thesis by (simp add: resolve_base_def Let_def takeWhile_append1 dropWhile_append1 dropWhile_eq_Nil_conv) blast
qed

lemma absolute_base_exact:
  "length parts < 2 ^ 16 \<Longrightarrow> i \<le> length parts \<Longrightarrow> list_all (\<lambda>p. \<not> is_abs p) (take i parts) \<Longrightarrow>
   absolute_base Posix cwd parts i = resolve_base cwd parts"
proof (induction Posix cwd parts i rule: absolute_base.induct)
  case (1 cwd parts i)
  have m: "length parts mod 2 ^ 16 = length parts" using 1(3) by simp
  show ?case
  proof (cases "i < length parts")
    case False
    then show ?thesis using 1(4,5) m by (subst absolute_base.simps) (simp add: resolve_base_none)
  next
    case True
    show ?thesis
    proof (cases "is_abs (parts ! i)")
      case abs: True
      have "absolute_base Posix cwd parts i = absolute_base Posix (parts ! i) (drop (i + 1) parts) 0"
        using True abs m by (subst absolute_base.simps) (simp add: is_abs_def)
      also have "\<dots> = resolve_base (parts ! i) (drop (i + 1) parts)"
        using 1(1) True abs m 1(3) by (simp add: is_abs_def)
      also have "\<dots> = resolve_base cwd parts"
        using resolve_base_abs [OF abs, of cwd "take i parts" "drop (i + 1) parts"] True
        by (simp add: id_take_nth_drop [symmetric])
      finally show ?thesis .
    next
      case False
      then have "list_all (\<lambda>p. \<not> is_abs p) (take (i + 1) parts)"
        using 1(5) True by (simp add: take_Suc_conv_app_nth)
      then have "absolute_base Posix cwd parts (i + 1) = resolve_base cwd parts"
        using 1(2) True False m 1(3) by (simp add: is_abs_def)
      moreover have "absolute_base Posix cwd parts i = absolute_base Posix cwd parts (i + 1)"
        using True False m by (subst absolute_base.simps) (auto simp: is_abs_def)
      ultimately show ?thesis by simp
    qed
  qed
qed

lemma resolve_base_cases:
  assumes "resolve_base cwd parts = (c, ps)"
  shows "is_abs cwd \<Longrightarrow> is_abs c" "length c + sum_list (map (\<lambda>p. length p + 1) ps) \<le>
     length cwd + sum_list (map (\<lambda>p. length p + 1) parts)"
proof -
  let ?A = "takeWhile (\<lambda>p. \<not> is_abs p) (rev parts)" and ?B = "dropWhile (\<lambda>p. \<not> is_abs p) (rev parts)"
  have eq: "c = (if ?B = [] then cwd else hd ?B)" "ps = rev ?A"
    using assms by (simp_all add: resolve_base_def Let_def)
  show "is_abs cwd \<Longrightarrow> is_abs c" using eq(1) hd_dropWhile [of "\<lambda>p. \<not> is_abs p" "rev parts"] by auto
  have "sum_list (map (\<lambda>p. length p + 1) parts) =
      sum_list (map (\<lambda>p. length p + 1) ?A) + sum_list (map (\<lambda>p. length p + 1) ?B)"
  proof -
    have "sum_list (map (\<lambda>p. length p + 1) parts) = sum_list (map (\<lambda>p. length p + 1) (?A @ ?B))"
      by (simp add: rev_map [symmetric] del: map_map)
    then show ?thesis by (simp only: map_append sum_list_append)
  qed
  moreover have "sum_list (map (\<lambda>p. length p + 1) ps) = sum_list (map (\<lambda>p. length p + 1) ?A)"
    unfolding eq(2) by (simp add: rev_map [symmetric])
  moreover have "length c \<le> length cwd + sum_list (map (\<lambda>p. length p + 1) ?B)"
    unfolding eq(1) by (cases ?B) auto
  ultimately show "length c + sum_list (map (\<lambda>p. length p + 1) ps) \<le>
     length cwd + sum_list (map (\<lambda>p. length p + 1) parts)" by linarith
qed

subsection \<open>Concatenating the parts\<close>

definition append_part :: "bytes \<Rightarrow> bytes \<Rightarrow> bytes" where
  "append_part s part =
     (if part = [] then s else (if s \<noteq> [] \<and> last s \<noteq> 47 then s @ [47] else s) @ part)"

lemma append_parts_exact:
  "sum_list (map (\<lambda>p. length p + 1) parts) \<le> length rest \<Longrightarrow>
   \<exists>rest'. append_parts 47 parts (s @ rest) (length s) =
       Ret (foldl append_part s parts @ rest', length (foldl append_part s parts)) \<and>
     length (foldl append_part s parts) + length rest' = length s + length rest"
proof (induction parts arbitrary: s rest)
  case (Cons part parts)
  show ?case
  proof (cases "part = []")
    case False
    let ?gap = "if s \<noteq> [] \<and> last s \<noteq> 47 then [47 :: u8] else []"
    let ?rest = "drop (length ?gap + length part) rest"
    have s': "append_part s part = (s @ ?gap) @ part" using False by (simp add: append_part_def)
    have room: "length ?gap + length part \<le> length rest" using Cons.prems by auto
    have gap: "(if 0 < length s \<and> (s @ rest) ! (length s - 1) \<noteq> 47 then
         bind_outcome (write_at (s @ rest) (length s) 47) (\<lambda>temp. Ret (temp, length s + 1))
       else Ret (s @ rest, length s)) = Ret ((s @ ?gap) @ drop (length ?gap) rest, length (s @ ?gap))"
    proof (cases "s = []")
      case False
      then have "(s @ rest) ! (length s - 1) = last s" by (simp add: nth_append last_conv_nth)
      then show ?thesis using False room by (cases "last s = 47") (auto simp: write_at_copy copy_at_end)
    qed simp
    have copy: "copy_at ((s @ ?gap) @ drop (length ?gap) rest) (length (s @ ?gap)) part =
        Ret (append_part s part @ ?rest)"
      unfolding copy_at_end s' using room by (simp add: add.commute)
    have "sum_list (map (\<lambda>p. length p + 1) parts) \<le> length ?rest" using Cons.prems by auto
    from Cons.IH [OF this, of "append_part s part"]
    show ?thesis using room False s' by (simp only: append_parts.simps if_False gap bind_outcome.simps split_conv copy) auto
  qed (use Cons in \<open>simp add: append_part_def\<close>)
qed simp

lemma names_append_part: "P 47 \<Longrightarrow> names P (append_part s part) = names P s @ names P part"
proof -
  assume P: "P 47"
  have "names P (u @ 47 # part) = names P u @ names P part" for u
    using P names_append [of "47 # part" P u] by simp
  moreover have "names P (butlast s @ [47]) = names P (butlast s)" if "s \<noteq> []"
    using P by (rule names_trailing)
  moreover have "s = butlast s @ [47]" if "s \<noteq> []" "last s = 47"
    using that by (metis append_butlast_last_id)
  ultimately show ?thesis
    by (cases "s = []"; cases "last s = 47"; cases "part = []") (auto simp: append_part_def, metis append.assoc append_Cons append_Nil)
qed

lemma names_append_parts:
  "P 47 \<Longrightarrow> names P (foldl append_part s parts) = names P s @ concat (map (names P) parts)"
  by (induction parts arbitrary: s) (simp_all add: names_append_part)

lemma append_part_starts: "is_abs s \<Longrightarrow> is_abs (append_part s part)"
  by (auto simp: is_abs_def append_part_def nth_append)

lemma append_parts_starts: "is_abs s \<Longrightarrow> is_abs (foldl append_part s parts)"
  by (induction parts arbitrary: s) (simp_all add: append_part_starts)

lemma append_parts_last: "s \<noteq> [] \<Longrightarrow> last (foldl append_part s parts) = last (s @ concat parts)"
proof (induction parts arbitrary: s)
  case (Cons part parts)
  have "append_part s part \<noteq> []" using Cons.prems by (simp add: append_part_def)
  moreover have "last (append_part s part @ concat parts) = last (s @ part @ concat parts)"
    by (cases "concat parts = []") (simp_all add: append_part_def last_append del: concat_eq_Nil_conv)
  ultimately show ?case using Cons.IH [of "append_part s part"] by simp
qed simp

lemma append_parts_length:
  "length (foldl append_part s parts) \<le> length s + sum_list (map (\<lambda>p. length p + 1) parts)"
proof (induction parts arbitrary: s)
  case (Cons part parts)
  have "length (append_part s part) \<le> length s + length part + 1" by (simp add: append_part_def)
  then show ?case using Cons [of "append_part s part"] by simp
qed simp

subsection \<open>The resolved path\<close>

text \<open>
  Node's \<open>path.resolve\<close>: the names of the last absolute part and of what follows it, with \<open>.\<close>
  and \<open>..\<close> resolved and never above the root, behind one \<open>/\<close>; a \<open>/\<close> at the end of the input is
  kept. Without parts the directory is returned as it is.
\<close>

definition resolved_names :: "bytes \<Rightarrow> bytes list \<Rightarrow> bytes list" where
  "resolved_names cwd parts =
     (case resolve_base cwd parts of (c, ps) \<Rightarrow> snd (normal_form False (concat (map (names is_sep_any) (c # ps)))))"

definition resolved :: "bytes \<Rightarrow> bytes list \<Rightarrow> bytes" where
  "resolved cwd parts =
     (if parts = [] then cwd
      else case resolve_base cwd parts of (c, ps) \<Rightarrow>
        47 # render 47 (resolved_names cwd parts) @
          (if resolved_names cwd parts \<noteq> [] \<and> last (c @ concat ps) = 47 then [47] else []))"

lemma normalized_no_up:
  "normalized False preserve sep P path =
     (let ns = snd (normal_form False (names P path)) in
      if preserve \<and> render sep ns \<noteq> [] \<and> last path = sep then render sep ns @ [sep] else render sep ns)"
proof -
  have "fst (normal_form False (names P path)) = 0"
    using normal_form_normal [of False "names P path"] by (simp add: is_normal_def)
  then have "elements (normal_form False (names P path)) = snd (normal_form False (names P path))"
    by (simp add: elements_def)
  then show ?thesis by (simp add: normalized_def Let_def)
qed

lemma resolved_joined:
  assumes "is_abs c" "parts \<noteq> []" "resolve_base cwd parts = (c, ps)"
  shows "foldl append_part c ps = 47 # tl (foldl append_part c ps)"
    "resolved cwd parts = 47 # normalized False True 47 is_sep_any (tl (foldl append_part c ps))"
proof -
  let ?J = "foldl append_part c ps"
  have J: "?J \<noteq> []" "hd ?J = 47"
    using append_parts_starts [OF assms(1), of ps] by (simp_all add: is_abs_def hd_conv_nth)
  then show J47: "?J = 47 # tl ?J" by (metis list.collapse)
  have "names is_sep_any ?J = names is_sep_any (tl ?J)"
    by (subst J47) simp
  then have ns: "snd (normal_form False (names is_sep_any (tl ?J))) = resolved_names cwd parts"
    using names_append_parts [of is_sep_any c ps] assms(3) by (simp add: resolved_names_def)
  have "list_all (\<lambda>x. x \<noteq> []) (resolved_names cwd parts)"
    using normal_form_ok [of is_sep_any False "tl ?J"] unfolding ns [symmetric]
    by (auto simp: normal_ok_def name_ok_def list_all_iff)
  then have "render 47 (resolved_names cwd parts) = [] \<longleftrightarrow> resolved_names cwd parts = []"
    by (rule render_eq_Nil)
  moreover have "last (tl ?J) = last (c @ concat ps)" if "resolved_names cwd parts \<noteq> []"
  proof -
    have "tl ?J \<noteq> []" using that ns by (auto simp: normal_form_def)
    then have "last (tl ?J) = last ?J" by (metis J47 last_ConsR)
    then show ?thesis using append_parts_last [of c ps] assms(1) by (simp add: is_abs_def)
  qed
  ultimately show "resolved cwd parts = 47 # normalized False True 47 is_sep_any (tl ?J)"
    using assms(2,3) unfolding normalized_no_up ns by (auto simp: resolved_def Let_def)
qed

lemma join_abs_text:
  assumes parts: "parts \<noteq> []" "length parts < 2 ^ 16" and base: "resolve_base cwd parts = (c, ps)"
    and J: "foldl append_part c ps \<noteq> []"
    and pool: "length pool = MAX_PATH_BYTES" and room: "join_abs_needed (length cwd) parts \<le> length buf"
  shows "\<exists>buf'. join_abs_string_buf_posix sentinel Posix pool cwd buf parts =
       Ret (buf', 47 # normalized False True 47 is_sep_any (tl (foldl append_part c ps))) \<and>
     length buf' = length buf \<and>
     take (length (normalized False True 47 is_sep_any (tl (foldl append_part c ps))) + 1) buf' =
       47 # normalized False True 47 is_sep_any (tl (foldl append_part c ps)) \<and>
     (sentinel \<longrightarrow> buf' ! (length (normalized False True 47 is_sep_any (tl (foldl append_part c ps))) + 1) = 0) \<and>
     length (normalized False True 47 is_sep_any (tl (foldl append_part c ps))) + 1 < length buf"
proof -
  let ?J = "foldl append_part c ps"
  let ?N = "normalized False True 47 is_sep_any (tl ?J)" and ?scratch = "join_scratch pool (length c) ps"
  have abs_base: "absolute_base Posix cwd parts 0 = (c, ps)"
    using absolute_base_exact [of parts 0 cwd] parts(2) base by simp
  have needed: "length c + sum_list (map (\<lambda>p. length p + 1) ps) + 2 \<le> length ?scratch"
    using pool by (simp add: join_scratch_def join_abs_needed_def Let_def)
  obtain rest where temp: "append_parts 47 ps (c @ drop (length c) ?scratch) (length c) = Ret (?J @ rest, length ?J)"
    using append_parts_exact [of ps "drop (length c) ?scratch" c] needed by (auto simp: le_diff_conv2)
  have copy: "copy_at ?scratch 0 c = Ret (c @ drop (length c) ?scratch)"
    using needed by (simp add: copy_at_def)
  have long: "length ?J + 2 \<le> length buf"
    using append_parts_length [of c ps] resolve_base_cases(2) [OF base] room by (simp add: join_abs_needed_def)
  have short: "length ?N < length ?J"
    using loose.fits [of False True "tl ?J"] J by (cases ?J) simp_all
  obtain rest' where norm: "normalize_string_buf False Posix True (tl ?J) (tl buf) = Ret (?N @ rest', length ?N)"
    and total: "length ?N + length rest' = length buf - 1"
    using loose.generic [of "tl ?J" "tl buf" False True] long by (fastforce simp: normalize_string_loose_buf_t_def)
  have rest': "rest' \<noteq> []" using total short long by (cases rest') auto
  show ?thesis
  proof (cases "length parts = 1 \<and> parts ! 0 = [47]")
    case True
    then have "parts = [[47]]" by (cases parts) auto
    then have "c = [47]" "ps = []" using base by (simp_all add: resolve_base_def is_abs_def)
    then show ?thesis
      using True parts(1) long by (cases buf) (auto simp: join_abs_string_buf_posix_def write_at_def)
  next
    case False
    have lead: "(case leading_separator_index Posix (take (length ?J) (?J @ rest)) of
        Some i \<Rightarrow>
          let outdir = (if Posix = Loose then slashes_to_posix (take (i + 1) (?J @ rest)) else take (i + 1) (?J @ rest)) in
          (outdir, outdir @ drop (i + 1) (?J @ rest))
      | None \<Rightarrow> ([47], ?J @ rest)) = ([47], ?J @ rest)"
      using J by (cases ?J) (auto simp: leading_separator_index_posix_def)
    have out: "copy_at buf 0 [47] = Ret (47 # tl buf)"
      using long by (cases buf) (simp_all add: copy_at_def)
    have tail: "take (length ?J - length [47 :: u8]) (drop (length [47 :: u8]) (?J @ rest)) = tl ?J"
      using J by (cases ?J) simp_all
    have not_less: "\<not> length ?J < length [47 :: u8]" using J by (cases ?J) simp_all
    define buf' where "buf' = (if sentinel then (47 # ?N) @ 0 # tl rest' else (47 # ?N) @ rest')"
    have sent: "(if sentinel then write_at (take (length [47 :: u8]) (47 # tl buf) @ ?N @ rest') (length ?N + length [47 :: u8]) 0
        else Ret (take (length [47 :: u8]) (47 # tl buf) @ ?N @ rest')) = Ret buf'"
      using rest' write_at_end [of "47 # ?N" rest' 0] by (simp add: buf'_def)
    have drop1: "drop (length [47 :: u8]) (47 # tl buf) = tl buf" by simp
    have take: "take (length ?N + length [47 :: u8]) buf' = 47 # ?N" by (simp add: buf'_def)
    have "join_abs_string_buf_posix sentinel Posix pool cwd buf parts = Ret (buf', 47 # ?N)"
      unfolding join_abs_string_buf_posix_def abs_base split_conv separator.simps copy bind_outcome.simps temp lead
      by (simp only: parts(1) False if_False bind_outcome.simps split_conv Let_def out not_less tail drop1 norm sent
          take simp_thms)
    moreover have "length buf' = length buf"
      using total rest' long by (cases rest') (auto simp: buf'_def)
    ultimately show ?thesis using short long by (auto simp: buf'_def nth_append)
  qed
qed

lemma join_abs_posix:
  assumes cwd: "is_abs cwd" and parts: "parts \<noteq> []" "length parts < 2 ^ 16"
    and pool: "length pool = MAX_PATH_BYTES" and room: "join_abs_needed (length cwd) parts \<le> length buf"
  shows "\<exists>buf'. join_abs_string_buf_posix sentinel Posix pool cwd buf parts = Ret (buf', resolved cwd parts) \<and>
     length buf' = length buf \<and> take (length (resolved cwd parts)) buf' = resolved cwd parts \<and>
     (sentinel \<longrightarrow> buf' ! length (resolved cwd parts) = 0) \<and> length (resolved cwd parts) < length buf"
proof -
  obtain c ps where base: "resolve_base cwd parts = (c, ps)" by fastforce
  have c: "is_abs c" by (rule resolve_base_cases(1) [OF base cwd])
  have "foldl append_part c ps \<noteq> []" using append_parts_starts [OF c, of ps] by (simp add: is_abs_def)
  from join_abs_text [OF parts base this pool room, of sentinel]
  show ?thesis unfolding resolved_joined(2) [OF c parts(1) base] by simp
qed

lemma resolved_needed:
  assumes "is_abs cwd" "length parts < 2 ^ 16"
  shows "length (resolved cwd parts) < join_abs_needed (length cwd) parts"
proof (cases "parts = []")
  case False
  then show ?thesis
    using join_abs_posix [OF assms(1) False assms(2), of "replicate MAX_PATH_BYTES 0"
        "replicate (join_abs_needed (length cwd) parts) 0" False] by auto
qed (simp add: resolved_def join_abs_needed_def)



text \<open>The names of a resolved path: none of them is \<open>..\<close>, so it stays below the root.\<close>

lemma resolved_names_normal: "[46] \<notin> set (resolved_names cwd parts)" "[46, 46] \<notin> set (resolved_names cwd parts)"
  using normal_form_normal by (auto simp: resolved_names_def is_normal_def split: prod.splits)

lemma resolved_names_ok: "list_all (name_ok is_sep_any) (resolved_names cwd parts)"
proof -
  obtain c ps where base: "resolve_base cwd parts = (c, ps)" by fastforce
  have "concat (map (names is_sep_any) (c # ps)) = names is_sep_any (foldl append_part c ps)"
    by (simp add: names_append_parts)
  then show ?thesis
    using normal_form_ok [of is_sep_any False "foldl append_part c ps"]
    by (simp add: resolved_names_def base normal_ok_def)
qed

lemma names_resolved:
  assumes "parts \<noteq> []"
  shows "names is_sep_any (resolved cwd parts) = resolved_names cwd parts"
  using names_render [OF resolved_names_ok, of 47 cwd parts] names_trailing [of is_sep_any 47] assms
  by (simp add: resolved_def split: prod.splits)

text \<open>
  A relative directory is not resolved: the first byte of the concatenation is taken for the
  root, whatever it is.
\<close>

lemma join_abs_relative_cwd:
  assumes "length pool = MAX_PATH_BYTES" "8 \<le> length buf"
  shows "\<exists>buf'. join_abs_string_buf Posix pool (bs ''work'') buf [bs ''b''] = Ret (buf', bs ''/ork/b'')"
proof -
  have base: "resolve_base (bs ''work'') [bs ''b''] = (bs ''work'', [bs ''b''])" by code_simp
  have N: "47 # normalized False True 47 is_sep_any (tl (foldl append_part (bs ''work'') [bs ''b''])) = bs ''/ork/b''"
    and J: "foldl append_part (bs ''work'') [bs ''b''] \<noteq> []" by code_simp+
  show ?thesis
    using join_abs_text [OF _ _ base J assms(1), of buf False] assms(2) unfolding N
    by (auto simp: join_abs_string_buf_def join_abs_needed_def)
qed

subsection \<open>Node's \<open>path.normalize\<close> and \<open>path.join\<close>\<close>

definition node_normalized :: "bytes \<Rightarrow> bytes" where
  "node_normalized path =
     (let absolute = is_abs path;
          xs = elements (normal_form (\<not> absolute) (names is_sep_posix path));
          trailing = (path \<noteq> [] \<and> last path = 47) in
      if xs = [] then (if absolute then [47] else if trailing then [46, 47] else [46])
      else (if absolute then [47] else []) @ render 47 xs @ (if trailing then [47] else []))"

lemma normalize_string_node_exact:
  assumes room: "length path + 1 \<le> length buf"
  shows "\<exists>buf' off len. normalize_string_node_t Posix path buf = Ret (buf', off, len) \<and>
    slice_at (buf', off, len) = node_normalized path \<and> length buf' = length buf \<and> off + len \<le> length path + 1 \<and>
    len = length (node_normalized path)"
proof (cases "path = []")
  case True
  have "node_normalized [] = [46]" by (simp add: node_normalized_def is_abs_def normal_form_def elements_def)
  then show ?thesis
    using True room by (cases buf) (auto simp: normalize_string_node_t_def write_at_def slice_at_def)
next
  case False
  obtain b0 b where buf: "buf = b0 # b" using room by (cases buf) auto
  let ?abs = "is_abs path" and ?trail = "last path = 47"
  let ?xs = "elements (normal_form (\<not> ?abs) (names is_sep_posix path))"
  let ?out = "render 47 ?xs"
  obtain rest where norm: "normalize_string_generic_t (\<not> ?abs) False path b 47 is_sep_posix = Ret (?out @ rest, length ?out)"
    and total: "length ?out + length rest = length b"
    using posix.generic [of path b "\<not> ?abs" False] room buf by (auto simp: normalized_def)
  have fits: "length ?out \<le> length path" "?trail \<Longrightarrow> length ?out < length path"
    using render_fits [where P = is_sep_posix and sep = 47 and up = "\<not> ?abs" and path = path] False by auto
  have sep: "is_separator Posix = is_sep_posix" by (rule ext) simp
  have trail: "is_separator Posix (path ! (length path - 1)) \<longleftrightarrow> ?trail"
    using False by (simp add: is_sep_posix_def last_conv_nth)
  have ok: "normal_ok is_sep_posix (normal_form (\<not> ?abs) (names is_sep_posix path))" by (rule normal_form_ok)
  have ends: "?out \<noteq> [] \<and> \<not> is_sep_posix (last ?out)" if "?xs \<noteq> []"
    using render_elements_last [of is_sep_posix _ 47, OF _ ok that] by simp
  have node: "normalize_string_node_t Posix path buf =
    (if ?out = [] then
       if ?abs then bind_outcome (write_at (b0 # rest) 0 47) (\<lambda>buf. Ret (buf, 0, 1))
       else if ?trail then bind_outcome (copy_at (b0 # rest) 0 [46, 47]) (\<lambda>buf. Ret (buf, 0, 2))
       else bind_outcome (write_at (b0 # rest) 0 46) (\<lambda>buf. Ret (buf, 0, 1))
     else
       bind_outcome
         (if ?trail \<and> \<not> is_sep_posix ((b0 # ?out @ rest) ! length ?out) then
            bind_outcome (write_at ((b0 # ?out) @ rest) (length (b0 # ?out)) 47) (\<lambda>buf. Ret (buf, length ?out + 1))
          else Ret (b0 # ?out @ rest, length ?out))
         (\<lambda>(buf, out_len).
            if ?abs then bind_outcome (write_at buf 0 47) (\<lambda>buf. Ret (buf, 0, out_len + 1)) else Ret (buf, 1, out_len)))"
    unfolding normalize_string_node_t_def trail using False norm buf
    by (simp add: sep is_abs_def)
  show ?thesis
  proof (cases "?xs = []")
    case True
    have "rest \<noteq> []" if "\<not> ?abs" "?trail"
    proof -
      have "length path \<noteq> 1" using that False by (cases path) (auto simp: is_abs_def)
      moreover have "length path \<noteq> 0" using False by simp
      ultimately have "2 \<le> length path" by linarith
      then show ?thesis using total True room buf by auto
    qed
    moreover have "1 \<le> length path" using False by (cases path) simp_all
    ultimately show ?thesis
      using True False total buf unfolding node
      by (cases rest) (auto simp: write_at_def copy_at_def slice_at_def node_normalized_def Let_def)
  next
    case xs: False
    have last: "(b0 # ?out @ rest) ! length ?out = last ?out"
      using ends [OF xs] by (simp add: nth_append last_conv_nth nth_Cons')
    have ne: "rest \<noteq> []" if ?trail using fits(2) [OF that] total room buf by auto
    then have less: "length ?out + length (tl rest) + 1 = length b" if ?trail
      using that total by (cases rest) auto
    have keep: "(if ?trail \<and> \<not> is_sep_posix ((b0 # ?out @ rest) ! length ?out) then
         bind_outcome (write_at ((b0 # ?out) @ rest) (length (b0 # ?out)) 47) (\<lambda>buf. Ret (buf, length ?out + 1))
       else Ret (b0 # ?out @ rest, length ?out)) =
       Ret (b0 # ?out @ (if ?trail then 47 # tl rest else rest), length ?out + (if ?trail then 1 else 0))"
      unfolding last write_at_end using ends [OF xs] ne by simp
    show ?thesis
      using ends [OF xs] xs total less fits buf False unfolding node keep
      by (auto simp: write_at_def slice_at_def node_normalized_def Let_def)
  qed
qed

lemma join_parts_append: "join_parts sep temp parts =
    temp @ (if temp = [] \<or> filter (\<lambda>p. p \<noteq> []) parts = [] then [] else [sep]) @ render sep (filter (\<lambda>p. p \<noteq> []) parts)"
proof (induction sep temp parts rule: join_parts.induct)
  case (2 sep temp part parts)
  have "render sep (part # xs) = part @ (if xs = [] then [] else [sep]) @ render sep xs" for xs
    by (cases xs) (simp_all add: render_def)
  then show ?case using 2 by auto
qed simp

text \<open>\<open>path.join\<close>: the non-empty parts with a separator between two, normalised.\<close>

definition path_join :: "bytes list \<Rightarrow> bytes" where
  "path_join parts = node_normalized (render 47 (filter (\<lambda>p. p \<noteq> []) parts))"

lemma render_length:
  "xs \<noteq> [] \<Longrightarrow> length (render sep xs) + 1 = sum_list (map (\<lambda>p. length p + 1) xs)"
  by (cases xs) (simp_all add: render_def length_concat comp_def)

lemma sum_list_filter_le: "sum_list (map (\<lambda>p. length p + 1) (filter Q xs)) \<le> sum_list (map (\<lambda>p. length p + 1) xs)"
  by (induction xs) auto

lemma join_string_exact:
  assumes "join_needed parts \<le> length buf + 1" "buf \<noteq> []"
  shows "\<exists>buf' off len. join_string_buf_t Posix buf parts = Ret (buf', off, len) \<and>
    slice_at (buf', off, len) = path_join parts \<and> length buf' = length buf \<and> off + len \<le> length buf \<and>
    len = length (path_join parts)"
proof -
  let ?xs = "filter (\<lambda>p. p \<noteq> []) parts"
  have joined: "join_parts (separator Posix) [] parts = render 47 ?xs"
    by (simp add: join_parts_append)
  have empty: "render 47 ?xs = [] \<longleftrightarrow> ?xs = []"
    by (rule render_eq_Nil) (simp add: list_all_iff)
  show ?thesis
  proof (cases "?xs = []")
    case True
    have "path_join parts = [46]"
      unfolding path_join_def True by (simp add: node_normalized_def is_abs_def normal_form_def elements_def)
    then show ?thesis
      using True empty assms(2) unfolding join_string_buf_t_def joined
      by (cases buf) (auto simp: write_at_def slice_at_def)
  next
    case False
    have "length (render 47 ?xs) + 1 \<le> length buf"
      using render_length [OF False, of 47] sum_list_filter_le [of "\<lambda>p. p \<noteq> []" parts] assms(1)
      by (simp add: join_needed_def)
    then show ?thesis
      using normalize_string_node_exact [of "render 47 ?xs" buf] False empty
      unfolding join_string_buf_t_def joined path_join_def by (auto simp: Let_def)
  qed
qed



text \<open>\<open>join_needed\<close> counts one byte for no parts, but the result \<open>.\<close> and its NUL are two.\<close>

lemma join_z_spill_no_parts: "join_z_buf_spill Posix [] [] [] = Panic"
  by code_simp

end
