(* ===== verification/PathsRelative.thy ===== *)
theory PathsRelative
  imports PathsJoin
begin

text \<open>
  Relative paths of \<open>src/src/paths/resolve_path.rs\<close>: the longest common directory of paths, the
  path from one directory to another, and that it leads there. The platforms are \<open>Posix\<close> and
  \<open>Loose\<close>; the branches for \<open>Windows\<close> compare roots and ignore case and are not modelled.
\<close>

subsection \<open>The longest common directory\<close>

definition nql_at_index :: "nat \<Rightarrow> nat \<Rightarrow> bytes list \<Rightarrow> bool" where
  "nql_at_index n index input \<longleftrightarrow> list_ex (\<lambda>s. input ! 0 ! index \<noteq> input ! s ! index) [1..<n]"

function common_loop :: "platform \<Rightarrow> nat \<Rightarrow> nat \<Rightarrow> bytes list \<Rightarrow> nat \<Rightarrow> nat \<Rightarrow> nat \<times> nat" where
  "common_loop p n min_length input index last_sep =
     (if index < min_length then
        if nql_at_index n index input then (index, last_sep)
        else common_loop p n min_length input (index + 1)
          (if is_separator p (input ! 0 ! index) then index else last_sep)
      else (index, last_sep))"
  by pat_completeness auto
termination by (relation "measure (\<lambda>(_, _, m, _, i, _). m - i)") auto

declare common_loop.simps [simp del]

text \<open>The inner loop for more than eight paths, and the loop around it. With an empty path, \<open>index - 1\<close> wraps
  and the access after it panics.\<close>

function agree_loop :: "bytes \<Rightarrow> bytes \<Rightarrow> nat \<Rightarrow> nat \<Rightarrow> nat" where
  "agree_loop first other min_length index =
     (if index < min_length \<and> first ! index = other ! index then agree_loop first other min_length (index + 1) else index)"
  by pat_completeness auto
termination by (relation "measure (\<lambda>(_, _, m, i). m - i)") auto

declare agree_loop.simps [simp del]

fun common_many :: "platform \<Rightarrow> bytes \<Rightarrow> nat \<Rightarrow> bytes list \<Rightarrow> nat \<Rightarrow> nat \<Rightarrow> (nat \<times> nat) outcome" where
  "common_many p first min_length [] index last_sep = Ret (index, last_sep)"
| "common_many p first min_length (other # others) index last_sep =
     (let index = agree_loop first other min_length index in
      if index = min_length \<and> index = 0 then Panic
      else
        let index = (if index = min_length then index - 1 else index) in
        common_many p first min_length others index
          (if is_separator p (first ! index) then index else last_sep))"

text \<open>Which path has a separator where the common part ends; \<open>n\<close> stands for none.\<close>

fun folder_index :: "platform \<Rightarrow> nat \<Rightarrow> nat \<Rightarrow> bytes list \<Rightarrow> nat \<Rightarrow> nat \<Rightarrow> nat" where
  "folder_index p index n [] i idx = idx"
| "folder_index p index n (s # ss) i idx =
     (if index < length s then
        if is_separator p (s ! index) then folder_index p index n ss (i + 1) i else n
      else folder_index p index n ss (i + 1) idx)"

definition longest_common_path_generic :: "platform \<Rightarrow> bytes list \<Rightarrow> bytes outcome" where
  "longest_common_path_generic p input =
     (let n = length input; min_length = foldr (\<lambda>s m. min (length s) m) input (2 ^ 64 - 1) in
      if n = 0 then Ret []
      else if n = 1 then Ret (input ! 0)
      else
        bind_outcome
          (if n \<le> 8 then Ret (common_loop p n min_length input 0 0)
           else common_many p (input ! 0) min_length (tl input) 0 0)
          (\<lambda>(index, last_sep).
             if index = 0 then Ret [separator p]
             else
               let idx = folder_index p index n input 0 n in
               if idx \<noteq> n then Ret (take (index + 1) (input ! idx))
               else Ret (take (last_sep + 1) (input ! 0))))"

subsection \<open>The path between two directories\<close>

text \<open>One \<open>..\<close> for every name of \<open>from\<close> behind the common part.\<close>

function ups_loop :: "u8 \<Rightarrow> bytes \<Rightarrow> nat \<Rightarrow> bytes \<Rightarrow> nat \<Rightarrow> (bytes \<times> nat) outcome" where
  "ups_loop sep from i buf out_len =
     (if i \<le> length from then
        if i = length from \<or> from ! i = sep \<and> i + 1 < length from then
          if out_len = 0 then
            bind_outcome (copy_at buf 0 [46, 46]) (\<lambda>buf. ups_loop sep from (i + 1) buf 2)
          else
            bind_outcome (write_at buf out_len sep) (\<lambda>buf.
            bind_outcome (copy_at buf (out_len + 1) [46, 46]) (\<lambda>buf. ups_loop sep from (i + 1) buf (out_len + 3)))
        else ups_loop sep from (i + 1) buf out_len
      else Ret (buf, out_len))"
  by pat_completeness auto
termination by (relation "measure (\<lambda>(_, from, i, _, _). length from + 1 - i)") auto

declare ups_loop.simps [simp del]

definition copied :: "bool \<Rightarrow> bytes \<Rightarrow> bytes \<Rightarrow> bytes outcome" where
  "copied always_copy buf s =
     (if always_copy then bind_outcome (copy_at buf 0 s) (\<lambda>buf. Ret (take (length s) buf)) else Ret s)"

definition relative_to_common_path :: "bool \<Rightarrow> platform \<Rightarrow> bytes \<Rightarrow> bytes \<Rightarrow> bytes \<Rightarrow> bytes \<Rightarrow> bytes outcome" where
  "relative_to_common_path always_copy p common_in from to buf =
     (let sep = separator p;
          common_path = (if common_in \<noteq> [] \<and> common_in ! 0 = 47 then tl common_in else common_in);
          shortest = min (length from) (length to) in
      if shortest = length common_path \<and> length from \<le> length to \<and> common_path = [] then copied always_copy buf to
      else if shortest = length common_path \<and> length from \<le> length to \<and> to ! (length common_path - 1) = sep then
        copied always_copy buf (drop (length common_path) to)
      else
        let last_sep = (case last_index (\<lambda>c. c = sep) common_in of Some i \<Rightarrow> i | None \<Rightarrow> 0) in
        bind_outcome
          (if from \<noteq> [] then
             ups_loop sep from ((if is_separator p (from ! 0) then 1 else 0) + 1 + last_sep) buf 0
           else Ret (buf, 0))
          (\<lambda>(buf, out_len).
        bind_outcome
          (if last_sep + 1 < length to then
             let tail = drop last_sep to;
                 tail = (if from \<noteq> [] \<and> (last_sep = length from \<or> last_sep = length from - 1) \<and> is_separator p (tail ! 0)
                   then tl tail else tail) in
             bind_outcome
               (if \<not> is_separator p (tail ! 0) \<and> 0 < out_len \<and> \<not> is_separator p (buf ! (out_len - 1)) then
                  bind_outcome (write_at buf out_len sep) (\<lambda>buf. Ret (buf, out_len + 1))
                else Ret (buf, out_len))
               (\<lambda>(buf, out_len).
                  bind_outcome (copy_at buf out_len tail) (\<lambda>buf. Ret (buf, out_len + length tail)))
           else Ret (buf, out_len))
          (\<lambda>(buf, out_len).
             let out_len = (if 3 < out_len \<and> buf ! (out_len - 1) = sep then out_len - 1 else out_len) in
             Ret (take out_len buf))))"

definition relative_normalized_buf :: "bool \<Rightarrow> platform \<Rightarrow> bytes \<Rightarrow> bytes \<Rightarrow> bytes \<Rightarrow> bytes outcome" where
  "relative_normalized_buf always_copy p buf from to =
     (if from = to then Ret []
      else bind_outcome (longest_common_path_generic p [from, to]) (\<lambda>common_path.
             relative_to_common_path always_copy p common_path from to buf))"

text \<open>
  One argument of \<open>relative_platform_buf\<close>: an absolute path is normalised behind a separator into
  \<open>target\<close>; another path is normalised into \<open>scratch\<close> and joined to the top-level directory. The
  scratch buffer is part of the result.
\<close>

definition normalized_argument ::
  "platform \<Rightarrow> bytes \<Rightarrow> bytes \<Rightarrow> bytes \<Rightarrow> bytes \<Rightarrow> bytes \<Rightarrow> (bytes \<times> bytes) outcome" where
  "normalized_argument p pool top_level_dir target scratch path =
     (if is_absolute p path then
        if target = [] then Panic
        else
          bind_outcome (normalize_string_buf True p True path (tl target)) (\<lambda>(b, path_len).
            Ret (take (path_len + 1) (separator p # b), scratch))
      else
        bind_outcome (normalize_string_buf True p True path scratch) (\<lambda>(scratch, norm_len).
        bind_outcome (join_abs_string_buf p pool top_level_dir target [take norm_len scratch]) (\<lambda>(_, joined).
          Ret (joined, scratch))))"

definition relative_platform_buf ::
  "bool \<Rightarrow> platform \<Rightarrow> bytes \<Rightarrow> bytes \<Rightarrow> bytes \<Rightarrow> bytes \<Rightarrow> bytes \<Rightarrow> bytes \<Rightarrow> bytes \<Rightarrow> bytes outcome" where
  "relative_platform_buf always_copy p pool top_level_dir from_buf to_buf buf from to =
     bind_outcome (normalized_argument p pool top_level_dir from_buf to_buf from) (\<lambda>(normalized_from, to_buf).
     bind_outcome (normalized_argument p pool top_level_dir to_buf buf to) (\<lambda>(normalized_to, buf).
     relative_normalized_buf always_copy p buf normalized_from normalized_to))"

subsection \<open>The common part of two paths\<close>

text \<open>An absolute path of names: a separator before each, and possibly one at the end.\<close>

definition body :: "bytes list \<Rightarrow> bytes" where
  "body xs = concat (map ((#) 47) xs)"

definition abs_text :: "bytes list \<Rightarrow> bool \<Rightarrow> bytes" where
  "abs_text xs slash = (if xs = [] then [47] else body xs @ (if slash then [47] else []))"

lemma body_simps [simp]: "body [] = []" "body (x # xs) = 47 # x @ body xs" "body (xs @ ys) = body xs @ body ys"
  by (simp_all add: body_def)

lemma abs_text_render: "abs_text xs slash = 47 # render 47 xs @ (if slash \<and> xs \<noteq> [] then [47] else [])"
  by (cases xs) (simp_all add: abs_text_def body_def render_def)

text \<open>The length of the longest common prefix, as the loop finds it, and the last separator in it.\<close>

fun agree :: "bytes \<Rightarrow> bytes \<Rightarrow> nat" where
  "agree (a # s) (b # t) = (if a = b then Suc (agree s t) else 0)"
| "agree s t = 0"

lemma agree_le: "agree s t \<le> length s" "agree s t \<le> length t"
  by (induction s t rule: agree.induct) auto

lemma agree_append: "agree (a @ s) (a @ t) = length a + agree s t"
  by (induction a) simp_all

lemma agree_nth: "i < agree s t \<Longrightarrow> s ! i = t ! i"
  by (induction s t arbitrary: i rule: agree.induct) (auto simp: nth_Cons' split: if_splits)

lemma agree_end: "agree s t < length s \<Longrightarrow> agree s t < length t \<Longrightarrow> s ! agree s t \<noteq> t ! agree s t"
  by (induction s t rule: agree.induct) auto

lemma nql_two: "nql_at_index 2 i [s, t] \<longleftrightarrow> s ! i \<noteq> t ! i"
  by (simp add: nql_at_index_def numeral_2_eq_2)

lemma common_loop_agree:
  "i \<le> agree s t \<Longrightarrow> common_loop p 2 (min (length s) (length t)) [s, t] i l =
    (agree s t, case last_index (is_separator p) (take (agree s t - i) (drop i s)) of Some k \<Rightarrow> i + k | None \<Rightarrow> l)"
proof (induction "agree s t - i" arbitrary: i l)
  case 0
  then have i: "i = agree s t" by simp
  have "common_loop p 2 (min (length s) (length t)) [s, t] i l = (i, l)"
    using agree_end [of s t] i by (subst common_loop.simps) (auto simp: nql_two)
  then show ?case using i by simp
next
  case (Suc n)
  then have less: "i < agree s t" by simp
  then have len: "i < length s" "i < length t" using agree_le [of s t] by simp_all
  have "common_loop p 2 (min (length s) (length t)) [s, t] i l =
      common_loop p 2 (min (length s) (length t)) [s, t] (i + 1) (if is_separator p (s ! i) then i else l)"
    using agree_nth [OF less] len by (subst common_loop.simps) (simp add: nql_two)
  moreover have "take (agree s t - i) (drop i s) = s ! i # take (agree s t - (i + 1)) (drop (i + 1) s)"
    using less len(1) by (simp add: Cons_nth_drop_Suc [symmetric] take_Cons')
  ultimately show ?case
    using Suc less by (auto split: option.splits)
qed

lemma agree_sym: "agree s t = agree t s"
  by (induction s t rule: agree.induct) auto

lemma agree_no_sep:
  "takeWhile (\<lambda>c. c \<noteq> 47) s \<noteq> takeWhile (\<lambda>c. c \<noteq> 47) t \<Longrightarrow> c \<in> set (take (agree s t) s) \<Longrightarrow> c \<noteq> 47"
  by (induction s t rule: agree.induct) (auto split: if_splits)

lemma agree_sep:
  "takeWhile (\<lambda>c. c \<noteq> 47) s \<noteq> takeWhile (\<lambda>c. c \<noteq> 47) t \<Longrightarrow> agree s t < length s \<Longrightarrow> s ! agree s t = 47 \<Longrightarrow>
   agree s t < length t \<and> t ! agree s t \<noteq> 47"
proof (induction s t rule: agree.induct)
  case (1 a s b t)
  show ?case
  proof (cases "a = b")
    case True
    then have "takeWhile (\<lambda>c. c \<noteq> 47) s \<noteq> takeWhile (\<lambda>c. c \<noteq> 47) t"
      using "1.prems"(1) by (auto split: if_splits)
    then show ?thesis using True "1.IH" "1.prems"(2,3) by simp
  qed (use 1 in auto)
qed (auto simp: neq_Nil_conv)

lemma last_index_no: "last_index P s = None \<longleftrightarrow> (\<forall>c \<in> set s. \<not> P c)"
  by (induction s) (auto split: option.splits)

lemma last_index_at: "P c \<Longrightarrow> \<forall>c \<in> set s'. \<not> P c \<Longrightarrow> last_index P (s @ c # s') = Some (length s)"
proof (induction s)
  case Nil
  then show ?case using last_index_no [of P s'] by simp
qed simp

lemma common_path_suffixes:
  assumes "s = A @ u" "t = A @ v" "s \<noteq> []" "t \<noteq> []" "s \<noteq> t"
    and u: "u = [] \<or> hd u = 47" and v: "v = [] \<or> hd v = 47"
    and uv: "u \<noteq> [] \<Longrightarrow> v \<noteq> [] \<Longrightarrow> takeWhile (\<lambda>c. c \<noteq> 47) (tl u) \<noteq> takeWhile (\<lambda>c. c \<noteq> 47) (tl v)"
    and A: "A \<noteq> [] \<Longrightarrow> hd A = 47" and size: "length s < 2 ^ 64" "length t < 2 ^ 64"
  shows "longest_common_path_generic Posix [s, t] = Ret (A @ [47])"
proof -
  have sep: "is_separator Posix = (\<lambda>c. c = 47)" by (rule ext) (simp add: is_sep_posix_def)
  have min: "foldr (\<lambda>s m. min (length s) m) [s, t] (2 ^ 64 - 1) = min (length s) (length t)"
    using size by simp
  define k l where "k = agree s t"
    and "l = (case last_index (\<lambda>c. c = 47) (take k s) of Some k \<Rightarrow> k | None \<Rightarrow> 0)"
  have loop: "common_loop Posix 2 (min (length s) (length t)) [s, t] 0 0 = (k, l)"
    using common_loop_agree [of 0 s t Posix 0] unfolding sep k_def l_def by (simp split: option.splits)
  have k: "k = length A + agree u v" unfolding k_def assms(1,2) by (rule agree_append)
  have generic: "longest_common_path_generic Posix [s, t] =
      (if k = 0 then Ret [47]
       else let idx = folder_index Posix k 2 [s, t] 0 2 in
         if idx \<noteq> 2 then Ret (take (k + 1) ([s, t] ! idx)) else Ret (take (l + 1) s))"
    unfolding longest_common_path_generic_def min using loop by (simp add: numeral_2_eq_2)
  consider (both) "u \<noteq> []" "v \<noteq> []" | (left) "u = []" "v \<noteq> []" | (right) "u \<noteq> []" "v = []"
    using assms(1,2,5) by auto
  then show ?thesis
  proof cases
    case both
    obtain u' v' where uv': "u = 47 # u'" "v = 47 # v'" using both u v by (cases u; cases v) auto
    have diff: "takeWhile (\<lambda>c. c \<noteq> 47) u' \<noteq> takeWhile (\<lambda>c. c \<noteq> 47) v'" using uv both uv' by simp
    let ?j = "agree u' v'"
    have kj: "k = length A + 1 + ?j" using k uv' by simp
    have "take k s = A @ 47 # take ?j u'" unfolding assms(1) uv' kj by simp
    then have l: "l = length A"
      using agree_no_sep [OF diff] last_index_at [of "\<lambda>c. c = 47" 47 "take ?j u'" A] by (simp add: l_def)
    have at: "s ! k = u' ! ?j" "t ! k = v' ! ?j" "k < length s \<longleftrightarrow> ?j < length u'" "k < length t \<longleftrightarrow> ?j < length v'"
      unfolding assms(1,2) uv' kj by (simp_all add: nth_append)
    have "folder_index Posix k 2 [s, t] 0 2 = 2"
      using agree_sep [OF diff] agree_sep [of v' u'] diff agree_sym [of v' u']
      by (cases "?j < length u'"; cases "u' ! ?j = 47") (auto simp: at is_sep_posix_def)
    moreover have "take (l + 1) s = A @ [47]" unfolding assms(1) uv' l by simp
    ultimately show ?thesis using kj unfolding generic by simp
  next
    case left
    then have "k = length A" "k \<noteq> 0" using k assms(1,3) by auto
    moreover have "folder_index Posix k 2 [s, t] 0 2 = 1"
      using left v assms(1,2) \<open>k = length A\<close> by (cases v) (auto simp: nth_append is_sep_posix_def)
    ultimately show ?thesis using generic left v by (cases v) (auto simp: assms(2) numeral_2_eq_2)
  next
    case right
    then have kA: "k = length A" "k \<noteq> 0" using k assms(2,4) by (cases u; auto)+
    have "folder_index Posix k 2 [s, t] 0 2 = 0"
      using right u assms(1,2) kA(1) by (cases u) (auto simp: nth_append is_sep_posix_def)
    then show ?thesis using generic right u kA by (cases u) (auto simp: assms(1))
  qed
qed

subsection \<open>Going up\<close>

abbreviation ups :: "nat \<Rightarrow> bytes" where
  "ups m \<equiv> render 47 (replicate m [46, 46])"

lemma ups_Suc: "ups (Suc m) = (if m = 0 then [46, 46] else ups m @ [47, 46, 46])"
proof (cases m)
  case (Suc n)
  then show ?thesis using render_snoc [of "replicate m [46, 46]" 47 "[46, 46]"] by (simp add: replicate_append_same)
qed simp

lemma ups_length: "length (ups m) = 3 * m - 1"
proof (induction m)
  case (Suc m)
  then show ?case unfolding ups_Suc [of m] by (cases "m = 0") (simp_all del: replicate.simps)
qed simp

fun up_count :: "bytes \<Rightarrow> nat" where
  "up_count [] = 1"
| "up_count (c # cs) = (if c = 47 \<and> cs \<noteq> [] then 1 else 0) + up_count cs"

lemma ups_push:
  assumes "(if m = 0 then 2 else 3) \<le> length rest"
  shows "(if length (ups m) = 0 then bind_outcome (copy_at (ups m @ rest) 0 [46, 46]) (\<lambda>buf. f buf 2)
     else bind_outcome (write_at (ups m @ rest) (length (ups m)) 47) (\<lambda>buf.
       bind_outcome (copy_at buf (length (ups m) + 1) [46, 46]) (\<lambda>buf. f buf (length (ups m) + 3)))) =
    f (ups (Suc m) @ drop (if m = 0 then 2 else 3) rest) (length (ups (Suc m)))"
proof (cases "m = 0")
  case True
  then show ?thesis using assms copy_at_end [of "[]" rest "[46, 46]"] by (simp add: numeral_2_eq_2)
next
  case False
  then have "3 \<le> length rest" using assms by simp
  then obtain a b c r where r: "rest = a # b # c # r"
    by (cases rest; cases "tl rest"; cases "tl (tl rest)") auto
  have ne: "length (ups m) \<noteq> 0" using ups_length [of m] False by simp
  have w: "write_at (ups m @ rest) (length (ups m)) 47 = Ret ((ups m @ [47]) @ b # c # r)"
    by (simp add: write_at_end r)
  have c: "copy_at ((ups m @ [47]) @ b # c # r) (length (ups m @ [47])) [46, 46] = Ret ((ups m @ [47]) @ [46, 46] @ r)"
    unfolding copy_at_end by simp
  have s: "ups (Suc m) = ups m @ [47, 46, 46]" using ups_Suc [of m] False by simp
  show ?thesis
    using ne w c False unfolding s by (simp add: r numeral_3_eq_3)
qed

lemma ups_step:
  assumes "i \<le> length from" "i = length from \<or> from ! i = 47 \<and> i + 1 < length from"
    and room: "(if m = 0 then 2 else 3) \<le> length rest"
  shows "ups_loop 47 from i (ups m @ rest) (length (ups m)) =
    ups_loop 47 from (i + 1) (ups (Suc m) @ drop (if m = 0 then 2 else 3) rest) (length (ups (Suc m)))"
  unfolding ups_push [OF room, of "\<lambda>buf n. ups_loop 47 from (i + 1) buf n", symmetric]
  by (subst ups_loop.simps) (simp only: assms(1,2) if_True)

lemma ups_loop_exact:
  "3 * (m + up_count rem) \<le> length (ups m) + length rest + 1 \<Longrightarrow>
   \<exists>rest'. ups_loop 47 (pre @ rem) (length pre) (ups m @ rest) (length (ups m)) =
      Ret (ups (m + up_count rem) @ rest', length (ups (m + up_count rem))) \<and>
    length (ups (m + up_count rem)) + length rest' = length (ups m) + length rest"
proof (induction rem arbitrary: pre m rest)
  case Nil
  have stop: "ups_loop 47 pre (Suc (length pre)) buf n = Ret (buf, n)" for buf n
    by (subst ups_loop.simps) simp
  have room: "(if m = 0 then 2 else 3) \<le> length rest" using Nil ups_length [of m] by auto
  let ?rest = "drop (if m = 0 then 2 else 3) rest"
  have total: "length (ups (Suc m)) + length ?rest = length (ups m) + length rest"
    using room ups_length [of m] ups_length [of "Suc m"] by auto
  have "ups_loop 47 (pre @ []) (length pre) (ups m @ rest) (length (ups m)) = Ret (ups (Suc m) @ ?rest, length (ups (Suc m)))"
    using ups_step [OF _ _ room, of "length pre" pre] by (simp add: stop)
  then show ?case using total by (auto simp del: replicate.simps)
next
  case (Cons c cs)
  show ?case
  proof (cases "c = 47 \<and> cs \<noteq> []")
    case True
    have room: "(if m = 0 then 2 else 3) \<le> length rest" using Cons.prems ups_length [of m] True by auto
    let ?rest = "drop (if m = 0 then 2 else 3) rest"
    have total: "length (ups (Suc m)) + length ?rest = length (ups m) + length rest"
      using room ups_length [of m] ups_length [of "Suc m"] by auto
    have "ups_loop 47 (pre @ c # cs) (length pre) (ups m @ rest) (length (ups m)) =
        ups_loop 47 ((pre @ [c]) @ cs) (length (pre @ [c])) (ups (Suc m) @ ?rest) (length (ups (Suc m)))"
      using ups_step [OF _ _ room, of "length pre" "pre @ c # cs"] True by (simp add: nth_append)
    moreover have "3 * (Suc m + up_count cs) \<le> length (ups (Suc m)) + length ?rest + 1"
      using Cons.prems True total by simp
    ultimately show ?thesis using Cons.IH [of "Suc m" ?rest "pre @ [c]"] True total by simp
  next
    case False
    have "ups_loop 47 (pre @ c # cs) (length pre) (ups m @ rest) (length (ups m)) =
        ups_loop 47 ((pre @ [c]) @ cs) (length (pre @ [c])) (ups m @ rest) (length (ups m))"
      using False by (subst ups_loop.simps) (auto simp: nth_append)
    then show ?thesis using Cons.IH [of m rest "pre @ [c]"] Cons.prems False by auto
  qed
qed

lemma up_count_name: "\<forall>c \<in> set x. c \<noteq> 47 \<Longrightarrow> up_count (x @ s) = up_count s"
  by (induction x) auto

lemma up_count_body:
  "list_all (name_ok (\<lambda>c. c = 47)) xs \<Longrightarrow> up_count (body xs @ (if slash then [47] else [])) = length xs + 1"
proof (induction xs)
  case (Cons x xs)
  then have "x \<noteq> []" "\<forall>c \<in> set x. c \<noteq> 47" by (auto simp: name_ok_def list_all_iff)
  then show ?case using Cons up_count_name [of x "body xs @ (if slash then [47] else [])"] by simp
qed simp

subsection \<open>The relative path\<close>

text \<open>
  One \<open>..\<close> for every name that is left of \<open>from\<close>, then the names that are left of \<open>to\<close>. A
  separator at the end of \<open>to\<close> is kept only where the result has at most three bytes with it.
\<close>

definition relative_text :: "bytes list \<Rightarrow> bytes list \<Rightarrow> bool \<Rightarrow> bytes" where
  "relative_text fs ts slash =
     (let r = render 47 (replicate (length fs) [46, 46] @ ts) in
      if slash \<and> ts \<noteq> [] \<and> length r \<le> 2 then r @ [47] else r)"

lemma abs_text_split:
  "abs_text (C @ F) slash = body C @ (if F = [] then (if C = [] \<or> slash then [47] else []) else body F @ (if slash then [47] else []))"
  by (auto simp: abs_text_def)

lemma abs_text_body: "abs_text C slash = body C @ (if C = [] \<or> slash then [47] else [])"
  by (simp add: abs_text_def)

lemma body_hd: "xs \<noteq> [] \<Longrightarrow> body xs \<noteq> [] \<and> hd (body xs) = 47"
  by (cases xs) simp_all

lemma body_last:
  assumes "list_all (name_ok P) xs" "xs \<noteq> []"
  shows "body xs \<noteq> [] \<and> last (body xs) = last (last xs) \<and> \<not> P (last (body xs))"
proof -
  have "name_ok P (last xs)" using assms by (simp add: list_all_iff)
  then have x: "last xs \<noteq> []" "\<not> P (last (last xs))" by (auto simp: name_ok_def list_all_iff)
  have "body xs = body (butlast xs) @ 47 # last xs"
    using assms(2) by (metis append_butlast_last_id body_simps(1,2,3) append_Nil2)
  then show ?thesis using x by simp
qed

lemma render_body: "xs \<noteq> [] \<Longrightarrow> body xs = 47 # render 47 xs"
  by (cases xs) (simp_all add: render_def body_def)

lemma ups_part:
  fixes C :: "bytes list" and a :: bool
  assumes ok: "list_all (name_ok (\<lambda>c. c = 47)) F'" and room: "3 * length F' \<le> length buf"
  defines "s \<equiv> abs_text (C @ F') a"
  shows "\<exists>rest. ups_loop 47 s (length (body C) + 2) buf 0 = Ret (ups (length F') @ rest, length (ups (length F'))) \<and>
    length (ups (length F')) + length rest = length buf"
proof (cases F')
  case Nil
  have "length s < length (body C) + 2" by (simp add: s_def abs_text_body Nil)
  then show ?thesis by (subst ups_loop.simps) (simp add: Nil)
next
  case (Cons x xs)
  obtain c x' where x: "x = c # x'" "\<forall>c \<in> set x'. c \<noteq> 47"
    using ok Cons by (cases x) (auto simp: name_ok_def list_all_iff)
  let ?rem = "x' @ body xs @ (if a then [47] else [])"
  have s: "s = (body C @ [47, c]) @ ?rem" by (simp add: s_def abs_text_split Cons x)
  have count: "up_count ?rem = length F'"
    using up_count_name [OF x(2), of "body xs @ (if a then [47] else [])"] up_count_body [of xs a] ok Cons by simp
  have "3 * (0 + up_count ?rem) \<le> length (ups 0) + length buf + 1" using room count by simp
  from ups_loop_exact [OF this, of "body C @ [47, c]"] show ?thesis
    unfolding s [symmetric] count by simp
qed

lemma relative_exact:
  assumes ok: "list_all (name_ok (\<lambda>c. c = 47)) (C @ F')" "list_all (name_ok (\<lambda>c. c = 47)) (C @ T')"
    and room: "3 * length F' + length (abs_text (C @ T') b) + 1 \<le> length buf"
  shows "relative_to_common_path always_copy Posix (body C @ [47]) (abs_text (C @ F') a) (abs_text (C @ T') b) buf =
    Ret (relative_text F' T' b)"
proof -
  let ?s = "abs_text (C @ F') a" and ?t = "abs_text (C @ T') b" and ?L = "length (body C)"
  let ?k = "length F'" and ?slash = "if b then [47 :: u8] else []"
  have first: "(body C @ [47]) ! 0 = 47" "?s ! 0 = 47" "?s \<noteq> []" "?t \<noteq> []"
    by (cases C; simp add: abs_text_render)+
  have common: "length (tl (body C @ [47])) = ?L" by simp
  have last: "last_index (\<lambda>c. c = 47) (body C @ [47]) = Some ?L"
    using last_index_at [of "\<lambda>c. c = 47" 47 "[]" "body C"] by simp
  have no1: "\<not> (min (length ?s) (length ?t) = ?L \<and> length ?s \<le> length ?t \<and> tl (body C @ [47]) = [])"
    using first(3,4) common by (metis length_0_conv min_def)
  have no2: "\<not> (min (length ?s) (length ?t) = ?L \<and> length ?s \<le> length ?t \<and> ?t ! (?L - 1) = 47)"
  proof
    assume a: "min (length ?s) (length ?t) = ?L \<and> length ?s \<le> length ?t \<and> ?t ! (?L - 1) = 47"
    then have "C \<noteq> []" using no1 common by auto
    then have "body C \<noteq> [] \<and> last (body C) \<noteq> 47" using body_last [of "\<lambda>c. c = 47" C] ok(1) by auto
    then have "?t ! (?L - 1) \<noteq> 47" by (auto simp: abs_text_split nth_append last_conv_nth)
    then show False using a by simp
  qed
  obtain rest where up: "ups_loop 47 ?s (1 + 1 + ?L) buf 0 = Ret (ups ?k @ rest, length (ups ?k))"
    and total: "length (ups ?k) + length rest = length buf"
    using ups_part [of F' buf C a] ok(1) room by (auto simp: add.commute)
  define tail where "tail = (if F' = [] then render 47 T' @ ?slash else 47 # render 47 T' @ ?slash)"
  have long: "?L + 1 < length ?t \<longleftrightarrow> T' \<noteq> []"
    using ok(2) by (cases T') (auto simp: abs_text_split abs_text_body name_ok_def)
  have at_end: "?L = length ?s \<or> ?L = length ?s - 1 \<longleftrightarrow> F' = []"
    using ok(1) by (cases F') (auto simp: abs_text_split abs_text_body name_ok_def)
  have tail: "(let tail = drop ?L ?t in if (?L = length ?s \<or> ?L = length ?s - 1) \<and> is_separator Posix (tail ! 0)
      then tl tail else tail) = tail" if "T' \<noteq> []"
    using that first(3) at_end by (simp add: abs_text_split render_body tail_def is_sep_posix_def)
  have no_gap: "\<not> (\<not> is_separator Posix (tail ! 0) \<and> 0 < length (ups ?k) \<and> \<not> is_separator Posix ((ups ?k @ rest) ! (length (ups ?k) - 1)))"
    by (cases "F' = []") (simp_all add: tail_def is_sep_posix_def)
  let ?R = "render 47 (replicate ?k [46, 46] @ T')"
  have out: "ups ?k @ tail = ?R @ ?slash" if "T' \<noteq> []"
    using that render_append [of "replicate ?k [46, 46]" T' 47] by (cases "F' = []") (simp_all add: tail_def)
  have fits: "length tail \<le> length rest" if "T' \<noteq> []"
  proof -
    have "length tail \<le> length ?t" using that by (simp add: tail_def abs_text_split render_body)
    then show ?thesis using total room ups_length [of ?k] by linarith
  qed
  define out where "out = (if T' = [] then ups ?k else ?R @ ?slash)"
  obtain rest' where written: "(if ?L + 1 < length ?t then
      bind_outcome
        (if \<not> is_separator Posix (tail ! 0) \<and> 0 < length (ups ?k) \<and> \<not> is_separator Posix ((ups ?k @ rest) ! (length (ups ?k) - 1)) then
           bind_outcome (write_at (ups ?k @ rest) (length (ups ?k)) 47) (\<lambda>buf. Ret (buf, length (ups ?k) + 1))
         else Ret (ups ?k @ rest, length (ups ?k)))
        (\<lambda>(buf, out_len). bind_outcome (copy_at buf out_len tail) (\<lambda>buf. Ret (buf, out_len + length tail)))
      else Ret (ups ?k @ rest, length (ups ?k))) = Ret (out @ rest', length out)"
  proof (cases "T' = []")
    case True
    then show ?thesis using that [of rest] long by (simp add: out_def)
  next
    case False
    have out': "out = ups ?k @ tail" using out [OF False] False by (simp only: out_def if_False)
    have "copy_at (ups ?k @ rest) (length (ups ?k)) tail = Ret (out @ drop (length tail) rest)"
      using fits [OF False] unfolding copy_at_end out' append_assoc [symmetric] by simp
    moreover have "length (ups ?k) + length tail = length out"
      unfolding out' by simp
    ultimately show ?thesis
      using that [of "drop (length tail) rest"] long False by (simp only: no_gap if_False if_True bind_outcome.simps split_conv simp_thms)
  qed
  have ends: "r \<noteq> [] \<and> last r \<noteq> 47" if "r = render 47 xs" "xs \<noteq> []" "list_all (name_ok (\<lambda>c. c = 47)) xs" for r xs
    using that body_last [of "\<lambda>c. c = 47" xs] render_eq_Nil [of xs 47]
    by (auto simp: render_body list_all_iff name_ok_def split: if_splits)
  have oks: "list_all (name_ok (\<lambda>c. c = 47)) (replicate ?k [46, 46] @ T')"
    using ok(2) by (auto simp: list_all_iff name_ok_def)
  have trim: "take (if 3 < length out \<and> (out @ rest') ! (length out - 1) = 47 then length out - 1 else length out) (out @ rest') =
      relative_text F' T' b"
  proof (cases "replicate ?k [46, 46] @ T' = []")
    case True
    then show ?thesis by (simp add: out_def relative_text_def)
  next
    case False
    then have R: "?R \<noteq> []" "last ?R \<noteq> 47" using ends [OF refl False oks] by auto
    show ?thesis
    proof (cases "b \<and> T' \<noteq> []")
      case True
      then have "out = ?R @ [47]" by (simp add: out_def)
      then show ?thesis using True by (auto simp: relative_text_def Let_def nth_append)
    next
      case False
      then have "out = ?R" by (auto simp: out_def)
      moreover have "(?R @ rest') ! (length ?R - 1) \<noteq> 47" using R by (simp add: nth_append last_conv_nth)
      ultimately show ?thesis using False by (auto simp: relative_text_def Let_def)
    qed
  qed
  have guard: "body C @ [47] \<noteq> [] \<and> (body C @ [47]) ! 0 = 47" using first(1) by simp
  have one: "is_separator Posix (?s ! 0)" using first(2) by (simp add: is_sep_posix_def)
  have tail': "(if ?L + 1 < length ?t then
      bind_outcome
        (if \<not> is_separator Posix ((if (?L = length ?s \<or> ?L = length ?s - 1) \<and> is_separator Posix (drop ?L ?t ! 0)
             then tl (drop ?L ?t) else drop ?L ?t) ! 0) \<and> 0 < length (ups ?k) \<and>
             \<not> is_separator Posix ((ups ?k @ rest) ! (length (ups ?k) - 1)) then
           bind_outcome (write_at (ups ?k @ rest) (length (ups ?k)) 47) (\<lambda>buf. Ret (buf, length (ups ?k) + 1))
         else Ret (ups ?k @ rest, length (ups ?k)))
        (\<lambda>(buf, out_len). bind_outcome (copy_at buf out_len
             (if (?L = length ?s \<or> ?L = length ?s - 1) \<and> is_separator Posix (drop ?L ?t ! 0)
              then tl (drop ?L ?t) else drop ?L ?t))
           (\<lambda>buf. Ret (buf, out_len + length
             (if (?L = length ?s \<or> ?L = length ?s - 1) \<and> is_separator Posix (drop ?L ?t ! 0)
              then tl (drop ?L ?t) else drop ?L ?t))))
      else Ret (ups ?k @ rest, length (ups ?k))) = Ret (out @ rest', length out)"
  proof (cases "T' = []")
    case True
    then show ?thesis using written long by simp
  next
    case False
    show ?thesis using written unfolding tail [OF False, unfolded Let_def] .
  qed
  show ?thesis
    unfolding relative_to_common_path_def Let_def separator.simps
    by (simp only: guard if_True common no1 no2 if_False last option.case first(3) one up bind_outcome.simps split_conv
        tail' trim simp_thms)
qed

subsection \<open>Between two absolute paths\<close>

text \<open>The names two paths share, and what is left of each.\<close>

abbreviation shared :: "bytes list \<Rightarrow> bytes list \<Rightarrow> bytes list" where
  "shared xs ys \<equiv> longest_common_prefix xs ys"

definition left_of :: "bytes list \<Rightarrow> bytes list \<Rightarrow> bytes list" where
  "left_of xs ys = drop (length (shared xs ys)) xs"

lemma shared_split: "xs = shared xs ys @ left_of xs ys" "ys = shared xs ys @ left_of ys xs"
proof -
  have "prefix (shared xs ys) xs" "prefix (shared xs ys) ys"
    by (rule longest_common_prefix_prefix1 longest_common_prefix_prefix2)+
  moreover have "shared xs ys = shared ys xs"
    by (induction xs ys rule: longest_common_prefix.induct) auto
  moreover have "x = p @ drop (length p) x" if "prefix p x" for p x :: "bytes list"
    using that by (auto simp: prefix_def)
  ultimately show "xs = shared xs ys @ left_of xs ys" "ys = shared xs ys @ left_of ys xs"
    unfolding left_of_def by metis+
qed

lemma set_left: "set (left_of xs ys) \<subseteq> set xs"
  by (simp add: left_of_def set_drop_subset)

lemma left_of_differ: "left_of xs ys \<noteq> [] \<Longrightarrow> left_of ys xs \<noteq> [] \<Longrightarrow> hd (left_of xs ys) \<noteq> hd (left_of ys xs)"
  by (induction xs ys rule: longest_common_prefix.induct) (auto simp: left_of_def)

lemma run_body:
  assumes "name_ok (\<lambda>c. c = 47) x"
  shows "takeWhile (\<lambda>c. c \<noteq> 47) (x @ body xs @ (if a then [47] else [])) = x"
proof -
  have "takeWhile (\<lambda>c. c \<noteq> 47) (x @ s) = x @ takeWhile (\<lambda>c. c \<noteq> 47) s" for s
    using assms by (intro takeWhile_append2) (auto simp: name_ok_def list_all_iff)
  then show ?thesis by (cases xs) simp_all
qed

lemma relative_normalized_exact:
  assumes ok: "list_all (name_ok (\<lambda>c. c = 47)) F" "list_all (name_ok (\<lambda>c. c = 47)) T"
    and room: "3 * length F + length (abs_text T b) + 1 \<le> length buf"
    and size: "length (abs_text F a) < 2 ^ 64" "length (abs_text T b) < 2 ^ 64"
  shows "relative_normalized_buf always_copy Posix buf (abs_text F a) (abs_text T b) =
    Ret (relative_text (left_of F T) (left_of T F) b)"
proof (cases "abs_text F a = abs_text T b")
  case True
  have "names (\<lambda>c. c = 47) (abs_text X d) = X" if "list_all (name_ok (\<lambda>c. c = 47)) X" for X d
    using names_render [OF that, of 47] names_trailing [of "\<lambda>c. c = 47" 47 "render 47 X"] by (simp add: abs_text_render)
  then have "F = T" using ok True by metis
  then have "left_of F T = []" "left_of T F = []"
    using shared_split(1) [of T T] left_of_differ [of T T] by auto
  then show ?thesis using True by (simp add: relative_normalized_buf_def relative_text_def)
next
  case False
  let ?C = "shared F T" and ?F = "left_of F T" and ?T = "left_of T F"
  define u where "u X d = (if X = [] then (if ?C = [] \<or> d then [47] else []) else body X @ (if d then [47 :: u8] else []))" for X d
  have F: "F = ?C @ ?F" and T: "T = ?C @ ?T" by (rule shared_split)+
  have texts: "abs_text F a = body ?C @ u ?F a" "abs_text T b = body ?C @ u ?T b"
    using abs_text_split [of ?C ?F a] abs_text_split [of ?C ?T b] unfolding u_def F [symmetric] T [symmetric] by simp_all
  have oks: "list_all (name_ok (\<lambda>c. c = 47)) ?F" "list_all (name_ok (\<lambda>c. c = 47)) ?T"
  proof -
    have "list_all (name_ok (\<lambda>c. c = 47)) (?C @ ?F)" "list_all (name_ok (\<lambda>c. c = 47)) (?C @ ?T)"
      unfolding F [symmetric] T [symmetric] by (rule ok)+
    then show "list_all (name_ok (\<lambda>c. c = 47)) ?F" "list_all (name_ok (\<lambda>c. c = 47)) ?T" by simp_all
  qed
  have run: "takeWhile (\<lambda>c. c \<noteq> 47) (tl (u X d)) = (if X = [] then [] else hd X)"
    if "list_all (name_ok (\<lambda>c. c = 47)) X" for X d
    using that run_body [of "hd X" "tl X" d] by (cases X) (auto simp: u_def)
  have starts: "body X @ s = [] \<or> hd (body X @ s) = 47" if "s = [] \<or> hd s = 47" for X s
    using that body_hd [of X] by (cases "X = []") auto
  have u: "u X d = [] \<or> hd (u X d) = 47" for X d
    using starts [of "if d then [47] else []" X] by (simp add: u_def)
  have A: "hd (body ?C) = 47" if "body ?C \<noteq> []"
    using that starts [of "[]" ?C] by simp
  have nonempty: "abs_text X d \<noteq> []" for X d by (simp add: abs_text_render)
  have "longest_common_path_generic Posix [abs_text F a, abs_text T b] = Ret (body ?C @ [47])"
  proof (rule common_path_suffixes [OF texts nonempty nonempty False u u _ A size])
    show "takeWhile (\<lambda>c. c \<noteq> 47) (tl (u ?F a)) \<noteq> takeWhile (\<lambda>c. c \<noteq> 47) (tl (u ?T b))"
      if "u ?F a \<noteq> []" "u ?T b \<noteq> []"
    proof -
      have "?F \<noteq> [] \<or> ?T \<noteq> []"
        using that False unfolding texts by (auto simp: u_def split: if_splits)
      moreover have "?F \<noteq> [] \<Longrightarrow> hd ?F \<noteq> []" "?T \<noteq> [] \<Longrightarrow> hd ?T \<noteq> []"
        using oks by (cases ?F; cases ?T; simp add: name_ok_def)+
      ultimately show ?thesis
        using left_of_differ [of F T] unfolding run [OF oks(1)] run [OF oks(2)] by (cases "?F = []"; cases "?T = []") auto
    qed
  qed
  moreover have "length ?F \<le> length F" using F by (metis length_append le_add2)
  ultimately show ?thesis
    using relative_exact [of ?C ?F ?T b buf always_copy a] ok room False unfolding F [symmetric] T [symmetric]
    by (simp add: relative_normalized_buf_def)
qed

subsection \<open>From one path to another\<close>

lemma normal_step_up: "fst (normal_step up x nf) = 0 \<Longrightarrow> fst nf = 0 \<and> normal_step False x nf = normal_step up x nf"
  by (cases nf) (auto split: if_splits)

lemma fold_fst_mono: "fst nf \<le> fst (fold (normal_step up) xs nf)"
proof (induction xs arbitrary: nf)
  case (Cons x xs)
  have "fst nf \<le> fst (normal_step up x nf)" by (cases nf) simp
  then show ?case using Cons [of "normal_step up x nf"] by simp
qed simp

lemma fold_no_up: "fst (fold (normal_step up) xs nf) = 0 \<Longrightarrow> fold (normal_step False) xs nf = fold (normal_step up) xs nf"
proof (induction xs arbitrary: nf)
  case (Cons x xs)
  then have "fst (normal_step up x nf) = 0" using fold_fst_mono [of "normal_step up x nf" up xs] by simp
  then show ?case using Cons normal_step_up [of up x nf] by simp
qed simp

lemma fold_length: "length (elements (fold (normal_step up) xs nf)) \<le> length (elements nf) + length xs"
proof (induction xs arbitrary: nf)
  case (Cons x xs)
  have "length (elements (normal_step up x nf)) \<le> length (elements nf) + 1"
    by (cases nf) (auto simp: elements_def)
  then show ?case using Cons [of "normal_step up x nf"] by simp
qed simp

text \<open>What an absolute argument is normalised to.\<close>

definition names_of :: "bytes \<Rightarrow> bytes list" where
  "names_of path = elements (normal_form True (names is_sep_any path))"

lemma names_of_ok: "list_all (name_ok is_sep_any) (names_of path)"
  unfolding names_of_def by (rule elements_ok) (simp_all add: normal_form_ok)

lemma names_of_slash: "list_all (name_ok (\<lambda>c. c = 47)) (names_of path)"
  using names_of_ok [of path] by (auto simp: list_all_iff name_ok_def is_sep_any_def)

lemma normalized_abs_text: "47 # normalized True True 47 is_sep_any path = abs_text (names_of path) (last path = 47)"
proof -
  have "render 47 (names_of path) = [] \<longleftrightarrow> names_of path = []"
    using names_of_ok [of path] by (intro render_eq_Nil) (auto simp: list_all_iff name_ok_def)
  then show ?thesis by (auto simp: normalized_def names_of_def [symmetric] abs_text_render Let_def)
qed

lemma normalized_argument_exact:
  assumes "is_absolute Posix path" "length path < length target"
  shows "normalized_argument Posix pool top_dir target scratch path = Ret (abs_text (names_of path) (last path = 47), scratch)"
proof -
  let ?N = "normalized True True 47 is_sep_any path"
  have ne: "target \<noteq> []" and len: "length path \<le> length (tl target)" using assms(2) by auto
  obtain rest where "normalize_string_buf True Posix True path (tl target) = Ret (?N @ rest, length ?N)"
    using loose.generic [OF len, of True True] by (auto simp: normalize_string_loose_buf_t_def)
  then have "normalized_argument Posix pool top_dir target scratch path = Ret (47 # ?N, scratch)"
    using assms(1) ne by (simp add: normalized_argument_def)
  then show ?thesis by (simp add: normalized_abs_text)
qed

lemma relative_platform_exact:
  assumes abs: "is_absolute Posix from" "is_absolute Posix to"
    and bufs: "length from_buf = MAX_PATH_BYTES" "length to_buf = MAX_PATH_BYTES" "length buf = MAX_PATH_BYTES"
    and room: "length from < MAX_PATH_BYTES" "3 * length (names is_sep_any from) + length to + 2 \<le> MAX_PATH_BYTES"
  shows "relative_platform_buf always_copy Posix pool top_dir from_buf to_buf buf from to =
    Ret (relative_text (left_of (names_of from) (names_of to)) (left_of (names_of to) (names_of from)) (last to = 47))"
proof -
  have "length (abs_text (names_of path) (last path = 47)) \<le> length path + 1" for path
    unfolding normalized_abs_text [symmetric] using loose.fits [of True True path] by simp
  note len = this [of "from"] this [of to]
  have "length (names_of from) \<le> length (names is_sep_any from)"
    using fold_length [of True "names is_sep_any from" "(0, [])"] by (simp add: names_of_def normal_form_def)
  then have "3 * length (names_of from) + length (abs_text (names_of to) (last to = 47)) + 1 \<le> length buf"
    using room(2) len(2) bufs(3) by linarith
  then show ?thesis
    using relative_normalized_exact [OF names_of_slash names_of_slash, of "from" to "last to = 47" buf "last from = 47"]
      normalized_argument_exact [OF abs(1), of from_buf] normalized_argument_exact [OF abs(2), of to_buf] len room bufs
    by (simp add: relative_platform_buf_def MAX_PATH_BYTES_def)
qed

lemma fold_up_drop:
  "fold (normal_step False) (replicate (length ys) [46, 46]) (0, xs @ ys) = (0, xs)"
  by (induction ys arbitrary: xs rule: rev_induct) (auto simp: butlast_append)

lemma relative_text_names:
  assumes "list_all (name_ok is_sep_any) ts"
  shows "names is_sep_any (relative_text fs ts slash) = replicate (length fs) [46, 46] @ ts"
    "\<not> is_abs (relative_text fs ts slash)"
proof -
  let ?xs = "replicate (length fs) [46, 46] @ ts"
  have ok: "list_all (name_ok is_sep_any) ?xs"
    using assms by (auto simp: list_all_iff name_ok_def)
  then show "names is_sep_any (relative_text fs ts slash) = ?xs"
    using names_render [OF ok, of 47] names_trailing [of is_sep_any 47] by (simp add: relative_text_def Let_def)
  show "\<not> is_abs (relative_text fs ts slash)"
  proof (cases ?xs)
    case Nil
    then show ?thesis by (simp add: relative_text_def is_abs_def)
  next
    case (Cons x xs)
    then obtain c cs where "x = c # cs" "c \<noteq> 47" using ok by (cases x) (force simp: name_ok_def)+
    moreover have "render 47 ?xs = x @ concat (map ((#) 47) xs)" by (simp add: Cons render_def)
    ultimately show ?thesis by (auto simp: relative_text_def is_abs_def Let_def)
  qed
qed



text \<open>A separator at the end of the second path is kept in a result of up to three bytes and dropped from a longer one.\<close>

lemma relative_trailing_slash:
  "relative_normalized_buf True Posix (replicate 9 0) (bs ''/'') (bs ''/ab/'') = Ret (bs ''ab/'')"
  "relative_normalized_buf True Posix (replicate 9 0) (bs ''/'') (bs ''/abc/'') = Ret (bs ''abc'')"
proof -
  have A: "abs_text [] True = bs ''/''" "abs_text [bs ''ab''] True = bs ''/ab/''" "abs_text [bs ''abc''] True = bs ''/abc/''"
    "length (bs ''/ab/'') = 4" "length (bs ''/abc/'') = 5" "length (bs ''/'') = 1" by code_simp+
  have ok: "list_all (name_ok (\<lambda>c. c = 47)) [bs ''ab'']" "list_all (name_ok (\<lambda>c. c = 47)) [bs ''abc'']" by code_simp+
  have R: "relative_text (left_of [] [bs ''ab'']) (left_of [bs ''ab''] []) True = bs ''ab/''"
    "relative_text (left_of [] [bs ''abc'']) (left_of [bs ''abc''] []) True = bs ''abc''" by code_simp+
  show "relative_normalized_buf True Posix (replicate 9 0) (bs ''/'') (bs ''/ab/'') = Ret (bs ''ab/'')"
    using relative_normalized_exact [of "[]" "[bs ''ab'']" True "replicate 9 0" True True] ok(1) unfolding A R by simp
  show "relative_normalized_buf True Posix (replicate 9 0) (bs ''/'') (bs ''/abc/'') = Ret (bs ''abc'')"
    using relative_normalized_exact [of "[]" "[bs ''abc'']" True "replicate 9 0" True True] ok(2) unfolding A R by simp
qed

end
