(* ===== verification/ArchivePaths.thy ===== *)
theory ArchivePaths
  imports PathsNormalize Bytes
begin

text \<open>
  Where archives are unpacked: the path an entry is written to in the extractor of
  \<open>src/src/libarchive/lib.rs\<close>, in the streaming extractor of
  \<open>src/src/install/TarballStream.rs\<close> and in \<open>Bun.Archive\<close> (\<open>src/src/runtime/api/Archive.rs\<close>),
  and the check of a symbolic link's target, on the platform \<open>Posix\<close>. \<open>None\<close> stands for an entry
  that is skipped.
\<close>

subsection \<open>Iterating over \<open>strings::split\<close>\<close>

text \<open>The components a \<open>for\<close> loop over the iterator sees.\<close>

lemma index_of_char_less: "index_of_char s c = Some k \<Longrightarrow> k < length s"
  by (induction s arbitrary: k) (auto split: if_splits)

function split_all :: "split_iterator \<Rightarrow> bytes list" where
  "split_all it =
     (case split_next it of
        (None, _) \<Rightarrow> []
      | (Some x, it') \<Rightarrow> x # split_all it')"
  by pat_completeness auto
termination
proof (relation "measure (\<lambda>it. case si_index it of None \<Rightarrow> 0 | Some i \<Rightarrow> Suc (length (si_buffer it) - i))", goal_cases)
  case (2 it p x it')
  then show ?case
    by (auto simp: split_next_def dest!: index_of_char_less split: option.splits)
qed simp

declare split_all.simps [simp del]

subsection \<open>Entries of an archive\<close>

definition skip_separators :: "bytes \<Rightarrow> bytes" where
  "skip_separators s = dropWhile (\<lambda>c. c = 47) s"

fun strip_components :: "nat \<Rightarrow> bytes \<Rightarrow> bytes option" where
  "strip_components 0 remaining = Some (skip_separators remaining)"
| "strip_components (Suc n) remaining =
     (let remaining = skip_separators remaining in
      if remaining = [] then None
      else strip_components n
        (case index_of_char remaining 47 of Some j \<Rightarrow> drop j remaining | None \<Rightarrow> []))"

text \<open>The path an entry of \<open>extract_to_dir\<close> is written to.\<close>

definition extract_path :: "nat \<Rightarrow> bytes \<Rightarrow> bytes \<Rightarrow> bytes option outcome" where
  "extract_path depth_to_skip pathname normalized_buf =
     (case strip_components depth_to_skip pathname of
        None \<Rightarrow> Ret None
      | Some pathname \<Rightarrow>
          if length normalized_buf \<le> length pathname then Ret None
          else
            bind_outcome (normalize_buf_t Posix pathname normalized_buf) (\<lambda>(b, len).
            bind_outcome (write_at b len 0) (\<lambda>b.
            let path = take len b in
            if path = [] \<or> path = [46] then Ret None else Ret (Some path))))"

definition tokenize_rest_after_first :: "bytes \<Rightarrow> bytes" where
  "tokenize_rest_after_first s =
     dropWhile (\<lambda>c. c = 47) (dropWhile (\<lambda>c. c \<noteq> 47) (dropWhile (\<lambda>c. c = 47) s))"

text \<open>The path an entry of a streamed tarball is written to.\<close>

definition tarball_path :: "bytes \<Rightarrow> bytes \<Rightarrow> bytes option outcome" where
  "tarball_path pathname norm_buf =
     (if list_all (\<lambda>c. c = 47) pathname then Ret None
      else
        let rest = tokenize_rest_after_first pathname in
        if length norm_buf \<le> length rest then Ret None
        else
          bind_outcome (normalize_buf_t Posix rest norm_buf) (\<lambda>(b, len).
          bind_outcome (write_at b len 0) (\<lambda>b.
          let path = take len b in
          if path = [] \<or> path = [46] then Ret None
          else if 2 \<le> length path \<and> path ! 0 = 46 \<and> path ! 1 = 46 \<and> (length path = 2 \<or> path ! 2 = 47) then Ret None
          else Ret (Some path))))"

text \<open>\<open>is_safe_path\<close> of \<open>Bun.Archive\<close>, and the path an entry is written to there.\<close>

definition is_safe_path :: "bytes \<Rightarrow> bool" where
  "is_safe_path pathname \<longleftrightarrow>
     (if pathname = [] then False
      else if pathname ! 0 = 47 \<or> pathname ! 0 = 92 then False
      else if 2 \<le> length pathname \<and> pathname ! 1 = 58 then False
      else list_all (\<lambda>component.
             if component = [46, 46] then False
             else list_all (\<lambda>win_component. win_component \<noteq> [46, 46]) (split_all (split component 92)))
           (split_all (split pathname 47)))"

definition archive_path :: "bytes \<Rightarrow> bytes \<Rightarrow> bytes option outcome" where
  "archive_path raw_pathname normalized_buf =
     (if length normalized_buf \<le> length raw_pathname then Ret None
      else
        bind_outcome (normalize_buf_z Posix raw_pathname normalized_buf) (\<lambda>(b, len).
        let pathname = take len b in
        if pathname = [46] \<or> \<not> is_safe_path pathname then Ret None else Ret (Some pathname)))"

subsection \<open>Targets of symbolic links\<close>

fun target_components_ok :: "bool \<Rightarrow> bytes list \<Rightarrow> bool" where
  "target_components_ok seen_named [] = True"
| "target_components_ok seen_named (x # xs) =
     (if x = [] \<or> x = [46] then target_components_ok seen_named xs
      else if x = [46, 46] then (if seen_named then False else target_components_ok seen_named xs)
      else target_components_ok True xs)"

definition is_symlink_target_safe :: "bytes \<Rightarrow> bytes \<Rightarrow> bytes \<Rightarrow> bytes \<Rightarrow> bool outcome" where
  "is_symlink_target_safe symlink_path link_target join_buf norm_buf =
     (if link_target = [] \<or> link_target ! 0 = 47 then Ret False
      else if \<not> target_components_ok False (split_all (split link_target 47)) then Ret False
      else
        let symlink_dir = dirname_simple symlink_path in
        if length join_buf \<le> length symlink_dir + 1 + length link_target then Ret False
        else
          bind_outcome
            (if symlink_dir \<noteq> [] then
               bind_outcome (copy_at join_buf 0 symlink_dir) (\<lambda>b.
               bind_outcome (write_at b (length symlink_dir) 47) (\<lambda>b. Ret (b, length symlink_dir + 1)))
             else Ret (join_buf, 0))
            (\<lambda>(b, written).
          bind_outcome (copy_at b written link_target) (\<lambda>b.
          bind_outcome
            (normalize_string_generic_t True False (take (written + length link_target) b) norm_buf 47 (\<lambda>c. c = 47))
            (\<lambda>(b, len).
          let resolved = take len b in
          Ret (\<not> (resolved = [46, 46] \<or> take 3 resolved = [46, 46, 47]))))))"

subsection \<open>Splitting and names\<close>

fun split_list :: "(u8 \<Rightarrow> bool) \<Rightarrow> bytes \<Rightarrow> bytes list" where
  "split_list P [] = [[]]"
| "split_list P (c # cs) =
     (if P c then [] # split_list P cs else (c # hd (split_list P cs)) # tl (split_list P cs))"

lemma split_list_ne [simp]: "split_list P s \<noteq> []"
  by (cases s) simp_all

lemma split_list_None: "index_of_char s d = None \<Longrightarrow> split_list (\<lambda>c. c = d) s = [s]"
  by (induction s) (auto split: if_splits)

lemma split_list_Some:
  "index_of_char s d = Some k \<Longrightarrow> split_list (\<lambda>c. c = d) s = take k s # split_list (\<lambda>c. c = d) (drop (k + 1) s)"
  by (induction s arbitrary: k) (auto split: if_splits)

lemma split_all_from:
  "split_all \<lparr>si_buffer = s, si_index = Some i, si_delimiter = d\<rparr> = split_list (\<lambda>c. c = d) (drop i s)"
proof (induction "length s - i" arbitrary: i rule: less_induct)
  case less
  show ?case
  proof (cases "index_of_char (drop i s) d")
    case None
    then show ?thesis
      by (simp add: split_all.simps [of "\<lparr>si_buffer = s, si_index = Some i, si_delimiter = d\<rparr>"]
          split_next_def split_list_None split_all.simps [of "\<lparr>si_buffer = s, si_index = None, si_delimiter = d\<rparr>"])
  next
    case (Some k)
    then have "k < length (drop i s)" by (rule index_of_char_less)
    then have "split_all \<lparr>si_buffer = s, si_index = Some (k + i + 1), si_delimiter = d\<rparr> =
        split_list (\<lambda>c. c = d) (drop (k + i + 1) s)"
      using less [of "k + i + 1"] by simp
    then show ?thesis
      using Some
      by (simp add: split_all.simps [of "\<lparr>si_buffer = s, si_index = Some i, si_delimiter = d\<rparr>"]
          split_next_def split_list_Some add.commute add.left_commute)
  qed
qed

lemma split_all_split: "split_all (split s d) = split_list (\<lambda>c. c = d) s"
  using split_all_from [of s 0 d] by (simp add: split_def)

lemma split_list_run:
  "split_list P s = takeWhile (\<lambda>c. \<not> P c) s #
     (case dropWhile (\<lambda>c. \<not> P c) s of [] \<Rightarrow> [] | _ # s' \<Rightarrow> split_list P s')"
  by (induction s) auto

lemma names_split: "names P s = filter (\<lambda>x. x \<noteq> []) (split_list P s)"
proof (induction P s rule: names.induct)
  case (2 P c cs)
  show ?case
  proof (cases "P c")
    case False
    let ?D = "dropWhile (\<lambda>c. \<not> P c) (c # cs)"
    have "filter (\<lambda>x. x \<noteq> []) (split_list P ?D) =
        filter (\<lambda>x. x \<noteq> []) (case ?D of [] \<Rightarrow> [] | _ # s' \<Rightarrow> split_list P s')"
      using hd_dropWhile [of "\<lambda>c. \<not> P c" "c # cs"] by (cases ?D) auto
    then have "names P ?D = filter (\<lambda>x. x \<noteq> []) (case ?D of [] \<Rightarrow> [] | _ # s' \<Rightarrow> split_list P s')"
      using 2(2) [OF False] by simp
    then show ?thesis using False unfolding split_list_run [of P "c # cs"] by simp
  qed (use 2 in simp)
qed simp

lemma split_list_twice:
  "concat (map (split_list (\<lambda>c. c = 92)) (split_list (\<lambda>c. c = 47) s)) = split_list is_sep_any s"
proof (induction s)
  case (Cons c s)
  obtain x xs where "split_list (\<lambda>c. c = 47) s = x # xs" by (cases "split_list (\<lambda>c. c = 47) s") simp_all
  then show ?case using Cons [symmetric] by (auto simp: is_sep_any_def)
qed simp

lemma target_components_names: "target_components_ok b (filter (\<lambda>x. x \<noteq> []) xs) = target_components_ok b xs"
  by (induction b xs rule: target_components_ok.induct) auto

subsection \<open>The path of an entry\<close>

text \<open>What is left of an entry's path: its names below the root, with the trailing \<open>/\<close>.\<close>

definition entry_path :: "bytes \<Rightarrow> bytes option" where
  "entry_path s =
     (let ns = snd (normal_form False (names is_sep_any s)) in
      if ns = [] then None else Some (render 47 ns @ (if last s = 47 then [47] else [])))"

definition safe_path :: "bytes \<Rightarrow> bool" where
  "safe_path p \<longleftrightarrow> p \<noteq> [] \<and> \<not> is_sep_any (hd p) \<and> [46, 46] \<notin> set (names is_sep_any p)"

lemma last_index_last: "s \<noteq> [] \<Longrightarrow> last_index P s = Some (length s - 1) \<longleftrightarrow> P (last s)"
proof (induction s)
  case (Cons c s)
  then show ?case by (cases "s = []") (auto split: option.splits)
qed simp

lemma normal_names:
  fixes s :: bytes
  defines "ns \<equiv> snd (normal_form False (names is_sep_any s))"
  shows "list_all (name_ok is_sep_any) ns" "[46] \<notin> set ns" "[46, 46] \<notin> set ns"
    "elements (normal_form False (names is_sep_any s)) = ns"
  using normal_form_ok [of is_sep_any False s] normal_form_normal [of False "names is_sep_any s"]
  by (auto simp: ns_def normal_ok_def is_normal_def elements_def)

lemma entry_path_normalized:
  "entry_path s = (if normalized False True 47 is_sep_any s = [] then None
     else Some (normalized False True 47 is_sep_any s))"
proof -
  let ?ns = "snd (normal_form False (names is_sep_any s))"
  have "list_all (\<lambda>x. x \<noteq> []) ?ns" using normal_names(1) [of s] by (auto simp: list_all_iff name_ok_def)
  then have "render 47 ?ns = [] \<longleftrightarrow> ?ns = []" by (rule render_eq_Nil)
  then show ?thesis by (simp add: entry_path_def normalized_def normal_names(4) Let_def)
qed

lemma entry_path_safe: "entry_path s = Some p \<Longrightarrow> safe_path p"
proof -
  assume a: "entry_path s = Some p"
  let ?ns = "snd (normal_form False (names is_sep_any s))"
  have ns: "?ns \<noteq> []" and p: "p = render 47 ?ns @ (if last s = 47 then [47] else [])"
    using a by (auto simp: entry_path_def Let_def split: if_splits)
  obtain x xs where x: "?ns = x # xs" using ns by (cases ?ns) auto
  then have "x \<noteq> []" "\<not> is_sep_any (hd x)" using normal_names(1) [of s] by (auto simp: name_ok_def list_all_iff)
  moreover have "render 47 ?ns = x @ concat (map ((#) 47) xs)" by (simp add: x render_def)
  ultimately have "p \<noteq> []" "\<not> is_sep_any (hd p)" using p by auto
  moreover have "names is_sep_any p = ?ns"
    unfolding p using names_render [OF normal_names(1)] names_trailing [of is_sep_any 47] by simp
  ultimately show ?thesis using normal_names(3) [of s] by (simp add: safe_path_def)
qed

lemma entry_path_not_dot: "entry_path s \<noteq> Some [46]"
proof
  assume a: "entry_path s = Some [46]"
  then have "names is_sep_any [46] = snd (normal_form False (names is_sep_any s))"
    using names_normalized [of is_sep_any 47 False True s] normal_names(4) [of s]
    by (simp add: entry_path_normalized split: if_splits)
  moreover have "names is_sep_any [46] = [[46]]" by simp
  ultimately show False using normal_names(2) [of s] by (metis list.set_intros(1))
qed

lemma normalize_entry:
  assumes "s \<noteq> []" "hd s \<noteq> 47" "length s < length buf"
  defines "N \<equiv> normalized False True 47 is_sep_any s"
  shows "\<exists>rest. normalize_buf_t Posix s buf = Ret (N @ rest, length N) \<and> rest \<noteq> []"
proof -
  have "normalized False (last s = 47) 47 is_sep_any s = N" by (simp add: N_def normalized_def Let_def)
  moreover have "normalize_buf_t Posix s buf = normalize_string_generic_t False (last s = 47) s buf 47 is_sep_any"
    using assms(1,2) last_index_last [OF assms(1), of "\<lambda>c. c = 47"]
    by (auto simp: normalize_buf_t_def Let_def hd_conv_nth last_index_of_separator_posix_def normalize_string_loose_buf_t_def)
  ultimately obtain rest where "normalize_buf_t Posix s buf = Ret (N @ rest, length N)" "length N + length rest = length buf"
    using loose.generic [of s buf False "last s = 47"] assms(3) by auto
  moreover have "length N \<le> length s" unfolding N_def by (rule loose.fits)
  ultimately show ?thesis using assms(3) by auto
qed

lemma skip_separators_hd: "skip_separators s = [] \<or> hd (skip_separators s) \<noteq> 47"
  unfolding skip_separators_def using hd_dropWhile [of "\<lambda>c. c = 47" s] by blast

lemma strip_hd: "strip_components n s = Some r \<Longrightarrow> r = [] \<or> hd r \<noteq> 47"
  by (induction n s rule: strip_components.induct)
    (use skip_separators_hd in \<open>auto simp: Let_def split: if_splits option.splits\<close>)

text \<open>The end that the extractors share: normalise, terminate, skip what is empty or \<open>.\<close>.\<close>

lemma normalize_terminated:
  assumes "s = [] \<or> hd s \<noteq> 47" "length s < length buf" "2 \<le> length buf"
  shows "bind_outcome (normalize_buf_t Posix s buf) (\<lambda>(b, len). bind_outcome (write_at b len 0) (\<lambda>b. f (take len b))) =
     (case entry_path s of Some p \<Rightarrow> f p | None \<Rightarrow> f (if s = [] then [46] else []))"
proof (cases "s = []")
  case True
  then show ?thesis
    using assms(3) by (cases buf; cases "tl buf") (auto simp: normalize_buf_t_def write_at_def entry_path_def normal_form_def)
next
  case False
  then obtain rest where "normalize_buf_t Posix s buf =
      Ret (normalized False True 47 is_sep_any s @ rest, length (normalized False True 47 is_sep_any s))" "rest \<noteq> []"
    using normalize_entry [OF False _ assms(2)] assms(1) by auto
  then show ?thesis using False by (simp add: write_at_end entry_path_normalized)
qed

lemma extract_path_exact:
  assumes "2 \<le> length buf"
  shows "extract_path depth pathname buf =
    Ret (case strip_components depth pathname of
           None \<Rightarrow> None
         | Some s \<Rightarrow> if length s < length buf then entry_path s else None)"
proof (cases "strip_components depth pathname")
  case (Some s)
  have "extract_path depth pathname buf = Ret (entry_path s)" if "length s < length buf"
    using normalize_terminated [OF strip_hd [OF Some] that assms,
        of "\<lambda>path. if path = [] \<or> path = [46] then Ret None else Ret (Some path)"]
      Some that entry_path_not_dot [of s] entry_path_safe [of s]
    by (auto simp: extract_path_def Let_def safe_path_def split: option.splits)
  then show ?thesis using Some by (auto simp: extract_path_def)
qed (simp add: extract_path_def)

lemma dropWhile_index: "dropWhile (\<lambda>c. c \<noteq> d) s = (case index_of_char s d of Some j \<Rightarrow> drop j s | None \<Rightarrow> [])"
  by (induction s) (auto split: option.splits)

lemma strip_one:
  "strip_components 1 s = (if list_all (\<lambda>c. c = 47) s then None else Some (tokenize_rest_after_first s))"
  by (auto simp: Let_def skip_separators_def tokenize_rest_after_first_def dropWhile_index list_all_iff)

text \<open>
  C33: the path an archive entry is extracted to: for every pathname in the archive the extractor
  returns, and a path it gives is not empty, starts with no separator and has no \<open>..\<close> among its
  names, with \<open>/\<close> and \<open>\\<close> both taken as separators; so it lies below the extraction directory.
\<close>

theorem extract_path_contained:
  assumes "length buf = MAX_PATH_BYTES"
  shows "\<exists>r. extract_path depth pathname buf = Ret r \<and> (\<forall>p. r = Some p \<longrightarrow> safe_path p \<and> length p < MAX_PATH_BYTES)"
proof -
  have "length p < MAX_PATH_BYTES" if "entry_path s = Some p" "length s < length buf" for s p
    using that assms loose.fits [of False True s]
    by (auto simp: entry_path_normalized split: if_splits)
  then show ?thesis
    using extract_path_exact [of buf depth pathname] assms entry_path_safe
    by (auto simp: MAX_PATH_BYTES_def split: option.splits if_splits)
qed

theorem extract_path_contained_witness:
  "\<exists>r. extract_path 1 (bs ''//package/../../x/'') (replicate 4096 0) = Ret r \<and>
     (\<forall>p. r = Some p \<longrightarrow> safe_path p \<and> length p < MAX_PATH_BYTES)"
  using extract_path_contained [of "replicate 4096 0" 1 "bs ''//package/../../x/''"] by (simp add: MAX_PATH_BYTES_def)

text \<open>
  C35: the streaming extractor writes every entry of a tarball to the path the buffered extractor
  writes it to with one component skipped, and its check for a leading \<open>..\<close> never applies.
\<close>

theorem tarball_path_same:
  assumes "length buf = MAX_PATH_BYTES"
  shows "tarball_path pathname buf = extract_path 1 pathname buf"
proof (cases "list_all (\<lambda>c. c = 47) pathname")
  case True
  then show ?thesis using strip_one [of pathname] by (simp add: tarball_path_def extract_path_def)
next
  case False
  let ?s = "tokenize_rest_after_first pathname"
  have strip: "strip_components 1 pathname = Some ?s" using False strip_one [of pathname] by simp
  have up: "\<not> (2 \<le> length p \<and> p ! 0 = 46 \<and> p ! 1 = 46 \<and> (length p = 2 \<or> p ! 2 = 47))"
    if "safe_path p" for p
  proof
    assume p: "2 \<le> length p \<and> p ! 0 = 46 \<and> p ! 1 = 46 \<and> (length p = 2 \<or> p ! 2 = 47)"
    then have "p \<noteq> []" by auto
    with p have "run is_sep_any p = [46, 46]"
      using run_is_dotdot [of is_sep_any p] by (auto simp: is_dotdot_def)
    then have "[46, 46] \<in> set (names is_sep_any p)"
      using p by (cases p) auto
    then show False using that by (simp add: safe_path_def)
  qed
  have "tarball_path pathname buf = Ret (entry_path ?s)" if "length ?s < length buf"
    using normalize_terminated [OF strip_hd [OF strip] that,
        of "\<lambda>path. if path = [] \<or> path = [46] then Ret None
          else if 2 \<le> length path \<and> path ! 0 = 46 \<and> path ! 1 = 46 \<and> (length path = 2 \<or> path ! 2 = 47) then Ret None
          else Ret (Some path)"]
      False that assms entry_path_not_dot [of ?s] entry_path_safe [of ?s] up
    unfolding tarball_path_def
    by (auto simp: Let_def safe_path_def MAX_PATH_BYTES_def split: option.splits)
  then show ?thesis
    using False extract_path_exact [of buf 1 pathname] strip assms
    by (auto simp: tarball_path_def Let_def MAX_PATH_BYTES_def)
qed

theorem tarball_path_same_witness:
  "tarball_path (bs ''package/../a/./b'') (replicate 4096 0) = extract_path 1 (bs ''package/../a/./b'') (replicate 4096 0)"
  using tarball_path_same [of "replicate 4096 0"] by (simp add: MAX_PATH_BYTES_def)

subsection \<open>Entries of \<open>Bun.Archive\<close>\<close>

lemma is_safe_path_iff:
  "is_safe_path p \<longleftrightarrow> safe_path p \<and> \<not> (2 \<le> length p \<and> p ! 1 = 58)"
proof (cases "p = []")
  case False
  have "list_all (\<lambda>x. if x = [46, 46] then False
      else list_all (\<lambda>w. w \<noteq> [46, 46]) (split_all (split x 92))) (split_all (split p 47)) \<longleftrightarrow>
    [46, 46] \<notin> set (split_list is_sep_any p)"
  proof -
    have self: "[46, 46] \<in> set (split_list (\<lambda>c. c = 92) [46, 46])" by simp
    show ?thesis
      unfolding split_all_split split_list_twice [symmetric] using self by (auto simp: list_all_iff)
  qed
  moreover have "[46, 46] \<in> set (names is_sep_any p) \<longleftrightarrow> [46, 46] \<in> set (split_list is_sep_any p)"
    by (simp add: names_split)
  ultimately show ?thesis
    using False by (simp add: is_safe_path_def safe_path_def hd_conv_nth is_sep_any_def)
qed (simp add: is_safe_path_def safe_path_def)

text \<open>
  An absolute pathname loses its leading separators, and \<open>normalize_buf\<close> keeps \<open>..\<close> in front of
  it, where a relative pathname has them removed.
\<close>

lemma normalize_absolute_keeps_dotdot:
  "bind_outcome (normalize_buf_t Posix (bs ''/../x'') (replicate 8 0)) (\<lambda>(b, len). Ret (take len b)) = Ret (bs ''../x'')"
  "bind_outcome (normalize_buf_t Posix (bs ''../x'') (replicate 8 0)) (\<lambda>(b, len). Ret (take len b)) = Ret (bs ''x'')"
  by code_simp+

lemma normalize_buf_returns:
  assumes "length path < length buf" "2 \<le> length buf"
  shows "\<exists>n rest. normalize_buf_t Posix path buf = Ret (n @ rest, length n) \<and> rest \<noteq> []"
proof (cases "path = []")
  case True
  then show ?thesis
    using assms(2) by (intro exI [of _ "[46]"] exI [of _ "tl buf"], cases buf; cases "tl buf")
      (auto simp: normalize_buf_t_def write_at_def)
next
  case False
  define up preserve where "up = is_absolute Posix path"
    and "preserve = (last_separator_of Posix path = Some (length path - 1))"
  have "normalize_buf_t Posix path buf = normalize_string_generic_t up preserve path buf 47 is_sep_any"
    using False by (simp add: normalize_buf_t_def Let_def normalize_string_loose_buf_t_def up_def preserve_def)
  then show ?thesis
    using loose.generic [of path buf up preserve] loose.fits [of up preserve path] assms(1) by fastforce
qed

text \<open>
  \<open>Bun.Archive\<close> relies on \<open>is_safe_path\<close> alone, which turns away what is absolute or goes up under
  either separator.
\<close>

lemma archive_path_safe:
  assumes "length buf = MAX_PATH_BYTES"
  shows "\<exists>r. archive_path pathname buf = Ret r \<and> (\<forall>p. r = Some p \<longrightarrow> safe_path p)"
proof (cases "length pathname < length buf")
  case True
  then obtain n rest where "normalize_buf_t Posix pathname buf = Ret (n @ rest, length n)" "rest \<noteq> []"
    using normalize_buf_returns [OF True] assms by (auto simp: MAX_PATH_BYTES_def)
  then show ?thesis
    using True by (simp add: archive_path_def normalize_buf_z_def write_at_end is_safe_path_iff Let_def)
qed (simp add: archive_path_def)

subsection \<open>Targets of symbolic links, exactly\<close>

abbreviation path_names :: "bytes \<Rightarrow> bytes list" where
  "path_names s \<equiv> names (\<lambda>c. c = 47) s"

text \<open>How often a target goes up, which is before it names anything.\<close>

lemma target_after_name:
  "target_components_ok True xs \<Longrightarrow> list_all (\<lambda>x. x \<noteq> []) xs \<Longrightarrow>
   count_list xs [46, 46] = 0 \<and> fst (fold (normal_step True) xs (n, ns)) = n"
  by (induction xs arbitrary: n ns) (auto split: if_splits)

lemma target_ups:
  "target_components_ok False xs \<Longrightarrow> list_all (\<lambda>x. x \<noteq> []) xs \<Longrightarrow>
   fst (fold (normal_step True) xs (n, ns)) = n + (count_list xs [46, 46] - length ns)"
proof (induction xs arbitrary: n ns)
  case (Cons x xs)
  consider "x = [46]" | "x = [46, 46]" | "x \<noteq> [46]" "x \<noteq> [46, 46]" by blast
  then show ?case
  proof cases
    case 2
    then show ?thesis using Cons by (cases ns rule: rev_cases) auto
  next
    case 3
    then show ?thesis using Cons target_after_name [of xs n "ns @ [x]"] by (auto split: if_splits)
  qed (use Cons in simp)
qed simp

lemma resolved_above:
  assumes "list_all (name_ok (\<lambda>c. c = 47)) (snd nf)" "is_normal True nf"
  defines "r \<equiv> render 47 (elements nf)"
  shows "r = [46, 46] \<or> take 3 r = [46, 46, 47] \<longleftrightarrow> 0 < fst nf"
proof -
  have ok: "list_all (name_ok (\<lambda>c. c = 47)) (elements nf)"
    using elements_ok [of "\<lambda>c. c = 47" nf] assms(1) by (simp add: normal_ok_def)
  show ?thesis
  proof (cases "elements nf")
    case Nil
    then show ?thesis by (simp add: r_def elements_def)
  next
    case (Cons x xs)
    have r: "r = x @ concat (map ((#) 47) xs)" by (simp add: r_def Cons render_def)
    have x: "name_ok (\<lambda>c. c = 47) x" using ok Cons by simp
    have "r = [46, 46] \<or> take 3 r = [46, 46, 47] \<longleftrightarrow> x = [46, 46]"
    proof
      assume a: "r = [46, 46] \<or> take 3 r = [46, 46, 47]"
      then have "run (\<lambda>c. c = 47) r = [46, 46]"
        using run_is_dotdot [of "\<lambda>c. c = 47" r]
        by (cases r; cases "tl r"; cases "tl (tl r)") (auto simp: numeral_3_eq_3)
      moreover have "run (\<lambda>c. c = 47) r = x"
        using x unfolding r by (cases xs) (auto simp: name_ok_def list_all_iff takeWhile_append)
      ultimately show "x = [46, 46]" by simp
    next
      assume "x = [46, 46]"
      then show "r = [46, 46] \<or> take 3 r = [46, 46, 47]" unfolding r by (cases xs) simp_all
    qed
    also have "\<dots> \<longleftrightarrow> 0 < fst nf"
      using assms(2) Cons by (cases "fst nf") (auto simp: elements_def is_normal_def)
    finally show ?thesis .
  qed
qed

lemma symlink_resolved:
  fixes dir t :: bytes
  defines "joined \<equiv> (if dir = [] then t else dir @ 47 # t)"
  assumes "length joined < length norm_buf" "[46] \<notin> set (path_names dir)" "[46, 46] \<notin> set (path_names dir)"
    and ok: "target_components_ok False (path_names t)"
  shows "bind_outcome (normalize_string_generic_t True False joined norm_buf 47 (\<lambda>c. c = 47)) (\<lambda>(b, len).
      let resolved = take len b in Ret (\<not> (resolved = [46, 46] \<or> take 3 resolved = [46, 46, 47]))) =
    Ret (count_list (path_names t) [46, 46] \<le> length (path_names dir))"
proof -
  let ?P = "\<lambda>c :: u8. c = 47" and ?nf = "normal_form True (path_names joined)"
  have "normalized True False 47 ?P joined = render 47 (elements ?nf)" by (simp add: normalized_def)
  then obtain rest where norm: "normalize_string_generic_t True False joined norm_buf 47 ?P =
      Ret (render 47 (elements ?nf) @ rest, length (render 47 (elements ?nf)))"
    using slash.generic [of joined norm_buf True False] assms(2) by auto
  have "path_names joined = path_names dir @ path_names t"
    using names_append [of "47 # t" ?P dir] by (simp add: joined_def)
  then have "?nf = fold (normal_step True) (path_names t) (0, path_names dir)"
    using fold_names [OF assms(3,4), of True 0 "[]"] by (simp add: normal_form_def)
  moreover have "list_all (\<lambda>x. x \<noteq> []) (path_names t)"
    using names_ok [of ?P t] by (auto simp: list_all_iff name_ok_def)
  ultimately have "fst ?nf = count_list (path_names t) [46, 46] - length (path_names dir)"
    using target_ups [OF ok] by simp
  moreover have "render 47 (elements ?nf) = [46, 46] \<or> take 3 (render 47 (elements ?nf)) = [46, 46, 47] \<longleftrightarrow> 0 < fst ?nf"
    by (rule resolved_above) (use normal_form_ok [of ?P True joined] normal_form_normal in \<open>simp_all add: normal_ok_def\<close>)
  moreover have tk: "take (length (render 47 (elements ?nf))) (render 47 (elements ?nf) @ rest) = render 47 (elements ?nf)"
    by simp
  ultimately show ?thesis unfolding norm bind_outcome.simps split_conv Let_def tk by auto
qed

lemma write_dir_target:
  assumes "length dir + 1 + length t < length join_buf"
  shows "bind_outcome
      (if dir \<noteq> [] then
         bind_outcome (copy_at join_buf 0 dir) (\<lambda>b.
         bind_outcome (write_at b (length dir) 47) (\<lambda>b. Ret (b, length dir + 1)))
       else Ret (join_buf, 0))
      (\<lambda>(b, written). bind_outcome (copy_at b written t) (\<lambda>b. f (take (written + length t) b))) =
    f (if dir = [] then t else dir @ 47 # t)"
proof (cases "dir = []")
  case False
  define rest where "rest = drop (length dir) join_buf"
  have "length t < length (tl rest) + 1" "rest \<noteq> []" using assms by (auto simp: rest_def)
  moreover have "copy_at join_buf 0 dir = Ret (dir @ rest)" using assms by (simp add: copy_at_def rest_def)
  moreover have "copy_at ((dir @ [47]) @ tl rest) (length (dir @ [47])) t = Ret ((dir @ [47]) @ t @ drop (length t) (tl rest))"
    using \<open>length t < length (tl rest) + 1\<close> unfolding copy_at_end by simp
  ultimately show ?thesis using False by (simp add: write_at_end)
qed (use assms in \<open>simp add: copy_at_def\<close>)

lemma symlink_safe_iff:
  assumes dir: "[46] \<notin> set (path_names (dirname_simple link))" "[46, 46] \<notin> set (path_names (dirname_simple link))"
    and bufs: "length join_buf = MAX_PATH_BYTES" "length norm_buf = MAX_PATH_BYTES"
  shows "is_symlink_target_safe link t join_buf norm_buf =
    Ret (t \<noteq> [] \<and> hd t \<noteq> 47 \<and> target_components_ok False (path_names t) \<and>
      count_list (path_names t) [46, 46] \<le> length (path_names (dirname_simple link)) \<and>
      length (dirname_simple link) + 1 + length t < MAX_PATH_BYTES)"
proof -
  let ?dir = "dirname_simple link"
  have comps: "target_components_ok False (split_all (split t 47)) = target_components_ok False (path_names t)"
    unfolding split_all_split names_split by (simp add: target_components_names)
  show ?thesis
  proof (cases "t \<noteq> [] \<and> hd t \<noteq> 47 \<and> target_components_ok False (path_names t) \<and>
      length ?dir + 1 + length t < MAX_PATH_BYTES")
    case False
    then show ?thesis using comps bufs by (auto simp: is_symlink_target_safe_def Let_def hd_conv_nth)
  next
    case True
    then have "length ?dir + 1 + length t < length join_buf"
      "length (if ?dir = [] then t else ?dir @ 47 # t) < length norm_buf" using bufs by auto
    then show ?thesis
      using True comps bufs symlink_resolved [of ?dir t norm_buf] dir
        write_dir_target [of ?dir t join_buf "\<lambda>joined.
          bind_outcome (normalize_string_generic_t True False joined norm_buf 47 (\<lambda>c. c = 47)) (\<lambda>(b, len).
            let resolved = take len b in Ret (\<not> (resolved = [46, 46] \<or> take 3 resolved = [46, 46, 47])))"]
      unfolding is_symlink_target_safe_def by (simp add: Let_def hd_conv_nth)
  qed
qed

subsection \<open>Links of an extracted archive\<close>

lemma last_index_None: "\<forall>c \<in> set s. \<not> P c \<Longrightarrow> last_index P s = None"
  by (induction s) auto

lemma last_index_append: "P c \<Longrightarrow> \<forall>c \<in> set s'. \<not> P c \<Longrightarrow> last_index P (s @ c # s') = Some (length s)"
  by (induction s) (simp_all add: last_index_None)

lemma entry_dirname:
  assumes "entry_path s = Some p"
  shows "set (path_names (dirname_simple p)) \<subseteq> set (snd (normal_form False (names is_sep_any s)))"
proof -
  let ?ns = "snd (normal_form False (names is_sep_any s))" and ?P = "\<lambda>c :: u8. c = 47"
  have ns: "?ns \<noteq> []" and p: "p = render 47 ?ns @ (if last s = 47 then [47] else [])"
    using assms by (auto simp: entry_path_def Let_def split: if_splits)
  have ok: "list_all (name_ok ?P) ?ns"
    using normal_names(1) [of s] by (auto simp: list_all_iff name_ok_def is_sep_any_def)
  have x: "\<forall>c \<in> set (last ?ns). \<not> ?P c"
    using ok ns by (auto simp: list_all_iff name_ok_def)
  consider "last s = 47" | "last s \<noteq> 47" "butlast ?ns = []" | "last s \<noteq> 47" "butlast ?ns \<noteq> []" by blast
  then show ?thesis
  proof cases
    case 1
    then have "dirname_simple p = render 47 ?ns"
      unfolding p using last_index_append [of ?P 47 "[]" "render 47 ?ns"]
      by (simp add: dirname_simple_def last_index_of_sep_def)
    then show ?thesis using names_render [OF ok, of 47] by simp
  next
    case 2
    then have "?ns = [last ?ns]" using ns by (metis append_Nil append_butlast_last_id)
    then have "render 47 ?ns = last ?ns" by (metis render_single)
    then have "dirname_simple p = []"
      unfolding p using 2(1) last_index_None [OF x] by (simp add: dirname_simple_def last_index_of_sep_def)
    then show ?thesis by simp
  next
    case 3
    have "render 47 ?ns = render 47 (butlast ?ns) @ 47 # last ?ns"
      using render_snoc [OF 3(2), of 47 "last ?ns"] ns by simp
    then have "dirname_simple p = render 47 (butlast ?ns)"
      unfolding p using 3(1) last_index_append [of ?P 47 "last ?ns" "render 47 (butlast ?ns)"] x
      by (simp add: dirname_simple_def last_index_of_sep_def)
    moreover have "list_all (name_ok ?P) (butlast ?ns)" using ok by (auto simp: list_all_iff dest: in_set_butlastD)
    ultimately show ?thesis
      using names_render [of ?P "butlast ?ns" 47] by (auto dest: in_set_butlastD)
  qed
qed



end
