(* ===== verification/Spec2Isabelle.thy ===== *)
theory Spec2Isabelle
  imports SemverQueryParse SemverIntersects TrustedDeps LinearFifoQueue Channel RwLock Base64Mixed Vlq GlobSyntax
    PathsBounds PathsRelative ArchivePaths
begin

text \<open>
  A verification of parts of the Rust core of Bun (\<open>src/src\<close>). Bun is a JavaScript runtime, bundler
  and package manager; its Rust code is a few hundred crates around JavaScriptCore. The theories
  here model the components that carry algorithms of their own and can be read from their sources
  alone, and prove what their callers rely on.

  \<^bold>\<open>Conventions.\<close> The release profile is modelled: machine integers wrap, \<open>debug_assert!\<close> is absent.
  \<open>u8\<close>, \<open>u32\<close>, \<open>u64\<close> are words; \<open>usize\<close> is \<open>nat\<close> where the sizes are those of slices in memory. A panic,
  and a memory access that the sources leave unchecked and that would be out of bounds, is the value
  \<open>Panic\<close> of \<open>'a outcome\<close> (\<open>Prelude\<close>), or \<open>None\<close> in the ring buffer; an error that the sources return is
  \<open>Inl\<close> of a sum. Theories open with what they hold.

  \<^bold>\<open>Strings and versions\<close> (\<open>src/src/semver\<close>, with helpers of \<open>bun_core\<close>, \<open>bun_alloc\<close>, \<open>highway\<close>).
  \<^item> \<open>Bytes\<close>, \<open>WordBytes\<close>: integer parsing, splitting, trimming, comparison; little-endian words and
    the branch-free search for a NUL byte.
  \<^item> \<open>SemverString\<close>: the eight-byte \<open>String\<close>, inline or a pointer into a buffer, \<open>ExternalString\<close>,
    \<open>SlicedString\<close>, and the two interners \<open>Builder\<close> (count, allocate, append) and \<open>Buf\<close>. The locale
    \<open>interner\<close> states what an interner promises of a list of strings; it is interpreted on both.
  \<^item> \<open>SemverVersion\<close>, \<open>SemverVersionParse\<close>: precedence, parsing, printing and classification of
    versions. The locale \<open>total_cmp\<close> of \<open>Prelude\<close>, the laws of a comparison function, is interpreted on
    byte strings, identifiers and versions.
  \<^item> \<open>SemverRange\<close>, \<open>SemverQuery\<close>, \<open>SemverQueryParse\<close>, \<open>SemverIntersects\<close>: comparators and ranges,
    the linked conjunctions and disjunctions with their raw tail pointers, desugaring of \<open>~\<close>, \<open>^\<close>,
    \<open>x\<close>-ranges and hyphen ranges, the query parser, satisfaction with the pre-release rule, and the
    intersection test. A query text means the disjunction of conjunctions it writes.

  \<^bold>\<open>Hashes\<close> (\<open>src/src/wyhash\<close>, \<open>src/src/hash\<close>). \<open>Wyhash\<close>: both versions, streaming and one-shot, the \<open>const\<close>
  re-implementation, the lower-casing hash, the integer hash. The locale \<open>streaming_hash\<close> derives
  from three laws that cutting the input into pieces does not change the hash; it is interpreted on
  \<open>Wyhash11\<close> and \<open>Wyhash\<close>.

  \<^bold>\<open>Containers\<close> (\<open>src/src/collections\<close>). \<open>LinearFifo\<close>, \<open>LinearFifoQueue\<close>: the ring buffer over slots that may
  be uninitialised, with static and growing buffers, refines a list; the locale \<open>bounded_queue\<close> is
  the interface that the channel uses. \<open>StaticHashMap\<close>: the Robin Hood table of fixed size; from
  the order of its entries and the gap-free probes follow lookup, insertion and deletion, and the
  locale \<open>bounded_map\<close>, interpreted on it, gives whole sequences of operations.

  \<^bold>\<open>Package manager\<close> (\<open>src/src/install/lockfile.rs\<close>, in part). \<open>StringHash\<close>: the interners with the hash
  they use. \<open>TrustedDeps\<close>: the table of packages whose install scripts run by default, built from
  the hash table and the string hash; a lookup is exact for every name.

  \<^bold>\<open>Threads\<close> (\<open>src/src/threading\<close>). \<open>Channel\<close>: threads in \<open>write_items\<close> and \<open>read_items\<close> over one mutex and two
  conditions, as interleaved events; delivery in order, and no lost wake-up. \<open>RwLock\<close>: the
  reader-writer lock as interleaved atomic steps of program points; exclusion, the shape of the
  state word, and progress. Mutex, condition and semaphore are primitives of these models, and
  atomic operations are sequentially consistent.

  \<^bold>\<open>Encodings\<close> (\<open>src/src/base64\<close>). \<open>Base64\<close>: encoder and strict decoder. \<open>Base64Mixed\<close>: the decoder that
  ignores characters and the entry points, over the SIMD library as a parameter. \<open>Vlq\<close>: the
  variable-length quantities of source maps.

  \<^bold>\<open>Glob patterns\<close> (\<open>src/src/glob\<close>). \<open>Glob\<close>: the matcher, one loop with two saved positions and a recursion for
  the alternatives of braces. \<open>GlobTermination\<close>: it returns on every input. \<open>GlobSpec\<close>: tokens, their meaning,
  and how the loop reads them. \<open>GlobMatch\<close>: the loop decides the meaning of patterns without braces.
  \<open>GlobSyntax\<close>: the test for plain text.

  \<^bold>\<open>Paths\<close> (\<open>src/src/paths\<close>, \<open>src/src/libarchive\<close>, and the extractors of \<open>src/src/install\<close> and
  \<open>src/src/runtime/api\<close>). \<open>Paths\<close>: normalisation into a buffer, for all platforms, joining, resolving
  against a directory. \<open>PathsNormalize\<close>: on platforms whose separator is \<open>/\<close> the result is the normal form of
  the list of names; the locale \<open>separators\<close> holds this for every test of separators that knows \<open>/\<close> and not
  \<open>.\<close>, and is interpreted on the three tests of the sources. \<open>PathsBounds\<close>: the room a result needs, with
  the volume names of Windows. \<open>PathsJoin\<close>: joining and resolving compute on names, and their buffers
  suffice. \<open>PathsRelative\<close>: the longest common directory, and that a relative path leads to its
  target. \<open>ArchivePaths\<close>: an archive entry is written below the extraction directory, a link accepted for
  extraction does not lead out of it, and the streaming extractor agrees with the buffered one.

  \<^bold>\<open>Where components meet\<close> (this theory): the names that CSS
  modules make of a hash in URL-safe Base64.

  \<^bold>\<open>Loops.\<close> Loops over slices are structural recursion, the others \<open>function\<close> with a measure, so that they
  return by definition; the query parser, for one, consumes a byte in every round. Two loops of the
  ring buffer are \<open>partial_function (option)\<close>: \<open>realign_loop\<close>, which may run for ever
  (\<open>realign_returns\<close> says when it returns), and \<open>write_assume_capacity\<close>, shown to return where there is
  room. The loop of the glob matcher is one too, and \<open>glob_match_returns\<close> shows that it
  always returns; its recursion is on the free places of the stack of braces, of which there are ten.

  \<^bold>\<open>Hypotheses.\<close> Lengths are below 4 GiB where the code narrows them to \<open>u32\<close>; the pools of \<open>Buf\<close> need an
  injective hash, since the code does not compare bytes there; the reader-writer lock needs fewer
  than \<open>2 ^ 31\<close> threads; \<open>simdutf\<close> is a parameter. Path
  buffers have 4096 bytes (\<open>MAX_PATH_BYTES\<close> on Linux), the directory that paths are resolved against is
  absolute, and there are fewer than \<open>2 ^ 16\<close> parts, which the code counts in \<open>u16\<close>.

  \<^bold>\<open>Not modelled.\<close> The JavaScript parser, printer and bundler, CSS, the package manager around the
  resolver, HTTP and SQL clients: large bodies of code over shared arenas, left out for their size.
  The runtime, JavaScriptCore bindings and platform layers: foreign functions and system calls,
  whose behaviour is not in these sources. Of modelled crates: the coloured version diff and
  \<open>clone_into\<close>, SIMD paths, \<open>Hasher\<close> wrappers that only forward, debug-only poisoning, the
  joining of Windows paths and the branches for Windows in relative paths, paths of \<open>u16\<close> units, and what the
  extractors do to the file system.
\<close>

section \<open>Where components meet\<close>

subsection \<open>Names made of hashes\<close>

text \<open>
  \<open>wyhash_url_safe\<close> of the base64 crate: the low 32 bits of the hash of the formatted arguments, in
  URL-safe Base64, with \<open>'_'\<close> in front of a leading digit when the name is at the start of an
  identifier. The SIMD encoder is a parameter: its length function, and the bytes written and the
  destination for a source and a destination.
\<close>

definition wyhash_url_safe ::
  "(nat \<Rightarrow> nat) \<Rightarrow> (bytes \<Rightarrow> bytes \<Rightarrow> nat \<times> bytes) \<Rightarrow> bytes \<Rightarrow> bool \<Rightarrow> bytes outcome" where
  "wyhash_url_safe simd_encode_len simd_encode fmt_str at_start =
     bind_outcome (wyhash11_update (wyhash11_init 0) fmt_str) (\<lambda>hasher.
     bind_outcome (wyhash11_final hasher) (\<lambda>h64.
       let h = ucast h64 :: u32;
           h_bytes = u32_to_ne_bytes h;
           encode_len = simd_encode_len (length h_bytes);
           slice_to_write = replicate (encode_len + (if at_start then 1 else 0)) 0;
           (n, slice_to_write) = simd_encode h_bytes slice_to_write
       in bind_outcome (slice_range slice_to_write 0 n) (\<lambda>base64_encoded_hash.
            if at_start \<and> base64_encoded_hash \<noteq> [] \<and> 48 \<le> base64_encoded_hash ! 0 \<and> base64_encoded_hash ! 0 \<le> 57
            then bind_outcome (copy_at slice_to_write 1 base64_encoded_hash) (\<lambda>slice_to_write.
                   bind_outcome (write_at slice_to_write 0 95) (\<lambda>slice_to_write. slice_range slice_to_write 0 (n + 1)))
            else Ret base64_encoded_hash)))"

abbreviation url_encoder :: base64_encoder where
  "url_encoder \<equiv> encoder_init URL_SAFE_ALPHABET_CHARS None"

lemma wyhash_url_safe_name:
  assumes len: "\<And>n. simd_encode_len n = encoder_calc_size url_encoder n"
    and enc: "\<And>src dest. encoder_calc_size url_encoder (length src) \<le> length dest \<Longrightarrow>
      simd_encode src dest = (length (encoded_text url_encoder src), encoded_text url_encoder src @ drop (length (encoded_text url_encoder src)) dest)"
  shows "\<exists>name. wyhash_url_safe simd_encode_len simd_encode fmt_str at_start = Ret name \<and>
     name = (let text = encoded_text url_encoder (u32_to_ne_bytes (ucast (string_hash_value fmt_str)))
             in if at_start \<and> 48 \<le> hd text \<and> hd text \<le> 57 then 95 # text else text)"
proof -
  have hash: "bind_outcome (wyhash11_update (wyhash11_init 0) fmt_str) wyhash11_final = Ret (string_hash_value fmt_str)"
    using w11.chunk_invariant [of 0 "[fmt_str]"] string_hash_total [of fmt_str] by (simp add: string_hash_def)
  then obtain w where w: "wyhash11_update (wyhash11_init 0) fmt_str = Ret w" "wyhash11_final w = Ret (string_hash_value fmt_str)"
    by (auto simp: bind_outcome_eq_Ret)
  let ?src = "u32_to_ne_bytes (ucast (string_hash_value fmt_str))"
  have src: "length ?src = 4" by (simp add: u32_to_ne_bytes_def)
  have six: "encoder_calc_size url_encoder 4 = 6" by (simp add: encoder_calc_size_def div_ceil_def)
  have "length (encoded_text url_encoder ?src) = 6" unfolding length_encoded src six ..
  then obtain c t where ct: "encoded_text url_encoder ?src = c # t" "length t = 5"
    by (cases "encoded_text url_encoder ?src") auto
  have e: "simd_encode ?src (replicate k 0) = (6, (c # t) @ replicate (k - 6) 0)" if "6 \<le> k" for k
    using enc [of ?src "replicate k 0"] that ct unfolding src six by simp
  let ?k = "6 + (if at_start then 1 else 0)"
  have "wyhash_url_safe simd_encode_len simd_encode fmt_str at_start =
      (let dest = (c # t) @ replicate (?k - 6) 0 in bind_outcome (slice_range dest 0 6) (\<lambda>name.
         if at_start \<and> name \<noteq> [] \<and> 48 \<le> name ! 0 \<and> name ! 0 \<le> 57
         then bind_outcome (copy_at dest 1 name) (\<lambda>dest. bind_outcome (write_at dest 0 95) (\<lambda>dest. slice_range dest 0 (6 + 1)))
         else Ret name))"
    unfolding wyhash_url_safe_def w bind_outcome.simps Let_def src len six e [of ?k, simplified] by (simp cong: if_cong)
  then show ?thesis using ct by (simp add: slice_range_def copy_at_def write_at_def Let_def)
qed

end
